(* ===== verification/Abix_Prelude.thy ===== *)
theory Abix_Prelude
  imports Main "HOL-Library.Word"
begin

text \<open>
  Shared vocabulary of the development.

  \<^item> the fixed-width integers of the C++ sources as machine words;
  \<^item> \<open>'a ptr\<close>, a pointer to an immutable object (\<open>None\<close> is \<open>nullptr\<close>), and \<open>'a arr\<close>, a pointer
    to the first element of an array;
  \<^item> the collections \<open>word_conv\<close>, \<open>byte_simps\<close> and \<open>scan_simps\<close> that the component proofs hand to
    the simplifier;
  \<^item> generic facts on lists, options and words used by more than one component.
\<close>

unbundle bit_operations_syntax

named_theorems word_conv \<open>moving between words and natural numbers\<close>
named_theorems byte_simps \<open>reading bytes out of wider words\<close>
named_theorems scan_simps \<open>linear scans over tables\<close>

section \<open>Types\<close>

type_synonym u8 = "8 word"
type_synonym u16 = "16 word"
type_synonym u32 = "32 word"
type_synonym u64 = "64 word"

text \<open>The runtime refuses anything but 64-bit platforms, so \<open>size_t\<close> and \<open>uintptr_t\<close> are 64 bits.\<close>

type_synonym size_t = u64
type_synonym uintptr_t = u64

type_synonym 'a ptr = "'a option"
type_synonym 'a arr = "'a list option"

text \<open>A NUL-terminated string is the characters before its terminator.\<close>

definition c_str :: "string \<Rightarrow> string" where
  "c_str s = takeWhile (\<lambda>c. c \<noteq> CHR 0x00) s"

definition bytes_of :: "string \<Rightarrow> u8 list" where
  "bytes_of s = map of_char s"

text \<open>An array pointer with its element count: a non-null array really has that many elements.\<close>

definition arr_ok :: "'a arr \<Rightarrow> u32 \<Rightarrow> bool" where
  "arr_ok a n \<longleftrightarrow> (case a of None \<Rightarrow> True | Some xs \<Rightarrow> unat n \<le> length xs)"

text \<open>The elements a counted loop over an array visits.\<close>

definition arr_elems :: "'a arr \<Rightarrow> u32 \<Rightarrow> 'a list" where
  "arr_elems a n = (case a of None \<Rightarrow> [] | Some xs \<Rightarrow> take (unat n) xs)"

section \<open>Lists and linear scans\<close>

text \<open>Every registry of the program looks an entry up by scanning its array for the first match.\<close>

lemma find_append [scan_simps]:
  "find P (xs @ ys) = (case find P xs of None \<Rightarrow> find P ys | Some x \<Rightarrow> Some x)"
  by (induction xs) auto

lemma find_SomeD: "find P xs = Some x \<Longrightarrow> x \<in> set xs \<and> P x"
  by (induction xs) (auto split: if_splits)

lemma find_NoneD: "find P xs = None \<Longrightarrow> y \<in> set xs \<Longrightarrow> \<not> P y"
  by (induction xs) (auto split: if_splits)

lemma find_None_iff_set [scan_simps]: "find P xs = None \<longleftrightarrow> (\<forall>y \<in> set xs. \<not> P y)"
  by (induction xs) auto

lemma find_Some_unique:
  assumes "x \<in> set xs" "P x" and "\<And>y. y \<in> set xs \<Longrightarrow> P y \<Longrightarrow> y = x"
  shows "find P xs = Some x"
proof (cases "find P xs")
  case None
  with assms(1,2) show ?thesis by (simp add: find_None_iff_set)
next
  case (Some z)
  then have "z \<in> set xs" "P z" by (simp_all add: find_SomeD)
  then have "z = x" by (rule assms(3))
  with Some show ?thesis by simp
qed

lemma set_arr_elems: "arr_elems (Some xs) n = take (unat n) xs"
  by (simp add: arr_elems_def)

lemma length_arr_elems [simp]:
  "arr_ok (Some xs) n \<Longrightarrow> length (arr_elems (Some xs) n) = unat n"
  by (simp add: arr_elems_def arr_ok_def)

section \<open>Words\<close>

lemma word_mult_right_cancel_inv:
  fixes p q x y :: "'a::len word"
  assumes "p * q = 1"
  shows "x * p = y * p \<longleftrightarrow> x = y"
proof
  assume "x * p = y * p"
  then have "x * p * q = y * p * q" by simp
  then show "x = y" using assms by (simp add: mult.assoc)
qed simp

lemma word_xor_right_cancel: "(x XOR a = y XOR a) = (x = (y :: 'a::len word))"
  by (metis xor.assoc xor_self_eq xor.right_neutral)

lemma word_xor_left_cancel: "(a XOR x = a XOR y) = (x = (y :: 'a::len word))"
  by (metis word_xor_right_cancel xor.commute)

lemma len32: "LENGTH(32) = 32"
  by simp

lemma unat_less_size64 [simp]: "unat (x :: u64) < 18446744073709551616"
  using unsigned_less[of x] by simp

lemma unat_less_size32 [simp]: "unat (x :: u32) < 4294967296"
  using unsigned_less[of x] by simp

lemma unat_less_size16 [simp]: "unat (x :: u16) < 65536"
  using unsigned_less[of x] by simp

lemma unat_less_size8 [simp]: "unat (x :: u8) < 256"
  using unsigned_less[of x] by simp

lemma ucast_inj_up:
  fixes x y :: "'a::len word"
  assumes "LENGTH('a) \<le> LENGTH('b::len)"
  shows "(ucast x = (ucast y :: 'b word)) = (x = y)"
proof
  have up: "is_up (ucast :: 'a word \<Rightarrow> 'b word)" using assms by (simp add: is_up)
  assume "ucast x = (ucast y :: 'b word)"
  then have "ucast (ucast x :: 'b word) = (ucast (ucast y :: 'b word) :: 'a word)" by simp
  then show "x = y" by (simp add: ucast_up_ucast_id[OF up])
qed simp

lemma unat_exp_less: "k < LENGTH('a) \<Longrightarrow> unat (2 ^ k :: 'a::len word) = 2 ^ k"
proof -
  assume k: "k < LENGTH('a)"
  have "(2 ^ k :: 'a word) = of_nat (2 ^ k)" by simp
  then have "unat (2 ^ k :: 'a word) = 2 ^ k mod 2 ^ LENGTH('a)" by (simp only: unat_of_nat)
  also have "\<dots> = 2 ^ k" using k by (intro mod_less power_strict_increasing) simp_all
  finally show ?thesis .
qed

lemma unat_and_mask: "unat (h AND (2 ^ k - 1) :: 'a::len word) = unat h mod 2 ^ k"
proof -
  have "h AND (2 ^ k - 1) = take_bit k h" by (simp add: take_bit_eq_mask mask_eq_exp_minus_1)
  then have "unat (h AND (2 ^ k - 1)) = take_bit k (unat h)" by (simp only: unsigned_take_bit_eq)
  then show ?thesis by (simp only: take_bit_eq_mod)
qed

lemma unat_ucast_up:
  fixes x :: "'a::len word"
  assumes "LENGTH('a) \<le> LENGTH('b::len)"
  shows "unat (ucast x :: 'b word) = unat x"
proof -
  have "unat x < 2 ^ LENGTH('a)" by (rule unsigned_less)
  also have "\<dots> \<le> (2::nat) ^ LENGTH('b)" using assms by (intro power_increasing) simp_all
  finally have "unat x < 2 ^ LENGTH('b)" .
  then show ?thesis by (simp add: unsigned_ucast_eq take_bit_nat_eq_self)
qed

lemma of_char_u8_inj [simp]: "(of_char a :: u8) = of_char b \<longleftrightarrow> a = b"
proof
  have un: "unat (of_char c :: u8) = of_char c" for c :: char
  proof -
    have "(of_char c :: u8) = of_nat (of_char c)" by (simp add: of_nat_of_char)
    then have "unat (of_char c :: u8) = of_char c mod 2 ^ 8" by (simp only: unat_of_nat) simp
    then show ?thesis by simp
  qed
  assume "(of_char a :: u8) = of_char b"
  then have "(of_char a :: nat) = of_char b" by (metis un)
  then show "a = b" by (rule of_char_eqI)
qed simp

lemma bytes_of_inj [simp]: "bytes_of s = bytes_of t \<longleftrightarrow> s = t"
  by (simp add: bytes_of_def inj_map_eq_map inj_def)

lemma unat_of_nat_small: "n < 2 ^ LENGTH('a) \<Longrightarrow> unat (of_nat n :: 'a::len word) = n"
  by (simp add: unat_of_nat)

lemma unat_add_small:
  fixes a b :: "'a::len word"
  assumes "unat a + unat b < 2 ^ LENGTH('a)"
  shows "unat (a + b) = unat a + unat b"
  using assms by (simp add: unat_add_lem)

end
