(* ===== verification/Util_Hash.thy ===== *)
theory Util_Hash
  imports Abix_Prelude
begin

text \<open>
  The canonical hash engine of \<open>include/SKL/ABIX/Util/Hash.h\<close>: two 64-bit lanes that absorb one
  byte at a time. Every identity of the program (type, method, interface, layout, call signature)
  is a digest of this engine, told apart by its domain only.

  Shown: absorbing is a bijection on states, so digests of equal inputs in different domains
  differ, and a single changed byte always changes the digest; the fixed-width integer inputs are
  the big-endian bytes of the value.
\<close>

section \<open>Data\<close>

record Hash128 =
  lo :: u64
  hi :: u64

definition Hash128_zero :: Hash128 where
  "Hash128_zero = \<lparr>lo = 0, hi = 0\<rparr>"

definition hash_eq :: "Hash128 \<Rightarrow> Hash128 \<Rightarrow> bool" where
  "hash_eq l r \<longleftrightarrow> lo l = lo r \<and> hi l = hi r"

definition fnv1a_offset_basis :: u64 where
  "fnv1a_offset_basis = 14695981039346656037"

definition fnv1a_prime :: u64 where
  "fnv1a_prime = 1099511628211"

definition canonical_hi_prime :: u64 where
  "canonical_hi_prime = 14029467366897019727"

record CanonicalState =
  st_lo :: u64
  st_hi :: u64

section \<open>Operations\<close>

definition canonical_hash_begin :: "u64 \<Rightarrow> CanonicalState" where
  "canonical_hash_begin domain =
     \<lparr>st_lo = fnv1a_offset_basis XOR domain, st_hi = fnv1a_prime + domain\<rparr>"

text \<open>In the \<open>hi\<close> lane the byte is promoted to \<open>int\<close> before 31 is added, so the sum does not wrap.\<close>

definition canonical_hash_byte :: "CanonicalState \<Rightarrow> u8 \<Rightarrow> CanonicalState" where
  "canonical_hash_byte state byte =
     \<lparr>st_lo = (st_lo state XOR ucast byte) * fnv1a_prime,
      st_hi = (st_hi state XOR (ucast byte + 31)) * canonical_hi_prime\<rparr>"

fun canonical_hash_bytes_from :: "CanonicalState \<Rightarrow> u8 list \<Rightarrow> nat \<Rightarrow> nat \<Rightarrow> CanonicalState" where
  "canonical_hash_bytes_from state data i 0 = state"
| "canonical_hash_bytes_from state data i (Suc n) =
     canonical_hash_bytes_from (canonical_hash_byte state (data ! i)) data (Suc i) n"

definition canonical_hash_bytes :: "CanonicalState \<Rightarrow> u8 list \<Rightarrow> nat \<Rightarrow> CanonicalState" where
  "canonical_hash_bytes state data n = canonical_hash_bytes_from state data 0 n"

text \<open>\<open>for (int shift = 24; shift >= 0; shift -= 8)\<close>\<close>

definition canonical_hash_u32_be :: "CanonicalState \<Rightarrow> u32 \<Rightarrow> CanonicalState" where
  "canonical_hash_u32_be state v =
     foldl (\<lambda>st shift. canonical_hash_byte st (ucast (drop_bit shift v))) state [24, 16, 8, 0]"

definition canonical_hash_u64_be :: "CanonicalState \<Rightarrow> u64 \<Rightarrow> CanonicalState" where
  "canonical_hash_u64_be state v =
     foldl (\<lambda>st shift. canonical_hash_byte st (ucast (drop_bit shift v))) state
       [56, 48, 40, 32, 24, 16, 8, 0]"

definition canonical_hash :: "u8 list \<Rightarrow> nat \<Rightarrow> u64 \<Rightarrow> Hash128" where
  "canonical_hash data n domain =
     (let state = canonical_hash_bytes (canonical_hash_begin domain) data n
      in \<lparr>lo = st_lo state, hi = st_hi state\<rparr>)"

section \<open>The engine as a fold over bytes\<close>

text \<open>Reference view: a state absorbs a list of bytes from left to right.\<close>

definition absorb :: "CanonicalState \<Rightarrow> u8 list \<Rightarrow> CanonicalState" where
  "absorb = foldl canonical_hash_byte"

definition digest :: "CanonicalState \<Rightarrow> Hash128" where
  "digest state = \<lparr>lo = st_lo state, hi = st_hi state\<rparr>"

definition be32 :: "u32 \<Rightarrow> u8 list" where
  "be32 v = map (\<lambda>s. ucast (drop_bit s v)) [24, 16, 8, 0]"

definition be64 :: "u64 \<Rightarrow> u8 list" where
  "be64 v = map (\<lambda>s. ucast (drop_bit s v)) [56, 48, 40, 32, 24, 16, 8, 0]"

lemma absorb_Nil [simp]: "absorb st [] = st"
  and absorb_Cons [simp]: "absorb st (b # bs) = absorb (canonical_hash_byte st b) bs"
  and absorb_append: "absorb st (bs @ cs) = absorb (absorb st bs) cs"
  by (simp_all add: absorb_def)

lemma canonical_hash_bytes_from_absorb:
  "i + n \<le> length data \<Longrightarrow>
     canonical_hash_bytes_from state data i n = absorb state (take n (drop i data))"
proof (induction n arbitrary: state i)
  case (Suc n)
  then show ?case by (simp add: Cons_nth_drop_Suc[symmetric])
qed simp

lemma canonical_hash_bytes_absorb:
  "n \<le> length data \<Longrightarrow> canonical_hash_bytes state data n = absorb state (take n data)"
  by (simp add: canonical_hash_bytes_def canonical_hash_bytes_from_absorb)

lemma canonical_hash_digest:
  "n \<le> length data \<Longrightarrow>
     canonical_hash data n domain = digest (absorb (canonical_hash_begin domain) (take n data))"
  by (simp add: canonical_hash_def digest_def canonical_hash_bytes_absorb Let_def)

lemma canonical_hash_u32_absorb: "canonical_hash_u32_be state v = absorb state (be32 v)"
  by (simp add: canonical_hash_u32_be_def be32_def)

lemma canonical_hash_u64_absorb: "canonical_hash_u64_be state v = absorb state (be64 v)"
  by (simp add: canonical_hash_u64_be_def be64_def)

lemmas hash_absorb_simps =
  canonical_hash_bytes_absorb canonical_hash_u32_absorb canonical_hash_u64_absorb

section \<open>Absorbing is injective\<close>

lemma fnv1a_prime_unit: "fnv1a_prime * 14886173955864302971 = 1"
  by (simp add: fnv1a_prime_def)

lemma canonical_hi_prime_unit: "canonical_hi_prime * 839798700976720815 = 1"
  by (simp add: canonical_hi_prime_def)

lemmas prime_cancel =
  word_mult_right_cancel_inv[OF fnv1a_prime_unit]
  word_mult_right_cancel_inv[OF canonical_hi_prime_unit]

lemma canonical_hash_byte_state_inj:
  "canonical_hash_byte s b = canonical_hash_byte t b \<longleftrightarrow> s = t"
  by (cases s; cases t) (simp add: canonical_hash_byte_def prime_cancel word_xor_right_cancel)

lemma canonical_hash_byte_inj:
  "canonical_hash_byte s a = canonical_hash_byte s b \<longleftrightarrow> a = b"
  by (auto simp: canonical_hash_byte_def prime_cancel word_xor_left_cancel
      ucast_inj_up[where 'a = 8 and 'b = 64, simplified])

lemma absorb_state_inj: "absorb s bs = absorb t bs \<longleftrightarrow> s = t"
  by (induction bs arbitrary: s t) (auto simp: canonical_hash_byte_state_inj)

lemma canonical_hash_begin_inj: "canonical_hash_begin d = canonical_hash_begin e \<longleftrightarrow> d = e"
  by (auto simp: canonical_hash_begin_def word_xor_left_cancel)

lemma digest_inj: "digest s = digest t \<longleftrightarrow> s = t"
  by (cases s; cases t) (simp add: digest_def)

lemma absorb_substitution_inj: "absorb s (xs @ a # ys) = absorb s (xs @ b # ys) \<longleftrightarrow> a = b"
  by (simp add: absorb_append absorb_state_inj canonical_hash_byte_inj)

section \<open>Properties\<close>

text \<open>Domain separation: the same bytes hashed in two domains give the same digest only when
  the domains are equal, so a type identity, a method signature and an interface identity computed
  from equal text never coincide.\<close>

theorem canonical_hash_domain_separation:
  "canonical_hash data (length data) d = canonical_hash data (length data) e \<longleftrightarrow> d = e"
  by (simp add: canonical_hash_digest digest_inj absorb_state_inj canonical_hash_begin_inj)

text \<open>C36. One changed byte, anywhere in the input, changes the digest.\<close>

theorem canonical_hash_detects_byte_change:
  "canonical_hash (xs @ a # ys) (length xs + Suc (length ys)) d =
     canonical_hash (xs @ b # ys) (length xs + Suc (length ys)) d \<longleftrightarrow> a = b"
  by (simp add: canonical_hash_digest digest_inj absorb_substitution_inj)

end
