(* ===== verification/Error_Model.thy ===== *)
theory Error_Model
  imports Abix_Prelude
begin

text \<open>
  Error identity: \<open>Error/Domain.h\<close> (the bit layout of a domain id), \<open>Error/ErrorCode.h\<close> (the
  fixed-layout code and its canonical form) and \<open>Error/Mapping.h\<close> (the host status enums as codes).
  The status enums themselves are declared here with their numeric values.

  Shown: a domain id packs and unpacks owner, module and local id without loss; a mapped status is
  always canonical, is a success exactly for the enum's zero, and no two failures of any two
  subsystems share a code.
\<close>

section \<open>Domain identifiers\<close>

type_synonym DomainId = u64

definition invalid_domain :: DomainId where "invalid_domain = 0"
definition domain_owner_mask :: DomainId where "domain_owner_mask = 0xF000000000000000"
definition domain_module_mask :: DomainId where "domain_module_mask = 0x0FFF000000000000"
definition domain_local_mask :: DomainId where "domain_local_mask = 0x0000FFFFFFFFFFFF"
definition domain_owner_shift :: nat where "domain_owner_shift = 60"
definition domain_module_shift :: nat where "domain_module_shift = 48"
definition domain_module_max :: DomainId where "domain_module_max = 0x0FFF"
definition owner_skl :: DomainId where "owner_skl = 1"
definition skl_domain_mask :: DomainId where
  "skl_domain_mask = push_bit domain_owner_shift owner_skl"

definition make_skl_domain :: "u16 \<Rightarrow> u64 \<Rightarrow> DomainId" where
  "make_skl_domain module_id local_id =
     skl_domain_mask OR push_bit domain_module_shift (ucast module_id AND domain_module_max)
       OR (local_id AND domain_local_mask)"

definition is_valid_domain :: "DomainId \<Rightarrow> bool" where
  "is_valid_domain i \<longleftrightarrow> i \<noteq> invalid_domain"

definition domain_owner :: "DomainId \<Rightarrow> DomainId" where
  "domain_owner i = drop_bit domain_owner_shift (i AND domain_owner_mask)"

definition domain_module :: "DomainId \<Rightarrow> DomainId" where
  "domain_module i = drop_bit domain_module_shift (i AND domain_module_mask)"

definition domain_local :: "DomainId \<Rightarrow> DomainId" where
  "domain_local i = i AND domain_local_mask"

definition is_skl_domain :: "DomainId \<Rightarrow> bool" where
  "is_skl_domain i \<longleftrightarrow> is_valid_domain i \<and> domain_owner i = owner_skl"

definition abix_module_id :: u16 where "abix_module_id = 0x002"

definition call_domain :: DomainId where "call_domain = make_skl_domain abix_module_id 1"
definition interface_domain :: DomainId where "interface_domain = make_skl_domain abix_module_id 2"
definition module_domain :: DomainId where "module_domain = make_skl_domain abix_module_id 3"
definition manifest_domain :: DomainId where "manifest_domain = make_skl_domain abix_module_id 4"
definition lifecycle_domain :: DomainId where "lifecycle_domain = make_skl_domain abix_module_id 5"

section \<open>Error codes\<close>

text \<open>\<open>value\<close> is an \<open>int32_t\<close>: the word read through \<open>sint\<close>.\<close>

record ErrorCode =
  domain :: u64
  code_value :: u32
  reserved :: u32

definition success :: ErrorCode where
  "success = \<lparr>domain = invalid_domain, code_value = 0, reserved = 0\<rparr>"

definition is_success :: "ErrorCode \<Rightarrow> bool" where
  "is_success code \<longleftrightarrow> code_value code = 0"

definition is_canonical :: "ErrorCode \<Rightarrow> bool" where
  "is_canonical code =
     (if reserved code \<noteq> 0 then False
      else if code_value code = 0 then domain code = invalid_domain
      else domain code \<noteq> invalid_domain)"

section \<open>Status enums\<close>

datatype CallError =
    ce_none | ce_not_loaded | ce_not_found | ce_sig_mismatch | ce_version_mismatch
  | ce_stale_handle | ce_table_changed | ce_invalid | ce_load_failed | ce_unloading
  | ce_lock_timeout

fun CallError_num :: "CallError \<Rightarrow> u32" where
  "CallError_num ce_none = 0"
| "CallError_num ce_not_loaded = 1"
| "CallError_num ce_not_found = 2"
| "CallError_num ce_sig_mismatch = 3"
| "CallError_num ce_version_mismatch = 4"
| "CallError_num ce_stale_handle = 5"
| "CallError_num ce_table_changed = 6"
| "CallError_num ce_invalid = 7"
| "CallError_num ce_load_failed = 8"
| "CallError_num ce_unloading = 9"
| "CallError_num ce_lock_timeout = 10"

fun CallError_to_string :: "CallError \<Rightarrow> string" where
  "CallError_to_string ce_none = ''none''"
| "CallError_to_string ce_not_loaded = ''not_loaded''"
| "CallError_to_string ce_not_found = ''not_found''"
| "CallError_to_string ce_sig_mismatch = ''sig_mismatch''"
| "CallError_to_string ce_version_mismatch = ''version_mismatch''"
| "CallError_to_string ce_stale_handle = ''stale_handle''"
| "CallError_to_string ce_table_changed = ''table_changed''"
| "CallError_to_string ce_invalid = ''invalid''"
| "CallError_to_string ce_load_failed = ''load_failed''"
| "CallError_to_string ce_unloading = ''unloading''"
| "CallError_to_string ce_lock_timeout = ''lock_timeout''"

datatype InterfaceStatus =
    is_ok | is_invalid_table | is_duplicate_implementation | is_capacity_exceeded
  | is_interface_not_found | is_version_mismatch | is_method_not_found
  | is_method_capacity_exceeded | is_signature_mismatch

fun InterfaceStatus_num :: "InterfaceStatus \<Rightarrow> u32" where
  "InterfaceStatus_num is_ok = 0"
| "InterfaceStatus_num is_invalid_table = 1"
| "InterfaceStatus_num is_duplicate_implementation = 2"
| "InterfaceStatus_num is_capacity_exceeded = 3"
| "InterfaceStatus_num is_interface_not_found = 4"
| "InterfaceStatus_num is_version_mismatch = 5"
| "InterfaceStatus_num is_method_not_found = 6"
| "InterfaceStatus_num is_method_capacity_exceeded = 7"
| "InterfaceStatus_num is_signature_mismatch = 8"

datatype ModuleStatus =
    ms_ok | ms_already_registered | ms_invalid_manifest | ms_invalid_state
  | ms_capacity_exceeded | ms_interface_capacity_exceeded | ms_duplicate_interface
  | ms_not_registered | ms_busy

fun ModuleStatus_num :: "ModuleStatus \<Rightarrow> u32" where
  "ModuleStatus_num ms_ok = 0"
| "ModuleStatus_num ms_already_registered = 1"
| "ModuleStatus_num ms_invalid_manifest = 2"
| "ModuleStatus_num ms_invalid_state = 3"
| "ModuleStatus_num ms_capacity_exceeded = 4"
| "ModuleStatus_num ms_interface_capacity_exceeded = 5"
| "ModuleStatus_num ms_duplicate_interface = 6"
| "ModuleStatus_num ms_not_registered = 7"
| "ModuleStatus_num ms_busy = 8"

datatype ManifestStatus =
    mf_ok | mf_null_manifest | mf_unsupported_version | mf_invalid_interface
  | mf_invalid_binding | mf_too_many_interfaces | mf_too_many_methods

fun ManifestStatus_num :: "ManifestStatus \<Rightarrow> u32" where
  "ManifestStatus_num mf_ok = 0"
| "ManifestStatus_num mf_null_manifest = 1"
| "ManifestStatus_num mf_unsupported_version = 2"
| "ManifestStatus_num mf_invalid_interface = 3"
| "ManifestStatus_num mf_invalid_binding = 4"
| "ManifestStatus_num mf_too_many_interfaces = 5"
| "ManifestStatus_num mf_too_many_methods = 6"

text \<open>The names the diagnostics print.\<close>

fun InterfaceStatus_to_string :: "InterfaceStatus \<Rightarrow> string" where
  "InterfaceStatus_to_string is_ok = ''ok''"
| "InterfaceStatus_to_string is_invalid_table = ''invalid_table''"
| "InterfaceStatus_to_string is_duplicate_implementation = ''duplicate_implementation''"
| "InterfaceStatus_to_string is_capacity_exceeded = ''capacity_exceeded''"
| "InterfaceStatus_to_string is_interface_not_found = ''interface_not_found''"
| "InterfaceStatus_to_string is_version_mismatch = ''version_mismatch''"
| "InterfaceStatus_to_string is_method_not_found = ''method_not_found''"
| "InterfaceStatus_to_string is_method_capacity_exceeded = ''method_capacity_exceeded''"
| "InterfaceStatus_to_string is_signature_mismatch = ''signature_mismatch''"

fun ModuleStatus_to_string :: "ModuleStatus \<Rightarrow> string" where
  "ModuleStatus_to_string ms_ok = ''ok''"
| "ModuleStatus_to_string ms_already_registered = ''already_registered''"
| "ModuleStatus_to_string ms_invalid_manifest = ''invalid_manifest''"
| "ModuleStatus_to_string ms_invalid_state = ''invalid_state''"
| "ModuleStatus_to_string ms_capacity_exceeded = ''capacity_exceeded''"
| "ModuleStatus_to_string ms_interface_capacity_exceeded = ''interface_capacity_exceeded''"
| "ModuleStatus_to_string ms_duplicate_interface = ''duplicate_interface''"
| "ModuleStatus_to_string ms_not_registered = ''not_registered''"
| "ModuleStatus_to_string ms_busy = ''busy''"

fun ManifestStatus_to_string :: "ManifestStatus \<Rightarrow> string" where
  "ManifestStatus_to_string mf_ok = ''ok''"
| "ManifestStatus_to_string mf_null_manifest = ''null_manifest''"
| "ManifestStatus_to_string mf_unsupported_version = ''unsupported_version''"
| "ManifestStatus_to_string mf_invalid_interface = ''invalid_interface''"
| "ManifestStatus_to_string mf_invalid_binding = ''invalid_binding''"
| "ManifestStatus_to_string mf_too_many_interfaces = ''too_many_interfaces''"
| "ManifestStatus_to_string mf_too_many_methods = ''too_many_methods''"

section \<open>Mapping\<close>

text \<open>The conversion to \<open>int32_t\<close>, with the conversions and the signed arithmetic of the source
  written on 32-bit words: \<open>-(int32_t)(0xFFFFFFFF - value) - 1\<close>.\<close>

definition as_error_value :: "u32 \<Rightarrow> u32" where
  "as_error_value v = (if v \<le> 0x7FFFFFFF then v else - (0xFFFFFFFF - v) - 1)"

definition to_error_code_call :: "CallError \<Rightarrow> ErrorCode" where
  "to_error_code_call error =
     (if error = ce_none then success
      else \<lparr>domain = call_domain, code_value = as_error_value (CallError_num error), reserved = 0\<rparr>)"

definition to_error_code_interface :: "InterfaceStatus \<Rightarrow> ErrorCode" where
  "to_error_code_interface status =
     (if status = is_ok then success
      else \<lparr>domain = interface_domain, code_value = as_error_value (InterfaceStatus_num status),
            reserved = 0\<rparr>)"

definition to_error_code_module :: "ModuleStatus \<Rightarrow> ErrorCode" where
  "to_error_code_module status =
     (if status = ms_ok then success
      else \<lparr>domain = module_domain, code_value = as_error_value (ModuleStatus_num status),
            reserved = 0\<rparr>)"

definition to_error_code_manifest :: "ManifestStatus \<Rightarrow> ErrorCode" where
  "to_error_code_manifest status =
     (if status = mf_ok then success
      else \<lparr>domain = manifest_domain, code_value = as_error_value (ManifestStatus_num status),
            reserved = 0\<rparr>)"

section \<open>Lemmas\<close>

lemmas domain_consts =
  invalid_domain_def domain_owner_mask_def domain_module_mask_def domain_local_mask_def
  domain_owner_shift_def domain_module_shift_def domain_module_max_def owner_skl_def
  skl_domain_mask_def abix_module_id_def

lemma abix_domain_values:
  "call_domain = 0x1002000000000001" "interface_domain = 0x1002000000000002"
  "module_domain = 0x1002000000000003" "manifest_domain = 0x1002000000000004"
  "lifecycle_domain = 0x1002000000000005"
  by (simp_all add: call_domain_def interface_domain_def module_domain_def manifest_domain_def
      lifecycle_domain_def make_skl_domain_def domain_consts)

lemma mask48: "(0x0000FFFFFFFFFFFF :: u64) = mask 48"
  and mask12: "(0x0FFF :: u64) = mask 12"
  and owner_mask_eq: "(0xF000000000000000 :: u64) = push_bit 60 (mask 4)"
  and module_mask_eq: "(0x0FFF000000000000 :: u64) = push_bit 48 (mask 12)"
  by (simp_all add: mask_numeral)

lemmas domain_bits =
  make_skl_domain_def domain_owner_def domain_module_def domain_local_def
  invalid_domain_def domain_owner_mask_def domain_module_mask_def domain_local_mask_def
  domain_owner_shift_def domain_module_shift_def domain_module_max_def owner_skl_def
  skl_domain_mask_def mask48 mask12 owner_mask_eq module_mask_eq

lemma as_error_value_id [simp]: "as_error_value v = v"
  by (simp add: as_error_value_def)

lemma CallError_num_0 [simp]: "CallError_num e = 0 \<longleftrightarrow> e = ce_none"
  by (cases e) simp_all

lemma InterfaceStatus_num_0 [simp]: "InterfaceStatus_num e = 0 \<longleftrightarrow> e = is_ok"
  by (cases e) simp_all

lemma ModuleStatus_num_0 [simp]: "ModuleStatus_num e = 0 \<longleftrightarrow> e = ms_ok"
  by (cases e) simp_all

lemma ManifestStatus_num_0 [simp]: "ManifestStatus_num e = 0 \<longleftrightarrow> e = mf_ok"
  by (cases e) simp_all

lemma CallError_num_inj: "CallError_num a = CallError_num b \<longleftrightarrow> a = b"
  by (cases a; cases b) simp_all

lemma InterfaceStatus_num_inj: "InterfaceStatus_num a = InterfaceStatus_num b \<longleftrightarrow> a = b"
  by (cases a; cases b) simp_all

lemma ModuleStatus_num_inj: "ModuleStatus_num a = ModuleStatus_num b \<longleftrightarrow> a = b"
  by (cases a; cases b) simp_all

lemma ManifestStatus_num_inj: "ManifestStatus_num a = ManifestStatus_num b \<longleftrightarrow> a = b"
  by (cases a; cases b) simp_all

text \<open>No two statuses print alike, so a log line identifies the status.\<close>

lemma InterfaceStatus_name_inj: "InterfaceStatus_to_string a = InterfaceStatus_to_string b \<longleftrightarrow> a = b"
  by (cases a; cases b) simp_all

lemma ModuleStatus_name_inj: "ModuleStatus_to_string a = ModuleStatus_to_string b \<longleftrightarrow> a = b"
  by (cases a; cases b) simp_all

lemma ManifestStatus_name_inj: "ManifestStatus_to_string a = ManifestStatus_to_string b \<longleftrightarrow> a = b"
  by (cases a; cases b) simp_all

lemma CallError_name_inj: "CallError_to_string a = CallError_to_string b \<longleftrightarrow> a = b"
  by (cases a; cases b) simp_all

text \<open>The packed id and its readers as bit fields.\<close>

lemma make_skl_domain_fields:
  "make_skl_domain m l = push_bit 60 1 OR push_bit 48 (take_bit 12 (ucast m)) OR take_bit 48 l"
  unfolding make_skl_domain_def domain_consts
  by (simp add: take_bit_eq_mask mask_numeral)

lemma domain_owner_field: "domain_owner i = take_bit 4 (drop_bit 60 i)"
  unfolding domain_owner_def domain_owner_mask_def domain_owner_shift_def owner_mask_eq
  by (rule bit_word_eqI) (auto simp: bit_simps)

lemma domain_module_field: "domain_module i = take_bit 12 (drop_bit 48 i)"
  unfolding domain_module_def domain_module_mask_def domain_module_shift_def module_mask_eq
  by (rule bit_word_eqI) (auto simp: bit_simps)

lemma domain_local_field: "domain_local i = take_bit 48 i"
  unfolding domain_local_def domain_local_mask_def mask48
  by (simp add: take_bit_eq_mask)

lemma owner_of_skl_domain: "domain_owner (make_skl_domain m l) = owner_skl"
  unfolding domain_owner_field make_skl_domain_fields owner_skl_def
  by (rule bit_word_eqI) (auto simp: bit_simps)

lemma module_of_skl_domain: "domain_module (make_skl_domain m l) = take_bit 12 (ucast m)"
  unfolding domain_module_field make_skl_domain_fields
  by (rule bit_word_eqI) (auto simp: bit_simps)

lemma local_of_skl_domain: "domain_local (make_skl_domain m l) = take_bit 48 l"
  unfolding domain_local_field make_skl_domain_fields
  by (rule bit_word_eqI) (auto simp: bit_simps)

lemma skl_domain_nonzero: "make_skl_domain m l \<noteq> invalid_domain"
proof
  assume "make_skl_domain m l = invalid_domain"
  then have "domain_owner invalid_domain = owner_skl" using owner_of_skl_domain[of m l] by simp
  then show False by (simp add: domain_owner_def owner_skl_def invalid_domain_def)
qed

text \<open>The interface every mapping of a status enum satisfies: an injective numbering whose zero is
  the success value, and a domain of its own.\<close>

locale status_mapping =
  fixes num :: "'s \<Rightarrow> u32" and ok :: 's and dom_id :: DomainId and to_code :: "'s \<Rightarrow> ErrorCode"
  assumes num_inj: "num a = num b \<longleftrightarrow> a = b"
    and num_ok: "num ok = 0"
    and dom_valid: "dom_id \<noteq> invalid_domain"
    and to_code_def: "to_code s = (if s = ok then success
         else \<lparr>domain = dom_id, code_value = as_error_value (num s), reserved = 0\<rparr>)"
begin

lemma num_0: "num s = 0 \<longleftrightarrow> s = ok"
  using num_inj[of s ok] by (simp add: num_ok)

lemma code_canonical: "is_canonical (to_code s)"
  by (simp add: to_code_def is_canonical_def success_def dom_valid num_0)

lemma code_success_iff: "is_success (to_code s) \<longleftrightarrow> s = ok"
  by (simp add: to_code_def is_success_def success_def num_0)

lemma code_inj: "to_code s = to_code t \<longleftrightarrow> s = t"
  by (auto simp: to_code_def success_def num_inj num_0 dom_valid split: if_splits)

lemma code_domain: "s \<noteq> ok \<Longrightarrow> domain (to_code s) = dom_id"
  by (simp add: to_code_def)

end

interpretation callmap: status_mapping CallError_num ce_none call_domain to_error_code_call
  by unfold_locales
    (simp_all add: CallError_num_inj abix_domain_values invalid_domain_def to_error_code_call_def)

interpretation ifmap: status_mapping InterfaceStatus_num is_ok interface_domain to_error_code_interface
  by unfold_locales
    (simp_all add: InterfaceStatus_num_inj abix_domain_values invalid_domain_def
      to_error_code_interface_def)

interpretation modmap: status_mapping ModuleStatus_num ms_ok module_domain to_error_code_module
  by unfold_locales
    (simp_all add: ModuleStatus_num_inj abix_domain_values invalid_domain_def
      to_error_code_module_def)

interpretation mfmap: status_mapping ManifestStatus_num mf_ok manifest_domain to_error_code_manifest
  by unfold_locales
    (simp_all add: ManifestStatus_num_inj abix_domain_values invalid_domain_def
      to_error_code_manifest_def)

section \<open>Properties\<close>

text \<open>C35. Packing a domain id and reading it back gives the SKL owner, the low 12 bits of the
  module id and the low 48 bits of the local id, and the result is a valid SKL domain whatever the
  arguments.\<close>

theorem make_skl_domain_roundtrip:
  "domain_owner (make_skl_domain m l) = owner_skl \<and>
   domain_module (make_skl_domain m l) = take_bit 12 (ucast m) \<and>
   domain_local (make_skl_domain m l) = take_bit 48 l \<and>
   is_skl_domain (make_skl_domain m l)"
  by (simp add: owner_of_skl_domain module_of_skl_domain local_of_skl_domain is_skl_domain_def
      is_valid_domain_def skl_domain_nonzero)

text \<open>Every status of the four subsystems maps to a canonical code, which is a success exactly
  for the enum's success value; two statuses of one subsystem never share a code, and statuses of
  different subsystems share one only when both are successes.\<close>

theorem error_codes_identify_status:
  "is_canonical (to_error_code_call c) \<and> is_canonical (to_error_code_interface i) \<and>
   is_canonical (to_error_code_module m) \<and> is_canonical (to_error_code_manifest f) \<and>
   (is_success (to_error_code_call c) \<longleftrightarrow> c = ce_none) \<and>
   (is_success (to_error_code_interface i) \<longleftrightarrow> i = is_ok) \<and>
   (is_success (to_error_code_module m) \<longleftrightarrow> m = ms_ok) \<and>
   (is_success (to_error_code_manifest f) \<longleftrightarrow> f = mf_ok) \<and>
   (to_error_code_call c = to_error_code_call c' \<longleftrightarrow> c = c') \<and>
   (to_error_code_interface i = to_error_code_interface i' \<longleftrightarrow> i = i') \<and>
   (to_error_code_module m = to_error_code_module m' \<longleftrightarrow> m = m') \<and>
   (to_error_code_manifest f = to_error_code_manifest f' \<longleftrightarrow> f = f') \<and>
   (to_error_code_call c = to_error_code_interface i \<longleftrightarrow> c = ce_none \<and> i = is_ok) \<and>
   (to_error_code_call c = to_error_code_module m \<longleftrightarrow> c = ce_none \<and> m = ms_ok) \<and>
   (to_error_code_call c = to_error_code_manifest f \<longleftrightarrow> c = ce_none \<and> f = mf_ok) \<and>
   (to_error_code_interface i = to_error_code_module m \<longleftrightarrow> i = is_ok \<and> m = ms_ok) \<and>
   (to_error_code_interface i = to_error_code_manifest f \<longleftrightarrow> i = is_ok \<and> f = mf_ok) \<and>
   (to_error_code_module m = to_error_code_manifest f \<longleftrightarrow> m = ms_ok \<and> f = mf_ok)"
  by (simp add: callmap.code_canonical ifmap.code_canonical modmap.code_canonical
      mfmap.code_canonical callmap.code_success_iff ifmap.code_success_iff
      modmap.code_success_iff mfmap.code_success_iff callmap.code_inj ifmap.code_inj
      modmap.code_inj mfmap.code_inj)
    (simp add: to_error_code_call_def to_error_code_interface_def to_error_code_module_def
      to_error_code_manifest_def success_def abix_domain_values invalid_domain_def)

end
