(* ===== verification/Model_ABI.thy ===== *)
theory Model_ABI
  imports Util_Hash
begin

text \<open>
  The ABI data model: \<open>Model/ABI.h\<close> (records and type identities) and \<open>Model/Compat.h\<close> (the
  Canonical Layout Encoding, the call-signature digest and the compatibility verdict).

  The C++ visitor \<open>visit_canonical_layout\<close> is a template over a byte sink; here it takes the sink's
  \<open>put\<close> as an argument and is instantiated with the byte buffer and with the hash state.

  Shown: both instances see the same bytes, so the layout hash is the digest of exactly the encoded
  bytes; the encoder writes those bytes or reports 0, never past the capacity; the encoding is
  injective in every layout fact it carries.
\<close>

section \<open>Records\<close>

type_synonym TypeId = Hash128
type_synonym LayoutHash = Hash128

record TypeLayout =
  tl_size :: u32
  tl_align :: u32
  tl_field_begin :: u32
  tl_field_count :: u32
  tl_layout_hash :: LayoutHash

record TypeDesc =
  td_id :: TypeId
  td_flags :: u32
  td_name_offset :: u32
  td_layout_index :: u32

record Field =
  fd_name_offset :: u32
  fd_type_id :: TypeId
  fd_offset :: u32
  fd_flags :: u32
  fd_bit_offset :: u16
  fd_bit_width :: u16

record MapInfo =
  mi_source :: TypeId
  mi_target :: TypeId
  mi_rule :: u32
  mi_flags :: u32

section \<open>Type identities\<close>

text \<open>A null name hashes as the empty one: the length loop tests the pointer first.\<close>

definition canonical_type_id :: "string ptr \<Rightarrow> TypeId" where
  "canonical_type_id name =
     (let bs = (case name of None \<Rightarrow> [] | Some s \<Rightarrow> bytes_of (c_str s))
      in canonical_hash bs (length bs) 0x54595045)"

abbreviation prim :: "string \<Rightarrow> TypeId" where
  "prim s \<equiv> canonical_type_id (Some s)"

definition integer_type_id :: "nat \<Rightarrow> bool \<Rightarrow> TypeId" where
  "integer_type_id sz is_signed =
     (if sz = 1 then if is_signed then prim ''prim:i8'' else prim ''prim:u8''
      else if sz = 2 then if is_signed then prim ''prim:i16'' else prim ''prim:u16''
      else if sz = 4 then if is_signed then prim ''prim:i32'' else prim ''prim:u32''
      else if sz = 8 then if is_signed then prim ''prim:i64'' else prim ''prim:u64''
      else if is_signed then prim ''prim:i32'' else prim ''prim:u32'')"

text \<open>The predefined descriptors, in the order of the header (\<open>ABI.h\<close>).\<close>

definition primitive_names :: "string list" where
  "primitive_names =
     [''prim:void'', ''prim:bool'',
      ''prim:i8'', ''prim:i16'', ''prim:i32'', ''prim:i64'', ''prim:i128'',
      ''prim:u8'', ''prim:u16'', ''prim:u32'', ''prim:u64'', ''prim:u128'',
      ''prim:fieee32'', ''prim:fieee64'', ''prim:fieee128'', ''prim:fieee16'', ''prim:fbf16'',
      ''prim:fx87_80'', ''prim:fppc_double_double'',
      ''prim:char_s'', ''prim:char_u'', ''prim:schar'', ''prim:uchar'',
      ''prim:wchar_s'', ''prim:wchar_u'', ''prim:char8'', ''prim:char16'', ''prim:char32'']"

section \<open>Byte sinks\<close>

text \<open>\<open>a && b\<close> on effectful operations, which is also the early return \<open>if (!a) return false; b\<close>.\<close>

definition and_then :: "bool \<times> 's \<Rightarrow> ('s \<Rightarrow> bool \<times> 's) \<Rightarrow> bool \<times> 's" where
  "and_then r k = (if fst r then k (snd r) else r)"

record LayoutByteSink =
  bs_out :: "u8 list"
  bs_capacity :: nat
  bs_size :: nat

definition byte_sink_put :: "LayoutByteSink \<Rightarrow> u8 \<Rightarrow> bool \<times> LayoutByteSink" where
  "byte_sink_put s byte =
     (if bs_size s \<ge> bs_capacity s then (False, s)
      else (True, s\<lparr>bs_out := (bs_out s)[bs_size s := byte], bs_size := Suc (bs_size s)\<rparr>))"

record LayoutHashSink =
  hs_state :: CanonicalState

definition hash_sink_put :: "LayoutHashSink \<Rightarrow> u8 \<Rightarrow> bool \<times> LayoutHashSink" where
  "hash_sink_put s byte = (True, s\<lparr>hs_state := canonical_hash_byte (hs_state s) byte\<rparr>)"

text \<open>The composite writers have the same text in both sinks.\<close>

definition put_u16 :: "('s \<Rightarrow> u8 \<Rightarrow> bool \<times> 's) \<Rightarrow> 's \<Rightarrow> u16 \<Rightarrow> bool \<times> 's" where
  "put_u16 put s v = and_then (put s (ucast (drop_bit 8 v))) (\<lambda>s. put s (ucast v))"

definition put_u32 :: "('s \<Rightarrow> u8 \<Rightarrow> bool \<times> 's) \<Rightarrow> 's \<Rightarrow> u32 \<Rightarrow> bool \<times> 's" where
  "put_u32 put s v =
     and_then (put s (ucast (drop_bit 24 v))) (\<lambda>s.
     and_then (put s (ucast (drop_bit 16 v))) (\<lambda>s.
     and_then (put s (ucast (drop_bit 8 v))) (\<lambda>s.
     put s (ucast v))))"

definition put_u64 :: "('s \<Rightarrow> u8 \<Rightarrow> bool \<times> 's) \<Rightarrow> 's \<Rightarrow> u64 \<Rightarrow> bool \<times> 's" where
  "put_u64 put s v =
     and_then (put s (ucast (drop_bit 56 v))) (\<lambda>s.
     and_then (put s (ucast (drop_bit 48 v))) (\<lambda>s.
     and_then (put s (ucast (drop_bit 40 v))) (\<lambda>s.
     and_then (put s (ucast (drop_bit 32 v))) (\<lambda>s.
     and_then (put s (ucast (drop_bit 24 v))) (\<lambda>s.
     and_then (put s (ucast (drop_bit 16 v))) (\<lambda>s.
     and_then (put s (ucast (drop_bit 8 v))) (\<lambda>s.
     put s (ucast v))))))))"

definition put_hash :: "('s \<Rightarrow> u8 \<Rightarrow> bool \<times> 's) \<Rightarrow> 's \<Rightarrow> Hash128 \<Rightarrow> bool \<times> 's" where
  "put_hash put s v = and_then (put_u64 put s (lo v)) (\<lambda>s. put_u64 put s (hi v))"

section \<open>Canonical Layout Encoding v1\<close>

record LayoutContext =
  lc_arch :: u32
  lc_os :: u32
  lc_abi :: u32
  lc_compiler :: u32

definition canonical_layout_version :: u16 where
  "canonical_layout_version = 1"

definition canonical_layout_domain :: u64 where
  "canonical_layout_domain = 0x4C41594F55545631"

definition canonical_layout_flags :: "u32 \<Rightarrow> u32" where
  "canonical_layout_flags flags = flags AND 0xFFFF0003"

definition cle_magic :: "u8 list" where
  "cle_magic = bytes_of ''ABIX-CLE''"

fun put_magic :: "('s \<Rightarrow> u8 \<Rightarrow> bool \<times> 's) \<Rightarrow> 's \<Rightarrow> u8 list \<Rightarrow> bool \<times> 's" where
  "put_magic put s [] = (True, s)"
| "put_magic put s (b # bs) = and_then (put s b) (\<lambda>s. put_magic put s bs)"

fun put_fields :: "('s \<Rightarrow> u8 \<Rightarrow> bool \<times> 's) \<Rightarrow> 's \<Rightarrow> Field list \<Rightarrow> bool \<times> 's" where
  "put_fields put s [] = (True, s)"
| "put_fields put s (f # fs) =
     and_then (put_hash put s (fd_type_id f)) (\<lambda>s.
     and_then (put_u32 put s (fd_offset f)) (\<lambda>s.
     and_then (put_u32 put s (canonical_layout_flags (fd_flags f))) (\<lambda>s.
     put_fields put s fs)))"

definition visit_canonical_layout ::
  "('s \<Rightarrow> u8 \<Rightarrow> bool \<times> 's) \<Rightarrow> LayoutContext \<Rightarrow> TypeId \<Rightarrow> TypeLayout \<Rightarrow> Field arr \<Rightarrow> 's \<Rightarrow> bool \<times> 's"
where
  "visit_canonical_layout put context type_id layout flds sink =
     and_then (put_magic put sink cle_magic) (\<lambda>s.
     and_then (put_u16 put s canonical_layout_version) (\<lambda>s.
     and_then (put_u32 put s (lc_arch context)) (\<lambda>s.
     and_then (put_u32 put s (lc_os context)) (\<lambda>s.
     and_then (put_u32 put s (lc_abi context)) (\<lambda>s.
     and_then (put_u32 put s (lc_compiler context)) (\<lambda>s.
     and_then (put_hash put s type_id) (\<lambda>s.
     and_then (put_u32 put s (tl_size layout)) (\<lambda>s.
     and_then (put_u32 put s (tl_align layout)) (\<lambda>s.
     and_then (put_u32 put s (tl_field_count layout)) (\<lambda>s.
     if tl_field_count layout \<noteq> 0 \<and> flds = None then (False, s)
     else put_fields put s (arr_elems flds (tl_field_count layout))))))))))))"

text \<open>Returns the byte count (0 on failure) and the buffer afterwards.\<close>

definition encode_canonical_layout ::
  "LayoutContext \<Rightarrow> TypeId \<Rightarrow> TypeLayout \<Rightarrow> Field arr \<Rightarrow> u8 list \<Rightarrow> nat \<Rightarrow> nat \<times> u8 list" where
  "encode_canonical_layout context type_id layout flds out capacity =
     (let sink = \<lparr>bs_out = out, bs_capacity = capacity, bs_size = 0\<rparr>;
          r = visit_canonical_layout byte_sink_put context type_id layout flds sink
      in (if fst r then bs_size (snd r) else 0, bs_out (snd r)))"

definition canonical_layout_hash ::
  "LayoutContext \<Rightarrow> TypeId \<Rightarrow> TypeLayout \<Rightarrow> Field arr \<Rightarrow> Hash128" where
  "canonical_layout_hash context type_id layout flds =
     (let sink = \<lparr>hs_state = canonical_hash_begin canonical_layout_domain\<rparr>;
          r = visit_canonical_layout hash_sink_put context type_id layout flds sink
      in if \<not> fst r then Hash128_zero
         else \<lparr>lo = st_lo (hs_state (snd r)), hi = st_hi (hs_state (snd r))\<rparr>)"

section \<open>Call signature digest and compatibility verdict\<close>

definition abi_signature_domain :: u64 where
  "abi_signature_domain = 0x4142495349475F31"

definition hash_type_id :: "CanonicalState \<Rightarrow> TypeId \<Rightarrow> CanonicalState" where
  "hash_type_id state t = canonical_hash_u64_be (canonical_hash_u64_be state (lo t)) (hi t)"

text \<open>The parameter loop is skipped for a null array although the count is still hashed.\<close>

definition abi_signature_hash ::
  "TypeId \<Rightarrow> TypeId arr \<Rightarrow> u64 \<Rightarrow> u32 \<Rightarrow> u32 \<Rightarrow> Hash128" where
  "abi_signature_hash return_type parameters parameter_count calling_convention qualifiers =
     (let state = canonical_hash_begin abi_signature_domain;
          state = canonical_hash_u64_be state (lo return_type);
          state = canonical_hash_u64_be state (hi return_type);
          state = canonical_hash_u64_be state parameter_count;
          state = (case parameters of None \<Rightarrow> state
                   | Some ps \<Rightarrow> foldl hash_type_id state (take (unat parameter_count) ps));
          state = canonical_hash_u32_be state calling_convention;
          state = canonical_hash_u32_be state qualifiers
      in \<lparr>lo = st_lo state, hi = st_hi state\<rparr>)"

datatype CompatResult = identical | layout_compatible | map_compatible | incompatible

definition same_hash :: "Hash128 \<Rightarrow> Hash128 \<Rightarrow> bool" where
  "same_hash l r \<longleftrightarrow> lo l = lo r \<and> hi l = hi r"

definition compare_types ::
  "TypeId \<Rightarrow> TypeLayout \<Rightarrow> TypeId \<Rightarrow> TypeLayout \<Rightarrow> bool \<Rightarrow> CompatResult" where
  "compare_types source_id source target_id target has_map =
     (if same_hash source_id target_id \<and> same_hash (tl_layout_hash source) (tl_layout_hash target)
      then identical
      else if same_hash (tl_layout_hash source) (tl_layout_hash target) then layout_compatible
      else if has_map then map_compatible else incompatible)"

section \<open>The byte string both sinks see\<close>

definition be16 :: "u16 \<Rightarrow> u8 list" where
  "be16 v = [ucast (drop_bit 8 v), ucast v]"

definition hash_bytes :: "Hash128 \<Rightarrow> u8 list" where
  "hash_bytes h = be64 (lo h) @ be64 (hi h)"

definition field_bytes :: "Field \<Rightarrow> u8 list" where
  "field_bytes f = hash_bytes (fd_type_id f) @ be32 (fd_offset f)
     @ be32 (canonical_layout_flags (fd_flags f))"

definition cle_header :: "LayoutContext \<Rightarrow> TypeId \<Rightarrow> TypeLayout \<Rightarrow> u8 list" where
  "cle_header c t l = cle_magic @ be16 canonical_layout_version
     @ be32 (lc_arch c) @ be32 (lc_os c) @ be32 (lc_abi c) @ be32 (lc_compiler c)
     @ hash_bytes t @ be32 (tl_size l) @ be32 (tl_align l) @ be32 (tl_field_count l)"

definition cle_bytes :: "LayoutContext \<Rightarrow> TypeId \<Rightarrow> TypeLayout \<Rightarrow> Field arr \<Rightarrow> u8 list" where
  "cle_bytes c t l fs = cle_header c t l
     @ concat (map field_bytes (arr_elems fs (tl_field_count l)))"

definition fields_present :: "TypeLayout \<Rightarrow> Field arr \<Rightarrow> bool" where
  "fields_present l fs \<longleftrightarrow> tl_field_count l = 0 \<or> fs \<noteq> None"

text \<open>Writing a byte string with short-circuit on the first refusal.\<close>

lemma and_then_True [simp]: "and_then (True, s) k = k s"
  and and_then_False [simp]: "and_then (False, s) k = (False, s)"
  by (simp_all add: and_then_def)

lemma and_then_assoc [simp]: "and_then (and_then r k) k' = and_then r (\<lambda>s. and_then (k s) k')"
  by (simp add: and_then_def)

lemma and_then_return [simp]: "and_then r (\<lambda>s. (True, s)) = r"
  by (cases r) (simp add: and_then_def)

lemma put_magic_append:
  "put_magic put s (xs @ ys) = and_then (put_magic put s xs) (\<lambda>s. put_magic put s ys)"
  by (induction xs arbitrary: s) simp_all

lemma put_u16_bytes: "put_u16 put s v = put_magic put s (be16 v)"
  by (simp add: put_u16_def be16_def)

lemma put_u32_bytes: "put_u32 put s v = put_magic put s (be32 v)"
  by (simp add: put_u32_def be32_def)

lemma put_u64_bytes: "put_u64 put s v = put_magic put s (be64 v)"
  by (simp add: put_u64_def be64_def)

lemma put_hash_bytes: "put_hash put s v = put_magic put s (hash_bytes v)"
  by (simp add: put_hash_def hash_bytes_def put_u64_bytes put_magic_append)

lemma put_fields_bytes: "put_fields put s fs = put_magic put s (concat (map field_bytes fs))"
  by (induction fs arbitrary: s)
    (simp_all add: field_bytes_def put_hash_bytes put_u32_bytes put_magic_append)

lemma visit_bytes:
  "visit_canonical_layout put c t l fs sink =
     and_then (put_magic put sink (cle_header c t l)) (\<lambda>s.
       if fields_present l fs
       then put_magic put s (concat (map field_bytes (arr_elems fs (tl_field_count l))))
       else (False, s))"
proof -
  have missing: "(tl_field_count l \<noteq> 0 \<and> fs = None) = (\<not> fields_present l fs)"
    by (simp add: fields_present_def)
  show ?thesis
    unfolding visit_canonical_layout_def missing
    by (cases "fields_present l fs")
      (simp_all add: cle_header_def put_magic_append put_u16_bytes put_u32_bytes put_hash_bytes
        put_fields_bytes)
qed

lemma visit_cle_bytes:
  "fields_present l fs \<Longrightarrow>
     visit_canonical_layout put c t l fs sink = put_magic put sink (cle_bytes c t l fs)"
  by (simp add: visit_bytes cle_bytes_def put_magic_append)

lemma put_magic_hash_sink:
  "put_magic hash_sink_put s bs = (True, s\<lparr>hs_state := absorb (hs_state s) bs\<rparr>)"
  by (induction bs arbitrary: s) (simp_all add: hash_sink_put_def)

lemma put_magic_byte_sink:
  "bs_size s \<le> bs_capacity s \<Longrightarrow> bs_capacity s \<le> length (bs_out s) \<Longrightarrow>
   put_magic byte_sink_put s bs =
     (let n = min (length bs) (bs_capacity s - bs_size s)
      in (bs_size s + length bs \<le> bs_capacity s,
          s\<lparr>bs_out := take (bs_size s) (bs_out s) @ take n bs @ drop (bs_size s + n) (bs_out s),
            bs_size := bs_size s + n\<rparr>))"
proof (induction bs arbitrary: s)
  case Nil
  then show ?case by simp
next
  case (Cons b bs)
  show ?case
  proof (cases "bs_size s < bs_capacity s")
    case True
    let ?s = "s\<lparr>bs_out := (bs_out s)[bs_size s := b], bs_size := Suc (bs_size s)\<rparr>"
    have put: "byte_sink_put s b = (True, ?s)" using True by (simp add: byte_sink_put_def)
    have upd: "take (Suc (bs_size s)) ((bs_out s)[bs_size s := b]) = take (bs_size s) (bs_out s) @ [b]"
      using True Cons.prems by (simp add: take_Suc_conv_app_nth)
    have "bs_capacity s - bs_size s = Suc (bs_capacity s - Suc (bs_size s))" using True by simp
    then show ?thesis
      using True Cons.prems Cons.IH[of ?s] by (simp add: put upd Let_def)
  next
    case False
    with Cons.prems have "bs_size s = bs_capacity s" by simp
    then show ?thesis by (simp add: byte_sink_put_def)
  qed
qed

section \<open>Lengths and injectivity of the encoding\<close>

lemma length_be [simp]:
  "length (be16 a) = 2" "length (be32 b) = 4" "length (be64 c) = 8"
  "length (hash_bytes h) = 16" "length (field_bytes f) = 24" "length cle_magic = 8"
  by (simp_all add: be16_def be32_def be64_def hash_bytes_def field_bytes_def cle_magic_def
      bytes_of_def)

lemma length_cle_header [simp]: "length (cle_header c t l) = 54"
  by (simp add: cle_header_def)

lemma length_concat_fields [simp]: "length (concat (map field_bytes fs)) = 24 * length fs"
  by (induction fs) simp_all

lemma length_cle_bytes:
  "fields_present l fs \<Longrightarrow> arr_ok fs (tl_field_count l) \<Longrightarrow>
     length (cle_bytes c t l fs) = 54 + 24 * unat (tl_field_count l)"
  by (cases fs) (auto simp: cle_bytes_def fields_present_def arr_elems_def arr_ok_def)

lemma be32_inj: "be32 a = be32 b \<longleftrightarrow> a = b"
proof
  assume eq: "be32 a = be32 b"
  show "a = b"
  proof (rule bit_word_eqI)
    fix n assume n: "n < LENGTH(32)"
    have "bit (ucast (drop_bit (8 * (n div 8)) a) :: u8) (n mod 8) =
          bit (ucast (drop_bit (8 * (n div 8)) b) :: u8) (n mod 8)"
    proof -
      have "n div 8 \<in> {0, 1, 2, 3}" using n by auto
      then show ?thesis using eq by (auto simp: be32_def)
    qed
    then show "bit a n = bit b n" using n by (simp add: bit_simps)
  qed
qed simp

lemma be64_inj: "be64 a = be64 b \<longleftrightarrow> a = b"
proof
  assume eq: "be64 a = be64 b"
  show "a = b"
  proof (rule bit_word_eqI)
    fix n assume n: "n < LENGTH(64)"
    have "bit (ucast (drop_bit (8 * (n div 8)) a) :: u8) (n mod 8) =
          bit (ucast (drop_bit (8 * (n div 8)) b) :: u8) (n mod 8)"
    proof -
      have "n div 8 \<in> {0, 1, 2, 3, 4, 5, 6, 7}" using n by auto
      then show ?thesis using eq by (auto simp: be64_def)
    qed
    then show "bit a n = bit b n" using n by (simp add: bit_simps)
  qed
qed simp

lemma hash_bytes_inj: "hash_bytes a = hash_bytes b \<longleftrightarrow> a = b"
  by (cases a; cases b) (simp add: hash_bytes_def be64_inj)

text \<open>The part of a field that takes part in the layout identity.\<close>

definition field_facts :: "Field \<Rightarrow> TypeId \<times> u32 \<times> u32" where
  "field_facts f = (fd_type_id f, fd_offset f, canonical_layout_flags (fd_flags f))"

lemma field_bytes_inj: "field_bytes f = field_bytes g \<longleftrightarrow> field_facts f = field_facts g"
  by (simp add: field_bytes_def field_facts_def hash_bytes_inj be32_inj)

lemma fields_bytes_inj:
  "concat (map field_bytes fs) = concat (map field_bytes gs) \<longleftrightarrow>
     map field_facts fs = map field_facts gs"
proof (induction fs arbitrary: gs)
  case Nil
  have "concat (map field_bytes gs) = [] \<longleftrightarrow> gs = []"
    by (metis length_0_conv length_concat_fields mult_is_0 numeral_eq_iff zero_neq_numeral)
  then show ?case by auto
next
  case (Cons f fs)
  show ?case
  proof (cases gs)
    case Nil
    have "concat (map field_bytes (f # fs)) \<noteq> []"
      by (metis length_0_conv length_concat_fields list.size(3) mult_is_0 zero_neq_numeral
          list.distinct(1))
    with Nil show ?thesis by simp
  next
    case (Cons g hs)
    then show ?thesis using Cons.IH[of hs] by (simp add: field_bytes_inj)
  qed
qed

lemma cle_header_inj:
  "cle_header c t l = cle_header c' t' l' \<longleftrightarrow>
     c = c' \<and> t = t' \<and> tl_size l = tl_size l' \<and> tl_align l = tl_align l' \<and>
     tl_field_count l = tl_field_count l'"
  by (cases c; cases c') (auto simp: cle_header_def be32_inj hash_bytes_inj)

lemma cle_bytes_inj:
  "cle_bytes c t l fs = cle_bytes c' t' l' fs' \<longleftrightarrow>
     c = c' \<and> t = t' \<and> tl_size l = tl_size l' \<and> tl_align l = tl_align l' \<and>
     tl_field_count l = tl_field_count l' \<and>
     map field_facts (arr_elems fs (tl_field_count l)) =
       map field_facts (arr_elems fs' (tl_field_count l'))"
  by (auto simp: cle_bytes_def cle_header_inj fields_bytes_inj)

lemma visit_without_fields:
  "\<not> fields_present l fs \<Longrightarrow> \<not> fst (visit_canonical_layout put c t l fs sink)"
  by (simp add: visit_bytes and_then_def)

section \<open>The low 16 bits of the \<open>lo\<close> lane\<close>

text \<open>Multiplication and exclusive-or are closed on low bits, so the low half-words of the lane can be
  computed alone; they already tell the predefined descriptors apart.\<close>

definition lane16 :: "u16 \<Rightarrow> u8 list \<Rightarrow> u16" where
  "lane16 = foldl (\<lambda>h b. (h XOR ucast b) * 435)"

lemma ucast16_mult: "(ucast (a * b :: u64) :: u16) = ucast a * ucast b"
proof -
  have "unat (ucast (a * b) :: u16) = (unat a * unat b) mod 65536"
    by (simp add: unsigned_ucast_eq take_bit_eq_mod unat_word_ariths mod_mod_cancel)
  also have "\<dots> = unat (ucast a * ucast b :: u16)"
    by (simp add: unsigned_ucast_eq take_bit_eq_mod unat_word_ariths mod_mult_eq)
  finally show ?thesis by (simp only: unsigned_word_eqI)
qed

lemma ucast16_xor: "(ucast (a XOR b :: u64) :: u16) = ucast a XOR ucast b"
  by (rule bit_word_eqI) (simp add: bit_simps)

lemma ucast16_byte: "(ucast (ucast (b :: u8) :: u64) :: u16) = ucast b"
  by (rule bit_word_eqI) (auto simp: bit_simps)

lemma prime16: "(ucast fnv1a_prime :: u16) = 435"
  by (simp add: fnv1a_prime_def)

lemma lane16_absorb: "(ucast (st_lo (absorb st bs)) :: u16) = lane16 (ucast (st_lo st)) bs"
  by (induction bs arbitrary: st)
    (simp_all add: lane16_def canonical_hash_byte_def ucast16_mult ucast16_xor ucast16_byte
      prime16)

lemma lane16_start: "(ucast (fnv1a_offset_basis XOR 0x54595045) :: u16) = 29536"
  by (simp add: fnv1a_offset_basis_def)

lemma type_id_lane16:
  "(ucast (lo (canonical_type_id (Some s))) :: u16) = lane16 29536 (bytes_of (c_str s))"
  by (simp add: canonical_type_id_def canonical_hash_digest digest_def lane16_absorb
      canonical_hash_begin_def Let_def lane16_start)

lemma primitive_lanes:
  "map (\<lambda>s. lane16 29536 (bytes_of (c_str s))) primitive_names = [64976, 24306, 4535, 65262, 64416, 61335, 23526, 65291, 48898, 2812, 30563, 49098, 54209, 5090,
      28449, 41135, 15895, 28638, 21221, 13644, 12774, 52079, 3305, 40293, 37683, 2366, 41885, 25331]"
  by (simp add: primitive_names_def lane16_def bytes_of_def c_str_def)

lemma encode_needs_fields:
  "encode_canonical_layout c t l fs out capacity = (n, b) \<Longrightarrow> n \<noteq> 0 \<Longrightarrow> fields_present l fs"
  by (rule ccontr) (simp add: encode_canonical_layout_def visit_without_fields Let_def)

section \<open>Properties\<close>

text \<open>C18. When the fields that the layout claims are there, the layout hash is the canonical digest, in the
  layout domain, of exactly the bytes of the encoding; when fields are claimed but no field array is given, it is the
  zero hash.\<close>

theorem canonical_layout_hash_is_digest:
  "canonical_layout_hash c t l fs =
     (if fields_present l fs
      then canonical_hash (cle_bytes c t l fs) (length (cle_bytes c t l fs)) canonical_layout_domain
      else Hash128_zero)"
  by (simp add: canonical_layout_hash_def visit_without_fields visit_cle_bytes put_magic_hash_sink
      canonical_hash_digest digest_def)

lemma encode_bytes:
  assumes "capacity \<le> length out" "fields_present l fs"
  shows "encode_canonical_layout c t l fs out capacity =
    (let n = length (cle_bytes c t l fs); m = min n capacity
     in (if n \<le> capacity then n else 0, take m (cle_bytes c t l fs) @ drop m out))"
  using assms
  by (simp add: encode_canonical_layout_def visit_cle_bytes put_magic_byte_sink Let_def)

text \<open>C19. The encoder writes the \<open>54 + 24 * field_count\<close> bytes of the encoding at the start of the
  buffer and returns their number when they fit; otherwise it returns 0. The buffer beyond the
  capacity is never written.\<close>

theorem encode_canonical_layout_correct:
  assumes "capacity \<le> length out" "fields_present l fs" "arr_ok fs (tl_field_count l)"
  shows "fst (encode_canonical_layout c t l fs out capacity) =
           (if 54 + 24 * unat (tl_field_count l) \<le> capacity
            then 54 + 24 * unat (tl_field_count l) else 0) \<and>
         (54 + 24 * unat (tl_field_count l) \<le> capacity \<longrightarrow>
            take (54 + 24 * unat (tl_field_count l))
              (snd (encode_canonical_layout c t l fs out capacity)) = cle_bytes c t l fs) \<and>
         drop capacity (snd (encode_canonical_layout c t l fs out capacity)) = drop capacity out \<and>
         length (snd (encode_canonical_layout c t l fs out capacity)) = length out"
  using assms by (simp add: encode_bytes length_cle_bytes Let_def min_def)

definition wit_context :: LayoutContext where
  "wit_context = \<lparr>lc_arch = 1, lc_os = 2, lc_abi = 3, lc_compiler = 4\<rparr>"

definition wit_layout :: TypeLayout where
  "wit_layout = \<lparr>tl_size = 16, tl_align = 8, tl_field_begin = 0, tl_field_count = 1,
     tl_layout_hash = \<lparr>lo = 1, hi = 2\<rparr>\<rparr>"

definition wit_field :: Field where
  "wit_field = \<lparr>fd_name_offset = 0, fd_type_id = \<lparr>lo = 7, hi = 9\<rparr>, fd_offset = 8, fd_flags = 0,
     fd_bit_offset = 0, fd_bit_width = 0\<rparr>"

theorem encode_canonical_layout_correct_witness:
  "fst (encode_canonical_layout wit_context \<lparr>lo = 5, hi = 6\<rparr> wit_layout (Some [wit_field])
     (replicate 80 0) 80) = 78"
  using encode_canonical_layout_correct[of 80 "replicate 80 0" wit_layout "Some [wit_field]"
      wit_context "\<lparr>lo = 5, hi = 6\<rparr>"]
  by (simp add: fields_present_def arr_ok_def wit_layout_def)

text \<open>C17. Two successful encodings are the same bytes only if they describe the same target
  context, type identity, size, alignment and field list (type, offset, ABI-relevant flags of each
  field in order): the encoding loses no layout fact.\<close>

theorem encode_canonical_layout_injective:
  assumes "capacity \<le> length out" "capacity' \<le> length out'"
    and "arr_ok fs (tl_field_count l)" "arr_ok fs' (tl_field_count l')"
    and "encode_canonical_layout c t l fs out capacity = (n, b)" "n \<noteq> 0"
    and "encode_canonical_layout c' t' l' fs' out' capacity' = (n', b')" "n' \<noteq> 0"
    and "take n b = take n' b'"
  shows "c = c' \<and> t = t' \<and> tl_size l = tl_size l' \<and> tl_align l = tl_align l' \<and>
     map field_facts (arr_elems fs (tl_field_count l)) =
       map field_facts (arr_elems fs' (tl_field_count l'))"
proof -
  have "fields_present l fs" "fields_present l' fs'"
    using assms(5-8) by (auto intro: encode_needs_fields)
  then have "take n b = cle_bytes c t l fs" "take n' b' = cle_bytes c' t' l' fs'"
    using assms(1,2,5-8) by (auto simp: encode_bytes Let_def split: if_splits)
  then have "cle_bytes c t l fs = cle_bytes c' t' l' fs'" using assms(9) by simp
  then show ?thesis unfolding cle_bytes_inj by blast
qed

theorem encode_canonical_layout_injective_witness:
  "map field_facts (arr_elems (Some [wit_field]) 1) =
     map field_facts (arr_elems (Some [wit_field\<lparr>fd_name_offset := 44\<rparr>]) 1)"
proof -
  let ?e = "\<lambda>f. encode_canonical_layout wit_context \<lparr>lo = 5, hi = 6\<rparr> wit_layout (Some [f])
     (replicate 80 0) 80"
  let ?g = "wit_field\<lparr>fd_name_offset := 44\<rparr>"
  have eq: "?e ?g = ?e wit_field"
    by (simp add: encode_bytes fields_present_def cle_bytes_def arr_elems_def field_bytes_def
        wit_layout_def)
  have n: "fst (?e wit_field) = 78"
    by (simp add: encode_bytes fields_present_def length_cle_bytes arr_ok_def wit_layout_def)
  show ?thesis
    using encode_canonical_layout_injective[of 80 "replicate 80 0" 80 "replicate 80 0"
        "Some [wit_field]" wit_layout "Some [?g]" wit_layout wit_context "\<lparr>lo = 5, hi = 6\<rparr>"
        "fst (?e wit_field)" "snd (?e wit_field)" wit_context "\<lparr>lo = 5, hi = 6\<rparr>"
        "fst (?e wit_field)" "snd (?e wit_field)"] eq n
    by (simp add: arr_ok_def wit_layout_def)
qed

text \<open>The predefined primitive descriptors have pairwise distinct identities.\<close>

theorem primitive_type_ids_distinct:
  "distinct (map (\<lambda>s. canonical_type_id (Some s)) primitive_names)"
proof -
  have "distinct (map (\<lambda>h. ucast (lo h) :: u16) (map (\<lambda>s. canonical_type_id (Some s)) primitive_names))"
    by (simp add: type_id_lane16 comp_def primitive_lanes del: distinct_map)
  then show ?thesis by (rule distinct_map [THEN iffD1, THEN conjunct1])
qed

end
