(* ===== verification/Runtime_Search.thy ===== *)
theory Runtime_Search
  imports Abix_Prelude "HOL-Library.Multiset"
begin

text \<open>
  The function table of a module and the lookups over it: \<open>Runtime/Type.h\<close> and
  \<open>Runtime/Search.h\<close>.

  A lookup returns \<open>None\<close> exactly when the C++ would read outside the table or the slot array, compare
  a null name, or probe forever; otherwise its verdict and its \<open>out\<close> parameter. A slot buffer carries
  an identity, so that \<open>new\<close>, \<open>delete\<close> and the recycle pool are visible in the model.

  Shown: \<open>next_pow2\<close> rounds up to a power of two; building the index of a well-formed table ends,
  with a free slot left; every lookup over the built index ends and finds what the linear scan finds when no
  version is asked for;
  every slot buffer is owned by exactly one index or by the pool until it is deleted once.
\<close>

section \<open>Table and entries (Runtime/Type.h)\<close>

record Entry =
  en_name :: "string ptr"
  en_sig :: u64
  en_version :: u64
  en_fnptr :: uintptr_t
  en_name_hash :: u32
  en_flags :: u32

record Table =
  tb_count :: u32
  tb_magic :: u32
  tb_format_version :: u32
  tb_reserved :: u32
  tb_entries :: "Entry arr"

definition SKL_ABIX_TABLE_MAGIC :: u32 where
  "SKL_ABIX_TABLE_MAGIC = 0xAB1E7A81"

definition SKL_ABIX_TABLE_FORMAT_VERSION :: u32 where
  "SKL_ABIX_TABLE_FORMAT_VERSION = 1"

text \<open>\<open>cstr64\<close> and its offset basis belong to the MICS submodule: they are parameters.\<close>

definition name_hash :: "(string \<Rightarrow> u64) \<Rightarrow> u64 \<Rightarrow> string ptr \<Rightarrow> u32" where
  "name_hash cstr64 offset_base s =
     (let h = (case s of Some str \<Rightarrow> cstr64 str | None \<Rightarrow> offset_base)
      in ucast (h XOR drop_bit 32 h))"

definition make_table :: "Entry list \<Rightarrow> Table" where
  "make_table arr =
     \<lparr>tb_count = of_nat (length arr), tb_magic = SKL_ABIX_TABLE_MAGIC,
      tb_format_version = SKL_ABIX_TABLE_FORMAT_VERSION, tb_reserved = 0, tb_entries = Some arr\<rparr>"

section \<open>Linear scan (Runtime/Search.h)\<close>

datatype LookupResult = lr_ok | lr_not_found | lr_sig_mismatch | lr_version_mismatch | lr_bad_Table

definition no_index :: u32 where
  "no_index = NOT 0"

text \<open>The read \<open>t.entries[i]\<close>.\<close>

definition entry_at :: "Table \<Rightarrow> nat \<Rightarrow> Entry option" where
  "entry_at t i =
     (case tb_entries t of None \<Rightarrow> None | Some es \<Rightarrow> if i < length es then Some (es ! i) else None)"

text \<open>\<open>strcmp(a, b) == 0\<close>, undefined on a null first argument.\<close>

definition strcmp_eq :: "string ptr \<Rightarrow> string \<Rightarrow> bool option" where
  "strcmp_eq a b = map_option (\<lambda>s. c_str s = c_str b) a"

definition version_conflict :: "Entry \<Rightarrow> u64 \<Rightarrow> bool" where
  "version_conflict e ver \<longleftrightarrow> ver \<noteq> 0 \<and> en_version e \<noteq> 0 \<and> en_version e \<noteq> ver"

function find_linear_from ::
  "Table \<Rightarrow> string \<Rightarrow> u32 \<Rightarrow> u64 \<Rightarrow> u64 \<Rightarrow> nat \<Rightarrow> (LookupResult \<times> u32) option" where
  "find_linear_from t name nh sig ver i =
     (if i < unat (tb_count t) then
        (case entry_at t i of
           None \<Rightarrow> None
         | Some e \<Rightarrow>
             if en_name_hash e \<noteq> nh then find_linear_from t name nh sig ver (Suc i)
             else (case strcmp_eq (en_name e) name of
                     None \<Rightarrow> None
                   | Some False \<Rightarrow> find_linear_from t name nh sig ver (Suc i)
                   | Some True \<Rightarrow>
                       if version_conflict e ver then find_linear_from t name nh sig ver (Suc i)
                       else if en_sig e \<noteq> sig then Some (lr_sig_mismatch, of_nat i)
                       else Some (lr_ok, of_nat i)))
      else Some (lr_not_found, no_index))"
  by pat_completeness auto
termination by (relation "measure (\<lambda>(t, _, _, _, _, i). unat (tb_count t) - i)") auto

declare find_linear_from.simps [simp del]

definition find_linear ::
  "Table \<Rightarrow> string ptr \<Rightarrow> u32 \<Rightarrow> u64 \<Rightarrow> u64 \<Rightarrow> (LookupResult \<times> u32) option" where
  "find_linear t name nh sig ver =
     (case name of
        None \<Rightarrow> Some (lr_bad_Table, no_index)
      | Some n \<Rightarrow>
          if tb_magic t \<noteq> SKL_ABIX_TABLE_MAGIC then Some (lr_bad_Table, no_index)
          else find_linear_from t n nh sig ver 0)"

definition find_linear_by_name where
  "find_linear_by_name cstr64 base t name sig ver =
     (case name of
        None \<Rightarrow> Some (lr_bad_Table, no_index)
      | Some n \<Rightarrow> find_linear t (Some n) (name_hash cstr64 base (Some n)) sig ver)"

text \<open>\<open>lookup_linear\<close> returns a pointer to the entry: here its index, inside \<open>Some\<close>.\<close>

function lookup_linear_from :: "Table \<Rightarrow> string \<Rightarrow> u32 \<Rightarrow> u64 \<Rightarrow> nat \<Rightarrow> nat option option" where
  "lookup_linear_from t name nh sig i =
     (if i < unat (tb_count t) then
        (case entry_at t i of
           None \<Rightarrow> None
         | Some e \<Rightarrow>
             if en_name_hash e \<noteq> nh then lookup_linear_from t name nh sig (Suc i)
             else if en_sig e \<noteq> sig then lookup_linear_from t name nh sig (Suc i)
             else (case strcmp_eq (en_name e) name of
                     None \<Rightarrow> None
                   | Some True \<Rightarrow> Some (Some i)
                   | Some False \<Rightarrow> lookup_linear_from t name nh sig (Suc i)))
      else Some None)"
  by pat_completeness auto
termination by (relation "measure (\<lambda>(t, _, _, _, i). unat (tb_count t) - i)") auto

declare lookup_linear_from.simps [simp del]

definition lookup_linear :: "Table \<Rightarrow> string ptr \<Rightarrow> u32 \<Rightarrow> u64 \<Rightarrow> nat option option" where
  "lookup_linear t name nh sig =
     (case name of
        None \<Rightarrow> Some None
      | Some n \<Rightarrow>
          if tb_magic t \<noteq> SKL_ABIX_TABLE_MAGIC then Some None
          else lookup_linear_from t n nh sig 0)"

section \<open>Slot buffers and the recycle pool\<close>

record HashSlot =
  sl_hash :: u32
  sl_index_plus1 :: u32

text \<open>A heap array of slots: its identity and its contents.\<close>

record SlotBuf =
  sb_id :: nat
  sb_data :: "HashSlot list"

definition SKL_ABIX_HASH_THRESHOLD :: u32 where
  "SKL_ABIX_HASH_THRESHOLD = 64"

definition SKL_ABIX_HASH_POOL_MIN_SLOTS :: u32 where
  "SKL_ABIX_HASH_POOL_MIN_SLOTS = 4096"

definition SKL_ABIX_HASH_POOL_MAX_SLOTS :: u32 where
  "SKL_ABIX_HASH_POOL_MAX_SLOTS = push_bit 20 1"

definition next_pow2 :: "u32 \<Rightarrow> u32" where
  "next_pow2 v =
     (if v = 0 then 1
      else let v = v - 1;
               v = v OR drop_bit 1 v;
               v = v OR drop_bit 2 v;
               v = v OR drop_bit 4 v;
               v = v OR drop_bit 8 v;
               v = v OR drop_bit 16 v
           in v + 1)"

definition in_slot_pool_window :: "u32 \<Rightarrow> bool" where
  "in_slot_pool_window capacity \<longleftrightarrow>
     SKL_ABIX_HASH_POOL_MIN_SLOTS \<le> capacity \<and> capacity \<le> SKL_ABIX_HASH_POOL_MAX_SLOTS"

text \<open>
  The process-wide pool together with the allocator's history: the identity the next \<open>new\<close> gets and
  the identities passed to \<open>delete[]\<close>, oldest first. The pool's lock makes \<open>take\<close> and the exchange
  in \<open>offer\<close> atomic.
\<close>

record SlotPool =
  sp_slots :: "SlotBuf ptr"
  sp_capacity :: u32
  sp_next_id :: nat
  sp_deleted :: "nat list"

definition pool_take :: "SlotPool \<Rightarrow> u32 \<Rightarrow> SlotBuf ptr \<times> SlotPool" where
  "pool_take p want =
     (if sp_slots p \<noteq> None \<and> sp_capacity p = want
      then (sp_slots p, p\<lparr>sp_slots := None, sp_capacity := 0\<rparr>)
      else (None, p))"

text \<open>\<open>delete[]\<close> of a null pointer does nothing.\<close>

definition delete_slots :: "SlotBuf ptr \<Rightarrow> SlotPool \<Rightarrow> SlotPool" where
  "delete_slots b p = (case b of None \<Rightarrow> p | Some buf \<Rightarrow> p\<lparr>sp_deleted := sp_deleted p @ [sb_id buf]\<rparr>)"

definition pool_offer :: "SlotPool \<Rightarrow> SlotBuf ptr \<Rightarrow> u32 \<Rightarrow> SlotPool" where
  "pool_offer p buf cap =
     (let fits = SKL_ABIX_HASH_POOL_MIN_SLOTS \<le> cap \<and> cap \<le> SKL_ABIX_HASH_POOL_MAX_SLOTS in
      if buf \<noteq> None \<and> fits \<and> (sp_slots p = None \<or> sp_capacity p \<noteq> cap)
      then delete_slots (sp_slots p) (p\<lparr>sp_slots := buf, sp_capacity := cap\<rparr>)
      else delete_slots buf p)"

text \<open>
  \<open>new (std::nothrow) HashSlot[n]\<close>. The memory is given from outside: \<open>None\<close> when the allocator
  fails, otherwise the indeterminate contents of the fresh array.
\<close>

definition new_slots :: "(nat \<Rightarrow> HashSlot) option \<Rightarrow> u32 \<Rightarrow> SlotPool \<Rightarrow> SlotBuf ptr \<times> SlotPool" where
  "new_slots memory n p =
     (case memory of
        None \<Rightarrow> (None, p)
      | Some garbage \<Rightarrow>
          (Some \<lparr>sb_id = sp_next_id p, sb_data = map garbage [0..<unat n]\<rparr>,
           p\<lparr>sp_next_id := Suc (sp_next_id p)\<rparr>))"

section \<open>The hash index\<close>

record HashIndex =
  hi_slots :: "SlotBuf ptr"
  hi_capacity :: u32
  hi_mask :: u32

definition empty_index :: HashIndex where
  "empty_index = \<lparr>hi_slots = None, hi_capacity = 0, hi_mask = 0\<rparr>"

definition index_valid :: "HashIndex \<Rightarrow> bool" where
  "index_valid idx \<longleftrightarrow> hi_slots idx \<noteq> None"

definition index_release :: "HashIndex \<Rightarrow> SlotPool \<Rightarrow> HashIndex \<times> SlotPool" where
  "index_release idx p =
     (case hi_slots idx of
        None \<Rightarrow> (idx, p)
      | Some buf \<Rightarrow>
          (idx\<lparr>hi_slots := None\<rparr>,
           if in_slot_pool_window (hi_capacity idx) then pool_offer p (Some buf) (hi_capacity idx)
           else delete_slots (Some buf) p))"

text \<open>
  The shape of every probe loop: at an occupied slot run \<open>body\<close> and, unless it returns, go to the
  next position; at an empty slot leave the loop with the position. \<open>None\<close> is a loop that never ends
  or that faults.
\<close>

datatype 'r probe_step = ps_continue | ps_return 'r | ps_fault

partial_function (option) probe_from ::
  "HashSlot list \<Rightarrow> u32 \<Rightarrow> (HashSlot \<Rightarrow> 'r probe_step) \<Rightarrow> u32 \<Rightarrow> (u32 + 'r) option" where
  "probe_from slots msk body pos =
     (if unat pos < length slots then
        (if sl_index_plus1 (slots ! unat pos) = 0 then Some (Inl pos)
         else (case body (slots ! unat pos) of
                 ps_fault \<Rightarrow> None
               | ps_return r \<Rightarrow> Some (Inr r)
               | ps_continue \<Rightarrow> probe_from slots msk body ((pos + 1) AND msk)))
      else None)"

text \<open>The search for a free slot in \<open>build\<close> skips every occupied one.\<close>

definition insert_body :: "HashSlot \<Rightarrow> unit probe_step" where
  "insert_body s = ps_continue"

definition index_insert :: "u32 \<Rightarrow> Entry \<Rightarrow> nat \<Rightarrow> HashSlot list \<Rightarrow> HashSlot list option" where
  "index_insert msk e i slots =
     (case probe_from slots msk insert_body (en_name_hash e AND msk) of
        Some (Inl pos) \<Rightarrow>
          Some (slots[unat pos := \<lparr>sl_hash = en_name_hash e, sl_index_plus1 = of_nat i + 1\<rparr>])
      | _ \<Rightarrow> None)"

function index_fill :: "Table \<Rightarrow> u32 \<Rightarrow> nat \<Rightarrow> HashSlot list \<Rightarrow> HashSlot list option" where
  "index_fill t msk i slots =
     (if i < unat (tb_count t) then
        (case entry_at t i of
           None \<Rightarrow> None
         | Some e \<Rightarrow>
             (case index_insert msk e i slots of
                None \<Rightarrow> None
              | Some slots' \<Rightarrow> index_fill t msk (Suc i) slots'))
      else Some slots)"
  by pat_completeness auto
termination by (relation "measure (\<lambda>(t, _, i, _). unat (tb_count t) - i)") auto

declare index_fill.simps [simp del]

text \<open>
  \<open>build\<close>: release the old buffer, size the array, take a pooled buffer of the same capacity or
  allocate one, zero its first \<open>capacity\<close> slots and insert every entry.
\<close>

definition empty_slot :: HashSlot where
  "empty_slot = \<lparr>sl_hash = 0, sl_index_plus1 = 0\<rparr>"

definition memset_slots :: "HashSlot list \<Rightarrow> nat \<Rightarrow> HashSlot list option" where
  "memset_slots slots n =
     (if n \<le> length slots then Some (replicate n empty_slot @ drop n slots) else None)"

definition index_build :: "(nat \<Rightarrow> HashSlot) option \<Rightarrow> Table \<Rightarrow> HashIndex \<Rightarrow> SlotPool \<Rightarrow> (HashIndex \<times> SlotPool) option" where
  "index_build memory t idx p =
     (let (idx, p) = index_release idx p;
          capacity = next_pow2 (tb_count t * 2);
          msk = capacity - 1;
          (buf, p) = (if in_slot_pool_window capacity then pool_take p capacity else (None, p));
          (buf, p) = (case buf of None \<Rightarrow> new_slots memory capacity p | Some b \<Rightarrow> (Some b, p))
      in case buf of
           None \<Rightarrow> Some (\<lparr>hi_slots = None, hi_capacity = 0, hi_mask = 0\<rparr>, p)
         | Some b \<Rightarrow>
             (case memset_slots (sb_data b) (unat capacity) of
                None \<Rightarrow> None
              | Some zeroed \<Rightarrow>
                  (case index_fill t msk 0 zeroed of
                     None \<Rightarrow> None
                   | Some slots \<Rightarrow>
                       Some (\<lparr>hi_slots = Some (b\<lparr>sb_data := slots\<rparr>), hi_capacity = capacity, hi_mask = msk\<rparr>,
                             p))))"

definition index_destroy :: "HashIndex \<Rightarrow> SlotPool \<Rightarrow> HashIndex \<times> SlotPool" where
  "index_destroy idx p =
     (let (idx, p) = index_release idx p in (idx\<lparr>hi_capacity := 0, hi_mask := 0\<rparr>, p))"

section \<open>Lookup through the index\<close>

definition find_hash_body ::
  "Table \<Rightarrow> string \<Rightarrow> u32 \<Rightarrow> u64 \<Rightarrow> u64 \<Rightarrow> HashSlot \<Rightarrow> (LookupResult \<times> u32) probe_step" where
  "find_hash_body t name nh sig ver s =
     (if sl_hash s = nh then
        (let i = sl_index_plus1 s - 1 in
         case entry_at t (unat i) of
           None \<Rightarrow> ps_fault
         | Some e \<Rightarrow>
             (case strcmp_eq (en_name e) name of
                None \<Rightarrow> ps_fault
              | Some False \<Rightarrow> ps_continue
              | Some True \<Rightarrow>
                  if version_conflict e ver then ps_return (lr_version_mismatch, i)
                  else if en_sig e \<noteq> sig then ps_return (lr_sig_mismatch, i)
                  else ps_return (lr_ok, i)))
      else ps_continue)"

definition find_hash ::
  "Table \<Rightarrow> HashIndex \<Rightarrow> string ptr \<Rightarrow> u32 \<Rightarrow> u64 \<Rightarrow> u64 \<Rightarrow> (LookupResult \<times> u32) option" where
  "find_hash t idx name nh sig ver =
     (case (name, hi_slots idx) of
        (Some n, Some buf) \<Rightarrow>
          if tb_magic t \<noteq> SKL_ABIX_TABLE_MAGIC then Some (lr_bad_Table, no_index)
          else (case probe_from (sb_data buf) (hi_mask idx) (find_hash_body t n nh sig ver)
                       (nh AND hi_mask idx) of
                  None \<Rightarrow> None
                | Some (Inl _) \<Rightarrow> Some (lr_not_found, no_index)
                | Some (Inr r) \<Rightarrow> Some r)
      | _ \<Rightarrow> Some (lr_bad_Table, no_index))"

definition find_hash_by_name where
  "find_hash_by_name cstr64 base t idx name sig ver =
     (case name of
        None \<Rightarrow> Some (lr_bad_Table, no_index)
      | Some n \<Rightarrow> find_hash t idx (Some n) (name_hash cstr64 base (Some n)) sig ver)"

definition lookup_hash_body :: "Table \<Rightarrow> string \<Rightarrow> u32 \<Rightarrow> u64 \<Rightarrow> HashSlot \<Rightarrow> nat probe_step" where
  "lookup_hash_body t name nh sig s =
     (if sl_hash s = nh then
        (let i = unat (sl_index_plus1 s - 1) in
         case entry_at t i of
           None \<Rightarrow> ps_fault
         | Some e \<Rightarrow>
             if en_sig e = sig then
               (case strcmp_eq (en_name e) name of
                  None \<Rightarrow> ps_fault
                | Some True \<Rightarrow> ps_return i
                | Some False \<Rightarrow> ps_continue)
             else ps_continue)
      else ps_continue)"

definition lookup_hash :: "Table \<Rightarrow> HashIndex \<Rightarrow> string ptr \<Rightarrow> u32 \<Rightarrow> u64 \<Rightarrow> nat option option" where
  "lookup_hash t idx name nh sig =
     (case (name, hi_slots idx) of
        (Some n, Some buf) \<Rightarrow>
          if tb_magic t \<noteq> SKL_ABIX_TABLE_MAGIC then Some None
          else (case probe_from (sb_data buf) (hi_mask idx) (lookup_hash_body t n nh sig)
                       (nh AND hi_mask idx) of
                  None \<Rightarrow> None
                | Some (Inl _) \<Rightarrow> Some None
                | Some (Inr i) \<Rightarrow> Some (Some i))
      | _ \<Rightarrow> Some None)"

definition find_index ::
  "Table \<Rightarrow> HashIndex \<Rightarrow> string ptr \<Rightarrow> u32 \<Rightarrow> u64 \<Rightarrow> u64 \<Rightarrow> (LookupResult \<times> u32) option" where
  "find_index t idx name nh sig ver =
     (if index_valid idx then find_hash t idx name nh sig ver else find_linear t name nh sig ver)"

definition find_index_by_name where
  "find_index_by_name cstr64 base t idx name sig ver =
     (case name of
        None \<Rightarrow> Some (lr_bad_Table, no_index)
      | Some n \<Rightarrow> find_index t idx (Some n) (name_hash cstr64 base (Some n)) sig ver)"

section \<open>Rounding up to a power of two\<close>

definition smeared :: "nat \<Rightarrow> u32 \<Rightarrow> u32 \<Rightarrow> bool" where
  "smeared k w a \<longleftrightarrow> (\<forall>n. bit a n \<longleftrightarrow> (\<exists>d<k. bit w (n + d)))"

lemma smeared_double: "smeared k w a \<Longrightarrow> smeared (2 * k) w (a OR drop_bit k a)"
proof -
  assume a: "smeared k w a"
  have "(\<exists>d<2 * k. P d) \<longleftrightarrow> (\<exists>d<k. P d) \<or> (\<exists>d<k. P (k + d))" for P :: "nat \<Rightarrow> bool"
  proof
    assume "\<exists>d<2 * k. P d"
    then obtain d where d: "d < 2 * k" "P d" by auto
    show "(\<exists>d<k. P d) \<or> (\<exists>d<k. P (k + d))"
    proof (cases "d < k")
      case False
      then have "d - k < k" "P (k + (d - k))" using d by auto
      then show ?thesis by blast
    qed (use d in auto)
  next
    assume "(\<exists>d<k. P d) \<or> (\<exists>d<k. P (k + d))"
    then show "\<exists>d<2 * k. P d"
    proof (elim disjE exE conjE)
      fix d assume "d < k" "P d"
      then show ?thesis by (intro exI[of _ d]) simp
    next
      fix d assume "d < k" "P (k + d)"
      then show ?thesis by (intro exI[of _ "k + d"]) simp
    qed
  qed
  then show ?thesis using a by (auto simp: smeared_def bit_simps ac_simps)
qed

lemma smear_mask:
  assumes "smeared 32 w a" shows "\<exists>m\<le>32. a = mask m \<and> unat w < 2 ^ m \<and> (m = 0 \<or> 2 ^ (m - 1) \<le> unat w)"
proof -
  define m where "m = (LEAST m. \<forall>n\<ge>m. \<not> bit w n)"
  have ex: "\<forall>n\<ge>32. \<not> bit w n" by (auto dest: bit_imp_le_length)
  have m: "\<forall>n\<ge>m. \<not> bit w n" unfolding m_def by (rule LeastI[of _ 32]) (rule ex)
  have m32: "m \<le> 32" unfolding m_def by (rule Least_le) (rule ex)
  have top: "bit w (m - 1)" if "m \<noteq> 0"
  proof (rule ccontr)
    assume "\<not> bit w (m - 1)"
    have "\<forall>n\<ge>m - 1. \<not> bit w n"
    proof (intro allI impI)
      fix n assume "m - 1 \<le> n"
      then have "n = m - 1 \<or> m \<le> n" by linarith
      then show "\<not> bit w n" using m \<open>\<not> bit w (m - 1)\<close> by blast
    qed
    then have "m \<le> m - 1" by (subst m_def) (rule Least_le)
    then show False using that by simp
  qed
  have "bit a n \<longleftrightarrow> n < m" for n
  proof
    assume "bit a n"
    then obtain d where "bit w (n + d)" using assms by (auto simp: smeared_def)
    then have "n + d < m" using m by (meson not_le)
    then show "n < m" by simp
  next
    assume "n < m"
    then have "bit w (n + (m - 1 - n))" "m - 1 - n < 32" using top m32 by auto
    then show "bit a n" using assms unfolding smeared_def by blast
  qed
  then have "a = mask m" using m32 by (intro bit_word_eqI) (auto simp: bit_simps)
  moreover have "unat w < 2 ^ m"
  proof -
    have "take_bit m w = w" using m by (intro bit_word_eqI) (auto simp: bit_simps not_le)
    then have "take_bit m (unat w) = unat w" by (metis unsigned_take_bit_eq)
    then show ?thesis by (simp add: take_bit_nat_eq_self_iff)
  qed
  moreover have "m = 0 \<or> 2 ^ (m - 1) \<le> unat w"
  proof (cases "m = 0")
    case False
    then have "bit (unat w) (m - 1)" using top m32 by (simp add: bit_unsigned_iff)
    then have "\<not> unat w < 2 ^ (m - 1)" by (auto simp: bit_iff_odd)
    then show ?thesis by simp
  qed simp
  ultimately show ?thesis using m32 by blast
qed

lemma next_pow2_correct:
  assumes "unat v \<le> 2 ^ 31"
  shows "\<exists>k\<le>31. unat (next_pow2 v) = 2 ^ k \<and> unat v \<le> 2 ^ k \<and> (k = 0 \<or> 2 ^ k < 2 * unat v)"
proof (cases "v = 0")
  case True
  then show ?thesis by (intro exI[of _ 0]) (simp add: next_pow2_def)
next
  case False
  define w where "w = v - 1"
  define a where "a = next_pow2 v - 1"
  have s1: "smeared 1 w w" by (simp add: smeared_def)
  have "smeared 32 w a"
    using smeared_double[OF smeared_double[OF smeared_double[OF smeared_double[OF smeared_double[OF s1]]]]]
    by (simp add: a_def next_pow2_def False Let_def w_def)
  then obtain m where m: "m \<le> 32" "a = mask m" "unat w < 2 ^ m" "m = 0 \<or> 2 ^ (m - 1) \<le> unat w"
    using smear_mask by blast
  have w: "unat w = unat v - 1" using False unfolding w_def by (simp add: unat_minus_one)
  have "unat v > 0" using False by (simp add: unat_gt_0)
  have "m \<noteq> 32" using m(4) w assms by auto
  then have m31: "m \<le> 31" using m(1) by simp
  have "next_pow2 v = a + 1" by (simp add: a_def)
  also have "\<dots> = mask m + 1" using m(2) by simp
  also have "\<dots> = 2 ^ m" by (simp add: mask_eq_exp_minus_1)
  finally have "unat (next_pow2 v) = 2 ^ m" using m31 by (simp add: unat_exp_less)
  moreover have "m = 0 \<or> 2 ^ m < 2 * unat v" 
  proof (cases m)
    case (Suc m') then show ?thesis using m(4) w \<open>unat v > 0\<close> by auto
  qed simp
  ultimately show ?thesis using m(3) w m31 by (intro exI[of _ m]) auto
qed

section \<open>Probing\<close>

text \<open>The slot array of a built index: a power of two long, with the matching mask.\<close>

definition geometry :: "nat \<Rightarrow> u32 \<Rightarrow> HashSlot list \<Rightarrow> bool" where
  "geometry k msk slots \<longleftrightarrow> k \<le> 31 \<and> msk = 2 ^ k - 1 \<and> length slots = 2 ^ k"

lemma mask_step:
  assumes "geometry k msk slots" "unat pos = (a + d) mod 2 ^ k"
  shows "unat ((pos + 1) AND msk) = (a + Suc d) mod 2 ^ k"
proof -
  have "unat pos < 2 ^ k" using assms(2) by simp
  also have "(2::nat) ^ k \<le> 2 ^ 31" using assms(1) by (intro power_increasing) (auto simp: geometry_def)
  finally have "unat (pos + 1) = unat pos + 1" by (subst unat_word_ariths) simp
  moreover have "((a + d) mod 2 ^ k + 1) mod 2 ^ k = (a + Suc d) mod (2 ^ k :: nat)"
    by (simp add: mod_Suc_eq)
  ultimately show ?thesis using assms by (simp add: geometry_def unat_and_mask)
qed

abbreviation slot_at :: "HashSlot list \<Rightarrow> nat \<Rightarrow> nat \<Rightarrow> HashSlot" where
  "slot_at slots a d \<equiv> slots ! ((a + d) mod length slots)"

lemma slot_in_range:
  assumes "geometry k msk slots"
  shows "(a + d) mod length slots < length slots" "0 < length slots"
  using assms by (auto simp: geometry_def)

text \<open>Skipping \<open>d\<close> occupied slots that the body passes over.\<close>

lemma probe_from_skip:
  assumes g: "geometry k msk slots"
    and skip: "\<And>e. e < d \<Longrightarrow> sl_index_plus1 (slot_at slots (unat h) e) \<noteq> 0
                          \<and> body (slot_at slots (unat h) e) = ps_continue"
  shows "\<exists>pos. unat pos = (unat h + d) mod length slots
               \<and> probe_from slots msk body (h AND msk) = probe_from slots msk body pos"
  using skip
proof (induction d)
  case 0
  then show ?case using g by (intro exI[of _ "h AND msk"]) (simp add: geometry_def unat_and_mask)
next
  case (Suc d)
  obtain pos where pos: "unat pos = (unat h + d) mod length slots"
      "probe_from slots msk body (h AND msk) = probe_from slots msk body pos"
    using Suc.IH Suc.prems by auto
  have "probe_from slots msk body pos = probe_from slots msk body ((pos + 1) AND msk)"
    using Suc.prems[of d] pos(1) slot_in_range[OF g] by (subst probe_from.simps) simp
  moreover have "unat ((pos + 1) AND msk) = (unat h + Suc d) mod length slots"
    using mask_step[OF g] pos(1) g by (simp add: geometry_def)
  ultimately show ?case using pos(2) by auto
qed

text \<open>Leaving at the first empty slot, and returning from the first slot the body returns from.\<close>

lemma probe_from_empty:
  assumes "geometry k msk slots" "sl_index_plus1 (slot_at slots (unat h) d) = 0"
    and "\<And>e. e < d \<Longrightarrow> sl_index_plus1 (slot_at slots (unat h) e) \<noteq> 0
                          \<and> body (slot_at slots (unat h) e) = ps_continue"
  shows "\<exists>pos. unat pos = (unat h + d) mod length slots \<and> probe_from slots msk body (h AND msk) = Some (Inl pos)"
proof -
  obtain pos where pos: "unat pos = (unat h + d) mod length slots"
      "probe_from slots msk body (h AND msk) = probe_from slots msk body pos"
    using probe_from_skip[OF assms(1,3)] by blast
  moreover have "probe_from slots msk body pos = Some (Inl pos)"
    using pos(1) assms(2) slot_in_range[OF assms(1)] by (subst probe_from.simps) simp
  ultimately show ?thesis by auto
qed

lemma probe_from_return:
  assumes "geometry k msk slots" "sl_index_plus1 (slot_at slots (unat h) d) \<noteq> 0"
    and "body (slot_at slots (unat h) d) = ps_return r"
    and "\<And>e. e < d \<Longrightarrow> sl_index_plus1 (slot_at slots (unat h) e) \<noteq> 0
                          \<and> body (slot_at slots (unat h) e) = ps_continue"
  shows "probe_from slots msk body (h AND msk) = Some (Inr r)"
proof -
  obtain pos where pos: "unat pos = (unat h + d) mod length slots"
      "probe_from slots msk body (h AND msk) = probe_from slots msk body pos"
    using probe_from_skip[OF assms(1,4)] by blast
  moreover have "probe_from slots msk body pos = Some (Inr r)"
    using pos(1) assms(2,3) slot_in_range[OF assms(1)] by (subst probe_from.simps) simp
  ultimately show ?thesis by simp
qed

text \<open>An array with an empty slot has a first empty slot on every probe path.\<close>

lemma first_empty:
  assumes "geometry k msk slots" "p < length slots" "sl_index_plus1 (slots ! p) = 0"
  obtains d where "sl_index_plus1 (slot_at slots a d) = 0"
    "\<And>e. e < d \<Longrightarrow> sl_index_plus1 (slot_at slots a e) \<noteq> 0"
proof -
  let ?C = "length slots"
  let ?P = "\<lambda>d. sl_index_plus1 (slot_at slots a d) = 0"
  have "(a + (?C - a mod ?C + p)) mod ?C = (a mod ?C + (?C - a mod ?C + p)) mod ?C"
    by (metis mod_add_left_eq)
  also have "\<dots> = (?C + p) mod ?C"
    using mod_less_divisor[of ?C a] assms(2) by (intro arg_cong[of _ _ "\<lambda>x. x mod ?C"]) linarith
  also have "\<dots> = p" using assms(2) by simp
  finally have "?P (?C - a mod ?C + p)" using assms(3) by simp
  then have "?P (LEAST d. ?P d)" by (rule LeastI)
  moreover have "\<And>e. e < (LEAST d. ?P d) \<Longrightarrow> \<not> ?P e" by (rule not_less_Least)
  ultimately show ?thesis using that by blast
qed

section \<open>Building the index\<close>

text \<open>A table a module may publish: the magic, enough entries for its count, and no null name.\<close>

definition table_ok :: "Table \<Rightarrow> bool" where
  "table_ok t \<longleftrightarrow>
     (case tb_entries t of
        None \<Rightarrow> False
      | Some es \<Rightarrow>
          unat (tb_count t) \<le> length es \<and> (\<forall>e \<in> set (take (unat (tb_count t)) es). en_name e \<noteq> None))
     \<and> tb_magic t = SKL_ABIX_TABLE_MAGIC"

definition entry_of :: "Table \<Rightarrow> nat \<Rightarrow> Entry" where
  "entry_of t i = the (tb_entries t) ! i"

lemma table_ok_entry:
  assumes "table_ok t" "i < unat (tb_count t)"
  shows "entry_at t i = Some (entry_of t i)" "\<exists>s. en_name (entry_of t i) = Some s"
proof -
  obtain es where es: "tb_entries t = Some es" "unat (tb_count t) \<le> length es"
      "\<forall>e \<in> set (take (unat (tb_count t)) es). en_name e \<noteq> None"
    using assms(1) by (auto simp: table_ok_def split: option.splits)
  show "entry_at t i = Some (entry_of t i)" using assms(2) es by (simp add: entry_at_def entry_of_def)
  have "es ! i \<in> set (take (unat (tb_count t)) es)"
    using assms(2) es(2) by (auto simp: in_set_conv_nth intro: exI[of _ i])
  then show "\<exists>s. en_name (entry_of t i) = Some s" using es by (auto simp: entry_of_def)
qed

definition slots_sound :: "Table \<Rightarrow> nat \<Rightarrow> HashSlot list \<Rightarrow> bool" where
  "slots_sound t i slots \<longleftrightarrow>
     (\<forall>p < length slots. sl_index_plus1 (slots ! p) \<noteq> 0 \<longrightarrow>
        unat (sl_index_plus1 (slots ! p)) \<le> i \<and>
        sl_hash (slots ! p) = en_name_hash (entry_of t (unat (sl_index_plus1 (slots ! p)) - 1)))"

text \<open>Entry \<open>j\<close> sits \<open>d\<close> steps after its home slot, behind earlier entries only.\<close>

definition sits_at :: "Table \<Rightarrow> HashSlot list \<Rightarrow> nat \<Rightarrow> nat \<Rightarrow> bool" where
  "sits_at t slots j d \<longleftrightarrow>
     unat (sl_index_plus1 (slot_at slots (unat (en_name_hash (entry_of t j))) d)) = Suc j \<and>
     (\<forall>e < d. sl_index_plus1 (slot_at slots (unat (en_name_hash (entry_of t j))) e) \<noteq> 0 \<and>
              unat (sl_index_plus1 (slot_at slots (unat (en_name_hash (entry_of t j))) e)) \<le> j)"

definition occupied :: "HashSlot list \<Rightarrow> nat set" where
  "occupied slots = {p. p < length slots \<and> sl_index_plus1 (slots ! p) \<noteq> 0}"

lemma finite_occupied [simp]: "finite (occupied slots)"
  by (simp add: occupied_def)

definition filled :: "Table \<Rightarrow> nat \<Rightarrow> HashSlot list \<Rightarrow> bool" where
  "filled t i slots \<longleftrightarrow>
     slots_sound t i slots \<and> (\<forall>j < i. \<exists>d. sits_at t slots j d) \<and> card (occupied slots) \<le> i"

lemma filled_empty_slot:
  assumes "geometry k msk slots" "filled t i slots" "i < 2 ^ k"
  obtains p where "p < length slots" "sl_index_plus1 (slots ! p) = 0"
proof (rule ccontr)
  assume "\<not> thesis"
  then have "occupied slots = {..<length slots}" using that by (auto simp: occupied_def)
  then show False using assms by (simp add: filled_def geometry_def)
qed

lemma sits_at_update:
  assumes "geometry k msk slots" "sits_at t slots j d" "sl_index_plus1 (slots ! q) = 0"
  shows "sits_at t (slots[q := s]) j d"
proof -
  let ?a = "unat (en_name_hash (entry_of t j))"
  have "slot_at (slots[q := s]) ?a e = slot_at slots ?a e" if "e \<le> d" for e
  proof -
    have "sl_index_plus1 (slot_at slots ?a e) \<noteq> 0"
      using assms(2) that by (cases "e = d") (auto simp: sits_at_def)
    then have "(?a + e) mod length slots \<noteq> q" using assms(3) by auto
    then show ?thesis by simp
  qed
  then show ?thesis using assms(2) by (simp add: sits_at_def)
qed

lemma index_insert_filled:
  assumes g: "geometry k msk slots" and fl: "filled t i slots" and i: "i < 2 ^ k"
  shows "\<exists>slots'. index_insert msk (entry_of t i) i slots = Some slots'
                  \<and> geometry k msk slots' \<and> filled t (Suc i) slots'"
proof -
  let ?e = "entry_of t i"
  let ?a = "unat (en_name_hash ?e)"
  let ?s = "\<lparr>sl_hash = en_name_hash ?e, sl_index_plus1 = of_nat i + 1\<rparr> :: HashSlot"
  obtain p where p: "p < length slots" "sl_index_plus1 (slots ! p) = 0"
    using filled_empty_slot[OF g fl i] .
  obtain d where d: "sl_index_plus1 (slot_at slots ?a d) = 0"
      "\<And>e. e < d \<Longrightarrow> sl_index_plus1 (slot_at slots ?a e) \<noteq> 0"
    using first_empty[OF g p] by metis
  obtain pos where pos: "unat pos = (?a + d) mod length slots"
      "probe_from slots msk insert_body (en_name_hash ?e AND msk) = Some (Inl pos)"
    using probe_from_empty[OF g d(1), of insert_body] d(2) by (auto simp: insert_body_def)
  define q where "q = unat pos"
  have q: "q < length slots" "sl_index_plus1 (slots ! q) = 0"
    using pos(1) d(1) slot_in_range[OF g] by (auto simp: q_def)
  have ins: "index_insert msk ?e i slots = Some (slots[q := ?s])"
    using pos(2) by (simp add: index_insert_def q_def)
  have "i + 1 < 2 ^ 32"
  proof -
    have "(2::nat) ^ k \<le> 2 ^ 31" using g by (intro power_increasing) (auto simp: geometry_def)
    then show ?thesis using i by simp
  qed
  then have "unat (of_nat (Suc i) :: u32) = Suc i" by (simp only: unat_of_nat) simp
  then have w: "unat (of_nat i + 1 :: u32) = Suc i" by (simp add: add.commute)
  have sound: "slots_sound t (Suc i) (slots[q := ?s])"
    using fl w q(1) by (auto simp: slots_sound_def filled_def nth_list_update)
  have old: "\<exists>d. sits_at t (slots[q := ?s]) j d" if "j < i" for j
    using fl that sits_at_update[OF g _ q(2)] unfolding filled_def by blast
  have new: "sits_at t (slots[q := ?s]) i d"
    unfolding sits_at_def
  proof (intro conjI allI impI)
    have "slot_at (slots[q := ?s]) ?a d = ?s" using q pos(1) by (simp add: q_def)
    then show "unat (sl_index_plus1 (slot_at (slots[q := ?s]) ?a d)) = Suc i" using w by simp
    fix e assume "e < d"
    then have "(?a + e) mod length slots \<noteq> q" using d(2) q(2) by auto
    then have eq: "slot_at (slots[q := ?s]) ?a e = slot_at slots ?a e" by simp
    show "sl_index_plus1 (slot_at (slots[q := ?s]) ?a e) \<noteq> 0"
      unfolding eq by (rule d(2)[OF \<open>e < d\<close>])
    show "unat (sl_index_plus1 (slot_at (slots[q := ?s]) ?a e)) \<le> i"
      unfolding eq using fl d(2)[OF \<open>e < d\<close>] slot_in_range[OF g]
      by (simp add: filled_def slots_sound_def)
  qed
  have "occupied (slots[q := ?s]) \<subseteq> insert q (occupied slots)"
    using q(1) by (auto simp: occupied_def nth_list_update)
  then have "card (occupied (slots[q := ?s])) \<le> card (insert q (occupied slots))"
    by (intro card_mono) simp_all
  also have "\<dots> \<le> Suc (card (occupied slots))" by (simp add: card_insert_if)
  finally have "card (occupied (slots[q := ?s])) \<le> Suc i" using fl by (simp add: filled_def)
  then have "filled t (Suc i) (slots[q := ?s])"
    using sound old new by (auto simp: filled_def less_Suc_eq)
  moreover have "geometry k msk (slots[q := ?s])" using g by (simp add: geometry_def)
  ultimately show ?thesis using ins by blast
qed

lemma index_fill_filled:
  assumes "table_ok t" "unat (tb_count t) \<le> 2 ^ k" "geometry k msk slots" "filled t i slots" "i \<le> unat (tb_count t)"
  shows "\<exists>slots'. index_fill t msk i slots = Some slots' \<and> geometry k msk slots'
                  \<and> filled t (unat (tb_count t)) slots'"
  using assms(3-)
proof (induction "unat (tb_count t) - i" arbitrary: i slots)
  case 0
  then show ?case by (subst index_fill.simps) simp
next
  case (Suc n)
  then have i: "i < unat (tb_count t)" by simp
  obtain slots' where s': "index_insert msk (entry_of t i) i slots = Some slots'"
      "geometry k msk slots'" "filled t (Suc i) slots'"
    using index_insert_filled[OF Suc.prems(1,2)] i assms(2) by auto
  have "index_fill t msk i slots = index_fill t msk (Suc i) slots'"
    using i table_ok_entry(1)[OF assms(1) i] s'(1) by (subst index_fill.simps) simp
  then show ?case using Suc.hyps(1)[OF _ s'(2,3)] Suc.hyps(2) i by simp
qed

lemma filled_zeroed: "filled t 0 (replicate n empty_slot)"
  by (simp add: filled_def slots_sound_def occupied_def empty_slot_def)

text \<open>The buffers an index and the pool hold have the capacity recorded beside them.\<close>

definition pool_ok :: "SlotPool \<Rightarrow> bool" where
  "pool_ok p \<longleftrightarrow> (case sp_slots p of None \<Rightarrow> True | Some b \<Rightarrow> length (sb_data b) = unat (sp_capacity p))"

definition index_ok :: "HashIndex \<Rightarrow> bool" where
  "index_ok idx \<longleftrightarrow> (case hi_slots idx of None \<Rightarrow> True | Some b \<Rightarrow> length (sb_data b) = unat (hi_capacity idx))"

lemmas pool_defs = pool_take_def pool_offer_def delete_slots_def new_slots_def index_release_def

lemma index_release_ok:
  "pool_ok p \<Longrightarrow> index_ok idx \<Longrightarrow> pool_ok (snd (index_release idx p))"
  by (auto simp: pool_defs pool_ok_def index_ok_def Let_def split: option.splits)

lemma index_release_slots: "hi_slots (fst (index_release idx p)) = None"
  by (auto simp: index_release_def split: option.splits)

text \<open>Where the buffer of a build comes from.\<close>

definition acquire_slots :: "(nat \<Rightarrow> HashSlot) option \<Rightarrow> u32 \<Rightarrow> SlotPool \<Rightarrow> SlotBuf ptr \<times> SlotPool" where
  "acquire_slots memory capacity p =
     (let (buf, p) = (if in_slot_pool_window capacity then pool_take p capacity else (None, p))
      in case buf of None \<Rightarrow> new_slots memory capacity p | Some b \<Rightarrow> (Some b, p))"

lemma acquire_slots_length:
  "pool_ok p \<Longrightarrow> fst (acquire_slots memory capacity p) = Some b \<Longrightarrow> length (sb_data b) = unat capacity"
  by (auto simp: acquire_slots_def pool_defs pool_ok_def split: option.splits if_splits)

lemma acquire_slots_pool_ok: "pool_ok p \<Longrightarrow> pool_ok (snd (acquire_slots memory capacity p))"
  by (auto simp: acquire_slots_def pool_defs pool_ok_def split: option.splits if_splits)

lemma acquire_slots_available: "fst (acquire_slots (Some g) capacity p) \<noteq> None"
  by (auto simp: acquire_slots_def pool_defs split: option.splits if_splits)

lemma index_build_eq:
  "index_build memory t idx p =
     (let p = snd (index_release idx p); capacity = next_pow2 (tb_count t * 2); msk = capacity - 1;
          (buf, p) = acquire_slots memory capacity p
      in case buf of
           None \<Rightarrow> Some (\<lparr>hi_slots = None, hi_capacity = 0, hi_mask = 0\<rparr>, p)
         | Some b \<Rightarrow>
             (case memset_slots (sb_data b) (unat capacity) of
                None \<Rightarrow> None
              | Some zeroed \<Rightarrow>
                  (case index_fill t msk 0 zeroed of
                     None \<Rightarrow> None
                   | Some slots \<Rightarrow>
                       Some (\<lparr>hi_slots = Some (b\<lparr>sb_data := slots\<rparr>), hi_capacity = capacity, hi_mask = msk\<rparr>,
                             p))))"
  by (simp add: index_build_def acquire_slots_def Let_def split_def)

text \<open>An index that serves table \<open>t\<close>.\<close>

definition serves :: "Table \<Rightarrow> HashIndex \<Rightarrow> bool" where
  "serves t idx \<longleftrightarrow>
     (\<exists>b k. hi_slots idx = Some b \<and> geometry k (hi_mask idx) (sb_data b) \<and> unat (tb_count t) < 2 ^ k
            \<and> filled t (unat (tb_count t)) (sb_data b) \<and> unat (hi_capacity idx) = 2 ^ k)"

lemma double_count:
  fixes n :: u32
  assumes "unat n \<le> 2 ^ 30" shows "unat (n * 2) = 2 * unat n"
  using assms by (simp add: unat_word_ariths)

lemma index_build_total:
  assumes "table_ok t" "unat (tb_count t) \<le> 2 ^ 30" "pool_ok p" "index_ok idx"
  shows "\<exists>idx' p'. index_build memory t idx p = Some (idx', p') \<and> pool_ok p' \<and> index_ok idx'
           \<and> (if hi_slots idx' = None then memory = None \<and> idx' = empty_index else serves t idx')"
proof -
  let ?n = "unat (tb_count t)"
  define c where "c = next_pow2 (tb_count t * 2)"
  define p1 where "p1 = snd (index_release idx p)"
  have p1: "pool_ok p1" using assms(3,4) unfolding p1_def by (rule index_release_ok)
  obtain k where k: "k \<le> 31" "unat c = 2 ^ k" "2 * ?n \<le> 2 ^ k"
    using next_pow2_correct[of "tb_count t * 2"] double_count[OF assms(2)] assms(2) unfolding c_def by auto
  have nk: "?n < 2 ^ k" using k(3) by (cases "?n = 0") auto
  have "unat c = unat (2 ^ k :: u32)" using k(1,2) by (simp add: unat_exp_less)
  then have c: "c = 2 ^ k" by (simp only: unsigned_word_eqI)
  obtain buf p2 where a: "acquire_slots memory c p1 = (buf, p2)" by force
  have p2: "pool_ok p2" using acquire_slots_pool_ok[OF p1, of memory c] a by simp
  show ?thesis
  proof (cases buf)
    case None
    have "memory = None" using acquire_slots_available a None by (metis fst_conv option.exhaust)
    then show ?thesis using a None p2
      by (simp add: index_build_eq Let_def empty_index_def index_ok_def flip: c_def p1_def)
  next
    case (Some b)
    have len: "length (sb_data b) = 2 ^ k"
      using acquire_slots_length[OF p1, of memory c b] a Some k(2) by simp
    then have z: "memset_slots (sb_data b) (unat c) = Some (replicate (2 ^ k) empty_slot)"
      using k(2) by (simp add: memset_slots_def)
    have "geometry k (c - 1) (replicate (2 ^ k) empty_slot)" using k(1) c by (simp add: geometry_def)
    then obtain slots where s: "index_fill t (c - 1) 0 (replicate (2 ^ k) empty_slot) = Some slots"
        "geometry k (c - 1) slots" "filled t ?n slots"
      using index_fill_filled[OF assms(1) _ _ filled_zeroed] nk by (metis le0 less_imp_le)
    let ?idx = "\<lparr>hi_slots = Some (b\<lparr>sb_data := slots\<rparr>), hi_capacity = c, hi_mask = c - 1\<rparr> :: HashIndex"
    have "index_build memory t idx p = Some (?idx, p2)"
      using a Some z s(1) by (simp add: index_build_eq Let_def flip: c_def p1_def)
    moreover have "serves t ?idx" using s k nk by (auto simp: serves_def)
    moreover have "index_ok ?idx" using s(2) k(2) by (simp add: index_ok_def geometry_def)
    ultimately show ?thesis using p2 by (intro exI[of _ ?idx] exI[of _ p2]) simp
  qed
qed

section \<open>What a lookup finds\<close>

definition entry_matches :: "Table \<Rightarrow> string \<Rightarrow> u32 \<Rightarrow> nat \<Rightarrow> bool" where
  "entry_matches t name nh i \<longleftrightarrow>
     en_name_hash (entry_of t i) = nh \<and> strcmp_eq (en_name (entry_of t i)) name = Some True"

lemma find_upt_Some: "find P [0..<n] = Some j \<longleftrightarrow> j < n \<and> P j \<and> (\<forall>i < j. \<not> P i)"
  by (auto simp: find_Some_iff)

lemma find_upt_None: "find P [0..<n] = None \<longleftrightarrow> (\<forall>i < n. \<not> P i)"
  by (auto simp: find_None_iff)

lemma find_upt_from:
  "i < n \<Longrightarrow> find P [i..<n] = (if P i then Some i else find P [Suc i..<n])"
  by (simp add: upt_conv_Cons)

lemma name_decided:
  assumes "table_ok t" "i < unat (tb_count t)"
  shows "strcmp_eq (en_name (entry_of t i)) name \<noteq> None"
  using table_ok_entry(2)[OF assms] by (auto simp: strcmp_eq_def)

lemma strcmp_cases:
  assumes "table_ok t" "i < unat (tb_count t)"
  obtains "strcmp_eq (en_name (entry_of t i)) name = Some True"
  | "strcmp_eq (en_name (entry_of t i)) name = Some False"
  using name_decided[OF assms, of name] by (cases "strcmp_eq (en_name (entry_of t i)) name") auto

lemma find_linear_from_spec:
  assumes "table_ok t"
  shows "find_linear_from t name nh sig ver i =
     Some (case find (\<lambda>j. entry_matches t name nh j \<and> \<not> version_conflict (entry_of t j) ver)
                   [i..<unat (tb_count t)] of
             None \<Rightarrow> (lr_not_found, no_index)
           | Some j \<Rightarrow> (if en_sig (entry_of t j) \<noteq> sig then lr_sig_mismatch else lr_ok, of_nat j))"
proof (induction "unat (tb_count t) - i" arbitrary: i)
  case 0
  then show ?case by (subst find_linear_from.simps) simp
next
  case (Suc n)
  then have i: "i < unat (tb_count t)" by simp
  then have IH: "find_linear_from t name nh sig ver (Suc i) = Some (case find
       (\<lambda>j. entry_matches t name nh j \<and> \<not> version_conflict (entry_of t j) ver) [Suc i..<unat (tb_count t)] of
             None \<Rightarrow> (lr_not_found, no_index)
           | Some j \<Rightarrow> (if en_sig (entry_of t j) \<noteq> sig then lr_sig_mismatch else lr_ok, of_nat j))"
    using Suc by simp
  show ?case using i table_ok_entry(1)[OF assms i]
    by (subst find_linear_from.simps, cases rule: strcmp_cases[OF assms i, of name])
       (simp_all add: find_upt_from IH entry_matches_def)
qed

lemma lookup_linear_from_spec:
  assumes "table_ok t"
  shows "lookup_linear_from t name nh sig i =
     Some (find (\<lambda>j. entry_matches t name nh j \<and> en_sig (entry_of t j) = sig) [i..<unat (tb_count t)])"
proof (induction "unat (tb_count t) - i" arbitrary: i)
  case 0
  then show ?case by (subst lookup_linear_from.simps) simp
next
  case (Suc n)
  then have i: "i < unat (tb_count t)" by simp
  then have IH: "lookup_linear_from t name nh sig (Suc i) = Some (find
       (\<lambda>j. entry_matches t name nh j \<and> en_sig (entry_of t j) = sig) [Suc i..<unat (tb_count t)])"
    using Suc by simp
  show ?case using i table_ok_entry(1)[OF assms i]
    by (subst lookup_linear_from.simps, cases rule: strcmp_cases[OF assms i, of name])
       (simp_all add: find_upt_from IH entry_matches_def)
qed

text \<open>The probe loop over a filled index visits the candidates in table order.\<close>

lemma probe_from_first:
  assumes g: "geometry k msk slots" and fl: "filled t n slots" and n: "n < 2 ^ k"
    and body: "\<And>s. sl_index_plus1 s \<noteq> 0 \<Longrightarrow> unat (sl_index_plus1 s) \<le> n \<Longrightarrow>
                 sl_hash s = en_name_hash (entry_of t (unat (sl_index_plus1 s) - 1)) \<Longrightarrow>
                 body s = (if P (unat (sl_index_plus1 s) - 1)
                           then ps_return (r (unat (sl_index_plus1 s) - 1)) else ps_continue)"
    and nh: "\<And>i. P i \<Longrightarrow> en_name_hash (entry_of t i) = nh"
  shows "case find P [0..<n] of
           None \<Rightarrow> \<exists>pos. probe_from slots msk body (nh AND msk) = Some (Inl pos)
         | Some j \<Rightarrow> probe_from slots msk body (nh AND msk) = Some (Inr (r j))"
proof -
  have at: "body (slot_at slots a e) = (if P (unat (sl_index_plus1 (slot_at slots a e)) - 1)
              then ps_return (r (unat (sl_index_plus1 (slot_at slots a e)) - 1)) else ps_continue)
            \<and> unat (sl_index_plus1 (slot_at slots a e)) - 1 < n"
    if ne: "sl_index_plus1 (slot_at slots a e) \<noteq> 0" for a e
  proof -
    have "unat (sl_index_plus1 (slot_at slots a e)) \<le> n \<and> sl_hash (slot_at slots a e) =
        en_name_hash (entry_of t (unat (sl_index_plus1 (slot_at slots a e)) - 1))"
      using fl ne slot_in_range[OF g] by (simp add: filled_def slots_sound_def)
    moreover have "unat (sl_index_plus1 (slot_at slots a e)) \<noteq> 0" using ne by (simp add: unat_eq_0)
    ultimately show ?thesis using body[OF ne] by auto
  qed
  show ?thesis
  proof (cases "find P [0..<n]")
    case None
    obtain p where "p < length slots" "sl_index_plus1 (slots ! p) = 0"
      using filled_empty_slot[OF g fl n] .
    then obtain d where d: "sl_index_plus1 (slot_at slots (unat nh) d) = 0"
        "\<And>e. e < d \<Longrightarrow> sl_index_plus1 (slot_at slots (unat nh) e) \<noteq> 0"
      using first_empty[OF g] by metis
    have "body (slot_at slots (unat nh) e) = ps_continue" if "e < d" for e
      using at[OF d(2)[OF that]] None by (auto simp: find_upt_None)
    then have "\<exists>pos. probe_from slots msk body (nh AND msk) = Some (Inl pos)"
      using probe_from_empty[OF g d(1), of body] d(2) by blast
    then show ?thesis using None by simp
  next
    case (Some j)
    then have j: "j < n" "P j" "\<And>i. i < j \<Longrightarrow> \<not> P i" by (auto simp: find_upt_Some)
    obtain d where d: "sits_at t slots j d" using fl j(1) by (auto simp: filled_def)
    have jd: "unat (sl_index_plus1 (slot_at slots (unat nh) d)) = Suc j"
      using d nh[OF j(2)] by (simp add: sits_at_def)
    then have "sl_index_plus1 (slot_at slots (unat nh) d) \<noteq> 0" by auto
    moreover from this have "body (slot_at slots (unat nh) d) = ps_return (r j)"
      using at jd j(2) by simp
    moreover have "sl_index_plus1 (slot_at slots (unat nh) e) \<noteq> 0 \<and> body (slot_at slots (unat nh) e) = ps_continue"
      if "e < d" for e
    proof -
      have ne: "sl_index_plus1 (slot_at slots (unat nh) e) \<noteq> 0"
        and le: "unat (sl_index_plus1 (slot_at slots (unat nh) e)) \<le> j"
        using d nh[OF j(2)] that by (auto simp: sits_at_def)
      have "unat (sl_index_plus1 (slot_at slots (unat nh) e)) \<noteq> 0" using ne by (simp add: unat_eq_0)
      then have "unat (sl_index_plus1 (slot_at slots (unat nh) e)) - 1 < j" using le by linarith
      then show ?thesis using at[OF ne] j(3) ne by auto
    qed
    ultimately have "probe_from slots msk body (nh AND msk) = Some (Inr (r j))"
      by (rule probe_from_return[OF g])
    then show ?thesis using Some by simp
  qed
qed

lemma index_plus1_less:
  fixes x :: u32
  assumes "x \<noteq> 0" shows "unat (x - 1) = unat x - 1" "of_nat (unat x - 1) = x - 1"
proof -
  show *: "unat (x - 1) = unat x - 1" using assms by (rule unat_minus_one)
  show "of_nat (unat x - 1) = x - 1" by (simp only: flip: *) simp
qed

lemma find_hash_spec:
  assumes "table_ok t" "serves t idx"
  shows "find_hash t idx (Some name) nh sig ver =
     Some (case find (entry_matches t name nh) [0..<unat (tb_count t)] of
             None \<Rightarrow> (lr_not_found, no_index)
           | Some j \<Rightarrow> (if version_conflict (entry_of t j) ver then lr_version_mismatch
                        else if en_sig (entry_of t j) \<noteq> sig then lr_sig_mismatch else lr_ok, of_nat j))"
proof -
  let ?n = "unat (tb_count t)"
  let ?r = "\<lambda>j. (if version_conflict (entry_of t j) ver then lr_version_mismatch
                 else if en_sig (entry_of t j) \<noteq> sig then lr_sig_mismatch else lr_ok, of_nat j :: u32)"
  obtain b k where b: "hi_slots idx = Some b" "geometry k (hi_mask idx) (sb_data b)" "?n < 2 ^ k"
      "filled t ?n (sb_data b)"
    using assms(2) by (auto simp: serves_def)
  have "find_hash_body t name nh sig ver s =
      (if entry_matches t name nh (unat (sl_index_plus1 s) - 1)
       then ps_return (?r (unat (sl_index_plus1 s) - 1)) else ps_continue)"
    if s: "sl_index_plus1 s \<noteq> 0" "unat (sl_index_plus1 s) \<le> ?n"
      "sl_hash s = en_name_hash (entry_of t (unat (sl_index_plus1 s) - 1))" for s
  proof -
    have "unat (sl_index_plus1 s) \<noteq> 0" using s(1) by (simp add: unat_eq_0)
    then have i: "unat (sl_index_plus1 s) - 1 < ?n" using s(2) by linarith
    show ?thesis using s table_ok_entry(1)[OF assms(1) i] index_plus1_less[OF s(1)]
      by (cases rule: strcmp_cases[OF assms(1) i, of name])
         (simp_all add: find_hash_body_def entry_matches_def Let_def)
  qed
  from probe_from_first[where P = "entry_matches t name nh" and r = ?r and nh = nh, OF b(2,4,3) this]
  have "case find (entry_matches t name nh) [0..<?n] of
      None \<Rightarrow> \<exists>pos. probe_from (sb_data b) (hi_mask idx) (find_hash_body t name nh sig ver) (nh AND hi_mask idx)
                 = Some (Inl pos)
    | Some j \<Rightarrow> probe_from (sb_data b) (hi_mask idx) (find_hash_body t name nh sig ver) (nh AND hi_mask idx)
                 = Some (Inr (?r j))"
    by (simp add: entry_matches_def)
  then show ?thesis using b(1) assms(1)
    by (auto simp: find_hash_def table_ok_def split: option.splits)
qed

lemma lookup_hash_spec:
  assumes "table_ok t" "serves t idx"
  shows "lookup_hash t idx (Some name) nh sig =
     Some (find (\<lambda>j. entry_matches t name nh j \<and> en_sig (entry_of t j) = sig) [0..<unat (tb_count t)])"
proof -
  let ?n = "unat (tb_count t)"
  let ?P = "\<lambda>j. entry_matches t name nh j \<and> en_sig (entry_of t j) = sig"
  obtain b k where b: "hi_slots idx = Some b" "geometry k (hi_mask idx) (sb_data b)" "?n < 2 ^ k"
      "filled t ?n (sb_data b)"
    using assms(2) by (auto simp: serves_def)
  have "lookup_hash_body t name nh sig s =
      (if ?P (unat (sl_index_plus1 s) - 1) then ps_return (unat (sl_index_plus1 s) - 1) else ps_continue)"
    if s: "sl_index_plus1 s \<noteq> 0" "unat (sl_index_plus1 s) \<le> ?n"
      "sl_hash s = en_name_hash (entry_of t (unat (sl_index_plus1 s) - 1))" for s
  proof -
    have "unat (sl_index_plus1 s) \<noteq> 0" using s(1) by (simp add: unat_eq_0)
    then have i: "unat (sl_index_plus1 s) - 1 < ?n" using s(2) by linarith
    show ?thesis using s table_ok_entry(1)[OF assms(1) i] index_plus1_less[OF s(1)]
      by (cases rule: strcmp_cases[OF assms(1) i, of name])
         (simp_all add: lookup_hash_body_def entry_matches_def Let_def)
  qed
  from probe_from_first[where P = ?P and r = "\<lambda>j. j" and nh = nh, OF b(2,4,3) this]
  have "case find ?P [0..<?n] of
      None \<Rightarrow> \<exists>pos. probe_from (sb_data b) (hi_mask idx) (lookup_hash_body t name nh sig) (nh AND hi_mask idx)
                 = Some (Inl pos)
    | Some j \<Rightarrow> probe_from (sb_data b) (hi_mask idx) (lookup_hash_body t name nh sig) (nh AND hi_mask idx)
                 = Some (Inr j)"
    by (simp add: entry_matches_def)
  then show ?thesis using b(1) assms(1)
    by (auto simp: lookup_hash_def table_ok_def split: option.splits)
qed

section \<open>The lookup contract\<close>

text \<open>
  What a caller of the runtime may rely on, whichever search serves it: a lookup in a usable table
  always comes back; without a version request it reports on the first entry with that name; and \<open>ok\<close>
  is only ever reported for an entry with the requested name, signature and version.
\<close>

locale function_lookup =
  fixes find_fn :: "Table \<Rightarrow> string ptr \<Rightarrow> u32 \<Rightarrow> u64 \<Rightarrow> u64 \<Rightarrow> (LookupResult \<times> u32) option"
    and usable :: "Table \<Rightarrow> bool"
  assumes usable_ok: "usable t \<Longrightarrow> table_ok t"
    and null_name: "find_fn t None nh sig ver = Some (lr_bad_Table, no_index)"
    and returns: "usable t \<Longrightarrow> \<exists>r. find_fn t (Some name) nh sig ver = Some r"
    and unversioned: "usable t \<Longrightarrow> find_fn t (Some name) nh sig 0 =
          Some (case find (entry_matches t name nh) [0..<unat (tb_count t)] of
                  None \<Rightarrow> (lr_not_found, no_index)
                | Some j \<Rightarrow> (if en_sig (entry_of t j) \<noteq> sig then lr_sig_mismatch else lr_ok, of_nat j))"
    and ok_sound: "usable t \<Longrightarrow> find_fn t (Some name) nh sig ver = Some (lr_ok, i) \<Longrightarrow>
          \<exists>j < unat (tb_count t). i = of_nat j \<and> entry_matches t name nh j
             \<and> en_sig (entry_of t j) = sig \<and> \<not> version_conflict (entry_of t j) ver"
begin

lemma total: "usable t \<Longrightarrow> find_fn t name nh sig ver \<noteq> None"
  using returns null_name by (cases name) fastforce+

lemma ok_entry:
  assumes "usable t" "find_fn t name nh sig ver = Some (lr_ok, i)"
  shows "\<exists>e s. entry_at t (unat i) = Some e \<and> en_sig e = sig \<and> en_name e = Some s
               \<and> map_option c_str name = Some (c_str s)"
proof -
  obtain n where n: "name = Some n" using assms(2) null_name by (cases name) auto
  obtain j where j: "j < unat (tb_count t)" "i = of_nat j" "entry_matches t n nh j" "en_sig (entry_of t j) = sig"
    using ok_sound[OF assms(1)] assms(2) n by blast
  have "j < 2 ^ 32" using less_trans[OF j(1) unat_less_size32] by simp
  then have "unat i = j" using j(2) by (simp add: unat_of_nat)
  then show ?thesis using table_ok_entry[OF usable_ok[OF assms(1)] j(1)] j(3,4) n
    by (auto simp: entry_matches_def strcmp_eq_def)
qed

end

interpretation linear: function_lookup find_linear table_ok
proof unfold_locales
  fix t name nh sig ver i
  assume t: "table_ok t"
  then have m: "tb_magic t = SKL_ABIX_TABLE_MAGIC" by (simp add: table_ok_def)
  show "\<exists>r. find_linear t (Some name) nh sig ver = Some r"
    by (simp add: find_linear_def m find_linear_from_spec[OF t])
  show "find_linear t (Some name) nh sig 0 = Some (case find (entry_matches t name nh) [0..<unat (tb_count t)] of
                  None \<Rightarrow> (lr_not_found, no_index)
                | Some j \<Rightarrow> (if en_sig (entry_of t j) \<noteq> sig then lr_sig_mismatch else lr_ok, of_nat j))"
    by (simp add: find_linear_def m find_linear_from_spec[OF t] version_conflict_def)
  assume "find_linear t (Some name) nh sig ver = Some (lr_ok, i)"
  then show "\<exists>j < unat (tb_count t). i = of_nat j \<and> entry_matches t name nh j
             \<and> en_sig (entry_of t j) = sig \<and> \<not> version_conflict (entry_of t j) ver"
    by (auto simp: find_linear_def m find_linear_from_spec[OF t] find_upt_Some split: option.splits if_splits)
qed (auto simp: find_linear_def)

interpretation hashed: function_lookup "\<lambda>t. find_hash t idx" "\<lambda>t. table_ok t \<and> serves t idx" for idx
proof unfold_locales
  fix t name nh sig ver i
  assume t: "table_ok t \<and> serves t idx"
  note spec = find_hash_spec[OF conjunct1[OF t] conjunct2[OF t]]
  show "\<exists>r. find_hash t idx (Some name) nh sig ver = Some r" by (simp add: spec)
  show "find_hash t idx (Some name) nh sig 0 = Some (case find (entry_matches t name nh) [0..<unat (tb_count t)] of
                  None \<Rightarrow> (lr_not_found, no_index)
                | Some j \<Rightarrow> (if en_sig (entry_of t j) \<noteq> sig then lr_sig_mismatch else lr_ok, of_nat j))"
    by (simp add: spec version_conflict_def split: option.splits)
  assume "find_hash t idx (Some name) nh sig ver = Some (lr_ok, i)"
  then show "\<exists>j < unat (tb_count t). i = of_nat j \<and> entry_matches t name nh j
             \<and> en_sig (entry_of t j) = sig \<and> \<not> version_conflict (entry_of t j) ver"
    by (auto simp: spec find_upt_Some split: option.splits if_splits)
qed (auto simp: find_hash_def)

text \<open>The automatic choice: the index when there is one, the scan otherwise.\<close>

interpretation auto: function_lookup "\<lambda>t. find_index t idx"
  "\<lambda>t. table_ok t \<and> (index_valid idx \<longrightarrow> serves t idx)" for idx
proof (cases "index_valid idx")
  case True
  then show "function_lookup (\<lambda>t. find_index t idx) (\<lambda>t. table_ok t \<and> (index_valid idx \<longrightarrow> serves t idx))"
    using hashed.function_lookup_axioms[of idx] by (simp add: find_index_def [abs_def])
next
  case False
  then show "function_lookup (\<lambda>t. find_index t idx) (\<lambda>t. table_ok t \<and> (index_valid idx \<longrightarrow> serves t idx))"
    using linear.function_lookup_axioms by (simp add: find_index_def [abs_def])
qed

section \<open>Properties\<close>

definition demo_entry :: "string \<Rightarrow> u32 \<Rightarrow> u64 \<Rightarrow> u64 \<Rightarrow> Entry" where
  "demo_entry n h sg v =
     \<lparr>en_name = Some n, en_sig = sg, en_version = v, en_fnptr = 0x1000, en_name_hash = h, en_flags = 0\<rparr>"

definition demo_table :: Table where
  "demo_table = make_table [demo_entry ''f'' 5 1 1, demo_entry ''g'' 5 1 1, demo_entry ''f'' 5 1 2]"

definition demo_pool :: SlotPool where
  "demo_pool = \<lparr>sp_slots = None, sp_capacity = 0, sp_next_id = 0, sp_deleted = []\<rparr>"

lemma demo_table_ok: "table_ok demo_table" "unat (tb_count demo_table) = 3"
  by (simp_all add: demo_table_def make_table_def table_ok_def demo_entry_def unat_of_nat)

lemma demo_pool_ok: "pool_ok demo_pool" "index_ok empty_index"
  by (simp_all add: pool_ok_def demo_pool_def index_ok_def empty_index_def)

text \<open>C22.  Building an index always ends. For a table of at most \<open>2 ^ 30\<close> entries whose names are
  not null, \<open>build\<close> never probes forever and never writes outside the slot array, also when the
  buffer comes out of the recycle pool; when memory is available the index it leaves is usable.\<close>

theorem index_build_terminates:
  assumes "table_ok t" "unat (tb_count t) \<le> 2 ^ 30" "pool_ok p" "index_ok idx"
  shows "\<exists>idx' p'. index_build memory t idx p = Some (idx', p') \<and> pool_ok p' \<and> index_ok idx'
           \<and> (memory \<noteq> None \<longrightarrow> index_valid idx')"
  using index_build_total[OF assms, of memory] by (auto simp: index_valid_def split: if_splits)

theorem index_build_terminates_witness:
  "\<exists>idx' p'. index_build (Some (\<lambda>i. \<lparr>sl_hash = 77, sl_index_plus1 = of_nat i\<rparr>)) demo_table empty_index demo_pool
       = Some (idx', p') \<and> index_valid idx'"
  using index_build_terminates[OF demo_table_ok(1) _ demo_pool_ok,
      of "Some (\<lambda>i. \<lparr>sl_hash = 77, sl_index_plus1 = of_nat i\<rparr>)"] demo_table_ok(2) by auto

text \<open>What a version request adds: the first entry of the name decides in the index, a later one may in the scan.\<close>

lemma find_index_versioned:
  assumes "table_ok t" "index_valid idx \<longrightarrow> serves t idx"
  shows "find_index t idx (Some n) nh sig ver =
    (case find (entry_matches t n nh) [0..<unat (tb_count t)] of
       Some j \<Rightarrow> if index_valid idx \<and> version_conflict (entry_of t j) ver then Some (lr_version_mismatch, of_nat j)
                 else find_linear t (Some n) nh sig ver
     | None \<Rightarrow> find_linear t (Some n) nh sig ver)"
proof (cases "index_valid idx")
  case True
  have m: "tb_magic t = SKL_ABIX_TABLE_MAGIC" using assms(1) by (simp add: table_ok_def)
  note spec = find_hash_spec[OF assms(1) mp[OF assms(2) True]]
  show ?thesis
  proof (cases "find (entry_matches t n nh) [0..<unat (tb_count t)]")
    case None
    then have "find (\<lambda>j. entry_matches t n nh j \<and> \<not> version_conflict (entry_of t j) ver) [0..<unat (tb_count t)] = None"
      by (auto simp: find_upt_None)
    then show ?thesis using None True by (simp add: find_index_def spec find_linear_def m find_linear_from_spec[OF assms(1)])
  next
    case (Some j)
    then have "find (\<lambda>j. entry_matches t n nh j \<and> \<not> version_conflict (entry_of t j) ver) [0..<unat (tb_count t)] = Some j"
      if "\<not> version_conflict (entry_of t j) ver"
      using that by (auto simp: find_upt_Some)
    then show ?thesis using Some True by (simp add: find_index_def spec find_linear_def m find_linear_from_spec[OF assms(1)])
  qed
qed (simp add: find_index_def split: option.split)

text \<open>C5.  The hash index is an optimisation for lookups without a version request: over an index built for a
  table of at most \<open>2 ^ 30\<close> named entries, from any well-formed earlier state, the probe loops end and
  return exactly what the linear scans return: \<open>lookup_hash\<close> the same entry as \<open>lookup_linear\<close>, and
  \<open>find_index\<close> the same verdict and index as \<open>find_linear\<close>, on every name, hash and signature, null names
  included. With a version request they differ in exactly one case: the first entry of the name has another
  version; then the index reports \<open>version_mismatch\<close> on it while the scan goes on behind it.\<close>

theorem hash_lookup_equals_linear:
  assumes "table_ok t" "unat (tb_count t) \<le> 2 ^ 30" "pool_ok p" "index_ok idx"
    and "index_build memory t idx p = Some (idx', p')"
  shows "find_index t idx' name nh sig 0 = find_linear t name nh sig 0
       \<and> (index_valid idx' \<longrightarrow> lookup_hash t idx' name nh sig = lookup_linear t name nh sig)
       \<and> find_linear t name nh sig ver \<noteq> None \<and> lookup_linear t name nh sig \<noteq> None
       \<and> find_index t idx' (Some n) nh sig ver =
           (case find (entry_matches t n nh) [0..<unat (tb_count t)] of
              Some j \<Rightarrow> if index_valid idx' \<and> version_conflict (entry_of t j) ver then Some (lr_version_mismatch, of_nat j)
                        else find_linear t (Some n) nh sig ver
            | None \<Rightarrow> find_linear t (Some n) nh sig ver)"
proof -
  have sv: "index_valid idx' \<longrightarrow> serves t idx'"
    using index_build_total[OF assms(1-4), of memory] assms(5) by (auto simp: index_valid_def split: if_splits)
  have "find_index t idx' name nh sig 0 = find_linear t name nh sig 0"
    using auto.unversioned[of t idx'] auto.null_name linear.unversioned linear.null_name assms(1) sv
    by (cases name) simp_all
  moreover have "lookup_hash t idx' name nh sig = lookup_linear t name nh sig" if "index_valid idx'"
    using that sv assms(1)
    by (cases name) (simp_all add: lookup_hash_def[of _ _ None] lookup_linear_def lookup_hash_spec
        lookup_linear_from_spec table_ok_def)
  moreover have "lookup_linear t name nh sig \<noteq> None"
    using assms(1) by (cases name) (simp_all add: lookup_linear_def lookup_linear_from_spec table_ok_def)
  ultimately show ?thesis using linear.total[OF assms(1)] find_index_versioned[OF assms(1) sv] by blast
qed

lemma demo_build:
  obtains idx' p' where
    "index_build (Some (\<lambda>i. \<lparr>sl_hash = 77, sl_index_plus1 = of_nat i\<rparr>)) demo_table empty_index demo_pool = Some (idx', p')"
    "index_valid idx'" "serves demo_table idx'"
  using index_build_total[OF demo_table_ok(1) _ demo_pool_ok,
      of "Some (\<lambda>i. \<lparr>sl_hash = 77, sl_index_plus1 = of_nat i\<rparr>)"] demo_table_ok(2)
  by (auto simp: index_valid_def split: if_splits)

theorem hash_lookup_equals_linear_witness:
  "\<exists>idx' p'. index_build (Some (\<lambda>i. \<lparr>sl_hash = 77, sl_index_plus1 = of_nat i\<rparr>)) demo_table empty_index demo_pool
       = Some (idx', p')
     \<and> lookup_hash demo_table idx' (Some ''g'') 5 1 = lookup_linear demo_table (Some ''g'') 5 1"
proof (rule demo_build)
  fix idx' p'
  assume b: "index_build (Some (\<lambda>i. \<lparr>sl_hash = 77, sl_index_plus1 = of_nat i\<rparr>)) demo_table empty_index demo_pool
       = Some (idx', p')" and v: "index_valid idx'"
  have "unat (tb_count demo_table) \<le> 2 ^ 30" by (simp add: demo_table_ok)
  from hash_lookup_equals_linear[OF demo_table_ok(1) this demo_pool_ok b] v b
  show ?thesis by blast
qed

text \<open>With a version request the two searches part: the scan steps over an entry of another
  version and finds a later one, the index stops at the first entry with that name and reports
  \<open>version_mismatch\<close>. So a table's answer depends on whether an index was built for it.\<close>

lemma version_request_diverges:
  "\<exists>idx' p'. index_build (Some (\<lambda>i. \<lparr>sl_hash = 77, sl_index_plus1 = of_nat i\<rparr>)) demo_table empty_index demo_pool
       = Some (idx', p')
     \<and> find_index demo_table idx' (Some ''f'') 5 1 2 = Some (lr_version_mismatch, 0)
     \<and> find_index demo_table empty_index (Some ''f'') 5 1 2 = Some (lr_ok, 2)"
proof (rule demo_build)
  fix idx' p'
  assume b: "index_build (Some (\<lambda>i. \<lparr>sl_hash = 77, sl_index_plus1 = of_nat i\<rparr>)) demo_table empty_index demo_pool
       = Some (idx', p')" "index_valid idx'" "serves demo_table idx'"
  have ent: "entry_of demo_table 0 = demo_entry ''f'' 5 1 1" "entry_of demo_table 1 = demo_entry ''g'' 5 1 1"
    "entry_of demo_table 2 = demo_entry ''f'' 5 1 2"
    by (simp_all add: entry_of_def demo_table_def make_table_def)
  have ent1: "entry_of demo_table (Suc 0) = demo_entry ''g'' 5 1 1" using ent(2) by simp
  have upt: "[0..<3] = [0, 1, 2::nat]" by code_simp
  have "find_index demo_table idx' (Some ''f'') 5 1 2 = Some (lr_version_mismatch, 0)"
    using b(2) by (simp add: find_index_def find_hash_spec[OF demo_table_ok(1) b(3)] demo_table_ok upt ent ent1
        entry_matches_def demo_entry_def strcmp_eq_def c_str_def version_conflict_def)
  moreover have "find_index demo_table empty_index (Some ''f'') 5 1 2 = Some (lr_ok, 2)"
    using demo_table_ok(1) by (simp add: find_index_def index_valid_def empty_index_def find_linear_def table_ok_def
        find_linear_from_spec[OF demo_table_ok(1)] demo_table_ok upt ent ent1
        entry_matches_def demo_entry_def strcmp_eq_def c_str_def version_conflict_def)
  ultimately show ?thesis using b(1) by blast
qed

text \<open>Every slot buffer ever allocated, by where it is now.\<close>

definition ptr_ids :: "SlotBuf ptr \<Rightarrow> nat multiset" where
  "ptr_ids b = (case b of None \<Rightarrow> {#} | Some buf \<Rightarrow> {#sb_id buf#})"

definition buffers :: "HashIndex list \<Rightarrow> SlotPool \<Rightarrow> nat multiset" where
  "buffers idxs p = sum_list (map (\<lambda>x. ptr_ids (hi_slots x)) idxs) + ptr_ids (sp_slots p) + mset (sp_deleted p)"

lemma release_buffers:
  "ptr_ids (sp_slots (snd (index_release idx p))) + mset (sp_deleted (snd (index_release idx p)))
     = ptr_ids (hi_slots idx) + ptr_ids (sp_slots p) + mset (sp_deleted p)
   \<and> sp_next_id (snd (index_release idx p)) = sp_next_id p"
  by (auto simp: pool_defs ptr_ids_def Let_def split: option.splits)

lemma acquire_buffers:
  "acquire_slots memory c p = (b, p') \<Longrightarrow>
     ptr_ids b + ptr_ids (sp_slots p') + mset (sp_deleted p')
       = ptr_ids (sp_slots p) + mset (sp_deleted p) + mset [sp_next_id p..<sp_next_id p']
     \<and> sp_next_id p \<le> sp_next_id p'"
  by (auto simp: acquire_slots_def pool_defs ptr_ids_def split: option.splits if_splits)

lemma index_build_buffers:
  assumes "index_build memory t idx p = Some (idx', p')"
  shows "ptr_ids (hi_slots idx') + ptr_ids (sp_slots p') + mset (sp_deleted p')
       = ptr_ids (hi_slots idx) + ptr_ids (sp_slots p) + mset (sp_deleted p) + mset [sp_next_id p..<sp_next_id p']
       \<and> sp_next_id p \<le> sp_next_id p'"
proof -
  obtain b p2 where a: "acquire_slots memory (next_pow2 (tb_count t * 2)) (snd (index_release idx p)) = (b, p2)"
    by force
  have "p' = p2 \<and> ptr_ids (hi_slots idx') = ptr_ids b"
    using assms a by (auto simp: index_build_eq Let_def ptr_ids_def split: option.splits)
  then show ?thesis using acquire_buffers[OF a] release_buffers[of idx p] by (simp add: add.assoc)
qed

lemma sum_list_swap:
  fixes g :: "'a \<Rightarrow> 'b multiset"
  assumes "k < length xs"
  shows "\<exists>rest. sum_list (map g xs) = g (xs ! k) + rest \<and> (\<forall>y. sum_list (map g (xs[k := y])) = g y + rest)"
proof (intro exI conjI allI)
  have split: "xs = take k xs @ xs ! k # drop (Suc k) xs" using assms by (rule id_take_nth_drop)
  let ?r = "sum_list (map g (take k xs)) + sum_list (map g (drop (Suc k) xs))"
  show "sum_list (map g xs) = g (xs ! k) + ?r"
    by (subst (1) split) (simp add: ac_simps del: append_take_drop_id)
  show "sum_list (map g (xs[k := y])) = g y + ?r" for y
    using assms by (simp add: upd_conv_take_nth_drop ac_simps)
qed

text \<open>C25.  No slot buffer is lost, shared or deleted twice. If every buffer allocated so far is held
  by exactly one of the live indexes and the pool, or was deleted exactly once, that is still so after
  any of the indexes is rebuilt, over any table, with or without memory, and after it is destroyed.\<close>

theorem slot_buffers_conserved:
  assumes "buffers idxs p = mset [0..<sp_next_id p]" "k < length idxs"
  shows "(index_build memory t (idxs ! k) p = Some (idx', p') \<longrightarrow>
            buffers (idxs[k := idx']) p' = mset [0..<sp_next_id p'])
       \<and> buffers (idxs[k := fst (index_destroy (idxs ! k) p)]) (snd (index_destroy (idxs ! k) p))
           = mset [0..<sp_next_id (snd (index_destroy (idxs ! k) p))]"
proof (intro conjI impI)
  let ?g = "\<lambda>x. ptr_ids (hi_slots x)"
  obtain rest where r: "sum_list (map ?g idxs) = ?g (idxs ! k) + rest"
      "\<And>y. sum_list (map ?g (idxs[k := y])) = ?g y + rest"
    using sum_list_swap[OF assms(2), of ?g] by blast
  show "buffers (idxs[k := idx']) p' = mset [0..<sp_next_id p']"
    if b: "index_build memory t (idxs ! k) p = Some (idx', p')"
  proof -
    have "buffers (idxs[k := idx']) p' = rest + (?g idx' + ptr_ids (sp_slots p') + mset (sp_deleted p'))"
      by (simp add: buffers_def r ac_simps)
    also have "\<dots> = buffers idxs p + mset [sp_next_id p..<sp_next_id p']"
      unfolding index_build_buffers[OF b, THEN conjunct1] by (simp add: buffers_def r ac_simps)
    also have "\<dots> = mset ([0..<sp_next_id p] @ [sp_next_id p..<sp_next_id p'])" using assms(1) by simp
    also have "\<dots> = mset [0..<sp_next_id p']"
      using index_build_buffers[OF b] upt_add_eq_append[of 0 "sp_next_id p" "sp_next_id p' - sp_next_id p"] by simp
    finally show ?thesis .
  qed
  have d: "hi_slots (fst (index_destroy (idxs ! k) p)) = None"
    "snd (index_destroy (idxs ! k) p) = snd (index_release (idxs ! k) p)"
    using index_release_slots[of "idxs ! k" p] by (simp_all add: index_destroy_def split_def Let_def)
  show "buffers (idxs[k := fst (index_destroy (idxs ! k) p)]) (snd (index_destroy (idxs ! k) p))
           = mset [0..<sp_next_id (snd (index_destroy (idxs ! k) p))]"
    using release_buffers[of "idxs ! k" p] assms(1) d by (simp add: buffers_def r ptr_ids_def[of None] ac_simps)
qed

theorem slot_buffers_conserved_witness:
  "\<exists>idx' p'. index_build (Some (\<lambda>i. \<lparr>sl_hash = 77, sl_index_plus1 = of_nat i\<rparr>)) demo_table empty_index demo_pool
       = Some (idx', p') \<and> buffers [idx', empty_index] p' = mset [0..<sp_next_id p']"
proof (rule demo_build)
  fix idx' p'
  assume b: "index_build (Some (\<lambda>i. \<lparr>sl_hash = 77, sl_index_plus1 = of_nat i\<rparr>)) demo_table empty_index demo_pool
       = Some (idx', p')"
  have "buffers [empty_index, empty_index] demo_pool = mset [0..<sp_next_id demo_pool]"
    by (simp add: buffers_def demo_pool_def empty_index_def ptr_ids_def)
  from slot_buffers_conserved[OF this, of 0] b show ?thesis by auto
qed

end
