(* ===== verification/Scan_Registry.thy ===== *)
theory Scan_Registry
  imports Abix_Prelude
begin

text \<open>
  The contract shared by the program's registries. Each keeps an append-only array of entries and
  looks a key up by scanning it from the front; the components interpret the locale on their own
  lookup functions and use its lemmas.
\<close>

locale scan_registry =
  fixes entries :: "'r \<Rightarrow> 'e list"
    and key :: "'e \<Rightarrow> 'k"
    and lookup :: "'r \<Rightarrow> 'k \<Rightarrow> 'e option"
  assumes lookup_scan: "lookup r k = find (\<lambda>e. key e = k) (entries r)"
begin

lemma lookup_SomeD: "lookup r k = Some e \<Longrightarrow> e \<in> set (entries r) \<and> key e = k"
  unfolding lookup_scan by (drule find_SomeD) simp

lemma lookup_None: "lookup r k = None \<longleftrightarrow> k \<notin> key ` set (entries r)"
  by (auto simp: lookup_scan find_None_iff_set)

lemma lookup_Some_iff: "(\<exists>e. lookup r k = Some e) \<longleftrightarrow> k \<in> key ` set (entries r)"
  using lookup_None[of r k] by (cases "lookup r k") auto

lemma lookup_mono:
  assumes "entries r' = entries r @ es" "lookup r k = Some e"
  shows "lookup r' k = Some e"
  using assms by (simp add: lookup_scan find_append)

lemma lookup_appended:
  assumes "entries r' = entries r @ es" "lookup r k = None"
  shows "lookup r' k = find (\<lambda>e. key e = k) es"
  using assms by (simp add: lookup_scan find_append)

lemma lookup_unique:
  assumes "distinct (map key (entries r))" "e \<in> set (entries r)"
  shows "lookup r (key e) = Some e"
proof -
  have "y = e" if "y \<in> set (entries r)" "key y = key e" for y
    using assms that by (auto simp: distinct_map dest: inj_onD)
  then show ?thesis using assms(2) by (auto simp: lookup_scan intro: find_Some_unique)
qed

lemma keys_distinct_append:
  assumes "distinct (map key (entries r))" "distinct (map key es)"
    and "\<And>e. e \<in> set es \<Longrightarrow> lookup r (key e) = None" and "entries r' = entries r @ es"
  shows "distinct (map key (entries r'))"
proof -
  have "k \<notin> key ` set (entries r)" if "k \<in> key ` set es" for k
    using that assms(3) by (auto simp flip: lookup_None)
  then have "set (map key (entries r)) \<inter> set (map key es) = {}" by auto
  then show ?thesis by (simp only: assms distinct_append map_append simp_thms)
qed

end

end
