(* ===== verification/Type_Registry.thy ===== *)
theory Type_Registry
  imports Scan_Registry Model_ABI
begin

text \<open>
  The type registries: \<open>Metadata/Descriptor.h\<close> (module descriptors and \<open>valid\<close>),
  \<open>Metadata/Registry.h\<close> (the canonical registry, one layout per type id), \<open>Model/Bootstrap.h\<close> and
  \<open>Runtime/Registry.h\<close> (the versioned registry and its load-time validation).

  An array pointer with its count is a list option read through \<open>arr_elems\<close>; the template parameter
  \<open>Capacity\<close> is the argument \<open>cap\<close>. The array of a registry and its \<open>_count\<close> are one list.

  Shown: registering a module is all-or-nothing and succeeds exactly when \<open>check_module\<close> accepts it;
  in every reachable registry (type, version) pairs are unique, every referenced type resolves, the
  capacity holds and \<open>validate\<close> reports no error; lookups are stable under later registrations.
\<close>

section \<open>Descriptors (Metadata/Descriptor.h)\<close>

record FieldDescriptor =
  fdd_type_id :: TypeId
  fdd_offset :: u32
  fdd_flags :: u32

record TypeDescriptor =
  ty_fields :: "FieldDescriptor arr"
  ty_type_id :: TypeId
  ty_layout_hash :: LayoutHash
  ty_flags :: u32
  ty_size :: u32
  ty_align :: u32
  ty_field_count :: u32

record ParameterDescriptor =
  pa_type_id :: TypeId
  pa_flags :: u32

record FunctionDescriptor =
  fn_parameters :: "ParameterDescriptor arr"
  fn_signature :: Hash128
  fn_return_type :: TypeId
  fn_parameter_count :: u32
  fn_calling_convention :: u32
  fn_flags :: u32

record SymbolDescriptor =
  sy_kind :: u32
  sy_target_index :: u32

record ModuleDescriptor =
  mo_name :: "string ptr"
  mo_version :: "string ptr"
  mo_types :: "TypeDescriptor arr"
  mo_canonical_types :: "TypeDesc arr"
  mo_canonical_layouts :: "TypeLayout arr"
  mo_type_count :: u32
  mo_function_count :: u32
  mo_functions :: "FunctionDescriptor arr"
  mo_symbols :: "SymbolDescriptor arr"
  mo_symbol_count :: u32

text \<open>The loops over \<open>types[i]\<close>, \<open>canonical_types[i]\<close>, \<open>canonical_layouts[i]\<close> walk the three arrays together.\<close>

type_synonym type_row = "TypeDescriptor \<times> TypeDesc \<times> TypeLayout"

definition type_rows :: "ModuleDescriptor \<Rightarrow> type_row list" where
  "type_rows mo =
     zip (arr_elems (mo_types mo) (mo_type_count mo))
       (zip (arr_elems (mo_canonical_types mo) (mo_type_count mo))
          (arr_elems (mo_canonical_layouts mo) (mo_type_count mo)))"

definition type_fields :: "TypeDescriptor \<Rightarrow> FieldDescriptor list" where
  "type_fields ty = arr_elems (ty_fields ty) (ty_field_count ty)"

definition valid_type_row :: "type_row \<Rightarrow> bool" where
  "valid_type_row row =
     (case row of (ty, ct, cl) \<Rightarrow>
        if ty_type_id ty \<noteq> td_id ct then False
        else if ty_size ty \<noteq> tl_size cl \<or> ty_align ty \<noteq> tl_align cl \<or> ty_layout_hash ty \<noteq> tl_layout_hash cl then False
        else if ty_type_id ty = Hash128_zero \<or> ty_size ty = 0 \<or> ty_align ty = 0 then False
        else if ty_field_count ty \<noteq> 0 \<and> ty_fields ty = None then False
        else list_all (\<lambda>f. fdd_type_id f \<noteq> Hash128_zero \<and> \<not> fdd_offset f > ty_size ty) (type_fields ty))"

definition valid_function :: "FunctionDescriptor \<Rightarrow> bool" where
  "valid_function f \<longleftrightarrow>
     fn_return_type f \<noteq> Hash128_zero \<and> \<not> (fn_parameter_count f \<noteq> 0 \<and> fn_parameters f = None)"

definition module_functions :: "ModuleDescriptor \<Rightarrow> FunctionDescriptor list" where
  "module_functions mo = arr_elems (mo_functions mo) (mo_function_count mo)"

definition valid_module :: "ModuleDescriptor \<Rightarrow> bool" where
  "valid_module mo =
     (if mo_name mo = None \<or> mo_version mo = None then False
      else if mo_type_count mo \<noteq> 0
                \<and> (mo_types mo = None \<or> mo_canonical_types mo = None \<or> mo_canonical_layouts mo = None)
              \<or> mo_function_count mo \<noteq> 0 \<and> mo_functions mo = None
              \<or> mo_symbol_count mo \<noteq> 0 \<and> mo_symbols mo = None then False
      else list_all valid_type_row (type_rows mo) \<and> list_all valid_function (module_functions mo))"

section \<open>Canonical registry (Metadata/Registry.h)\<close>

datatype MetaStatus =
    mr_ok | mr_invalid_descriptor | mr_duplicate_type | mr_capacity_exceeded
  | mr_already_registered | mr_layout_conflict

record Bootstrap =
  bo_desc :: "TypeDesc ptr"
  bo_layout :: "TypeLayout ptr"

record MetaEntry =
  me_desc :: TypeDesc
  me_layout :: TypeLayout
  me_bootstrap_hash :: u64

record MetaRegistry =
  mg_entries :: "MetaEntry list"

definition valid_descriptor :: "TypeDesc ptr \<Rightarrow> TypeLayout ptr \<Rightarrow> bool" where
  "valid_descriptor desc layout =
     (case (desc, layout) of
        (Some d, Some l) \<Rightarrow>
          if lo (td_id d) = 0 \<and> hi (td_id d) = 0 then False
          else if tl_size l = 0 \<or> tl_align l = 0 then False
          else tl_align l AND (tl_align l - 1) = 0
      | _ \<Rightarrow> False)"

definition same_layout :: "TypeLayout ptr \<Rightarrow> TypeLayout ptr \<Rightarrow> bool" where
  "same_layout lhs rhs =
     (case (lhs, rhs) of
        (Some l, Some r) \<Rightarrow>
          tl_size l = tl_size r \<and> tl_align l = tl_align r \<and> tl_layout_hash l = tl_layout_hash r
      | _ \<Rightarrow> False)"

definition meta_find_by_id :: "MetaRegistry \<Rightarrow> TypeId \<Rightarrow> MetaEntry option" where
  "meta_find_by_id r tid =
     find (\<lambda>e. lo (td_id (me_desc e)) = lo tid \<and> hi (td_id (me_desc e)) = hi tid) (mg_entries r)"

definition meta_at :: "MetaRegistry \<Rightarrow> nat \<Rightarrow> MetaEntry option" where
  "meta_at r i = (if i < length (mg_entries r) then Some (mg_entries r ! i) else None)"

definition register_type ::
  "nat \<Rightarrow> TypeDesc ptr \<Rightarrow> TypeLayout ptr \<Rightarrow> u64 \<Rightarrow> MetaRegistry \<Rightarrow> MetaStatus \<times> MetaRegistry" where
  "register_type cap desc layout bootstrap_hash r =
     (case (desc, layout) of
        (Some d, Some l) \<Rightarrow>
          if \<not> valid_descriptor desc layout then (mr_invalid_descriptor, r)
          else (case meta_find_by_id r (td_id d) of
                  Some existing \<Rightarrow>
                    (if same_layout (Some (me_layout existing)) layout then mr_already_registered
                     else mr_layout_conflict, r)
                | None \<Rightarrow>
                    if length (mg_entries r) = cap then (mr_capacity_exceeded, r)
                    else (mr_ok, r\<lparr>mg_entries := mg_entries r @
                            [\<lparr>me_desc = d, me_layout = l, me_bootstrap_hash = bootstrap_hash\<rparr>]\<rparr>))
      | _ \<Rightarrow> (mr_invalid_descriptor, r))"

section \<open>Bootstrap (Model/Bootstrap.h)\<close>

datatype BootStatus = bs_ok | bs_invalid_image | bs_unsupported_format | bs_unsupported_byte_order

record 'm BootRecord =
  br_type_hash :: u64
  br_size :: u32
  br_align :: u32
  br_metadata :: "'m ptr"

text \<open>The consumer is a function pointer over the records and an opaque context, here the state \<open>'c\<close>.\<close>

record ('m, 'c) BootImage =
  bi_records :: "'m BootRecord arr"
  bi_count :: u32
  bi_format_version :: u32
  bi_byte_order :: u32
  bi_consume :: "('m BootRecord list \<Rightarrow> 'c \<Rightarrow> 'c) ptr"

definition valid_record :: "'m BootRecord \<Rightarrow> bool" where
  "valid_record r \<longleftrightarrow> br_type_hash r \<noteq> 0 \<and> br_size r \<noteq> 0 \<and> br_align r \<noteq> 0 \<and> br_metadata r \<noteq> None"

definition abix_bootstrap :: "('m, 'c) BootImage \<Rightarrow> 'c \<Rightarrow> BootStatus \<times> 'c" where
  "abix_bootstrap img context =
     (if bi_format_version img \<noteq> 1 then (bs_unsupported_format, context)
      else if bi_byte_order img \<noteq> 1 then (bs_unsupported_byte_order, context)
      else if bi_count img \<noteq> 0 \<and> bi_records img = None then (bs_invalid_image, context)
      else (case bi_consume img of
              None \<Rightarrow> (bs_invalid_image, context)
            | Some consume \<Rightarrow>
                let recs = arr_elems (bi_records img) (bi_count img) in
                if list_all valid_record recs then (bs_ok, consume recs context)
                else (bs_invalid_image, context)))"

fun consume_bootstrap :: "nat \<Rightarrow> Bootstrap BootRecord list \<Rightarrow> MetaRegistry \<Rightarrow> MetaRegistry" where
  "consume_bootstrap cap [] r = r"
| "consume_bootstrap cap (b # bs) r =
     consume_bootstrap cap bs
       (case br_metadata b of
          None \<Rightarrow> r
        | Some md \<Rightarrow> snd (register_type cap (bo_desc md) (bo_layout md) (br_type_hash b) r))"

definition boot_metadata :: "u64 \<Rightarrow> u32 \<Rightarrow> u64 \<Rightarrow> Bootstrap" where
  "boot_metadata id_lo sz hash_lo =
     \<lparr>bo_desc = Some \<lparr>td_id = \<lparr>lo = id_lo, hi = 1\<rparr>, td_flags = 0, td_name_offset = 0, td_layout_index = 0\<rparr>,
      bo_layout = Some \<lparr>tl_size = sz, tl_align = 8, tl_field_begin = 0, tl_field_count = 0,
                       tl_layout_hash = \<lparr>lo = hash_lo, hi = 1\<rparr>\<rparr>\<rparr>"

text \<open>\<open>sizeof(RegistryEntry)\<close> is 24 and \<open>sizeof(Bootstrap)\<close> is 16 on the 64-bit targets, both aligned to 8.\<close>

definition bootstrap_records :: "Bootstrap BootRecord list" where
  "bootstrap_records =
     [\<lparr>br_type_hash = 0x524547454e545259, br_size = 24, br_align = 8,
       br_metadata = Some (boot_metadata 0x524547454e545259 24 1)\<rparr>,
      \<lparr>br_type_hash = 0x424f4f5453545241, br_size = 16, br_align = 8,
       br_metadata = Some (boot_metadata 0x424f4f5453545241 16 2)\<rparr>]"

definition bootstrap_self :: "nat \<Rightarrow> MetaRegistry \<Rightarrow> BootStatus \<times> MetaRegistry" where
  "bootstrap_self cap r =
     abix_bootstrap \<lparr>bi_records = Some bootstrap_records, bi_count = 2, bi_format_version = 1,
       bi_byte_order = 1, bi_consume = Some (consume_bootstrap cap)\<rparr> r"

section \<open>Versioned registry (Runtime/Registry.h)\<close>

datatype RegisterStatus =
    rs_ok | rs_invalid_module | rs_duplicate_type | rs_capacity_exceeded
  | rs_unknown_type_reference | rs_layout_conflict

record RegistryEntry =
  re_descriptor :: TypeDescriptor
  re_canonical :: TypeDesc
  re_layout :: TypeLayout
  re_version :: u32

record Registry =
  rg_entries :: "RegistryEntry list"
  rg_canonical :: MetaRegistry

definition empty_registry :: Registry where
  "empty_registry = \<lparr>rg_entries = [], rg_canonical = \<lparr>mg_entries = []\<rparr>\<rparr>"

definition find_type :: "Registry \<Rightarrow> TypeId \<Rightarrow> u32 \<Rightarrow> RegistryEntry option" where
  "find_type r tid version =
     find (\<lambda>e. ty_type_id (re_descriptor e) = tid \<and> re_version e = version) (rg_entries r)"

fun newest_from :: "TypeId \<Rightarrow> RegistryEntry list \<Rightarrow> RegistryEntry option \<Rightarrow> RegistryEntry option" where
  "newest_from tid [] best = best"
| "newest_from tid (e # es) best =
     (if ty_type_id (re_descriptor e) \<noteq> tid then newest_from tid es best
      else (case best of
              None \<Rightarrow> newest_from tid es (Some e)
            | Some b \<Rightarrow> newest_from tid es (if re_version e \<ge> re_version b then Some e else Some b)))"

definition find_by_id :: "Registry \<Rightarrow> TypeId \<Rightarrow> RegistryEntry option" where
  "find_by_id r tid = newest_from tid (rg_entries r) None"

definition find_by_name :: "Registry \<Rightarrow> string ptr \<Rightarrow> RegistryEntry option" where
  "find_by_name r name = None"

definition registry_at :: "Registry \<Rightarrow> nat \<Rightarrow> RegistryEntry option" where
  "registry_at r i = (if i < length (rg_entries r) then Some (rg_entries r ! i) else None)"

text \<open>Digits accumulate modulo \<open>2 ^ 32\<close>.\<close>

fun parse_digits :: "string \<Rightarrow> u32 \<Rightarrow> u32" where
  "parse_digits [] acc = acc"
| "parse_digits (c # cs) acc =
     (if (48::nat) \<le> of_char c \<and> of_char c \<le> (57::nat)
      then parse_digits cs (acc * 10 + (of_char c - 48)) else acc)"

definition parse_version :: "string ptr \<Rightarrow> u32" where
  "parse_version txt = (case txt of None \<Rightarrow> 0 | Some s \<Rightarrow> parse_digits (c_str s) 0)"

definition module_version :: "ModuleDescriptor \<Rightarrow> u32" where
  "module_version mo = parse_version (mo_version mo)"

definition known_type :: "Registry \<Rightarrow> ModuleDescriptor \<Rightarrow> TypeId \<Rightarrow> bool" where
  "known_type r mo tid \<longleftrightarrow>
     list_ex (\<lambda>ty. ty_type_id ty = tid) (arr_elems (mo_types mo) (mo_type_count mo)) \<or> find_by_id r tid \<noteq> None"

text \<open>\<open>duplicate_in_module\<close> looks at the types before the index.\<close>

definition duplicate_in_module :: "TypeDescriptor list \<Rightarrow> TypeDescriptor \<Rightarrow> bool" where
  "duplicate_in_module before ty = list_ex (\<lambda>t. ty_type_id t = ty_type_id ty) before"

definition valid_layout :: "TypeDescriptor \<Rightarrow> bool" where
  "valid_layout ty \<longleftrightarrow> ty_align ty AND (ty_align ty - 1) = 0 \<and> ty_align ty \<noteq> 0"

text \<open>The first loop of \<open>check_module\<close>: an early return, or the number of new types.\<close>

fun check_types :: "Registry \<Rightarrow> u32 \<Rightarrow> TypeDescriptor list \<Rightarrow> type_row list \<Rightarrow> nat \<Rightarrow> RegisterStatus + nat" where
  "check_types r version before [] new_types = Inr new_types"
| "check_types r version before ((ty, ct, cl) # rows) new_types =
     (if duplicate_in_module before ty then Inl rs_duplicate_type
      else if \<not> valid_layout ty then Inl rs_invalid_module
      else (case find_type r (ty_type_id ty) version of
              Some existing \<Rightarrow>
                if \<not> same_layout (Some (re_layout existing)) (Some cl) then Inl rs_layout_conflict
                else check_types r version (before @ [ty]) rows new_types
            | None \<Rightarrow> check_types r version (before @ [ty]) rows (Suc new_types)))"

definition check_module :: "nat \<Rightarrow> Registry \<Rightarrow> ModuleDescriptor \<Rightarrow> u32 \<Rightarrow> RegisterStatus" where
  "check_module cap r mo version =
     (if \<not> valid_module mo then rs_invalid_module
      else (case check_types r version [] (type_rows mo) 0 of
              Inl st \<Rightarrow> st
            | Inr new_types \<Rightarrow>
                if new_types > cap - length (rg_entries r) then rs_capacity_exceeded
                else if list_ex (\<lambda>ty. list_ex (\<lambda>f. \<not> known_type r mo (fdd_type_id f)) (type_fields ty))
                          (arr_elems (mo_types mo) (mo_type_count mo)) then rs_unknown_type_reference
                else if list_ex (\<lambda>f. \<not> known_type r mo (fn_return_type f)
                          \<or> list_ex (\<lambda>p. \<not> known_type r mo (pa_type_id p))
                              (arr_elems (fn_parameters f) (fn_parameter_count f)))
                          (module_functions mo) then rs_unknown_type_reference
                else rs_ok))"

text \<open>The loop of \<open>register_module\<close>, with its early returns.\<close>

fun register_types :: "nat \<Rightarrow> u32 \<Rightarrow> type_row list \<Rightarrow> Registry \<Rightarrow> RegisterStatus \<times> Registry" where
  "register_types cap version [] r = (rs_ok, r)"
| "register_types cap version ((ty, ct, cl) # rows) r =
     (if find_type r (ty_type_id ty) version \<noteq> None then register_types cap version rows r
      else
        let (reg, canon) =
              (if meta_find_by_id (rg_canonical r) (ty_type_id ty) = None
               then register_type cap (Some ct) (Some cl) 0 (rg_canonical r)
               else (mr_ok, rg_canonical r));
            r1 = r\<lparr>rg_canonical := canon\<rparr>
        in if reg = mr_layout_conflict then (rs_layout_conflict, r1)
           else if reg \<noteq> mr_ok \<and> reg \<noteq> mr_already_registered then (rs_invalid_module, r1)
           else if reg = mr_already_registered then register_types cap version rows r1
           else if length (rg_entries r1) = cap then (rs_capacity_exceeded, r1)
           else register_types cap version rows
                  (r1\<lparr>rg_entries := rg_entries r1 @
                     [\<lparr>re_descriptor = ty, re_canonical = ct, re_layout = cl, re_version = version\<rparr>]\<rparr>))"

definition register_module :: "nat \<Rightarrow> ModuleDescriptor \<Rightarrow> u32 \<Rightarrow> Registry \<Rightarrow> RegisterStatus \<times> Registry" where
  "register_module cap mo version r =
     (let status = check_module cap r mo version in
      if status \<noteq> rs_ok then (status, r) else register_types cap version (type_rows mo) r)"

definition register_module_unversioned :: "nat \<Rightarrow> ModuleDescriptor \<Rightarrow> Registry \<Rightarrow> RegisterStatus \<times> Registry" where
  "register_module_unversioned cap mo r = register_module cap mo (module_version mo) r"

fun validate_entries :: "MetaRegistry \<Rightarrow> RegistryEntry list \<Rightarrow> RegisterStatus" where
  "validate_entries canon [] = rs_ok"
| "validate_entries canon (e # es) =
     (if meta_find_by_id canon (ty_type_id (re_descriptor e)) = None then rs_invalid_module
      else if td_id (re_canonical e) \<noteq> ty_type_id (re_descriptor e) then rs_invalid_module
      else if ty_layout_hash (re_descriptor e) \<noteq> tl_layout_hash (re_layout e)
           \<or> ty_size (re_descriptor e) \<noteq> tl_size (re_layout e)
           \<or> ty_align (re_descriptor e) \<noteq> tl_align (re_layout e) then rs_layout_conflict
      else validate_entries canon es)"

definition validate :: "Registry \<Rightarrow> RegisterStatus" where
  "validate r = validate_entries (rg_canonical r) (rg_entries r)"

section \<open>The registries as scanned tables\<close>

abbreviation entry_key :: "RegistryEntry \<Rightarrow> TypeId \<times> u32" where
  "entry_key e \<equiv> (ty_type_id (re_descriptor e), re_version e)"

abbreviation entry_tid :: "RegistryEntry \<Rightarrow> TypeId" where
  "entry_tid e \<equiv> ty_type_id (re_descriptor e)"

abbreviation meta_tid :: "MetaEntry \<Rightarrow> TypeId" where
  "meta_tid e \<equiv> td_id (me_desc e)"

lemma hash_fields_eq: "lo (a :: Hash128) = lo b \<and> hi a = hi b \<longleftrightarrow> a = b"
  by auto

interpretation meta: scan_registry mg_entries meta_tid meta_find_by_id
  by unfold_locales (simp add: meta_find_by_id_def hash_fields_eq)

interpretation types: scan_registry rg_entries entry_key "\<lambda>r k. find_type r (fst k) (snd k)"
  by unfold_locales (auto simp: find_type_def intro!: arg_cong[of _ _ "\<lambda>P. find P _"])

lemma find_type_None: "find_type r i v = None \<longleftrightarrow> (i, v) \<notin> entry_key ` set (rg_entries r)"
  using types.lookup_None[of r "(i, v)"] by simp

section \<open>The newest version\<close>

lemma newest_from_Some:
  assumes "newest_from tid es best = Some e" "\<And>b. best = Some b \<Longrightarrow> entry_tid b = tid"
  shows "(e \<in> set es \<or> best = Some e) \<and> entry_tid e = tid
       \<and> (\<forall>x \<in> set es. entry_tid x = tid \<longrightarrow> re_version x \<le> re_version e)
       \<and> (\<forall>b. best = Some b \<longrightarrow> re_version b \<le> re_version e)"
  using assms
proof (induction es arbitrary: best)
  case (Cons x xs)
  show ?case
  proof (cases "entry_tid x = tid")
    case False
    then show ?thesis using Cons.IH[of best] Cons.prems by auto
  next
    case True
    define nb where "nb = (case best of None \<Rightarrow> x | Some b \<Rightarrow> if re_version x \<ge> re_version b then x else b)"
    have nb: "newest_from tid xs (Some nb) = Some e"
      using Cons.prems(1) True by (auto simp: nb_def split: option.splits if_splits)
    have "entry_tid nb = tid" using True Cons.prems(2) by (auto simp: nb_def split: option.splits)
    then have IH: "(e \<in> set xs \<or> nb = e) \<and> entry_tid e = tid
       \<and> (\<forall>x \<in> set xs. entry_tid x = tid \<longrightarrow> re_version x \<le> re_version e) \<and> re_version nb \<le> re_version e"
      using Cons.IH[OF nb] by simp
    have "re_version x \<le> re_version nb" "best = Some b \<Longrightarrow> re_version b \<le> re_version nb" for b
      by (auto simp: nb_def split: option.splits)
    moreover have "nb = x \<or> best = Some nb" by (auto simp: nb_def split: option.splits)
    ultimately show ?thesis using IH by (auto intro: order.trans)
  qed
qed auto

lemma newest_from_best: "newest_from tid es (Some b) \<noteq> None"
  by (induction es arbitrary: b) auto

lemma newest_from_None: "newest_from tid es None = None \<longleftrightarrow> tid \<notin> entry_tid ` set es"
  by (induction es) (auto simp: newest_from_best)

lemma find_by_id_None: "find_by_id r tid = None \<longleftrightarrow> tid \<notin> entry_tid ` set (rg_entries r)"
  by (simp add: find_by_id_def newest_from_None)

section \<open>Registration\<close>

abbreviation row_tid :: "type_row \<Rightarrow> TypeId" where
  "row_tid row \<equiv> ty_type_id (fst row)"

definition row_new :: "Registry \<Rightarrow> u32 \<Rightarrow> type_row \<Rightarrow> bool" where
  "row_new r v row \<longleftrightarrow> find_type r (row_tid row) v = None"

definition row_entry :: "u32 \<Rightarrow> type_row \<Rightarrow> RegistryEntry" where
  "row_entry v row =
     \<lparr>re_descriptor = fst row, re_canonical = fst (snd row), re_layout = snd (snd row), re_version = v\<rparr>"

definition layouts_agree :: "TypeDescriptor \<Rightarrow> TypeDesc \<Rightarrow> TypeLayout \<Rightarrow> bool" where
  "layouts_agree ty ct cl \<longleftrightarrow>
     td_id ct = ty_type_id ty \<and> ty_layout_hash ty = tl_layout_hash cl \<and> ty_size ty = tl_size cl \<and> ty_align ty = tl_align cl"

lemma check_types_Inr:
  "check_types r v before rows n = Inr m \<Longrightarrow>
     distinct (map row_tid rows) \<and> (\<forall>row \<in> set rows. row_tid row \<notin> ty_type_id ` set before)
     \<and> (\<forall>row \<in> set rows. valid_layout (fst row))
     \<and> (\<forall>row \<in> set rows. \<forall>e. find_type r (row_tid row) v = Some e \<longrightarrow>
          same_layout (Some (re_layout e)) (Some (snd (snd row))))
     \<and> m = n + length (filter (row_new r v) rows)"
proof (induction r v before rows n rule: check_types.induct)
  case (2 r v before ty ct cl rows n)
  have nd: "\<not> duplicate_in_module before ty" "valid_layout ty" using "2.prems" by (auto split: if_splits)
  then have ty: "ty_type_id ty \<notin> ty_type_id ` set before"
    by (auto simp: duplicate_in_module_def list_ex_iff)
  show ?case
  proof (cases "find_type r (ty_type_id ty) v")
    case None
    then show ?thesis using "2.IH"(1)[OF nd(1) _ None] "2.prems" nd ty by (auto simp: row_new_def)
  next
    case (Some e)
    then have "same_layout (Some (re_layout e)) (Some cl)" using "2.prems" nd by (auto split: if_splits)
    then show ?thesis using "2.IH"(2)[OF nd(1) _ Some] "2.prems" nd Some ty by (auto simp: row_new_def)
  qed
qed simp

lemma check_types_not_ok: "check_types r v before rows n \<noteq> Inl rs_ok"
  by (induction r v before rows n rule: check_types.induct) (auto split: option.splits)

lemma register_type_new:
  assumes "valid_type_row (ty, ct, cl)" "valid_layout ty"
    and "meta_find_by_id c (ty_type_id ty) = None" "length (mg_entries c) < cap"
  shows "register_type cap (Some ct) (Some cl) h c =
     (mr_ok, c\<lparr>mg_entries := mg_entries c @ [\<lparr>me_desc = ct, me_layout = cl, me_bootstrap_hash = h\<rparr>]\<rparr>)"
  using assms by (auto simp: register_type_def valid_type_row_def valid_layout_def valid_descriptor_def
      Hash128_zero_def split: if_splits)

text \<open>The two tables move together: the canonical ids are exactly the ids with an entry, once each.\<close>

definition tables_agree :: "Registry \<Rightarrow> bool" where
  "tables_agree r \<longleftrightarrow> distinct (map meta_tid (mg_entries (rg_canonical r)))
     \<and> meta_tid ` set (mg_entries (rg_canonical r)) = entry_tid ` set (rg_entries r)"

lemma tables_agree_length:
  assumes "tables_agree r" shows "length (mg_entries (rg_canonical r)) \<le> length (rg_entries r)"
proof -
  have "length (mg_entries (rg_canonical r)) = card (meta_tid ` set (mg_entries (rg_canonical r)))"
    using assms distinct_card[of "map meta_tid (mg_entries (rg_canonical r))"] by (simp add: tables_agree_def)
  also have "\<dots> = card (set (map entry_tid (rg_entries r)))" using assms by (simp add: tables_agree_def)
  also have "\<dots> \<le> length (rg_entries r)" using card_length[of "map entry_tid (rg_entries r)"] by simp
  finally show ?thesis .
qed

lemma register_row:
  assumes "valid_type_row (ty, ct, cl)" "valid_layout ty" "tables_agree r"
    and "find_type r (ty_type_id ty) v = None" "length (rg_entries r) < cap"
  shows "\<exists>r1. register_types cap v ((ty, ct, cl) # rows) r = register_types cap v rows r1
           \<and> rg_entries r1 = rg_entries r @ [row_entry v (ty, ct, cl)] \<and> tables_agree r1"
proof (cases "meta_find_by_id (rg_canonical r) (ty_type_id ty)")
  case None
  have "length (mg_entries (rg_canonical r)) < cap"
    using tables_agree_length[OF assms(3)] assms(5) by simp
  note reg = register_type_new[OF assms(1,2) None this]
  have "td_id ct = ty_type_id ty" using assms(1) by (simp add: valid_type_row_def split: if_splits)
  then have "meta_tid \<lparr>me_desc = ct, me_layout = cl, me_bootstrap_hash = 0\<rparr> \<notin>
      meta_tid ` set (mg_entries (rg_canonical r))" using None meta.lookup_None by simp
  then show ?thesis using assms(3-5) None reg[of 0] \<open>td_id ct = _\<close>
    by (intro exI[of _ "r\<lparr>rg_canonical := rg_canonical r\<lparr>mg_entries := mg_entries (rg_canonical r) @
          [\<lparr>me_desc = ct, me_layout = cl, me_bootstrap_hash = 0\<rparr>]\<rparr>,
        rg_entries := rg_entries r @ [row_entry v (ty, ct, cl)]\<rparr>"])
       (simp add: tables_agree_def row_entry_def)
next
  case (Some e)
  then have "ty_type_id ty \<in> meta_tid ` set (mg_entries (rg_canonical r))"
    using meta.lookup_Some_iff by blast
  then show ?thesis using assms(3-5) Some
    by (intro exI[of _ "r\<lparr>rg_entries := rg_entries r @ [row_entry v (ty, ct, cl)]\<rparr>"])
       (auto simp: tables_agree_def row_entry_def)
qed

lemma row_new_other:
  assumes "rg_entries r1 = rg_entries r @ [row_entry v row]" "row_tid row' \<noteq> row_tid row"
  shows "row_new r1 v row' = row_new r v row'"
  using assms by (auto simp: row_new_def find_type_None row_entry_def)

lemma register_types_spec:
  assumes "distinct (map row_tid rows)" "\<forall>row \<in> set rows. valid_type_row row \<and> valid_layout (fst row)"
    and "tables_agree r" "length (rg_entries r) + length (filter (row_new r v) rows) \<le> cap"
  shows "\<exists>r'. register_types cap v rows r = (rs_ok, r') \<and> tables_agree r'
           \<and> rg_entries r' = rg_entries r @ map (row_entry v) (filter (row_new r v) rows)"
  using assms
proof (induction rows arbitrary: r)
  case (Cons row rows)
  obtain ty ct cl where row: "row = (ty, ct, cl)" by (metis prod_cases3)
  show ?case
  proof (cases "row_new r v row")
    case False
    then have "register_types cap v (row # rows) r = register_types cap v rows r"
      by (auto simp: row row_new_def)
    then show ?thesis using Cons.IH[of r] Cons.prems False by simp
  next
    case True
    obtain r1 where r1: "register_types cap v (row # rows) r = register_types cap v rows r1"
        "rg_entries r1 = rg_entries r @ [row_entry v row]" "tables_agree r1"
      using register_row[of ty ct cl r v cap rows] Cons.prems True by (auto simp: row row_new_def)
    have eq: "filter (row_new r1 v) rows = filter (row_new r v) rows"
      using row_new_other[OF r1(2)] Cons.prems(1) by (intro filter_cong) (auto simp: image_iff)
    show ?thesis using Cons.IH[of r1] Cons.prems r1 eq True by auto
  qed
qed simp

section \<open>The invariant of the versioned registry\<close>

definition entry_ok :: "RegistryEntry \<Rightarrow> bool" where
  "entry_ok e \<longleftrightarrow> layouts_agree (re_descriptor e) (re_canonical e) (re_layout e)
     \<and> valid_layout (re_descriptor e) \<and> entry_tid e \<noteq> Hash128_zero"

definition registry_inv :: "nat \<Rightarrow> Registry \<Rightarrow> bool" where
  "registry_inv cap r \<longleftrightarrow>
     length (rg_entries r) \<le> cap \<and> tables_agree r \<and> distinct (map entry_key (rg_entries r))
     \<and> (\<forall>e \<in> set (rg_entries r). entry_ok e)
     \<and> (\<forall>e \<in> set (rg_entries r). \<forall>f \<in> set (type_fields (re_descriptor e)).
          fdd_type_id f \<in> entry_tid ` set (rg_entries r))"

lemma registry_inv_empty: "registry_inv cap empty_registry"
  by (simp add: registry_inv_def empty_registry_def tables_agree_def)

text \<open>The three parallel arrays of a module really have \<open>type_count\<close> elements.\<close>

definition module_arrays_ok :: "ModuleDescriptor \<Rightarrow> bool" where
  "module_arrays_ok mo \<longleftrightarrow> arr_ok (mo_types mo) (mo_type_count mo)
     \<and> arr_ok (mo_canonical_types mo) (mo_type_count mo) \<and> arr_ok (mo_canonical_layouts mo) (mo_type_count mo)"

lemma type_rows_types:
  assumes "module_arrays_ok mo" "valid_module mo"
  shows "map fst (type_rows mo) = arr_elems (mo_types mo) (mo_type_count mo)"
proof (cases "mo_type_count mo = 0")
  case True
  then show ?thesis by (simp add: type_rows_def arr_elems_def split: option.splits)
next
  case False
  then obtain a b c where "mo_types mo = Some a" "mo_canonical_types mo = Some b" "mo_canonical_layouts mo = Some c"
    using assms(2) by (auto simp: valid_module_def split: if_splits)
  then show ?thesis using assms(1) by (simp add: type_rows_def module_arrays_ok_def arr_elems_def arr_ok_def)
qed

lemma check_module_ok:
  assumes "check_module cap r mo v = rs_ok"
  shows "valid_module mo" and "distinct (map row_tid (type_rows mo))"
    and "\<forall>row \<in> set (type_rows mo). valid_type_row row \<and> valid_layout (fst row)"
    and "\<forall>row \<in> set (type_rows mo). \<forall>e. find_type r (row_tid row) v = Some e \<longrightarrow>
          same_layout (Some (re_layout e)) (Some (snd (snd row)))"
    and "length (filter (row_new r v) (type_rows mo)) \<le> cap - length (rg_entries r)"
    and "\<forall>ty \<in> set (arr_elems (mo_types mo) (mo_type_count mo)). \<forall>f \<in> set (type_fields ty).
          known_type r mo (fdd_type_id f)"
proof -
  show vm: "valid_module mo" using assms by (simp add: check_module_def split: if_splits)
  obtain n where n: "check_types r v [] (type_rows mo) 0 = Inr n"
    using assms vm check_types_not_ok by (auto simp: check_module_def split: sum.splits)
  note c = check_types_Inr[OF n]
  show "distinct (map row_tid (type_rows mo))" using c by blast
  show "\<forall>row \<in> set (type_rows mo). valid_type_row row \<and> valid_layout (fst row)"
    using c vm by (auto simp: valid_module_def list_all_iff split: if_splits)
  show "\<forall>row \<in> set (type_rows mo). \<forall>e. find_type r (row_tid row) v = Some e \<longrightarrow>
          same_layout (Some (re_layout e)) (Some (snd (snd row)))" using c by blast
  show "length (filter (row_new r v) (type_rows mo)) \<le> cap - length (rg_entries r)"
    using assms vm n c by (simp add: check_module_def split: if_splits)
  show "\<forall>ty \<in> set (arr_elems (mo_types mo) (mo_type_count mo)). \<forall>f \<in> set (type_fields ty).
          known_type r mo (fdd_type_id f)"
    using assms vm n by (auto simp: check_module_def list_ex_iff split: if_splits)
qed

lemma register_module_ok:
  assumes "registry_inv cap r" "check_module cap r mo v = rs_ok"
  shows "\<exists>r'. register_module cap mo v r = (rs_ok, r') \<and> tables_agree r'
           \<and> rg_entries r' = rg_entries r @ map (row_entry v) (filter (row_new r v) (type_rows mo))"
proof -
  note c = check_module_ok[OF assms(2)]
  have "length (rg_entries r) + length (filter (row_new r v) (type_rows mo)) \<le> cap"
    using c(5) assms(1) unfolding registry_inv_def by linarith
  then show ?thesis using register_types_spec[OF c(2,3)] assms by (simp add: register_module_def registry_inv_def)
qed

lemma valid_row_entry:
  assumes "valid_type_row row" "valid_layout (fst row)" shows "entry_ok (row_entry v row)"
  using assms by (auto simp: valid_type_row_def entry_ok_def row_entry_def layouts_agree_def split: prod.splits if_splits)

lemma registered_or_present:
  assumes "rg_entries r' = rg_entries r @ map (row_entry v) (filter (row_new r v) rows)" "row \<in> set rows"
  shows "row_tid row \<in> entry_tid ` set (rg_entries r')"
proof (cases "row_new r v row")
  case True
  then have "row_entry v row \<in> set (rg_entries r')" using assms by auto
  then show ?thesis by (auto simp: row_entry_def intro!: image_eqI[of _ _ "row_entry v row"])
next
  case False
  then show ?thesis using assms(1) by (auto simp: row_new_def find_type_None)
qed

lemma register_module_inv:
  assumes inv: "registry_inv cap r" and arr: "module_arrays_ok mo" and ok: "check_module cap r mo v = rs_ok"
    and r': "register_module cap mo v r = (st, r')"
  shows "registry_inv cap r'"
proof -
  note c = check_module_ok[OF ok]
  let ?new = "filter (row_new r v) (type_rows mo)"
  have e: "tables_agree r'" "rg_entries r' = rg_entries r @ map (row_entry v) ?new"
    using register_module_ok[OF inv ok] r' by auto
  have "length (rg_entries r) \<le> cap" using inv by (simp add: registry_inv_def)
  then have "length (rg_entries r') \<le> cap" using c(5) e(2) by simp
  moreover have "distinct (map entry_key (rg_entries r'))"
  proof (rule types.keys_distinct_append[OF _ _ _ e(2)])
    show "distinct (map entry_key (rg_entries r))" using inv by (simp add: registry_inv_def)
    have "distinct (map row_tid ?new)" using c(2) by (simp add: distinct_map_filter)
    then show "distinct (map entry_key (map (row_entry v) ?new))"
      by (auto simp: distinct_map row_entry_def inj_on_def)
    show "find_type r (fst (entry_key x)) (snd (entry_key x)) = None" if "x \<in> set (map (row_entry v) ?new)" for x
      using that by (auto simp: row_new_def row_entry_def)
  qed
  moreover have "entry_ok x" if "x \<in> set (rg_entries r')" for x
    using that inv c(3) valid_row_entry unfolding e(2) registry_inv_def by auto
  moreover have "fdd_type_id f \<in> entry_tid ` set (rg_entries r')"
    if x: "x \<in> set (rg_entries r')" and f: "f \<in> set (type_fields (re_descriptor x))" for x f
  proof (cases "x \<in> set (rg_entries r)")
    case True
    then have "fdd_type_id f \<in> entry_tid ` set (rg_entries r)" using inv f unfolding registry_inv_def by blast
    then show ?thesis using e(2) by (simp add: image_Un)
  next
    case False
    then obtain row where row: "row \<in> set (type_rows mo)" "x = row_entry v row" using x e(2) by auto
    then have "fst row \<in> set (arr_elems (mo_types mo) (mo_type_count mo))"
      by (simp flip: type_rows_types[OF arr c(1)])
    then have "known_type r mo (fdd_type_id f)" using c(6) f row(2) by (auto simp: row_entry_def)
    then consider row' where "row' \<in> set (type_rows mo)" "row_tid row' = fdd_type_id f"
      | "fdd_type_id f \<in> entry_tid ` set (rg_entries r)"
      by (auto simp: known_type_def find_by_id_None list_ex_iff simp flip: type_rows_types[OF arr c(1)])
    then show ?thesis using registered_or_present[OF e(2)] e(2) by cases (metis, auto)
  qed
  ultimately show ?thesis using e(1) by (simp add: registry_inv_def)
qed

section \<open>Properties of the registries\<close>

definition demo_tid :: TypeId where
  "demo_tid = \<lparr>lo = 7, hi = 9\<rparr>"

definition demo_module :: ModuleDescriptor where
  "demo_module =
     \<lparr>mo_name = Some ''demo'', mo_version = Some ''2.1'',
      mo_types = Some [\<lparr>ty_fields = Some [\<lparr>fdd_type_id = demo_tid, fdd_offset = 0, fdd_flags = 0\<rparr>],
                        ty_type_id = demo_tid, ty_layout_hash = \<lparr>lo = 1, hi = 2\<rparr>, ty_flags = 0,
                        ty_size = 8, ty_align = 8, ty_field_count = 1\<rparr>],
      mo_canonical_types = Some [\<lparr>td_id = demo_tid, td_flags = 0, td_name_offset = 0, td_layout_index = 0\<rparr>],
      mo_canonical_layouts = Some [\<lparr>tl_size = 8, tl_align = 8, tl_field_begin = 0, tl_field_count = 1,
                                    tl_layout_hash = \<lparr>lo = 1, hi = 2\<rparr>\<rparr>],
      mo_type_count = 1, mo_function_count = 0, mo_functions = None, mo_symbols = None, mo_symbol_count = 0\<rparr>"

lemmas demo_simps = demo_module_def demo_tid_def module_arrays_ok_def arr_ok_def arr_elems_def

lemma demo_module_arrays: "module_arrays_ok demo_module"
  by (simp add: demo_simps)

lemma demo_module_accepted: "check_module 4 empty_registry demo_module 2 = rs_ok"
  by (simp add: check_module_def valid_module_def type_rows_def valid_type_row_def type_fields_def
      duplicate_in_module_def valid_layout_def find_type_def known_type_def module_functions_def
      empty_registry_def Hash128_zero_def demo_simps)

text \<open>C8.  Registering a module is all-or-nothing. The status is the verdict of the dry run
  \<open>check_module\<close>: the mutating loop cannot fail after it. A refused module leaves the registry as
  it was, an accepted one keeps the invariant (capacity, unique (type, version) pairs, agreeing
  layouts, the canonical table in step, every field type resolvable).\<close>

theorem register_module_atomic:
  assumes "registry_inv cap r" "module_arrays_ok mo" "register_module cap mo v r = (st, r')"
  shows "st = check_module cap r mo v \<and> (st \<noteq> rs_ok \<longrightarrow> r' = r) \<and> registry_inv cap r'"
proof (cases "check_module cap r mo v = rs_ok")
  case True
  then have "st = rs_ok" using register_module_ok[OF assms(1) True] assms(3) by auto
  then show ?thesis using register_module_inv[OF assms(1,2) True assms(3)] True by simp
next
  case False
  then show ?thesis using assms by (auto simp: register_module_def)
qed

theorem register_module_atomic_witness:
  "fst (register_module 4 demo_module 2 empty_registry) = rs_ok
   \<and> registry_inv 4 (snd (register_module 4 demo_module 2 empty_registry))"
  using register_module_atomic[OF registry_inv_empty demo_module_arrays, of 4 2
      "fst (register_module 4 demo_module 2 empty_registry)"
      "snd (register_module 4 demo_module 2 empty_registry)"] demo_module_accepted by simp

text \<open>C21.  After a successful registration every type of the module resolves at its version, to a
  record of the same size, alignment and layout hash; every earlier lookup, of any type and version,
  still returns the same record; and no other (type, version) pair became known.\<close>

theorem register_module_lookup:
  assumes "registry_inv cap r" "register_module cap mo v r = (rs_ok, r')"
  shows "(\<forall>row \<in> set (type_rows mo). \<exists>e. find_type r' (row_tid row) v = Some e
            \<and> same_layout (Some (re_layout e)) (Some (snd (snd row))))
       \<and> (\<forall>i w e. find_type r i w = Some e \<longrightarrow> find_type r' i w = Some e)
       \<and> (\<forall>i w. find_type r i w = None \<and> find_type r' i w \<noteq> None \<longrightarrow> w = v \<and> i \<in> row_tid ` set (type_rows mo))"
proof -
  have ok: "check_module cap r mo v = rs_ok"
    using assms(2) by (auto simp: register_module_def Let_def split: if_splits)
  note c = check_module_ok[OF ok]
  have e: "rg_entries r' = rg_entries r @ map (row_entry v) (filter (row_new r v) (type_rows mo))"
    using register_module_ok[OF assms(1) ok] assms(2) by auto
  have mono: "find_type r' i w = Some x" if "find_type r i w = Some x" for i w x
    using types.lookup_mono[OF e, of "(i, w)"] that by simp
  have "\<exists>x. find_type r' (row_tid row) v = Some x \<and> same_layout (Some (re_layout x)) (Some (snd (snd row)))"
    if row: "row \<in> set (type_rows mo)" for row
  proof (cases "find_type r (row_tid row) v")
    case (Some x)
    then show ?thesis using mono[OF Some] c(4) row by blast
  next
    case None
    let ?es = "map (row_entry v) (filter (row_new r v) (type_rows mo))"
    have "find (\<lambda>e. entry_key e = (row_tid row, v)) ?es = Some (row_entry v row)"
    proof (rule find_Some_unique)
      show "row_entry v row \<in> set ?es" using row None by (simp add: row_new_def)
      show "y = row_entry v row" if y: "y \<in> set ?es" "entry_key y = (row_tid row, v)" for y
      proof -
        obtain row' where r': "row' \<in> set (type_rows mo)" "y = row_entry v row'" using y(1) by auto
        then have "row_tid row' = row_tid row" using y(2) by (simp add: row_entry_def)
        then have "row' = row" using c(2) row r'(1) by (metis distinct_map inj_onD)
        then show ?thesis using r'(2) by simp
      qed
    qed (simp add: row_entry_def)
    then show ?thesis using types.lookup_appended[OF e, of "(row_tid row, v)"] None
      by (auto simp: row_entry_def same_layout_def)
  qed
  moreover have "w = v \<and> i \<in> row_tid ` set (type_rows mo)"
    if n: "find_type r i w = None" "find_type r' i w \<noteq> None" for i w
  proof -
    obtain row where "row \<in> set (type_rows mo)" "entry_key (row_entry v row) = (i, w)"
      using n by (auto simp: find_type_None e)
    then show ?thesis by (auto simp: row_entry_def)
  qed
  ultimately show ?thesis using mono by blast
qed

theorem register_module_lookup_witness:
  "\<exists>r'. register_module 4 demo_module 2 empty_registry = (rs_ok, r')
     \<and> (\<forall>row \<in> set (type_rows demo_module). \<exists>e. find_type r' (row_tid row) 2 = Some e)"
proof -
  obtain r' where r': "register_module 4 demo_module 2 empty_registry = (rs_ok, r')"
    using register_module_ok[OF registry_inv_empty demo_module_accepted] by auto
  show ?thesis
    using register_module_lookup[OF registry_inv_empty r', THEN conjunct1] r'
    by (intro exI[of _ r'] conjI) fast+
qed

text \<open>The registries a process can reach by registering modules.\<close>

inductive reachable_registry :: "nat \<Rightarrow> Registry \<Rightarrow> bool" for cap where
  start: "reachable_registry cap empty_registry"
| register: "reachable_registry cap r \<Longrightarrow> module_arrays_ok mo \<Longrightarrow>
    register_module cap mo v r = (st, r') \<Longrightarrow> reachable_registry cap r'"

lemma reachable_inv: "reachable_registry cap r \<Longrightarrow> registry_inv cap r"
proof (induction rule: reachable_registry.induct)
  case (register r mo v st r')
  show ?case
  proof (cases "check_module cap r mo v = rs_ok")
    case True
    show ?thesis by (rule register_module_inv[OF register.IH register.hyps(2) True register.hyps(3)])
  next
    case False
    then show ?thesis using register by (auto simp: register_module_def)
  qed
qed (rule registry_inv_empty)

lemma validate_entries_ok:
  "\<forall>e \<in> set es. entry_ok e \<and> meta_find_by_id canon (entry_tid e) \<noteq> None \<Longrightarrow> validate_entries canon es = rs_ok"
  by (induction canon es rule: validate_entries.induct) (auto simp: entry_ok_def layouts_agree_def)

text \<open>C20.  In every registry reachable by any sequence of successful and failed registrations, the
  consistency hook \<open>validate\<close> reports no error, the array bound holds, an exact lookup determines one
  record, and every type named by a field of a registered type can be looked up.\<close>

theorem reachable_registry_consistent:
  assumes "reachable_registry cap r"
  shows "validate r = rs_ok \<and> length (rg_entries r) \<le> cap
       \<and> (\<forall>e \<in> set (rg_entries r). find_type r (entry_tid e) (re_version e) = Some e
            \<and> (\<forall>f \<in> set (type_fields (re_descriptor e)). find_by_id r (fdd_type_id f) \<noteq> None))"
proof -
  have inv: "registry_inv cap r" using assms by (rule reachable_inv)
  have "meta_find_by_id (rg_canonical r) (entry_tid e) \<noteq> None" if "e \<in> set (rg_entries r)" for e
    using inv that meta.lookup_None[of "rg_canonical r" "entry_tid e"] by (auto simp: registry_inv_def tables_agree_def)
  then have "validate r = rs_ok"
    using inv unfolding validate_def registry_inv_def by (intro validate_entries_ok) blast
  moreover have "find_type r (entry_tid e) (re_version e) = Some e" if "e \<in> set (rg_entries r)" for e
    using types.lookup_unique[OF _ that] inv by (simp add: registry_inv_def)
  ultimately show ?thesis using inv find_by_id_None by (auto simp: registry_inv_def)
qed

theorem reachable_registry_consistent_witness:
  "reachable_registry 4 (snd (register_module 4 demo_module 2 empty_registry))
   \<and> validate (snd (register_module 4 demo_module 2 empty_registry)) = rs_ok"
proof -
  have "reachable_registry 4 (snd (register_module 4 demo_module 2 empty_registry))"
    by (rule reachable_registry.register[OF start demo_module_arrays, of 4 2
          "fst (register_module 4 demo_module 2 empty_registry)"]) simp
  with reachable_registry_consistent[OF this] show ?thesis by blast
qed

text \<open>The version-agnostic lookup returns a record of the type whose version no other record
  of that type exceeds, and nothing exactly when the type was never registered.\<close>

lemma find_by_id_newest:
  "case find_by_id r tid of
     None \<Rightarrow> (\<forall>v. find_type r tid v = None)
   | Some e \<Rightarrow> e \<in> set (rg_entries r) \<and> entry_tid e = tid
       \<and> (\<forall>x \<in> set (rg_entries r). entry_tid x = tid \<longrightarrow> re_version x \<le> re_version e)"
proof (cases "find_by_id r tid")
  case None
  then have "find_type r tid v = None" for v
    unfolding find_by_id_None find_type_None by (auto simp: image_iff)
  then show ?thesis using None by simp
next
  case (Some e)
  then show ?thesis using newest_from_Some[of tid "rg_entries r" None e] by (simp add: find_by_id_def)
qed

text \<open>Bootstrapping an empty registry of at least two slots registers the two kernel records
  under their own ids, and bootstrapping again changes nothing.\<close>

theorem bootstrap_self_registers:
  assumes "2 \<le> cap"
  shows "\<exists>r. bootstrap_self cap \<lparr>mg_entries = []\<rparr> = (bs_ok, r) \<and> length (mg_entries r) = 2
           \<and> (\<forall>b \<in> set bootstrap_records. \<exists>e. meta_find_by_id r \<lparr>lo = br_type_hash b, hi = 1\<rparr> = Some e
                \<and> me_bootstrap_hash e = br_type_hash b \<and> tl_size (me_layout e) = br_size b)
           \<and> bootstrap_self cap r = (bs_ok, r)"
  using assms
  by (simp add: bootstrap_self_def abix_bootstrap_def bootstrap_records_def boot_metadata_def valid_record_def
      arr_elems_def register_type_def valid_descriptor_def meta_find_by_id_def same_layout_def Let_def)

theorem bootstrap_self_registers_witness:
  "\<exists>r. bootstrap_self 64 \<lparr>mg_entries = []\<rparr> = (bs_ok, r) \<and> bootstrap_self 64 r = (bs_ok, r)"
  using bootstrap_self_registers[of 64] by auto

text \<open>The version of a module is the decimal number its version string starts with, modulo \<open>2 ^ 32\<close>.\<close>

fun leading_decimal :: "string \<Rightarrow> nat \<Rightarrow> nat" where
  "leading_decimal [] n = n"
| "leading_decimal (c # cs) n =
     (if (48::nat) \<le> of_char c \<and> of_char c \<le> (57::nat) then leading_decimal cs (10 * n + (of_char c - 48)) else n)"

lemma parse_digits_decimal: "parse_digits s (of_nat n) = of_nat (leading_decimal s n)"
proof (induction s arbitrary: n)
  case (Cons c cs)
  show ?case
  proof (cases "(48::nat) \<le> of_char c \<and> of_char c \<le> (57::nat)")
    case True
    have "(of_nat n * 10 + (of_char c - 48) :: u32) = of_nat (10 * n + (of_char c - 48))"
      using True by (simp add: of_nat_diff of_nat_of_char)
    then show ?thesis by (simp only: parse_digits.simps leading_decimal.simps if_P[OF True] Cons.IH)
  qed auto
qed simp

lemma parse_version_decimal:
  "parse_version (Some s) = of_nat (leading_decimal (c_str s) 0)" "parse_version None = 0"
  using parse_digits_decimal[of "c_str s" 0] by (simp_all add: parse_version_def)

end
