(* ===== verification/Model_Map.thy ===== *)
theory Model_Map
  imports Model_ABI
begin

text \<open>
  Layout mapping plans: \<open>Model/Map.h\<close>. \<open>MapPlan::apply\<close> moves an object of one layout into the
  storage of another by a list of field operations.

  The source and the target are distinct byte buffers. Every read and write of the C++ is explicit:
  \<open>None\<close> is an access outside an array or a buffer. The converter is a function pointer supplied by
  the caller, a parameter that sees both buffers.

  Shown: applying any plan, however malformed, stays inside the two layouts as long as its conversions fit them,
  which \<open>apply\<close> does not check; the bytes of the target after a plan are those the operations say, and
  nothing else is touched.
\<close>

section \<open>Plans\<close>

datatype Opcode =
    op_copy_field | op_convert_int | op_convert_float | op_default_field | op_rename_field
  | op_skip_field | op_add_default | op_call_converter | op_unknown u8

record Operation =
  oper_opcode :: Opcode
  oper_source_field_index :: u32
  oper_target_field_index :: u32
  oper_auxiliary :: u64

datatype PlanStatus = pl_ok | pl_invalid_plan | pl_invalid_layout | pl_invalid_operation | pl_conversion_failed

text \<open>
  A converter gets the source buffer and the offset of its field, the target buffer and the offset of
  its field, the auxiliary value and the context; it returns its verdict, the target buffer and the
  context afterwards, or \<open>None\<close> if it leaves one of the buffers.
\<close>

type_synonym 'c Converter =
  "u8 list \<Rightarrow> nat \<Rightarrow> u8 list \<Rightarrow> nat \<Rightarrow> u64 \<Rightarrow> 'c \<Rightarrow> (bool \<times> u8 list \<times> 'c) option"

record MapPlan =
  mp_info :: MapInfo
  mp_operations :: "Operation arr"
  mp_count :: u32

section \<open>Guards\<close>

definition field_at :: "Field arr \<Rightarrow> u32 \<Rightarrow> Field option" where
  "field_at fs i = (case fs of None \<Rightarrow> None | Some l \<Rightarrow> if unat i < length l then Some (l ! unat i) else None)"

definition map_valid_layout :: "TypeLayout \<Rightarrow> Field arr \<Rightarrow> bool" where
  "map_valid_layout layout fs \<longleftrightarrow>
     tl_size layout \<noteq> 0 \<and> tl_align layout \<noteq> 0 \<and> tl_align layout AND (tl_align layout - 1) = 0
     \<and> (tl_field_count layout = 0 \<or> fs \<noteq> None)"

text \<open>The guards read \<open>fields[index].offset\<close>: their value is \<open>None\<close> when that read is out of range.\<close>

definition valid_field :: "u32 \<Rightarrow> TypeLayout \<Rightarrow> Field arr \<Rightarrow> bool option" where
  "valid_field i layout fs =
     (if fs = None \<or> \<not> i < tl_field_count layout then Some False
      else map_option (\<lambda>f. fd_offset f < tl_size layout) (field_at fs i))"

definition valid_range :: "u32 \<Rightarrow> TypeLayout \<Rightarrow> Field arr \<Rightarrow> u64 \<Rightarrow> bool option" where
  "valid_range i layout fs bytes =
     (case valid_field i layout fs of
        None \<Rightarrow> None
      | Some False \<Rightarrow> Some False
      | Some True \<Rightarrow>
          if \<not> bytes \<le> ucast (tl_size layout) then Some False
          else map_option (\<lambda>f. ucast (fd_offset f) \<le> ucast (tl_size layout) - bytes) (field_at fs i))"

section \<open>Memory operations\<close>

definition memcpy :: "u8 list \<Rightarrow> nat \<Rightarrow> u8 list \<Rightarrow> nat \<Rightarrow> nat \<Rightarrow> u8 list option" where
  "memcpy dst d src s n =
     (if d + n \<le> length dst \<and> s + n \<le> length src
      then Some (take d dst @ take n (drop s src) @ drop (d + n) dst) else None)"

definition memset_zero :: "u8 list \<Rightarrow> nat \<Rightarrow> nat \<Rightarrow> u8 list option" where
  "memset_zero dst d n =
     (if d + n \<le> length dst then Some (take d dst @ replicate n 0 @ drop (d + n) dst) else None)"

section \<open>Applying a plan\<close>

record map_env =
  ev_source_layout :: TypeLayout
  ev_target_layout :: TypeLayout
  ev_source_fields :: "Field arr"
  ev_target_fields :: "Field arr"

text \<open>\<open>a && b\<close> over guards that may fault.\<close>

definition guard_and :: "bool option \<Rightarrow> bool option \<Rightarrow> bool option" where
  "guard_and a b = (case a of Some True \<Rightarrow> b | _ \<Rightarrow> a)"

abbreviation source_off :: "map_env \<Rightarrow> Operation \<Rightarrow> nat option" where
  "source_off ev op \<equiv> map_option (\<lambda>f. unat (fd_offset f)) (field_at (ev_source_fields ev) (oper_source_field_index op))"

abbreviation target_off :: "map_env \<Rightarrow> Operation \<Rightarrow> nat option" where
  "target_off ev op \<equiv> map_option (\<lambda>f. unat (fd_offset f)) (field_at (ev_target_fields ev) (oper_target_field_index op))"

definition op_copy :: "map_env \<Rightarrow> Operation \<Rightarrow> u8 list \<Rightarrow> u8 list \<Rightarrow> (PlanStatus \<times> u8 list) option" where
  "op_copy ev op source target =
     (case guard_and (valid_range (oper_source_field_index op) (ev_source_layout ev) (ev_source_fields ev) (oper_auxiliary op))
             (guard_and (valid_range (oper_target_field_index op) (ev_target_layout ev) (ev_target_fields ev) (oper_auxiliary op))
                (Some (oper_auxiliary op \<noteq> 0))) of
        None \<Rightarrow> None
      | Some False \<Rightarrow> Some (pl_invalid_operation, target)
      | Some True \<Rightarrow>
          (case (target_off ev op, source_off ev op) of
             (Some d, Some s) \<Rightarrow>
               map_option (\<lambda>t. (pl_ok, t)) (memcpy target d source s (unat (oper_auxiliary op)))
           | _ \<Rightarrow> None))"

definition op_default :: "map_env \<Rightarrow> Operation \<Rightarrow> u8 list \<Rightarrow> (PlanStatus \<times> u8 list) option" where
  "op_default ev op target =
     (case guard_and (valid_range (oper_target_field_index op) (ev_target_layout ev) (ev_target_fields ev) (oper_auxiliary op))
             (Some (oper_auxiliary op \<noteq> 0)) of
        None \<Rightarrow> None
      | Some False \<Rightarrow> Some (pl_invalid_operation, target)
      | Some True \<Rightarrow>
          (case target_off ev op of
             Some d \<Rightarrow> map_option (\<lambda>t. (pl_ok, t)) (memset_zero target d (unat (oper_auxiliary op)))
           | None \<Rightarrow> None))"

definition op_skip :: "map_env \<Rightarrow> Operation \<Rightarrow> u8 list \<Rightarrow> (PlanStatus \<times> u8 list) option" where
  "op_skip ev op target =
     map_option (\<lambda>ok. (if ok then pl_ok else pl_invalid_operation, target))
       (valid_field (oper_source_field_index op) (ev_source_layout ev) (ev_source_fields ev))"

definition op_convert ::
  "'c Converter option \<Rightarrow> map_env \<Rightarrow> Operation \<Rightarrow> u8 list \<Rightarrow> u8 list \<Rightarrow> 'c \<Rightarrow> (PlanStatus \<times> u8 list \<times> 'c) option" where
  "op_convert converter ev op source target context =
     (case converter of
        None \<Rightarrow> Some (pl_invalid_operation, target, context)
      | Some conv \<Rightarrow>
          (case guard_and (valid_field (oper_source_field_index op) (ev_source_layout ev) (ev_source_fields ev))
                  (valid_field (oper_target_field_index op) (ev_target_layout ev) (ev_target_fields ev)) of
             None \<Rightarrow> None
           | Some False \<Rightarrow> Some (pl_conversion_failed, target, context)
           | Some True \<Rightarrow>
               (case (source_off ev op, target_off ev op) of
                  (Some s, Some d) \<Rightarrow>
                    map_option (\<lambda>(ok, t, c). (if ok then pl_ok else pl_conversion_failed, t, c))
                      (conv source s target d (oper_auxiliary op) context)
                | _ \<Rightarrow> None)))"

definition apply_op ::
  "'c Converter option \<Rightarrow> map_env \<Rightarrow> Operation \<Rightarrow> u8 list \<Rightarrow> u8 list \<Rightarrow> 'c \<Rightarrow> (PlanStatus \<times> u8 list \<times> 'c) option" where
  "apply_op converter ev op source target context =
     (let keep = map_option (\<lambda>(st, t). (st, t, context)) in
      case oper_opcode op of
        op_copy_field \<Rightarrow> keep (op_copy ev op source target)
      | op_rename_field \<Rightarrow> keep (op_copy ev op source target)
      | op_default_field \<Rightarrow> keep (op_default ev op target)
      | op_add_default \<Rightarrow> keep (op_default ev op target)
      | op_skip_field \<Rightarrow> keep (op_skip ev op target)
      | op_convert_int \<Rightarrow> op_convert converter ev op source target context
      | op_convert_float \<Rightarrow> op_convert converter ev op source target context
      | op_call_converter \<Rightarrow> op_convert converter ev op source target context
      | op_unknown _ \<Rightarrow> Some (pl_invalid_operation, target, context))"

fun apply_ops ::
  "'c Converter option \<Rightarrow> map_env \<Rightarrow> Operation list \<Rightarrow> u8 list \<Rightarrow> u8 list \<Rightarrow> 'c \<Rightarrow> (PlanStatus \<times> u8 list \<times> 'c) option" where
  "apply_ops converter ev [] source target context = Some (pl_ok, target, context)"
| "apply_ops converter ev (op # ops) source target context =
     (case apply_op converter ev op source target context of
        None \<Rightarrow> None
      | Some (st, t, c) \<Rightarrow>
          if st = pl_ok then apply_ops converter ev ops source t c else Some (st, t, c))"

definition plan_apply ::
  "nat \<Rightarrow> MapPlan \<Rightarrow> 'c Converter option \<Rightarrow> map_env \<Rightarrow> u8 list ptr \<Rightarrow> u8 list ptr \<Rightarrow> 'c
     \<Rightarrow> (PlanStatus \<times> u8 list ptr \<times> 'c) option" where
  "plan_apply cap plan converter ev target source context =
     (case (mp_operations plan, target, source) of
        (Some ops, Some t, Some s) \<Rightarrow>
          if unat (mp_count plan) > cap then Some (pl_invalid_plan, target, context)
          else if \<not> map_valid_layout (ev_source_layout ev) (ev_source_fields ev)
                \<or> \<not> map_valid_layout (ev_target_layout ev) (ev_target_fields ev)
          then Some (pl_invalid_layout, target, context)
          else map_option (\<lambda>(st, t', c). (st, Some t', c))
                 (apply_ops converter ev (arr_elems (Some ops) (mp_count plan)) s t context)
      | _ \<Rightarrow> Some (pl_invalid_plan, target, context))"

section \<open>Memory safety\<close>

text \<open>The field arrays really have \<open>field_count\<close> elements, and the buffers hold the layouts.\<close>

definition env_ok :: "map_env \<Rightarrow> u8 list \<Rightarrow> u8 list \<Rightarrow> bool" where
  "env_ok ev source target \<longleftrightarrow>
     arr_ok (ev_source_fields ev) (tl_field_count (ev_source_layout ev))
     \<and> arr_ok (ev_target_fields ev) (tl_field_count (ev_target_layout ev))
     \<and> unat (tl_size (ev_source_layout ev)) \<le> length source
     \<and> unat (tl_size (ev_target_layout ev)) \<le> length target"

text \<open>Two target buffers that agree beyond the target layout.\<close>

definition same_tail :: "map_env \<Rightarrow> u8 list \<Rightarrow> u8 list \<Rightarrow> bool" where
  "same_tail ev t t' \<longleftrightarrow>
     length t' = length t \<and> drop (unat (tl_size (ev_target_layout ev))) t' = drop (unat (tl_size (ev_target_layout ev))) t"

lemma field_at_ok: "fs \<noteq> None \<Longrightarrow> arr_ok fs n \<Longrightarrow> i < n \<Longrightarrow> \<exists>f. field_at fs i = Some f"
  by (auto simp: field_at_def arr_ok_def word_less_nat_alt split: option.splits)

lemma valid_field_decided: "arr_ok fs (tl_field_count l) \<Longrightarrow> valid_field i l fs \<noteq> None"
  using field_at_ok[of fs "tl_field_count l" i] by (auto simp: valid_field_def)

lemma valid_field_True:
  "valid_field i l fs = Some True \<Longrightarrow> \<exists>f. field_at fs i = Some f \<and> fd_offset f < tl_size l"
  by (auto simp: valid_field_def split: if_splits)

lemma valid_range_decided: "arr_ok fs (tl_field_count l) \<Longrightarrow> valid_range i l fs n \<noteq> None"
  using valid_field_decided[of fs l i] valid_field_True[of i l fs]
  by (auto simp: valid_range_def split: option.splits bool.splits)

lemma valid_range_True:
  assumes "valid_range i l fs n = Some True"
  shows "\<exists>f. field_at fs i = Some f \<and> unat (fd_offset f) + unat n \<le> unat (tl_size l)"
proof -
  obtain f where f: "field_at fs i = Some f" "n \<le> ucast (tl_size l)" "ucast (fd_offset f) \<le> ucast (tl_size l) - n"
    using assms by (auto simp: valid_range_def split: option.splits bool.splits if_splits)
  have "unat (ucast (fd_offset f) :: u64) \<le> unat (ucast (tl_size l) - n)"
    using f(3) by (simp add: word_le_nat_alt)
  also have "\<dots> = unat (ucast (tl_size l) :: u64) - unat n" using f(2) by (rule unat_sub)
  finally have "unat (fd_offset f) \<le> unat (tl_size l) - unat n"
    by (simp add: unat_ucast_up)
  moreover have "unat n \<le> unat (tl_size l)" using f(2) by (simp add: word_le_nat_alt unat_ucast_up)
  ultimately show ?thesis using f(1) by auto
qed

lemma memcpy_ok:
  assumes "d + n \<le> sz" "sz \<le> length dst" "s + n \<le> length src"
  shows "\<exists>t. memcpy dst d src s n = Some t \<and> length t = length dst \<and> drop sz t = drop sz dst
           \<and> (\<forall>j < length dst. t ! j = (if d \<le> j \<and> j < d + n then src ! (s + (j - d)) else dst ! j))"
proof -
  let ?t = "take d dst @ take n (drop s src) @ drop (d + n) dst"
  have len: "length ?t = length dst" using assms by simp
  have at: "?t ! j = (if d \<le> j \<and> j < d + n then src ! (s + (j - d)) else dst ! j)" if "j < length dst" for j
    using assms that by (auto simp: nth_append)
  have "drop sz ?t = drop sz dst"
  proof (rule nth_equalityI)
    fix i assume "i < length (drop sz ?t)"
    then show "drop sz ?t ! i = drop sz dst ! i" using at[of "sz + i"] len assms by simp
  qed (simp only: length_drop len)
  then show ?thesis using assms len at by (simp add: memcpy_def)
qed

lemma memset_zero_ok:
  assumes "d + n \<le> sz" "sz \<le> length dst"
  shows "\<exists>t. memset_zero dst d n = Some t \<and> length t = length dst \<and> drop sz t = drop sz dst
           \<and> (\<forall>j < length dst. t ! j = (if d \<le> j \<and> j < d + n then 0 else dst ! j))"
proof -
  have "memset_zero dst d n = memcpy dst d (replicate n 0) 0 n"
    using assms by (simp add: memset_zero_def memcpy_def)
  then show ?thesis using memcpy_ok[OF assms, of 0 "replicate n 0"] by auto
qed

text \<open>The value an operation gives byte \<open>j\<close> of the target, whose value was \<open>old\<close>.\<close>

definition op_byte :: "map_env \<Rightarrow> u8 list \<Rightarrow> nat \<Rightarrow> Operation \<Rightarrow> u8 \<Rightarrow> u8" where
  "op_byte ev source j op old =
     (case (target_off ev op, source_off ev op) of
        (Some d, so) \<Rightarrow>
          if d \<le> j \<and> j < d + unat (oper_auxiliary op) then
            (if oper_opcode op \<in> {op_copy_field, op_rename_field} then source ! (the so + (j - d))
             else if oper_opcode op \<in> {op_default_field, op_add_default} then 0 else old)
          else old
      | _ \<Rightarrow> old)"

definition converting :: "Operation \<Rightarrow> bool" where
  "converting op \<longleftrightarrow> oper_opcode op \<in> {op_convert_int, op_convert_float, op_call_converter}"

text \<open>A converter that reads \<open>rd aux\<close> bytes at the source field and writes within \<open>wr aux\<close> bytes at the target field.\<close>

definition converter_within :: "(u64 \<Rightarrow> nat) \<Rightarrow> (u64 \<Rightarrow> nat) \<Rightarrow> 'c Converter \<Rightarrow> bool" where
  "converter_within rd wr conv \<longleftrightarrow> (\<forall>src s t d aux c. s + rd aux \<le> length src \<longrightarrow> d + wr aux \<le> length t \<longrightarrow>
     (\<exists>ok r c'. conv src s t d aux c = Some (ok, r, c') \<and> length r = length t
        \<and> (\<forall>j < length t. j < d \<or> d + wr aux \<le> j \<longrightarrow> r ! j = t ! j)))"

text \<open>Those bytes lie inside the two layouts. \<open>apply\<close> checks only that the fields start inside them.\<close>

definition conversion_fits :: "map_env \<Rightarrow> (u64 \<Rightarrow> nat) \<Rightarrow> (u64 \<Rightarrow> nat) \<Rightarrow> Operation \<Rightarrow> bool" where
  "conversion_fits ev rd wr op \<longleftrightarrow>
     (\<forall>s d. source_off ev op = Some s \<longrightarrow> target_off ev op = Some d \<longrightarrow>
        s + rd (oper_auxiliary op) \<le> unat (tl_size (ev_source_layout ev))
        \<and> d + wr (oper_auxiliary op) \<le> unat (tl_size (ev_target_layout ev)))"

definition conversions_ok :: "map_env \<Rightarrow> (u64 \<Rightarrow> nat) \<Rightarrow> (u64 \<Rightarrow> nat) \<Rightarrow> 'c Converter option \<Rightarrow> Operation list \<Rightarrow> bool" where
  "conversions_ok ev rd wr converter ops \<longleftrightarrow> (\<forall>conv. converter = Some conv \<longrightarrow>
     converter_within rd wr conv \<and> (\<forall>op \<in> set ops. converting op \<longrightarrow> conversion_fits ev rd wr op))"

lemma same_tailI:
  assumes "length r = length t" "\<And>j. j < length t \<Longrightarrow> unat (tl_size (ev_target_layout ev)) \<le> j \<Longrightarrow> r ! j = t ! j"
  shows "same_tail ev t r"
  unfolding same_tail_def
  by (intro conjI nth_equalityI) (use assms in auto)

lemma op_copy_safe:
  assumes "env_ok ev source target"
  shows "\<exists>st t. op_copy ev op source target = Some (st, t) \<and> same_tail ev target t
           \<and> (oper_opcode op \<in> {op_copy_field, op_rename_field} \<longrightarrow> st = pl_ok \<longrightarrow>
                (\<forall>j < length target. t ! j = op_byte ev source j op (target ! j)))"
proof -
  let ?g1 = "valid_range (oper_source_field_index op) (ev_source_layout ev) (ev_source_fields ev) (oper_auxiliary op)"
  let ?g2 = "valid_range (oper_target_field_index op) (ev_target_layout ev) (ev_target_fields ev) (oper_auxiliary op)"
  have dec: "?g1 \<noteq> None" "?g2 \<noteq> None" using assms by (simp_all add: env_ok_def valid_range_decided)
  show ?thesis
  proof (cases "guard_and ?g1 (guard_and ?g2 (Some (oper_auxiliary op \<noteq> 0))) = Some True")
    case True
    then have g: "?g1 = Some True" "?g2 = Some True"
      by (auto simp: guard_and_def split: option.splits bool.splits)
    obtain fs where fs: "field_at (ev_source_fields ev) (oper_source_field_index op) = Some fs"
        "unat (fd_offset fs) + unat (oper_auxiliary op) \<le> unat (tl_size (ev_source_layout ev))"
      using valid_range_True[OF g(1)] by blast
    obtain ft where ft: "field_at (ev_target_fields ev) (oper_target_field_index op) = Some ft"
        "unat (fd_offset ft) + unat (oper_auxiliary op) \<le> unat (tl_size (ev_target_layout ev))"
      using valid_range_True[OF g(2)] by blast
    have src: "unat (fd_offset fs) + unat (oper_auxiliary op) \<le> length source"
      and tgt: "unat (tl_size (ev_target_layout ev)) \<le> length target"
      using fs(2) assms by (auto simp: env_ok_def)
    show ?thesis using memcpy_ok[OF ft(2) tgt src] True fs(1) ft(1)
      by (auto simp: op_copy_def same_tail_def op_byte_def)
  next
    case False
    then have "guard_and ?g1 (guard_and ?g2 (Some (oper_auxiliary op \<noteq> 0))) = Some False"
      using dec by (auto simp: guard_and_def split: option.splits bool.splits)
    then show ?thesis by (simp add: op_copy_def same_tail_def)
  qed
qed

lemma op_default_safe:
  assumes "env_ok ev source target"
  shows "\<exists>st t. op_default ev op target = Some (st, t) \<and> same_tail ev target t
           \<and> (oper_opcode op \<in> {op_default_field, op_add_default} \<longrightarrow> st = pl_ok \<longrightarrow>
                (\<forall>j < length target. t ! j = op_byte ev source j op (target ! j)))"
proof -
  let ?g2 = "valid_range (oper_target_field_index op) (ev_target_layout ev) (ev_target_fields ev) (oper_auxiliary op)"
  have dec: "?g2 \<noteq> None" using assms by (simp add: env_ok_def valid_range_decided)
  show ?thesis
  proof (cases "guard_and ?g2 (Some (oper_auxiliary op \<noteq> 0)) = Some True")
    case True
    then have g: "?g2 = Some True" by (auto simp: guard_and_def split: option.splits bool.splits)
    obtain ft where ft: "field_at (ev_target_fields ev) (oper_target_field_index op) = Some ft"
        "unat (fd_offset ft) + unat (oper_auxiliary op) \<le> unat (tl_size (ev_target_layout ev))"
      using valid_range_True[OF g] by blast
    have tgt: "unat (tl_size (ev_target_layout ev)) \<le> length target" using assms by (simp add: env_ok_def)
    show ?thesis using memset_zero_ok[OF ft(2) tgt] True ft(1)
      by (auto simp: op_default_def same_tail_def op_byte_def)
  next
    case False
    then have "guard_and ?g2 (Some (oper_auxiliary op \<noteq> 0)) = Some False"
      using dec by (auto simp: guard_and_def split: option.splits bool.splits)
    then show ?thesis by (simp add: op_default_def same_tail_def)
  qed
qed

lemma op_skip_safe:
  assumes "env_ok ev source target"
  shows "\<exists>st. op_skip ev op target = Some (st, target)"
  using assms valid_field_decided[of "ev_source_fields ev" "ev_source_layout ev" "oper_source_field_index op"]
  by (auto simp: op_skip_def env_ok_def)

lemma op_convert_safe:
  assumes "env_ok ev source target" "conversions_ok ev rd wr converter [op]" "converting op"
  shows "\<exists>st t c. op_convert converter ev op source target context = Some (st, t, c) \<and> same_tail ev target t"
proof (cases converter)
  case None
  then show ?thesis by (simp add: op_convert_def same_tail_def)
next
  case (Some conv)
  let ?g1 = "valid_field (oper_source_field_index op) (ev_source_layout ev) (ev_source_fields ev)"
  let ?g2 = "valid_field (oper_target_field_index op) (ev_target_layout ev) (ev_target_fields ev)"
  have dec: "?g1 \<noteq> None" "?g2 \<noteq> None" using assms by (simp_all add: env_ok_def valid_field_decided)
  show ?thesis
  proof (cases "guard_and ?g1 ?g2 = Some True")
    case True
    then have "?g1 = Some True" "?g2 = Some True" by (auto simp: guard_and_def split: option.splits bool.splits)
    then obtain fs ft where f: "field_at (ev_source_fields ev) (oper_source_field_index op) = Some fs"
        "field_at (ev_target_fields ev) (oper_target_field_index op) = Some ft"
      using valid_field_True by blast
    have w: "converter_within rd wr conv" and fits: "conversion_fits ev rd wr op"
      using assms(2,3) Some by (simp_all add: conversions_ok_def)
    let ?s = "unat (fd_offset fs)" and ?d = "unat (fd_offset ft)" and ?aux = "oper_auxiliary op"
    have b: "?s + rd ?aux \<le> length source" "?d + wr ?aux \<le> length target"
      "?d + wr ?aux \<le> unat (tl_size (ev_target_layout ev))"
      using fits f assms(1) by (auto simp: conversion_fits_def env_ok_def)
    obtain ok r c' where c: "conv source ?s target ?d ?aux context = Some (ok, r, c')" "length r = length target"
      "\<forall>j < length target. j < ?d \<or> ?d + wr ?aux \<le> j \<longrightarrow> r ! j = target ! j"
      using w b(1,2) unfolding converter_within_def by blast
    have "same_tail ev target r" using c(2,3) b(3) by (intro same_tailI) auto
    then show ?thesis using f True Some c(1) by (simp add: op_convert_def)
  next
    case False
    then have "guard_and ?g1 ?g2 = Some False" using dec by (auto simp: guard_and_def split: option.splits bool.splits)
    then show ?thesis using Some by (simp add: op_convert_def same_tail_def)
  qed
qed

lemma apply_op_safe:
  assumes "env_ok ev source target" "conversions_ok ev rd wr converter [op]"
  shows "\<exists>st t c. apply_op converter ev op source target context = Some (st, t, c) \<and> same_tail ev target t
           \<and> (\<not> converting op \<longrightarrow> st = pl_ok \<longrightarrow> (\<forall>j < length target. t ! j = op_byte ev source j op (target ! j)))"
  using op_copy_safe[OF assms(1), of op] op_default_safe[OF assms(1), of op] op_skip_safe[OF assms(1), of op]
    op_convert_safe[OF assms, of "context"]
  by (cases "oper_opcode op")
     (auto simp: apply_op_def same_tail_def converting_def op_byte_def split: option.splits)

lemma same_tail_env: "env_ok ev source target \<Longrightarrow> same_tail ev target t \<Longrightarrow> env_ok ev source t"
  by (simp add: env_ok_def same_tail_def)

lemma apply_ops_safe:
  assumes "env_ok ev source target" "conversions_ok ev rd wr converter ops"
  shows "\<exists>st t c. apply_ops converter ev ops source target context = Some (st, t, c) \<and> same_tail ev target t
           \<and> ((\<forall>op \<in> set ops. \<not> converting op) \<longrightarrow> st = pl_ok \<longrightarrow>
                (\<forall>j < length target. t ! j = fold (op_byte ev source j) ops (target ! j)))"
  using assms
proof (induction ops arbitrary: target "context")
  case Nil
  then show ?case by (simp add: same_tail_def)
next
  case (Cons op ops)
  have co: "conversions_ok ev rd wr converter [op]" "conversions_ok ev rd wr converter ops"
    using Cons.prems(2) by (auto simp: conversions_ok_def)
  obtain st t c where a: "apply_op converter ev op source target context = Some (st, t, c)" "same_tail ev target t"
      "\<not> converting op \<longrightarrow> st = pl_ok \<longrightarrow> (\<forall>j < length target. t ! j = op_byte ev source j op (target ! j))"
    using apply_op_safe[OF Cons.prems(1) co(1)] by blast
  show ?case
  proof (cases "st = pl_ok")
    case True
    then show ?thesis using a Cons.IH[OF same_tail_env[OF Cons.prems(1) a(2)] co(2), of c] by (auto simp: same_tail_def)
  next
    case False
    then show ?thesis using a by auto
  qed
qed

section \<open>Properties of plans\<close>

definition demo_layout :: TypeLayout where
  "demo_layout = \<lparr>tl_size = 4, tl_align = 2, tl_field_begin = 0, tl_field_count = 2, tl_layout_hash = Hash128_zero\<rparr>"

definition demo_fields :: "Field arr" where
  "demo_fields = Some
     [\<lparr>fd_name_offset = 0, fd_type_id = Hash128_zero, fd_offset = 0, fd_flags = 0, fd_bit_offset = 0, fd_bit_width = 0\<rparr>,
      \<lparr>fd_name_offset = 0, fd_type_id = Hash128_zero, fd_offset = 2, fd_flags = 0, fd_bit_offset = 0, fd_bit_width = 0\<rparr>]"

definition demo_env :: map_env where
  "demo_env = \<lparr>ev_source_layout = demo_layout, ev_target_layout = demo_layout,
               ev_source_fields = demo_fields, ev_target_fields = demo_fields\<rparr>"

definition demo_plan :: MapPlan where
  "demo_plan = \<lparr>mp_info = \<lparr>mi_source = Hash128_zero, mi_target = Hash128_zero, mi_rule = 0, mi_flags = 0\<rparr>,
      mp_operations = Some
        [\<lparr>oper_opcode = op_copy_field, oper_source_field_index = 0, oper_target_field_index = 1, oper_auxiliary = 2\<rparr>,
         \<lparr>oper_opcode = op_add_default, oper_source_field_index = 0, oper_target_field_index = 0, oper_auxiliary = 1\<rparr>],
      mp_count = 2\<rparr>"

lemma demo_env_ok: "env_ok demo_env [1, 2, 3, 4] [9, 9, 9, 9, 9]"
  by (simp add: env_ok_def demo_env_def demo_layout_def demo_fields_def arr_ok_def)

text \<open>A converter that swaps two bytes, and a plan that calls it.\<close>

definition swap_bytes :: "unit Converter" where
  "swap_bytes src s t d aux c = (if s + 2 \<le> length src \<and> d + 2 \<le> length t
     then Some (True, t[d := src ! (s + 1), d + 1 := src ! s], c) else None)"

lemma swap_bytes_within: "converter_within (\<lambda>_. 2) (\<lambda>_. 2) swap_bytes"
  by (auto simp: converter_within_def swap_bytes_def nth_list_update)

definition swap_plan :: MapPlan where
  "swap_plan = demo_plan\<lparr>mp_operations := Some
     [\<lparr>oper_opcode = op_convert_int, oper_source_field_index = 0, oper_target_field_index = 1, oper_auxiliary = 0\<rparr>], mp_count := 1\<rparr>"

text \<open>C15.  Applying a plan is memory safe. For any operations, valid or not, any field tables with
  \<open>field_count\<close> elements and any buffers that hold the two layouts, \<open>apply\<close> returns a status without
  reading or writing outside an array or buffer, and bytes of the target beyond the target layout
  keep their values. If the plan converts, this needs a converter that reads and writes a known number of
  bytes at its fields, and fields that have so many bytes before the end of their layout: that is the
  caller's duty, because \<open>apply\<close> checks only where the fields of a conversion start
  (\<open>conversion_bounds_unchecked\<close>). Copies and defaults need no such condition.\<close>

theorem plan_apply_memory_safe:
  assumes "env_ok ev source target" "conversions_ok ev rd wr converter (arr_elems (mp_operations plan) (mp_count plan))"
  shows "\<exists>st t c. plan_apply cap plan converter ev (Some target) (Some source) context = Some (st, Some t, c)
           \<and> length t = length target
           \<and> (\<forall>j < length target. unat (tl_size (ev_target_layout ev)) \<le> j \<longrightarrow> t ! j = target ! j)"
proof -
  have tail: "length t = length target \<and>
      (\<forall>j < length target. unat (tl_size (ev_target_layout ev)) \<le> j \<longrightarrow> t ! j = target ! j)"
    if t: "same_tail ev target t" for t
  proof (intro conjI allI impI)
    let ?n = "unat (tl_size (ev_target_layout ev))"
    show l: "length t = length target" using t by (simp add: same_tail_def)
    fix j assume j: "j < length target" "?n \<le> j"
    have "t ! j = drop ?n t ! (j - ?n)" using j l by simp
    also have "\<dots> = drop ?n target ! (j - ?n)" using t by (simp only: same_tail_def)
    also have "\<dots> = target ! j" using j by simp
    finally show "t ! j = target ! j" .
  qed
  show ?thesis
  proof (cases "mp_operations plan")
    case None
    then show ?thesis by (simp add: plan_apply_def)
  next
    case (Some ops)
    then show ?thesis
      using apply_ops_safe[OF assms, of "context"] tail
      by (auto simp: plan_apply_def)
  qed
qed

theorem plan_apply_memory_safe_witness:
  "\<exists>st t c. plan_apply 64 swap_plan (Some swap_bytes) demo_env (Some [9, 9, 9, 9, 9]) (Some [1, 2, 3, 4]) ()
      = Some (st, Some t, c) \<and> t ! 4 = 9"
proof -
  have "conversions_ok demo_env (\<lambda>_. 2) (\<lambda>_. 2) (Some swap_bytes) (arr_elems (mp_operations swap_plan) (mp_count swap_plan))"
    using swap_bytes_within
    by (simp add: conversions_ok_def swap_plan_def arr_elems_def conversion_fits_def demo_env_def demo_layout_def
        demo_fields_def field_at_def)
  from plan_apply_memory_safe[OF demo_env_ok this, of 64 "()"] show ?thesis
    by (fastforce simp: demo_env_def demo_layout_def)
qed

text \<open>The same converter on a field that starts one byte before the end of the layout passes every check of \<open>apply\<close>
  and leaves the buffer.\<close>

lemma conversion_bounds_unchecked:
  "let tail_field = \<lparr>fd_name_offset = 0, fd_type_id = Hash128_zero, fd_offset = 3, fd_flags = 0, fd_bit_offset = 0, fd_bit_width = 0\<rparr>;
       ev = demo_env\<lparr>ev_target_fields := Some [tail_field, tail_field]\<rparr>
   in env_ok ev [1, 2, 3, 4] [9, 9, 9, 9]
    \<and> plan_apply 64 swap_plan (Some swap_bytes) ev (Some [9, 9, 9, 9]) (Some [1, 2, 3, 4]) () = None"
  by code_simp

text \<open>A plan refused at its second operation has already written with the first.\<close>

lemma refused_plan_has_written:
  "plan_apply 64 (demo_plan\<lparr>mp_operations := Some
       [\<lparr>oper_opcode = op_copy_field, oper_source_field_index = 0, oper_target_field_index = 1, oper_auxiliary = 2\<rparr>,
        \<lparr>oper_opcode = op_copy_field, oper_source_field_index = 0, oper_target_field_index = 1, oper_auxiliary = 3\<rparr>]\<rparr>)
     None demo_env (Some [9, 9, 9, 9]) (Some [1, 2, 3, 4]) ()
   = Some (pl_invalid_operation, Some [9, 9, 1, 2], ())"
  by code_simp

text \<open>C16.  A plan without converters that succeeds leaves in every target byte exactly what its
  operations say, in order: the source byte at the same place of the copied field, zero for a
  defaulted field, and the old value where no operation reaches.\<close>

theorem plan_apply_bytes:
  assumes "env_ok ev source target" "mp_operations plan = Some ops"
    and "\<forall>op \<in> set (arr_elems (Some ops) (mp_count plan)). \<not> converting op"
    and "plan_apply cap plan None ev (Some target) (Some source) context = Some (pl_ok, Some t, c)"
  shows "length t = length target \<and> (\<forall>j < length target.
           t ! j = fold (op_byte ev source j) (arr_elems (Some ops) (mp_count plan)) (target ! j))"
proof -
  have "conversions_ok ev rd wr None ops'" for rd wr and ops' :: "Operation list" by (simp add: conversions_ok_def)
  moreover have "apply_ops None ev (arr_elems (Some ops) (mp_count plan)) source target context = Some (pl_ok, t, c)"
    using assms(2,4) by (auto simp: plan_apply_def split: if_splits)
  ultimately show ?thesis
    using apply_ops_safe[OF assms(1), of "\<lambda>_. 0" "\<lambda>_. 0" None "arr_elems (Some ops) (mp_count plan)" "context"] assms(3)
    by (auto simp: same_tail_def)
qed

theorem plan_apply_bytes_witness:
  "plan_apply 64 demo_plan None demo_env (Some [9, 9, 9, 9, 9]) (Some [1, 2, 3, 4]) ()
     = Some (pl_ok, Some [0, 9, 1, 2, 9], ())
   \<and> [0, 9, 1, 2, 9] ! 3 = fold (op_byte demo_env [1, 2, 3, 4] 3)
        (arr_elems (Some (the (mp_operations demo_plan))) (mp_count demo_plan)) 9"
proof -
  have r: "plan_apply 64 demo_plan None demo_env (Some [9, 9, 9, 9, 9]) (Some [1, 2, 3, 4]) ()
     = Some (pl_ok, Some [0, 9, 1, 2, 9], ())" by code_simp
  have n: "\<forall>op \<in> set (arr_elems (Some (the (mp_operations demo_plan))) (mp_count demo_plan)). \<not> converting op"
    by code_simp
  have "mp_operations demo_plan = Some (the (mp_operations demo_plan))" by (simp add: demo_plan_def)
  from plan_apply_bytes[OF demo_env_ok this n r, THEN conjunct2, rule_format, of 3] r show ?thesis by simp
qed

end
