(* ===== verification/RCU_Domain.thy ===== *)
theory RCU_Domain
  imports Abix_Prelude
begin

text \<open>
  The reclamation domain: \<open>RCU/Domain.h\<close> and \<open>RCU/Deadline.h\<close>, one definition per function or
  critical section.

  A thread is a number; \<open>dm_threads\<close> is the registered list, newest first, \<open>dm_slot\<close> the epoch a
  thread announces (0 outside a read section) and \<open>dm_batch\<close> its thread-local list of retired nodes.
  A reclaim callback is an abstract \<open>'f\<close>; \<open>dm_log\<close> records the calls \<open>collect\<close> makes, in order. A
  section under the writer lock is one function on the state. \<open>SKL_ABIX_RCU_ENABLE_STATS\<close> and the clock
  are arguments.

  Shown: what \<open>collect\<close> calls and keeps; that a bounded wait which does not prove its grace period
  calls nothing and moves no watermark; the reach of \<open>reclaimed_through\<close>.
\<close>

section \<open>Data\<close>

datatype ReclaimClass = rc_batched | rc_eager

type_synonym tid = nat

record 'f RetiredNode =
  rn_object :: "nat ptr"
  rn_epoch :: u64
  rn_reclaim :: "'f ptr"
  rn_cls :: ReclaimClass
  rn_retired_at_ns :: u64

record Counters =
  ct_advance_attempts :: u64
  ct_advance_contentions :: u64
  ct_advance_retries :: u64
  ct_advance_timeouts :: u64
  ct_advance_max_wait_ns :: u64
  ct_grace_period_timeouts :: u64

definition zero_counters :: Counters where
  "zero_counters = \<lparr>ct_advance_attempts = 0, ct_advance_contentions = 0, ct_advance_retries = 0,
     ct_advance_timeouts = 0, ct_advance_max_wait_ns = 0, ct_grace_period_timeouts = 0\<rparr>"

record 'f Domain =
  dm_global :: u64
  dm_completed :: u64
  dm_completed_eager :: u64
  dm_sync :: u64
  dm_threads :: "tid list"
  dm_slot :: "tid \<Rightarrow> u64"
  dm_retired :: "'f RetiredNode list"
  dm_batch :: "tid \<Rightarrow> 'f RetiredNode list"
  dm_sync_count :: u32
  dm_counters :: Counters
  dm_log :: "('f \<times> nat) list"

definition initial_domain :: "'f Domain" where
  "initial_domain = \<lparr>dm_global = 1, dm_completed = 0, dm_completed_eager = 0, dm_sync = 0, dm_threads = [],
     dm_slot = (\<lambda>_. 0), dm_retired = [], dm_batch = (\<lambda>_. []), dm_sync_count = 0,
     dm_counters = zero_counters, dm_log = []\<rparr>"

definition SKL_ABIX_RCU_EPOCH_BATCH :: u32 where
  "SKL_ABIX_RCU_EPOCH_BATCH = 8"

definition SKL_ABIX_RCU_BATCH_PUBLISH :: nat where
  "SKL_ABIX_RCU_BATCH_PUBLISH = 64"

section \<open>Readers\<close>

definition register_thread :: "tid \<Rightarrow> 'f Domain \<Rightarrow> 'f Domain" where
  "register_thread t d = d\<lparr>dm_threads := t # dm_threads d\<rparr>"

text \<open>\<open>get_thread\<close>: the first use in a thread registers it.\<close>

definition get_thread :: "tid \<Rightarrow> 'f Domain \<Rightarrow> 'f Domain" where
  "get_thread t d = (if t \<in> set (dm_threads d) then d else register_thread t d)"

definition store_slot :: "tid \<Rightarrow> u64 \<Rightarrow> 'f Domain \<Rightarrow> 'f Domain" where
  "store_slot t e d = d\<lparr>dm_slot := (dm_slot d)(t := e)\<rparr>"

text \<open>\<open>enter\<close> loads the global epoch and then stores it, two shared accesses; this is their sequence.\<close>

definition rcu_enter :: "tid \<Rightarrow> 'f Domain \<Rightarrow> 'f Domain" where
  "rcu_enter t d = (let d = get_thread t d in store_slot t (dm_global d) d)"

definition rcu_exit :: "tid \<Rightarrow> 'f Domain \<Rightarrow> 'f Domain" where
  "rcu_exit t d = store_slot t 0 (get_thread t d)"

definition slot_passed :: "u64 \<Rightarrow> u64 \<Rightarrow> bool" where
  "slot_passed target epoch \<longleftrightarrow> \<not> (epoch \<noteq> 0 \<and> epoch \<le> target)"

definition readers_passed :: "u64 \<Rightarrow> 'f Domain \<Rightarrow> bool" where
  "readers_passed target d = list_all (\<lambda>t. slot_passed target (dm_slot d t)) (dm_threads d)"

section \<open>Retiring\<close>

definition publish_local_batch_locked :: "tid \<Rightarrow> 'f Domain \<Rightarrow> 'f Domain" where
  "publish_local_batch_locked t d =
     (if dm_batch d t = [] then d
      else d\<lparr>dm_retired := dm_batch d t @ dm_retired d, dm_batch := (dm_batch d)(t := [])\<rparr>)"

text \<open>Taking the writer lock around it adds nothing to the state.\<close>

definition publish_local_batch :: "tid \<Rightarrow> 'f Domain \<Rightarrow> 'f Domain" where
  "publish_local_batch t d = publish_local_batch_locked t d"

text \<open>The thread-local part: the node gets the current epoch and goes to the end of the batch.\<close>

definition retire_local ::
  "bool \<Rightarrow> u64 \<Rightarrow> tid \<Rightarrow> nat ptr \<Rightarrow> 'f ptr \<Rightarrow> ReclaimClass \<Rightarrow> 'f Domain \<Rightarrow> 'f Domain" where
  "retire_local stats now t obj reclaim cls d =
     d\<lparr>dm_batch := (dm_batch d)(t := dm_batch d t @
        [\<lparr>rn_object = obj, rn_epoch = dm_global d, rn_reclaim = reclaim, rn_cls = cls,
          rn_retired_at_ns = (if stats then now else 0)\<rparr>])\<rparr>"

definition retire_impl ::
  "bool \<Rightarrow> u64 \<Rightarrow> bool \<Rightarrow> tid \<Rightarrow> nat ptr \<Rightarrow> 'f ptr \<Rightarrow> ReclaimClass \<Rightarrow> 'f Domain \<Rightarrow> u64 \<times> 'f Domain" where
  "retire_impl stats now memory t obj reclaim cls d =
     (let current_epoch = dm_global d in
      if \<not> memory then (0, d)
      else
        let d = retire_local stats now t obj reclaim cls d;
            d = (if length (dm_batch d t) \<ge> SKL_ABIX_RCU_BATCH_PUBLISH then publish_local_batch t d else d)
        in (current_epoch, d))"

definition rcu_retire where
  "rcu_retire stats now memory t obj reclaim d = snd (retire_impl stats now memory t obj reclaim rc_batched d)"

definition retire_eager where
  "retire_eager stats now memory t obj reclaim d = snd (retire_impl stats now memory t obj reclaim rc_eager d)"

definition retire_token where
  "retire_token stats now memory t obj reclaim d = retire_impl stats now memory t obj reclaim rc_batched d"

definition reclaimed_through :: "u64 \<Rightarrow> ReclaimClass \<Rightarrow> 'f Domain \<Rightarrow> bool" where
  "reclaimed_through token cls d =
     (let completed = (if cls = rc_eager then dm_completed_eager d else dm_completed d)
      in token \<noteq> 0 \<and> completed \<ge> token)"

section \<open>Collecting\<close>

text \<open>The walk over the retired list: the nodes that stay linked, and the callbacks in call order.\<close>

fun collect_walk :: "u64 \<Rightarrow> ReclaimClass \<Rightarrow> 'f RetiredNode list \<Rightarrow> 'f RetiredNode list \<times> ('f \<times> nat) list" where
  "collect_walk safe_epoch cls [] = ([], [])"
| "collect_walk safe_epoch cls (node # rest) =
     (let (kept, calls) = collect_walk safe_epoch cls rest in
      if rn_cls node = cls \<and> rn_epoch node \<le> safe_epoch
      then (kept, (case (rn_reclaim node, rn_object node) of (Some f, Some x) \<Rightarrow> [(f, x)] | _ \<Rightarrow> []) @ calls)
      else (node # kept, calls))"

definition collect :: "u64 \<Rightarrow> ReclaimClass \<Rightarrow> 'f Domain \<Rightarrow> 'f Domain" where
  "collect safe_epoch cls d =
     (let completed = (if cls = rc_eager then dm_completed_eager d else dm_completed d) in
      if safe_epoch \<le> completed then d
      else
        let d = (if cls = rc_eager then d\<lparr>dm_completed_eager := safe_epoch\<rparr> else d\<lparr>dm_completed := safe_epoch\<rparr>);
            (kept, calls) = collect_walk safe_epoch cls (dm_retired d)
        in d\<lparr>dm_retired := kept, dm_log := dm_log d @ calls\<rparr>)"

fun min_epoch_from :: "(tid \<Rightarrow> u64) \<Rightarrow> tid list \<Rightarrow> u64 \<Rightarrow> u64" where
  "min_epoch_from slot [] m = m"
| "min_epoch_from slot (t # ts) m =
     min_epoch_from slot ts (if slot t \<noteq> 0 \<and> slot t < m then slot t else m)"

text \<open>\<open>try_collect\<close> with the lock free and no thread moving in between.\<close>

definition collect_below :: "u64 \<Rightarrow> 'f Domain \<Rightarrow> 'f Domain" where
  "collect_below min_epoch d =
     (if min_epoch > 1 then collect (min_epoch - 1) rc_batched (collect (min_epoch - 1) rc_eager d) else d)"

definition try_collect :: "bool \<Rightarrow> tid \<Rightarrow> 'f Domain \<Rightarrow> 'f Domain" where
  "try_collect lock_free t d =
     (if \<not> lock_free then d
      else let d = publish_local_batch_locked t d
           in collect_below (min_epoch_from (dm_slot d) (dm_threads d) (dm_global d)) d)"

section \<open>Advancing\<close>

definition count_attempt :: "bool \<Rightarrow> bool \<Rightarrow> 'f Domain \<Rightarrow> 'f Domain" where
  "count_attempt stats contended d =
     (if stats then
        d\<lparr>dm_counters := (dm_counters d)\<lparr>ct_advance_attempts := ct_advance_attempts (dm_counters d) + 1,
            ct_advance_contentions := ct_advance_contentions (dm_counters d) + (if contended then 1 else 0)\<rparr>\<rparr>
      else d)"

text \<open>The advance itself: the global epoch moves on and \<open>sync\<close> is owned.\<close>

definition open_advance :: "'f Domain \<Rightarrow> u64 \<times> 'f Domain" where
  "open_advance d = (let old = dm_global d in (old, d\<lparr>dm_global := old + 1, dm_sync := old + 1\<rparr>))"

definition begin_advance :: "bool \<Rightarrow> tid \<Rightarrow> 'f Domain \<Rightarrow> u64 option \<times> 'f Domain" where
  "begin_advance stats t d =
     (let d = publish_local_batch_locked t d in
      if dm_sync d \<noteq> 0 then (None, count_attempt stats True d)
      else let (old, d) = open_advance (count_attempt stats False d) in (Some old, d))"

definition end_advance :: "u64 \<Rightarrow> bool \<Rightarrow> 'f Domain \<Rightarrow> 'f Domain" where
  "end_advance old_epoch collect_now d =
     (let d = (if collect_now then collect old_epoch rc_batched (collect old_epoch rc_eager d) else d)
      in d\<lparr>dm_sync := 0\<rparr>)"

datatype sync_step = sync_wait | sync_skip | sync_advance u64

text \<open>The first locked section of \<open>synchronize_impl\<close>.\<close>

definition sync_begin :: "bool \<Rightarrow> bool \<Rightarrow> tid \<Rightarrow> 'f Domain \<Rightarrow> sync_step \<times> 'f Domain" where
  "sync_begin stats eager t d =
     (let d = publish_local_batch_locked t d in
      if dm_sync d \<noteq> 0 then (sync_wait, count_attempt stats True d)
      else
        let d = (if eager then d else d\<lparr>dm_sync_count := dm_sync_count d + 1\<rparr>) in
        if \<not> eager \<and> dm_sync_count d < SKL_ABIX_RCU_EPOCH_BATCH then (sync_skip, d)
        else
          let d = (if eager then d else d\<lparr>dm_sync_count := 0\<rparr>);
              (old, d) = open_advance (count_attempt stats False d)
          in (sync_advance old, d))"

text \<open>The second one, once the readers have passed.\<close>

definition sync_end :: "bool \<Rightarrow> u64 \<Rightarrow> 'f Domain \<Rightarrow> 'f Domain" where
  "sync_end eager old_epoch d = (collect old_epoch (if eager then rc_eager else rc_batched) d)\<lparr>dm_sync := 0\<rparr>"

text \<open>
  \<open>synchronize_impl\<close> when no other thread moves: \<open>None\<close> while it would spin on \<open>sync\<close> or on a reader.
\<close>

definition synchronize_impl :: "bool \<Rightarrow> bool \<Rightarrow> tid \<Rightarrow> 'f Domain \<Rightarrow> 'f Domain option" where
  "synchronize_impl stats eager t d =
     (case sync_begin stats eager t d of
        (sync_wait, d) \<Rightarrow> None
      | (sync_skip, d) \<Rightarrow> Some d
      | (sync_advance old, d) \<Rightarrow> if readers_passed old d then Some (sync_end eager old d) else None)"

section \<open>Deadlines (RCU/Deadline.h)\<close>

record Deadline =
  dl_at :: u64

definition deadline_never :: Deadline where
  "deadline_never = \<lparr>dl_at = 0\<rparr>"

text \<open>The POSIX clock counts nanoseconds.\<close>

definition duration_units :: "u64 \<Rightarrow> u64" where
  "duration_units ms = ms * 1000000"

definition after_ms :: "u64 \<Rightarrow> u64 \<Rightarrow> Deadline" where
  "after_ms now ms = (if ms = 0 then \<lparr>dl_at = 1\<rparr> else \<lparr>dl_at = now + duration_units ms\<rparr>)"

definition bounded :: "Deadline \<Rightarrow> bool" where
  "bounded dl \<longleftrightarrow> dl_at dl \<noteq> 0"

definition expired :: "u64 \<Rightarrow> Deadline \<Rightarrow> bool" where
  "expired now dl \<longleftrightarrow> dl_at dl \<noteq> 0 \<and> now \<ge> dl_at dl"

section \<open>Bounded waits\<close>

text \<open>
  The wait for the readers, over what each poll observes: whether the readers had passed, and the clock.
  The clock is looked at every 256th failed poll. \<open>None\<close>: still waiting when the observations end.
\<close>

fun await_readers :: "Deadline \<Rightarrow> u32 \<Rightarrow> (bool \<times> u64) list \<Rightarrow> bool option" where
  "await_readers dl polls [] = None"
| "await_readers dl polls ((passed, now) # obs) =
     (if passed then Some True
      else if (polls + 1) AND 0xFF = 0 \<and> expired now dl then Some False
      else await_readers dl (polls + 1) obs)"

definition note_max_wait_ns :: "u64 \<Rightarrow> 'f Domain \<Rightarrow> 'f Domain" where
  "note_max_wait_ns ns d =
     (if ns > ct_advance_max_wait_ns (dm_counters d)
      then d\<lparr>dm_counters := (dm_counters d)\<lparr>ct_advance_max_wait_ns := ns\<rparr>\<rparr> else d)"

text \<open>Bookkeeping of one contended attempt, and of giving up on it.\<close>

definition note_retry :: "bool \<Rightarrow> 'f Domain \<Rightarrow> 'f Domain" where
  "note_retry stats d =
     (if stats then d\<lparr>dm_counters := (dm_counters d)\<lparr>ct_advance_retries := ct_advance_retries (dm_counters d) + 1\<rparr>\<rparr>
      else d)"

definition note_advance_timeout :: "bool \<Rightarrow> u64 \<Rightarrow> 'f Domain \<Rightarrow> 'f Domain" where
  "note_advance_timeout stats waited d =
     (if stats then note_max_wait_ns waited
        (d\<lparr>dm_counters := (dm_counters d)\<lparr>ct_advance_timeouts := ct_advance_timeouts (dm_counters d) + 1\<rparr>\<rparr>)
      else d)"

definition note_grace_timeout :: "bool \<Rightarrow> bool \<Rightarrow> 'f Domain \<Rightarrow> 'f Domain" where
  "note_grace_timeout stats proven d =
     (if stats \<and> \<not> proven
      then d\<lparr>dm_counters := (dm_counters d)\<lparr>ct_grace_period_timeouts := ct_grace_period_timeouts (dm_counters d) + 1\<rparr>\<rparr>
      else d)"

text \<open>
  \<open>synchronize_until\<close>. Each attempt to advance comes with the state other threads left (\<open>world\<close>) and
  the clock; an attempt that gets the advance waits for the readers over \<open>obs\<close> and finishes in the
  state \<open>after\<close> that the others left meanwhile. \<open>None\<close>: still retrying or waiting.
\<close>

fun synchronize_until ::
  "bool \<Rightarrow> Deadline \<Rightarrow> tid \<Rightarrow> bool \<Rightarrow> u64 \<Rightarrow> (('f Domain \<Rightarrow> 'f Domain) \<times> u64) list
     \<Rightarrow> (bool \<times> u64) list \<Rightarrow> ('f Domain \<Rightarrow> 'f Domain) \<Rightarrow> 'f Domain \<Rightarrow> (bool \<times> 'f Domain) option" where
  "synchronize_until stats dl t waiting start [] obs after d = None"
| "synchronize_until stats dl t waiting start ((world, now) # attempts) obs after d =
     (case begin_advance stats t (world d) of
        (None, d) \<Rightarrow>
          let start = (if waiting then start else now); d = note_retry stats d in
          if bounded dl \<and> expired now dl then Some (False, note_advance_timeout stats (now - start) d)
          else synchronize_until stats dl t True start attempts obs after d
      | (Some old, d) \<Rightarrow>
          let d = (if stats \<and> waiting then note_max_wait_ns (now - start) d else d) in
          (case await_readers dl 0 obs of
             None \<Rightarrow> None
           | Some proven \<Rightarrow> Some (proven, end_advance old proven (note_grace_timeout stats proven (after d)))))"

section \<open>Diagnostics\<close>

record Stats =
  sa_counters :: Counters
  sa_retired_backlog :: u64
  sa_retired_oldest_age_ns :: u64
  sa_registered_threads :: u64

fun oldest_age :: "u64 \<Rightarrow> 'f RetiredNode list \<Rightarrow> u64 \<Rightarrow> u64" where
  "oldest_age now [] a = a"
| "oldest_age now (n # ns) a =
     oldest_age now ns (if rn_retired_at_ns n \<noteq> 0 \<and> now - rn_retired_at_ns n > a then now - rn_retired_at_ns n else a)"

definition domain_stats :: "bool \<Rightarrow> u64 \<Rightarrow> 'f Domain \<Rightarrow> Stats" where
  "domain_stats stats now d =
     (if stats then
        \<lparr>sa_counters = dm_counters d, sa_retired_backlog = of_nat (length (dm_retired d)),
         sa_retired_oldest_age_ns = oldest_age now (dm_retired d) 0,
         sa_registered_threads = of_nat (length (dm_threads d))\<rparr>
      else \<lparr>sa_counters = zero_counters, sa_retired_backlog = 0, sa_retired_oldest_age_ns = 0, sa_registered_threads = 0\<rparr>)"

definition reset_stats :: "bool \<Rightarrow> 'f Domain \<Rightarrow> 'f Domain" where
  "reset_stats stats d = (if stats then d\<lparr>dm_counters := zero_counters\<rparr> else d)"

section \<open>What a collection does\<close>

definition due :: "u64 \<Rightarrow> ReclaimClass \<Rightarrow> 'f RetiredNode \<Rightarrow> bool" where
  "due safe_epoch cls n \<longleftrightarrow> rn_cls n = cls \<and> rn_epoch n \<le> safe_epoch"

definition node_calls :: "'f RetiredNode \<Rightarrow> ('f \<times> nat) list" where
  "node_calls n = (case (rn_reclaim n, rn_object n) of (Some f, Some x) \<Rightarrow> [(f, x)] | _ \<Rightarrow> [])"

definition watermark :: "ReclaimClass \<Rightarrow> 'f Domain \<Rightarrow> u64" where
  "watermark cls d = (if cls = rc_eager then dm_completed_eager d else dm_completed d)"

lemma collect_walk_eq:
  "collect_walk s c ns = (filter (\<lambda>n. \<not> due s c n) ns, concat (map node_calls (filter (due s c) ns)))"
  by (induction ns) (auto simp: due_def node_calls_def split: prod.splits)

lemma collect_cases:
  "collect s c d =
     (if s \<le> watermark c d then d
      else (if c = rc_eager then d\<lparr>dm_completed_eager := s\<rparr> else d\<lparr>dm_completed := s\<rparr>)
             \<lparr>dm_retired := filter (\<lambda>n. \<not> due s c n) (dm_retired d),
              dm_log := dm_log d @ concat (map node_calls (filter (due s c) (dm_retired d)))\<rparr>)"
  by (simp add: collect_def watermark_def collect_walk_eq Let_def)

lemma collect_frame [simp]:
  "dm_global (collect s c d) = dm_global d" "dm_sync (collect s c d) = dm_sync d"
  "dm_threads (collect s c d) = dm_threads d" "dm_slot (collect s c d) = dm_slot d"
  "dm_batch (collect s c d) = dm_batch d"
  by (simp_all add: collect_cases)

lemma collect_retired:
  "dm_retired (collect s c d) =
     (if s \<le> watermark c d then dm_retired d else filter (\<lambda>n. \<not> due s c n) (dm_retired d))"
  by (simp add: collect_cases)

lemma collect_log:
  "dm_log (collect s c d) = dm_log d @
     (if s \<le> watermark c d then [] else concat (map node_calls (filter (due s c) (dm_retired d))))"
  by (simp add: collect_cases)

lemma watermark_collect: "watermark c' (collect s c d) = (if c' = c then max s (watermark c d) else watermark c' d)"
  by (cases c; cases c') (auto simp: collect_cases watermark_def max_def)

text \<open>Bookkeeping never touches what reclamation looks at.\<close>

definition same_reclaim :: "'f Domain \<Rightarrow> 'f Domain \<Rightarrow> bool" where
  "same_reclaim d d' \<longleftrightarrow> dm_log d' = dm_log d \<and> dm_completed d' = dm_completed d
     \<and> dm_completed_eager d' = dm_completed_eager d"

lemma same_reclaim_refl [simp]: "same_reclaim d d"
  by (simp add: same_reclaim_def)

lemma same_reclaim_trans: "same_reclaim a b \<Longrightarrow> same_reclaim b c \<Longrightarrow> same_reclaim a c"
  by (simp add: same_reclaim_def)

lemma begin_advance_reclaim: "begin_advance stats t d = (r, d') \<Longrightarrow> same_reclaim d d'"
  by (auto simp: begin_advance_def Let_def same_reclaim_def publish_local_batch_locked_def count_attempt_def
      open_advance_def split: if_splits)

lemma notes_reclaim [simp]:
  "same_reclaim d (note_retry stats d)" "same_reclaim d (note_advance_timeout stats w d)"
  "same_reclaim d (note_grace_timeout stats p d)" "same_reclaim d (note_max_wait_ns w d)"
  by (simp_all add: same_reclaim_def note_retry_def note_advance_timeout_def note_grace_timeout_def note_max_wait_ns_def)

lemma end_advance_unproven: "same_reclaim d (end_advance old False d)"
  by (simp add: end_advance_def same_reclaim_def)

section \<open>Properties of the domain\<close>

text \<open>C34.  A bounded wait that reports \<open>false\<close> released nothing on the strength of it: whatever the
  clock, the polls and the other threads do, if those other threads themselves run no callback and
  move no watermark meanwhile, no callback ran and neither watermark moved.\<close>

theorem unproven_wait_reclaims_nothing:
  assumes "synchronize_until stats dl t waiting start attempts obs after d = Some (False, d')"
    and "\<forall>(world, now) \<in> set attempts. \<forall>x. same_reclaim x (world x)" "\<forall>x. same_reclaim x (after x)"
  shows "same_reclaim d d'"
  using assms
proof (induction stats dl t waiting start attempts obs after d rule: synchronize_until.induct)
  case (2 stats dl t waiting start world now attempts obs after d)
  obtain r d1 where b: "begin_advance stats t (world d) = (r, d1)" by force
  have "same_reclaim d (world d)" using "2.prems"(2) by auto
  then have d1: "same_reclaim d d1" using begin_advance_reclaim[OF b] by (rule same_reclaim_trans)
  show ?case
  proof (cases r)
    case (Some old)
    define d2 where "d2 = (if stats \<and> waiting then note_max_wait_ns (now - start) d1 else d1)"
    have "same_reclaim d d2" using d1 same_reclaim_trans[OF d1 notes_reclaim(4)] by (simp add: d2_def)
    moreover have "same_reclaim d2 (after d2)" using "2.prems"(3) by blast
    moreover have "d' = end_advance old False (note_grace_timeout stats False (after d2))"
      using "2.prems"(1) b Some by (auto simp: d2_def Let_def split: option.splits)
    ultimately show ?thesis
      using notes_reclaim(3) end_advance_unproven by (metis same_reclaim_trans)
  next
    case None
    define start' where "start' = (if waiting then start else now)"
    have d2: "same_reclaim d (note_retry stats d1)" using d1 notes_reclaim(1) by (rule same_reclaim_trans)
    show ?thesis
    proof (cases "bounded dl \<and> expired now dl")
      case True
      then have "d' = note_advance_timeout stats (now - start') (note_retry stats d1)"
        using "2.prems"(1) b None by (simp add: start'_def Let_def)
      then show ?thesis using same_reclaim_trans[OF d2 notes_reclaim(2)] by simp
    next
      case False
      then have "synchronize_until stats dl t True start' attempts obs after (note_retry stats d1) = Some (False, d')"
        using "2.prems"(1) b None by (auto simp: start'_def Let_def split: if_splits)
      from "2.IH"[OF b[symmetric] None start'_def refl False this] "2.prems"(2,3)
      have "same_reclaim (note_retry stats d1) d'" by simp
      then show ?thesis using d2 same_reclaim_trans by blast
    qed
  qed
qed simp

theorem unproven_wait_reclaims_nothing_witness:
  "\<exists>d'. synchronize_until False \<lparr>dl_at = 1\<rparr> 0 False 0 [(\<lambda>x. x, 5)] [] (\<lambda>x. x)
        ((initial_domain :: unit Domain)\<lparr>dm_sync := 9\<rparr>) = Some (False, d')
     \<and> same_reclaim (initial_domain\<lparr>dm_sync := 9\<rparr>) d'"
proof -
  let ?d = "(initial_domain :: unit Domain)\<lparr>dm_sync := 9\<rparr>"
  obtain d' where d': "synchronize_until False \<lparr>dl_at = 1\<rparr> 0 False 0 [(\<lambda>x. x, 5)] [] (\<lambda>x. x) ?d = Some (False, d')"
    by (simp add: begin_advance_def publish_local_batch_locked_def initial_domain_def bounded_def expired_def Let_def)
  show ?thesis using unproven_wait_reclaims_nothing[OF d'] d' by (intro exI[of _ d'] conjI) simp_all
qed

text \<open>The low byte of the poll counter counts modulo 256, also when the counter itself wraps.\<close>

lemma poll_byte: "unat ((k + 1) AND 0xFF :: u32) = (unat (k AND 0xFF) + 1) mod 256"
proof -
  have byte: "unat (x AND 0xFF :: u32) = unat x mod 256" for x :: u32
  proof -
    have "x AND 0xFF = x mod 256"
      using take_bit_eq_mask[of 8 x] take_bit_eq_mod[of 8 x] by (simp add: mask_eq_exp_minus_1)
    then show ?thesis by (simp only: unat_mod) simp
  qed
  have "unat (k + 1) = (unat k + 1) mod 2 ^ 32" by (simp add: unat_word_ariths)
  then have "unat (k + 1) mod 256 = (unat k + 1) mod 256" by (simp add: mod_mod_cancel)
  then show ?thesis by (simp add: byte mod_simps)
qed

lemma await_readers_gives_up:
  assumes "bounded dl" "\<forall>(p, now) \<in> set obs. expired now dl" "unat (k AND 0xFF) + length obs \<ge> 256"
  shows "await_readers dl k obs \<noteq> None"
  using assms
proof (induction obs arbitrary: k)
  case Nil
  have "unat (k AND 0xFF) < 256" using poll_byte[of "k - 1"] by simp
  with Nil show ?case by simp
next
  case (Cons ob obs)
  obtain p now where ob: "ob = (p, now)" by (cases ob)
  show ?case
  proof (cases "(k + 1) AND 0xFF = 0")
    case True
    then show ?thesis using Cons.prems by (auto simp: ob)
  next
    case False
    then have "(unat (k AND 0xFF) + 1) mod 256 \<noteq> 0" by (metis poll_byte unat_eq_0)
    moreover have "unat (k AND 0xFF) < 256" using poll_byte[of "k - 1"] by simp
    ultimately have "unat ((k + 1) AND 0xFF) = unat (k AND 0xFF) + 1"
      unfolding poll_byte by (cases "unat (k AND 0xFF) = 255") auto
    then have "await_readers dl (k + 1) obs \<noteq> None" using Cons.prems by (intro Cons.IH) auto
    then show ?thesis by (auto simp: ob)
  qed
qed

lemma await_readers_append:
  "await_readers dl k (xs @ ys) =
     (case await_readers dl k xs of None \<Rightarrow> await_readers dl (k + of_nat (length xs)) ys | r \<Rightarrow> r)"
proof (induction xs arbitrary: k)
  case (Cons x xs)
  obtain p now where x: "x = (p, now)" by (cases x)
  have len: "k + of_nat (length (x # xs)) = k + 1 + of_nat (length xs)" by simp
  show ?case unfolding len using Cons[of "k + 1"]
    by (cases "p \<or> (k + 1) AND 0xFF = 0 \<and> expired now dl") (auto simp: x)
qed simp

lemma await_readers_reason:
  "await_readers dl k obs = Some proven \<Longrightarrow> \<exists>(p, now) \<in> set obs. (if proven then p else \<not> p \<and> expired now dl)"
  by (induction dl k obs rule: await_readers.induct) (auto split: if_splits)

text \<open>C31.  A bounded wait for readers comes back: whenever the deadline passes during the wait, after however many
  polls, at most 256 polls made past the deadline decide it. It reports \<open>true\<close> only if a poll saw the readers gone, and
  \<open>false\<close> only if a poll that did not see them gone was made past the deadline.\<close>

theorem bounded_wait_decides:
  assumes "bounded dl" "\<forall>(p, now) \<in> set late. expired now dl" "length late \<ge> 256"
  shows "\<exists>proven. await_readers dl 0 (early @ take 256 late) = Some proven \<and> await_readers dl 0 (early @ late) = Some proven
    \<and> (\<exists>(p, now) \<in> set (early @ take 256 late). (if proven then p else \<not> p \<and> expired now dl))"
proof -
  have "await_readers dl (0 + of_nat (length early)) (take 256 late) \<noteq> None"
    using assms by (intro await_readers_gives_up) (auto dest: in_set_takeD)
  then have "await_readers dl 0 (early @ take 256 late) \<noteq> None"
    by (simp add: await_readers_append split: option.split)
  then obtain proven where p: "await_readers dl 0 (early @ take 256 late) = Some proven" by blast
  moreover have "await_readers dl 0 ((early @ take 256 late) @ drop 256 late) = Some proven"
    using p by (simp only: await_readers_append[of dl 0 "early @ take 256 late"] option.case)
  ultimately show ?thesis using await_readers_reason[OF p] by auto
qed

theorem bounded_wait_decides_witness:
  "await_readers \<lparr>dl_at = 2\<rparr> 0 (replicate 300 (False, 1) @ replicate 256 (False, 3)) = Some False"
proof -
  have "bounded \<lparr>dl_at = 2\<rparr>" "\<forall>(p, now) \<in> set (replicate 256 (False, 3)). expired now \<lparr>dl_at = 2\<rparr>"
    by (auto simp: bounded_def expired_def)
  from bounded_wait_decides[OF this, of "replicate 300 (False, 1)"] show ?thesis
    by (auto split: if_splits)
qed

text \<open>A deadline taken \<open>ms\<close> milliseconds after \<open>now\<close> expires at exactly that instant of the clock
  whenever that instant fits the clock's 64 bits.\<close>

theorem deadline_exact:
  assumes "0 < unat now" "unat now + unat ms * 1000000 < 2 ^ 64"
  shows "bounded (after_ms now ms) \<and> (\<forall>later. now \<le> later \<longrightarrow>
           (expired later (after_ms now ms) \<longleftrightarrow> unat now + unat ms * 1000000 \<le> unat later))"
proof -
  have d: "unat (duration_units ms) = unat ms * 1000000"
    using assms(2) by (simp add: duration_units_def unat_word_ariths)
  have at: "unat (now + duration_units ms) = unat now + unat ms * 1000000"
    using assms(2) d by (simp add: unat_word_ariths)
  then have nz: "now + duration_units ms \<noteq> 0" using assms(1) by (metis unat_0 add_is_0 less_irrefl)
  have "(1 :: u64) \<le> later" if "now \<le> later" for later
    using that assms(1) by (simp add: word_le_nat_alt)
  moreover have "unat ms = 0" if "ms = 0" using that by simp
  ultimately show ?thesis using at nz
    by (auto simp: after_ms_def bounded_def expired_def word_le_nat_alt)
qed

theorem deadline_exact_witness:
  "bounded (after_ms 5 3) \<and> expired 3000005 (after_ms 5 3) \<and> \<not> expired 3000004 (after_ms 5 3)"
  using deadline_exact[of 5 3] by (auto simp: word_le_nat_alt)

text \<open>Beyond that the product wraps: the largest timeout a caller can ask for is already over.\<close>

lemma deadline_wraps: "expired 5000000 (after_ms 5000000 0xFFFFFFFFFFFFFFFF)"
  by (simp add: after_ms_def duration_units_def expired_def)

text \<open>\<open>reclaimed_through\<close> can answer \<open>true\<close> for an object whose callback has not run: thread 1
  retires an object, thread 0 synchronizes until the epoch advances, and the watermark passes the
  object's token while its node still sits in the local batch of thread 1.\<close>

lemma reclaimed_through_overpromises:
  "\<exists>token d d'.
     retire_token False 0 True 1 (Some 7) (Some ()) (initial_domain :: unit Domain) = (token, d)
     \<and> ((\<lambda>x. Option.bind x (synchronize_impl False False 0)) ^^ 8) (Some d) = Some d'
     \<and> reclaimed_through token rc_batched d' \<and> dm_log d' = [] \<and> dm_batch d' 1 \<noteq> []"
proof -
  define d where "d = retire_local False 0 1 (Some 7) (Some ()) rc_batched (initial_domain :: unit Domain)"
  have r: "retire_token False 0 True 1 (Some 7) (Some ()) (initial_domain :: unit Domain) = (1, d)"
    by (simp add: retire_token_def retire_impl_def d_def retire_local_def initial_domain_def
        SKL_ABIX_RCU_BATCH_PUBLISH_def)
  have skip: "synchronize_impl False False 0 (d\<lparr>dm_sync_count := n\<rparr>) = Some (d\<lparr>dm_sync_count := n + 1\<rparr>)"
    if "n + 1 < 8" for n
    using that by (simp add: synchronize_impl_def sync_begin_def d_def retire_local_def initial_domain_def
        publish_local_batch_locked_def SKL_ABIX_RCU_EPOCH_BATCH_def Let_def)
  have last: "\<exists>d'. synchronize_impl False False 0 (d\<lparr>dm_sync_count := 7\<rparr>) = Some d'
      \<and> reclaimed_through 1 rc_batched d' \<and> dm_log d' = [] \<and> dm_batch d' 1 \<noteq> []"
    by (simp add: synchronize_impl_def sync_begin_def d_def retire_local_def initial_domain_def
        publish_local_batch_locked_def SKL_ABIX_RCU_EPOCH_BATCH_def open_advance_def count_attempt_def
        readers_passed_def sync_end_def collect_def reclaimed_through_def Let_def)
  have iter: "((\<lambda>x. Option.bind x (synchronize_impl False False 0)) ^^ k) (Some d) = Some (d\<lparr>dm_sync_count := of_nat k\<rparr>)"
    if "k \<le> 7" for k
    using that
  proof (induction k)
    case (Suc k)
    have "unat (of_nat (Suc k) :: u32) = Suc k" using Suc.prems by (simp only: unat_of_nat) simp
    then have "unat (of_nat k + 1 :: u32) = Suc k" by (simp add: add.commute)
    moreover have "unat (8 :: u32) = 8" by simp
    ultimately have "(of_nat k + 1 :: u32) < 8" using Suc.prems by (simp only: word_less_nat_alt)
    then show ?case using Suc skip[of "of_nat k"] by (simp add: add.commute)
  qed (simp add: d_def retire_local_def initial_domain_def)
  have s8: "(8::nat) = Suc 7" by simp
  from iter[of 7]
  have "((\<lambda>x. Option.bind x (synchronize_impl False False 0)) ^^ 7) (Some d) = Some (d\<lparr>dm_sync_count := 7\<rparr>)" by simp
  then have "((\<lambda>x. Option.bind x (synchronize_impl False False 0)) ^^ 8) (Some d)
      = synchronize_impl False False 0 (d\<lparr>dm_sync_count := 7\<rparr>)"
    unfolding s8 funpow.simps o_apply by simp
  then show ?thesis using r last by auto
qed

end
