(* ===== verification/RCU_Grace.thy ===== *)
theory RCU_Grace
  imports RCU_Domain
begin

text \<open>
  Readers and writers of the reclamation domain running concurrently: every shared access and every
  section under the writer lock of \<open>RCU/Domain.h\<close> is one step, and threads interleave at will.

  An object is published, unlinked by a writer that then retires it, and collected. A reader loads
  the global epoch, stores it in its slot, takes references to published objects and leaves.
  A writer advances the epoch, scans the thread list one slot at a time, restarting when a reader is
  still inside, and collects; \<open>try_collect\<close> runs beside it. A writer operation may start inside a read section,
  and a section inside another: \<open>rs_depth\<close> counts the open ones, \<open>rs_refs\<close> holds the references taken since
  the slot was last written by \<open>enter\<close>, \<open>rs_stale\<close> those of the sections around, and \<open>rs_nested\<close> the
  threads that ever nested.

  With \<open>fenced\<close> the store of the slot takes effect before the reader's next load, which is the
  interleaving semantics. Without it the store may wait in the processor's store buffer while later
  loads go ahead, as the release store that \<open>enter\<close> uses permits.

  Shown: in the interleaving semantics no callback ever runs for an object some thread has taken since its
  last \<open>enter\<close>, and none runs twice; with the store buffer a reader can hold a reclaimed object; and a nested
  read section loses the protection of the outer one.
\<close>

section \<open>States\<close>

datatype scan_kind = sk_sync bool | sk_until

datatype pc =
    pc_idle
  | pc_loaded u64
  | pc_reading
  | pc_wait scan_kind u64
  | pc_scan scan_kind u64 "tid list"
  | pc_try u64
  | pc_tryscan u64 "tid list"

record 'f rcu_state =
  rs_dom :: "'f Domain"
  rs_used :: "nat set"
  rs_live :: "nat set"
  rs_unlinked :: "nat set"
  rs_refs :: "tid \<Rightarrow> nat set"
  rs_pc :: "tid \<Rightarrow> pc"
  rs_buf :: "tid \<Rightarrow> u64 option"
  rs_stale :: "tid \<Rightarrow> nat set"
  rs_open :: "tid set"
  rs_depth :: "tid \<Rightarrow> nat"
  rs_nested :: "tid set"

definition initial_state :: "'f rcu_state" where
  "initial_state = \<lparr>rs_dom = initial_domain, rs_used = {}, rs_live = {}, rs_unlinked = {},
     rs_refs = (\<lambda>_. {}), rs_pc = (\<lambda>_. pc_idle), rs_buf = (\<lambda>_. None),
     rs_stale = (\<lambda>_. {}), rs_open = {}, rs_depth = (\<lambda>_. 0), rs_nested = {}\<rparr>"

abbreviation goto :: "tid \<Rightarrow> pc \<Rightarrow> 'f rcu_state \<Rightarrow> 'f rcu_state" where
  "goto t p s \<equiv> s\<lparr>rs_pc := (rs_pc s)(t := p)\<rparr>"

abbreviation on_dom :: "('f Domain \<Rightarrow> 'f Domain) \<Rightarrow> 'f rcu_state \<Rightarrow> 'f rcu_state" where
  "on_dom f s \<equiv> s\<lparr>rs_dom := f (rs_dom s)\<rparr>"

text \<open>Where a thread continues after a writer operation, which it may also start inside a read section.\<close>

abbreviation resting :: "'f rcu_state \<Rightarrow> tid \<Rightarrow> pc" where
  "resting s t \<equiv> (if t \<in> rs_open s then pc_reading else pc_idle)"

text \<open>The references of a thread whose slot has just been written by \<open>enter\<close> and by \<open>exit\<close>: those taken
  before stay with the sections around, but the slot no longer stands for them.\<close>

definition entered :: "tid \<Rightarrow> 'f rcu_state \<Rightarrow> 'f rcu_state" where
  "entered t s = s\<lparr>rs_refs := (rs_refs s)(t := {}), rs_stale := (rs_stale s)(t := rs_stale s t \<union> rs_refs s t),
     rs_open := insert t (rs_open s), rs_depth := (rs_depth s)(t := Suc (rs_depth s t)),
     rs_nested := (if rs_depth s t = 0 then rs_nested s else insert t (rs_nested s))\<rparr>"

definition exited :: "tid \<Rightarrow> 'f rcu_state \<Rightarrow> 'f rcu_state" where
  "exited t s = s\<lparr>rs_refs := (rs_refs s)(t := {}),
     rs_stale := (rs_stale s)(t := if rs_depth s t = 1 then {} else rs_stale s t \<union> rs_refs s t),
     rs_open := rs_open s - {t}, rs_depth := (rs_depth s)(t := rs_depth s t - 1)\<rparr>"

lemma section_frames [simp]: "rs_dom (entered t s) = rs_dom s" "rs_dom (exited t s) = rs_dom s"
  by (simp_all add: entered_def exited_def)

section \<open>Steps\<close>

inductive rcu_step :: "bool \<Rightarrow> 'f rcu_state \<Rightarrow> 'f rcu_state \<Rightarrow> bool" for fenced where
  publish_object: "x \<notin> rs_used s \<Longrightarrow>
    rcu_step fenced s (s\<lparr>rs_used := insert x (rs_used s), rs_live := insert x (rs_live s)\<rparr>)"
| enter_load: "rs_pc s t \<in> {pc_idle, pc_reading} \<Longrightarrow>
    rcu_step fenced s (goto t (pc_loaded (dm_global (rs_dom s))) (on_dom (get_thread t) s))"
| enter_store: "rs_pc s t = pc_loaded e \<Longrightarrow> fenced \<Longrightarrow>
    rcu_step fenced s (goto t pc_reading (on_dom (store_slot t e) (entered t s)))"
| enter_buffer: "rs_pc s t = pc_loaded e \<Longrightarrow> \<not> fenced \<Longrightarrow> rs_buf s t = None \<Longrightarrow>
    rcu_step fenced s (goto t pc_reading ((entered t s)\<lparr>rs_buf := (rs_buf s)(t := Some e)\<rparr>))"
| drain: "rs_buf s t = Some e \<Longrightarrow>
    rcu_step fenced s (on_dom (store_slot t e) (s\<lparr>rs_buf := (rs_buf s)(t := None)\<rparr>))"
| acquire: "rs_pc s t = pc_reading \<Longrightarrow> x \<in> rs_live s \<Longrightarrow>
    rcu_step fenced s (s\<lparr>rs_refs := (rs_refs s)(t := insert x (rs_refs s t))\<rparr>)"
| acquire_stale: "rs_pc s t = pc_idle \<Longrightarrow> 0 < rs_depth s t \<Longrightarrow> x \<in> rs_live s \<Longrightarrow>
    rcu_step fenced s (s\<lparr>rs_stale := (rs_stale s)(t := insert x (rs_stale s t))\<rparr>)"
| leave: "rs_pc s t \<in> {pc_idle, pc_reading} \<Longrightarrow> 0 < rs_depth s t \<Longrightarrow> rs_buf s t = None \<Longrightarrow>
    rcu_step fenced s (goto t pc_idle (on_dom (rcu_exit t) (exited t s)))"
| unlink: "x \<in> rs_live s \<Longrightarrow>
    rcu_step fenced s (s\<lparr>rs_live := rs_live s - {x}, rs_unlinked := insert x (rs_unlinked s)\<rparr>)"
| retire: "x \<in> rs_unlinked s \<Longrightarrow> rs_pc s t \<in> {pc_idle, pc_reading} \<Longrightarrow>
    rcu_step fenced s (on_dom (retire_local stats now t (Some x) (Some f) cls)
      (s\<lparr>rs_unlinked := rs_unlinked s - {x}\<rparr>))"
| publish_batch: "rcu_step fenced s (on_dom (publish_local_batch t) s)"
| begin_sync: "rs_pc s t \<in> {pc_idle, pc_reading} \<Longrightarrow> sync_begin stats eager t (rs_dom s) = (r, d) \<Longrightarrow>
    rcu_step fenced s (goto t (case r of sync_advance old \<Rightarrow> pc_wait (sk_sync eager) old | _ \<Rightarrow> rs_pc s t)
      (s\<lparr>rs_dom := d\<rparr>))"
| begin_until: "rs_pc s t \<in> {pc_idle, pc_reading} \<Longrightarrow> begin_advance stats t (rs_dom s) = (r, d) \<Longrightarrow>
    rcu_step fenced s (goto t (case r of Some old \<Rightarrow> pc_wait sk_until old | None \<Rightarrow> rs_pc s t) (s\<lparr>rs_dom := d\<rparr>))"
| scan_start: "rs_pc s t = pc_wait k old \<Longrightarrow>
    rcu_step fenced s (goto t (pc_scan k old (dm_threads (rs_dom s))) s)"
| scan_pass: "rs_pc s t = pc_scan k old (u # us) \<Longrightarrow> slot_passed old (dm_slot (rs_dom s) u) \<Longrightarrow>
    rcu_step fenced s (goto t (pc_scan k old us) s)"
| scan_blocked: "rs_pc s t = pc_scan k old (u # us) \<Longrightarrow> \<not> slot_passed old (dm_slot (rs_dom s) u) \<Longrightarrow>
    rcu_step fenced s (goto t (pc_wait k old) s)"
| give_up: "rs_pc s t = pc_wait sk_until old \<Longrightarrow>
    rcu_step fenced s (goto t (resting s t) (on_dom (end_advance old False) s))"
| finish_until: "rs_pc s t = pc_scan sk_until old [] \<Longrightarrow>
    rcu_step fenced s (goto t (resting s t) (on_dom (end_advance old True) s))"
| finish_sync: "rs_pc s t = pc_scan (sk_sync eager) old [] \<Longrightarrow>
    rcu_step fenced s (goto t (resting s t) (on_dom (sync_end eager old) s))"
| try_begin: "rs_pc s t \<in> {pc_idle, pc_reading} \<Longrightarrow>
    rcu_step fenced s (goto t (pc_try (dm_global (rs_dom s))) (on_dom (publish_local_batch_locked t) s))"
| try_start: "rs_pc s t = pc_try m \<Longrightarrow>
    rcu_step fenced s (goto t (pc_tryscan m (dm_threads (rs_dom s))) s)"
| try_scan: "rs_pc s t = pc_tryscan m (u # us) \<Longrightarrow>
    rcu_step fenced s (goto t (pc_tryscan (min_epoch_from (dm_slot (rs_dom s)) [u] m) us) s)"
| try_finish: "rs_pc s t = pc_tryscan m [] \<Longrightarrow>
    rcu_step fenced s (goto t (resting s t) (on_dom (collect_below m) s))"
| thread_end: "rs_pc s t = pc_idle \<Longrightarrow>
    rcu_step fenced s (on_dom (\<lambda>d. d\<lparr>dm_slot := (dm_slot d)(t := 0), dm_batch := (dm_batch d)(t := [])\<rparr>) s)"

text \<open>The states of a process whose 64-bit epoch has not wrapped around.\<close>

inductive rcu_reachable :: "bool \<Rightarrow> 'f rcu_state \<Rightarrow> bool" for fenced where
  start: "rcu_reachable fenced initial_state"
| step: "rcu_reachable fenced s \<Longrightarrow> rcu_step fenced s s' \<Longrightarrow> dm_global (rs_dom s') \<noteq> 0 \<Longrightarrow> rcu_reachable fenced s'"

section \<open>Nodes awaiting collection\<close>

definition pending :: "'f Domain \<Rightarrow> 'f RetiredNode set" where
  "pending d = set (dm_retired d) \<union> (\<Union>t. set (dm_batch d t))"

lemma pending_retire:
  "pending (retire_local stats now t obj f cls d) =
     insert \<lparr>rn_object = obj, rn_epoch = dm_global d, rn_reclaim = f, rn_cls = cls,
             rn_retired_at_ns = (if stats then now else 0)\<rparr> (pending d)"
  by (auto simp: pending_def retire_local_def split: if_splits)

lemma pending_publish [simp]: "pending (publish_local_batch_locked t d) = pending d"
  by (auto simp: pending_def publish_local_batch_locked_def split: if_splits)

lemma publish_frame [simp]:
  "dm_global (publish_local_batch_locked t d) = dm_global d" "dm_slot (publish_local_batch_locked t d) = dm_slot d"
  "dm_threads (publish_local_batch_locked t d) = dm_threads d" "dm_log (publish_local_batch_locked t d) = dm_log d"
  by (simp_all add: publish_local_batch_locked_def)

lemma pending_collect: "pending (collect s c d) \<subseteq> pending d"
  by (auto simp: pending_def collect_retired)

lemma collect_log_pending:
  assumes "(f, x) \<in> set (dm_log (collect s c d))"
  shows "(f, x) \<in> set (dm_log d) \<or> (\<exists>n \<in> pending d. rn_object n = Some x \<and> rn_epoch n \<le> s)"
  using assms by (auto simp: collect_log pending_def due_def node_calls_def split: if_splits option.splits)

lemma advance_frames [simp]:
  "dm_global (count_attempt stats c d) = dm_global d" "dm_slot (count_attempt stats c d) = dm_slot d"
  "dm_threads (count_attempt stats c d) = dm_threads d" "dm_log (count_attempt stats c d) = dm_log d"
  "dm_retired (count_attempt stats c d) = dm_retired d" "dm_batch (count_attempt stats c d) = dm_batch d"
  "dm_sync (count_attempt stats c d) = dm_sync d"
  by (simp_all add: count_attempt_def)

definition quiet_advance :: "'f Domain \<Rightarrow> u64 option \<Rightarrow> 'f Domain \<Rightarrow> bool" where
  "quiet_advance d adv d' \<longleftrightarrow>
     pending d' = pending d \<and> dm_slot d' = dm_slot d \<and> dm_threads d' = dm_threads d \<and> dm_log d' = dm_log d
     \<and> (case adv of None \<Rightarrow> dm_global d' = dm_global d
        | Some old \<Rightarrow> old = dm_global d \<and> dm_global d' = dm_global d + 1)"

lemma pending_updates [simp]:
  "pending (d\<lparr>dm_global := g\<rparr>) = pending d" "pending (d\<lparr>dm_sync := g\<rparr>) = pending d"
  "pending (d\<lparr>dm_sync_count := c\<rparr>) = pending d" "pending (count_attempt st b d) = pending d"
  "pending (d\<lparr>dm_slot := sl\<rparr>) = pending d" "pending (d\<lparr>dm_threads := ts\<rparr>) = pending d"
  by (simp_all add: pending_def)

lemma sync_begin_quiet:
  assumes "sync_begin stats eager t d = (r, d')"
  shows "quiet_advance d (case r of sync_advance old \<Rightarrow> Some old | _ \<Rightarrow> None) d'"
  using assms by (auto simp: sync_begin_def open_advance_def quiet_advance_def Let_def split: if_splits)

lemma begin_advance_quiet:
  assumes "begin_advance stats t d = (r, d')" shows "quiet_advance d r d'"
  using assms by (auto simp: begin_advance_def open_advance_def quiet_advance_def Let_def split: if_splits)

text \<open>What the collecting steps do: they drop nodes and call back only for nodes at or below a bound.\<close>

definition collects :: "u64 \<Rightarrow> 'f Domain \<Rightarrow> 'f Domain \<Rightarrow> bool" where
  "collects safe d d' \<longleftrightarrow>
     pending d' \<subseteq> pending d \<and> dm_slot d' = dm_slot d \<and> dm_threads d' = dm_threads d \<and> dm_global d' = dm_global d
     \<and> (\<forall>f x. (f, x) \<in> set (dm_log d') \<longrightarrow>
          (f, x) \<in> set (dm_log d) \<or> (\<exists>n \<in> pending d. rn_object n = Some x \<and> rn_epoch n \<le> safe))"

lemma collects_collect: "collects s d (collect s c d)"
  using collect_log_pending[of _ _ s c d] by (auto simp: collects_def dest: subsetD[OF pending_collect])

lemma collects_trans: "collects s d d' \<Longrightarrow> collects s d' d'' \<Longrightarrow> collects s d d''"
  unfolding collects_def by (metis subsetD subset_trans)

lemma collects_refl: "collects s d d"
  by (simp add: collects_def)

lemma collects_sync: "collects s d d' \<Longrightarrow> collects s d (d'\<lparr>dm_sync := y\<rparr>)"
  by (simp add: collects_def pending_def)

lemma collects_sync_end: "collects old d (sync_end eager old d)"
  unfolding sync_end_def by (intro collects_sync collects_collect)

lemma collects_end_advance: "collects old d (end_advance old p d)"
  unfolding end_advance_def Let_def
  by (auto intro!: collects_sync collects_refl collects_trans[OF collects_collect collects_collect])

lemma end_advance_unproven_pending:
  "pending (end_advance old False d) = pending d" "dm_log (end_advance old False d) = dm_log d"
  by (simp_all add: end_advance_def pending_def)

lemma collects_below: "m \<noteq> 0 \<Longrightarrow> collects (m - 1) d (collect_below m d)"
  unfolding collect_below_def by (auto intro!: collects_refl collects_trans[OF collects_collect collects_collect])

section \<open>The invariant\<close>

definition pc_ok :: "'f Domain \<Rightarrow> tid \<Rightarrow> pc \<Rightarrow> bool" where
  "pc_ok d t p = (case p of
     pc_loaded e \<Rightarrow> e \<le> dm_global d \<and> e \<noteq> 0 \<and> t \<in> set (dm_threads d)
   | pc_wait k old \<Rightarrow> old < dm_global d
   | pc_scan k old todo \<Rightarrow> old < dm_global d
   | pc_try m \<Rightarrow> m \<le> dm_global d \<and> m \<noteq> 0
   | pc_tryscan m todo \<Rightarrow> m \<le> dm_global d \<and> m \<noteq> 0
   | _ \<Rightarrow> True)"

definition threads_ok :: "'f rcu_state \<Rightarrow> bool" where
  "threads_ok s \<longleftrightarrow> dm_global (rs_dom s) \<noteq> 0 \<and> (\<forall>t. rs_buf s t = None \<and> dm_slot (rs_dom s) t \<le> dm_global (rs_dom s)
     \<and> pc_ok (rs_dom s) t (rs_pc s t) \<and> (rs_refs s t \<noteq> {} \<longrightarrow> t \<in> rs_open s)
     \<and> (t \<in> rs_open s \<longrightarrow> dm_slot (rs_dom s) t \<noteq> 0 \<and> t \<in> set (dm_threads (rs_dom s)))
     \<and> (rs_pc s t = pc_idle \<longrightarrow> t \<notin> rs_open s) \<and> (rs_pc s t = pc_reading \<longrightarrow> t \<in> rs_open s))"

definition objects_ok :: "'f rcu_state \<Rightarrow> bool" where
  "objects_ok s \<longleftrightarrow> rs_live s \<subseteq> rs_used s \<and> rs_unlinked s \<subseteq> rs_used s \<and> rs_live s \<inter> rs_unlinked s = {}
     \<and> (\<forall>t. rs_refs s t \<subseteq> rs_used s)"

definition nodes_ok :: "'f rcu_state \<Rightarrow> bool" where
  "nodes_ok s \<longleftrightarrow> (\<forall>n \<in> pending (rs_dom s). \<forall>x. rn_object n = Some x \<longrightarrow>
     x \<in> rs_used s \<and> x \<notin> rs_live s \<and> x \<notin> rs_unlinked s
     \<and> (\<forall>t. x \<in> rs_refs s t \<longrightarrow> dm_slot (rs_dom s) t \<le> rn_epoch n))"

definition log_ok :: "'f rcu_state \<Rightarrow> bool" where
  "log_ok s \<longleftrightarrow> (\<forall>f x. (f, x) \<in> set (dm_log (rs_dom s)) \<longrightarrow>
     x \<in> rs_used s \<and> x \<notin> rs_live s \<and> x \<notin> rs_unlinked s \<and> (\<forall>t. x \<notin> rs_refs s t))"

text \<open>Threads outside \<open>todo\<close> hold nothing whose retirement epoch satisfies \<open>P\<close>.\<close>

definition cleared :: "(u64 \<Rightarrow> bool) \<Rightarrow> tid list \<Rightarrow> 'f Domain \<Rightarrow> (tid \<Rightarrow> nat set) \<Rightarrow> bool" where
  "cleared P todo d refs \<longleftrightarrow> (\<forall>u. u \<notin> set todo \<longrightarrow>
     (\<forall>n \<in> pending d. P (rn_epoch n) \<longrightarrow> (\<forall>x. rn_object n = Some x \<longrightarrow> x \<notin> refs u)))"

definition scans_ok :: "'f rcu_state \<Rightarrow> bool" where
  "scans_ok s \<longleftrightarrow> (\<forall>t. case rs_pc s t of
     pc_scan k old todo \<Rightarrow> cleared (\<lambda>e. e \<le> old) todo (rs_dom s) (rs_refs s)
   | pc_tryscan m todo \<Rightarrow> cleared (\<lambda>e. e < m) todo (rs_dom s) (rs_refs s)
   | _ \<Rightarrow> True)"

definition rcu_inv :: "'f rcu_state \<Rightarrow> bool" where
  "rcu_inv s \<longleftrightarrow> threads_ok s \<and> objects_ok s \<and> nodes_ok s \<and> log_ok s \<and> scans_ok s"

lemmas dom_simps = get_thread_def register_thread_def store_slot_def rcu_exit_def publish_local_batch_def

lemma word_succ_less: "(g :: u64) + 1 \<noteq> 0 \<Longrightarrow> g < g + 1"
  by (metis add.commute unatSuc lessI word_less_nat_alt)

lemma pc_ok_mono:
  "pc_ok d t p \<Longrightarrow> dm_global d \<le> dm_global d' \<Longrightarrow> set (dm_threads d) \<subseteq> set (dm_threads d') \<Longrightarrow> pc_ok d' t p"
  by (auto simp: pc_ok_def split: pc.splits)

text \<open>A step that only lets epochs grow, registers threads and moves program counters.\<close>

lemma threads_ok_step:
  assumes "threads_ok s" "rs_buf s' = rs_buf s" "rs_refs s' = rs_refs s" "dm_slot (rs_dom s') = dm_slot (rs_dom s)"
    and "dm_global (rs_dom s) \<le> dm_global (rs_dom s')" "set (dm_threads (rs_dom s)) \<subseteq> set (dm_threads (rs_dom s'))"
    and "rs_pc s' = (rs_pc s)(t := p)" "pc_ok (rs_dom s') t p" "p = pc_idle \<longrightarrow> t \<notin> rs_open s" "p = pc_reading \<longrightarrow> t \<in> rs_open s"
    and "rs_open s' = rs_open s"
  shows "threads_ok s'"
proof -
  have "pc_ok (rs_dom s') u (rs_pc s' u)" for u
  proof (cases "u = t")
    case False
    have "pc_ok (rs_dom s) u (rs_pc s u)" using assms(1) by (simp add: threads_ok_def)
    then have "pc_ok (rs_dom s') u (rs_pc s u)"
      by (rule pc_ok_mono) (use assms(5,6) in auto)
    then show ?thesis using assms(7) False by simp
  qed (use assms in simp)
  moreover have "dm_global (rs_dom s') \<noteq> 0"
    using assms(1,5) by (auto simp: threads_ok_def)
  ultimately show ?thesis using assms unfolding threads_ok_def by (auto intro: order.trans simp: fun_upd_def)
qed

lemma pc_ok_cong:
  "dm_global d' = dm_global d \<Longrightarrow> dm_slot d' = dm_slot d \<Longrightarrow> dm_threads d' = dm_threads d \<Longrightarrow> pc_ok d' t p = pc_ok d t p"
  by (simp add: pc_ok_def split: pc.splits)

lemma threads_ok_dom:
  assumes "threads_ok s" "dm_global d' = dm_global (rs_dom s)" "dm_slot d' = dm_slot (rs_dom s)"
    "dm_threads d' = dm_threads (rs_dom s)" "rs_dom s' = d'" "rs_buf s' = rs_buf s" "rs_refs s' = rs_refs s"
    "rs_pc s' = rs_pc s" "rs_open s' = rs_open s"
  shows "threads_ok s'"
  using assms pc_ok_cong[OF assms(2-4)] by (simp add: threads_ok_def)

lemma threads_ok_slot:
  assumes "threads_ok s" "e \<le> dm_global (rs_dom s)"
    and "p = pc_idle \<and> rs_open s' = rs_open s - {t}
      \<or> p = pc_reading \<and> e \<noteq> 0 \<and> t \<in> set (dm_threads (rs_dom s)) \<and> rs_open s' = insert t (rs_open s)"
    and "rs_dom s' = d'" "dm_global d' = dm_global (rs_dom s)" "set (dm_threads (rs_dom s)) \<subseteq> set (dm_threads d')"
    "dm_slot d' = (dm_slot (rs_dom s))(t := e)"
    and "rs_buf s' = rs_buf s" "rs_pc s' = (rs_pc s)(t := p)" "rs_refs s' = (rs_refs s)(t := {})"
  shows "threads_ok s'"
proof -
  have "pc_ok d' u (rs_pc s' u)" for u
  proof (cases "u = t")
    case True
    then show ?thesis using assms by (auto simp: pc_ok_def)
  next
    case False
    have "pc_ok (rs_dom s) u (rs_pc s u)" using assms(1) by (simp add: threads_ok_def)
    then have "pc_ok d' u (rs_pc s u)" by (rule pc_ok_mono) (use assms(5,6) in auto)
    then show ?thesis using assms(9) False by simp
  qed
  then show ?thesis using assms by (auto simp: threads_ok_def)
qed

lemma refs_empty: "threads_ok s \<Longrightarrow> t \<notin> rs_open s \<Longrightarrow> rs_refs s t = {}"
  by (auto simp: threads_ok_def)

lemma idle_closed: "threads_ok s \<Longrightarrow> rs_pc s t = pc_idle \<Longrightarrow> t \<notin> rs_open s"
  by (simp add: threads_ok_def)

lemma resting_ok:
  "threads_ok s \<Longrightarrow> rs_pc s t = pc_idle \<longrightarrow> t \<notin> rs_open s" "threads_ok s \<Longrightarrow> rs_pc s t = pc_reading \<longrightarrow> t \<in> rs_open s"
  by (auto simp: threads_ok_def)

lemma threads_ok_preserved:
  assumes "rcu_step True s s'" "threads_ok s" "dm_global (rs_dom s') \<noteq> 0"
  shows "threads_ok s'"
  using assms
proof (cases rule: rcu_step.cases)
  case (enter_load t)
  then show ?thesis using assms(2)
    by (intro threads_ok_step[of s s' t "pc_loaded (dm_global (rs_dom s))"])
       (auto simp: dom_simps pc_ok_def threads_ok_def)
next
  case (enter_store t e)
  then have "pc_ok (rs_dom s) t (pc_loaded e)" using assms(2) by (metis threads_ok_def)
  then show ?thesis using enter_store assms(2)
    by (intro threads_ok_slot[of s e pc_reading s' t "store_slot t e (rs_dom s)"])
       (auto simp: dom_simps pc_ok_def entered_def)
next
  case (leave t)
  then show ?thesis using assms(2)
    by (intro threads_ok_slot[of s 0 pc_idle s' t "rcu_exit t (rs_dom s)"]) (auto simp: dom_simps exited_def)
next
  case (thread_end t)
  have "rs_refs s = (rs_refs s)(t := {})" "rs_pc s = (rs_pc s)(t := pc_idle)" "rs_open s = rs_open s - {t}"
    using refs_empty[OF assms(2), of t] idle_closed[OF assms(2)] thread_end by (simp_all add: fun_upd_idem)
  then show ?thesis using assms(2) thread_end
    by (intro threads_ok_slot[of s 0 pc_idle s' t "(rs_dom s)\<lparr>dm_slot := (dm_slot (rs_dom s))(t := 0),
          dm_batch := (dm_batch (rs_dom s))(t := [])\<rparr>"]) auto
next
  case (drain t e)
  then show ?thesis using assms(2) by (simp add: threads_ok_def)
next
  case (begin_sync t stats eager r d)
  note q = sync_begin_quiet[OF begin_sync(3)]
  show ?thesis
  proof (cases r)
    case (sync_advance old)
    then have "dm_global (rs_dom s) < dm_global d \<and> old = dm_global (rs_dom s)"
      using q begin_sync assms(3) word_succ_less[of "dm_global (rs_dom s)"] by (simp add: quiet_advance_def)
    then show ?thesis using begin_sync q assms(2) sync_advance
      by (intro threads_ok_step[of s s' t "pc_wait (sk_sync eager) old"]) (auto simp: quiet_advance_def pc_ok_def)
  next
    case sync_wait
    then show ?thesis using begin_sync q assms(2) resting_ok[OF assms(2)]
      by (intro threads_ok_step[of s s' t "rs_pc s t"]) (auto simp: quiet_advance_def pc_ok_def)
  next
    case sync_skip
    then show ?thesis using begin_sync q assms(2) resting_ok[OF assms(2)]
      by (intro threads_ok_step[of s s' t "rs_pc s t"]) (auto simp: quiet_advance_def pc_ok_def)
  qed
next
  case (begin_until t stats r d)
  note q = begin_advance_quiet[OF begin_until(3)]
  show ?thesis
  proof (cases r)
    case (Some old)
    then have "dm_global (rs_dom s) < dm_global d \<and> old = dm_global (rs_dom s)"
      using q begin_until assms(3) word_succ_less[of "dm_global (rs_dom s)"] by (simp add: quiet_advance_def)
    then show ?thesis using begin_until q assms(2) Some
      by (intro threads_ok_step[of s s' t "pc_wait sk_until old"]) (auto simp: quiet_advance_def pc_ok_def)
  next
    case None
    then show ?thesis using begin_until q assms(2) resting_ok[OF assms(2)]
      by (intro threads_ok_step[of s s' t "rs_pc s t"]) (auto simp: quiet_advance_def pc_ok_def)
  qed
next
  case (scan_start t k old)
  then have "pc_ok (rs_dom s) t (pc_wait k old)" using assms(2) by (metis threads_ok_def)
  then show ?thesis using scan_start assms(2)
    by (intro threads_ok_step[of s s' t "pc_scan k old (dm_threads (rs_dom s))"]) (auto simp: pc_ok_def)
next
  case (scan_pass t k old u us)
  then have "pc_ok (rs_dom s) t (pc_scan k old (u # us))" using assms(2) by (metis threads_ok_def)
  then show ?thesis using scan_pass assms(2)
    by (intro threads_ok_step[of s s' t "pc_scan k old us"]) (auto simp: pc_ok_def)
next
  case (scan_blocked t k old u us)
  then have "pc_ok (rs_dom s) t (pc_scan k old (u # us))" using assms(2) by (metis threads_ok_def)
  then show ?thesis using scan_blocked assms(2)
    by (intro threads_ok_step[of s s' t "pc_wait k old"]) (auto simp: pc_ok_def)
next
  case (give_up t old)
  then show ?thesis using assms(2) collects_end_advance[of old "rs_dom s" False]
    by (intro threads_ok_step[of s s' t "resting s t"]) (auto simp: pc_ok_def collects_def)
next
  case (finish_until t old)
  then show ?thesis using assms(2) collects_end_advance[of old "rs_dom s" True]
    by (intro threads_ok_step[of s s' t "resting s t"]) (auto simp: pc_ok_def collects_def)
next
  case (finish_sync t eager old)
  then show ?thesis using assms(2) collects_sync_end[of old "rs_dom s" eager]
    by (intro threads_ok_step[of s s' t "resting s t"]) (auto simp: pc_ok_def collects_def)
next
  case (try_begin t)
  then show ?thesis using assms(2)
    by (intro threads_ok_step[of s s' t "pc_try (dm_global (rs_dom s))"]) (auto simp: pc_ok_def threads_ok_def)
next
  case (try_start t m)
  then have "pc_ok (rs_dom s) t (pc_try m)" using assms(2) by (metis threads_ok_def)
  then show ?thesis using try_start assms(2)
    by (intro threads_ok_step[of s s' t "pc_tryscan m (dm_threads (rs_dom s))"]) (auto simp: pc_ok_def)
next
  case (try_scan t m u us)
  then have "pc_ok (rs_dom s) t (pc_tryscan m (u # us))" using assms(2) by (metis threads_ok_def)
  then show ?thesis using try_scan assms(2)
    by (intro threads_ok_step[of s s' t "pc_tryscan (min_epoch_from (dm_slot (rs_dom s)) [u] m) us"])
       (auto simp: pc_ok_def)
next
  case (try_finish t m)
  then have "pc_ok (rs_dom s) t (pc_tryscan m [])" using assms(2) by (metis threads_ok_def)
  then show ?thesis using try_finish assms(2) collects_below[of m "rs_dom s"]
    by (intro threads_ok_step[of s s' t "resting s t"]) (auto simp: pc_ok_def collects_def)
next
  case (retire x t stats now f cls)
  then show ?thesis using assms(2)
    by (intro threads_ok_dom[of s "rs_dom s'" s']) (auto simp: retire_local_def)
next
  case (publish_batch t)
  then show ?thesis using assms(2)
    by (intro threads_ok_dom[of s "rs_dom s'" s']) (auto simp: publish_local_batch_def)
qed (auto simp: threads_ok_def)

lemma objects_ok_preserved: "rcu_step fenced s s' \<Longrightarrow> objects_ok s \<Longrightarrow> objects_ok s'"
  by (cases rule: rcu_step.cases, assumption) (auto simp: objects_ok_def entered_def exited_def)

text \<open>Most steps leave objects alone: fewer nodes, fewer references, the same slots where there are references.\<close>

lemma nodes_ok_mono:
  assumes "nodes_ok s" "pending (rs_dom s') \<subseteq> pending (rs_dom s)" "\<And>u. rs_refs s' u \<subseteq> rs_refs s u"
    "\<And>u. rs_refs s' u \<noteq> {} \<Longrightarrow> dm_slot (rs_dom s') u = dm_slot (rs_dom s) u"
    "rs_used s' = rs_used s" "rs_live s' = rs_live s" "rs_unlinked s' = rs_unlinked s"
  shows "nodes_ok s'"
  unfolding nodes_ok_def
proof (intro ballI allI impI)
  fix n x assume n: "n \<in> pending (rs_dom s')" "rn_object n = Some x"
  then have "n \<in> pending (rs_dom s)" using assms(2) by blast
  then have *: "x \<in> rs_used s \<and> x \<notin> rs_live s \<and> x \<notin> rs_unlinked s
      \<and> (\<forall>t. x \<in> rs_refs s t \<longrightarrow> dm_slot (rs_dom s) t \<le> rn_epoch n)"
    using assms(1) n(2) by (simp add: nodes_ok_def)
  have "dm_slot (rs_dom s') t \<le> rn_epoch n" if "x \<in> rs_refs s' t" for t
    using * that assms(3)[of t] assms(4)[of t] by (metis empty_iff subsetD)
  then show "x \<in> rs_used s' \<and> x \<notin> rs_live s' \<and> x \<notin> rs_unlinked s'
      \<and> (\<forall>t. x \<in> rs_refs s' t \<longrightarrow> dm_slot (rs_dom s') t \<le> rn_epoch n)"
    using * assms(5-7) by simp
qed

text \<open>The steps that run over the domain only, by what they do to it.\<close>

lemma domain_step_cases:
  assumes "rcu_step True s s'" "threads_ok s"
  obtains (publish) x where "x \<notin> rs_used s"
      "s' = s\<lparr>rs_used := insert x (rs_used s), rs_live := insert x (rs_live s)\<rparr>"
  | (acquire) t x where "x \<in> rs_live s" "s' = s\<lparr>rs_refs := (rs_refs s)(t := insert x (rs_refs s t))\<rparr>"
  | (unlink) x where "x \<in> rs_live s"
      "s' = s\<lparr>rs_live := rs_live s - {x}, rs_unlinked := insert x (rs_unlinked s)\<rparr>"
  | (retire) x t stats now f cls where "x \<in> rs_unlinked s" "s' = on_dom (retire_local stats now t (Some x) (Some f) cls)
      (s\<lparr>rs_unlinked := rs_unlinked s - {x}\<rparr>)"
  | (quiet) "pending (rs_dom s') \<subseteq> pending (rs_dom s)" "\<And>u. rs_refs s' u \<subseteq> rs_refs s u"
      "\<And>u. rs_refs s' u \<noteq> {} \<Longrightarrow> dm_slot (rs_dom s') u = dm_slot (rs_dom s) u"
      "rs_used s' = rs_used s" "rs_live s' = rs_live s" "rs_unlinked s' = rs_unlinked s"
  using assms(1)
proof (cases rule: rcu_step.cases)
  case (enter_store t e)
  then show ?thesis by (intro quiet) (auto simp: dom_simps entered_def split: if_splits)
next
  case (leave t)
  then show ?thesis by (intro quiet) (auto simp: dom_simps exited_def split: if_splits)
next
  case (acquire_stale t x)
  then show ?thesis by (intro quiet) simp_all
next
  case (thread_end t)
  have "pending ((rs_dom s)\<lparr>dm_slot := (dm_slot (rs_dom s))(t := 0), dm_batch := (dm_batch (rs_dom s))(t := [])\<rparr>)
      \<subseteq> pending (rs_dom s)" by (auto simp: pending_def split: if_splits)
  then show ?thesis using thread_end refs_empty[OF assms(2), of t] idle_closed[OF assms(2)]
    by (intro quiet) (auto split: if_splits)
next
  case (begin_sync t stats eager r d)
  then show ?thesis using quiet sync_begin_quiet[OF begin_sync(3)] by (simp add: quiet_advance_def)
next
  case (begin_until t stats r d)
  then show ?thesis using quiet begin_advance_quiet[OF begin_until(3)] by (simp add: quiet_advance_def)
next
  case (give_up t old)
  then show ?thesis using quiet collects_end_advance[of old "rs_dom s" False] by (simp add: collects_def)
next
  case (finish_until t old)
  then show ?thesis using quiet collects_end_advance[of old "rs_dom s" True] by (simp add: collects_def)
next
  case (finish_sync t eager old)
  then show ?thesis using quiet collects_sync_end[of old "rs_dom s" eager] by (simp add: collects_def)
next
  case (try_finish t m)
  then have "pc_ok (rs_dom s) t (pc_tryscan m [])" using assms(2) by (metis threads_ok_def)
  then show ?thesis using try_finish quiet collects_below[of m "rs_dom s"] by (simp add: collects_def pc_ok_def)
next
  case (enter_load t)
  then show ?thesis by (intro quiet) (simp_all add: dom_simps)
next
  case (scan_start t k old)
  then show ?thesis by (intro quiet) (simp_all add: dom_simps)
next
  case (scan_pass t k old u us)
  then show ?thesis by (intro quiet) (simp_all add: dom_simps)
next
  case (scan_blocked t k old u us)
  then show ?thesis by (intro quiet) (simp_all add: dom_simps)
next
  case (try_begin t)
  then show ?thesis by (intro quiet) (simp_all add: dom_simps)
next
  case (try_start t m)
  then show ?thesis by (intro quiet) (simp_all add: dom_simps)
next
  case (try_scan t m u us)
  then show ?thesis by (intro quiet) (simp_all add: dom_simps)
next
  case (publish_batch t)
  then show ?thesis by (intro quiet) (simp_all add: dom_simps)
next
  case (publish_object x)
  show ?thesis by (rule that(1)[OF publish_object(2,1)])
next
  case (acquire t x)
  show ?thesis by (rule that(2)[OF acquire(3,1)])
next
  case (unlink x)
  show ?thesis by (rule that(3)[OF unlink(2,1)])
next
  case (retire x t stats now f cls)
  show ?thesis by (rule that(4)[OF retire(2,1)])
qed (use assms(2) in \<open>simp_all add: threads_ok_def\<close>)

lemma nodes_ok_preserved:
  assumes "rcu_step True s s'" "threads_ok s" "objects_ok s" "nodes_ok s"
  shows "nodes_ok s'"
proof (rule domain_step_cases[OF assms(1,2)], goal_cases publish acquire unlink retire quiet)
  case (publish x)
  then show ?thesis using assms(4) by (auto simp: nodes_ok_def)
next
  case (acquire t x)
  then show ?thesis using assms(4) by (auto simp: nodes_ok_def)
next
  case (unlink x)
  then show ?thesis using assms(4) by (auto simp: nodes_ok_def)
next
  case retire: (retire x t stats now f cls)
  have "\<forall>u. dm_slot (rs_dom s) u \<le> dm_global (rs_dom s)" using assms(2) by (simp add: threads_ok_def)
  then show ?thesis using assms(3,4) retire
    by (auto simp: nodes_ok_def objects_ok_def pending_retire) (auto simp: retire_local_def)
next
  case quiet
  then show ?thesis by (rule nodes_ok_mono[OF assms(4)])
qed

section \<open>Scans and the log\<close>

lemma cleared_mono:
  "cleared P todo d refs \<Longrightarrow> pending d' \<subseteq> pending d \<Longrightarrow> (\<And>u. refs' u \<subseteq> refs u) \<Longrightarrow> cleared P todo d' refs'"
  unfolding cleared_def by blast

lemma scans_ok_pc:
  assumes "scans_ok s" "pending (rs_dom s') \<subseteq> pending (rs_dom s)" "\<And>u. rs_refs s' u \<subseteq> rs_refs s u"
    "rs_pc s' = (rs_pc s)(t := p)"
    "\<And>k old todo. p = pc_scan k old todo \<Longrightarrow> cleared (\<lambda>e. e \<le> old) todo (rs_dom s') (rs_refs s')"
    "\<And>m todo. p = pc_tryscan m todo \<Longrightarrow> cleared (\<lambda>e. e < m) todo (rs_dom s') (rs_refs s')"
  shows "scans_ok s'"
  unfolding scans_ok_def
proof
  fix u
  show "case rs_pc s' u of
     pc_scan k old todo \<Rightarrow> cleared (\<lambda>e. e \<le> old) todo (rs_dom s') (rs_refs s')
   | pc_tryscan m todo \<Rightarrow> cleared (\<lambda>e. e < m) todo (rs_dom s') (rs_refs s') | _ \<Rightarrow> True"
  proof (cases "u = t")
    case True
    then show ?thesis using assms(4-6) by (auto split: pc.splits)
  next
    case False
    have "case rs_pc s u of
     pc_scan k old todo \<Rightarrow> cleared (\<lambda>e. e \<le> old) todo (rs_dom s) (rs_refs s)
   | pc_tryscan m todo \<Rightarrow> cleared (\<lambda>e. e < m) todo (rs_dom s) (rs_refs s) | _ \<Rightarrow> True"
      using assms(1) unfolding scans_ok_def by blast
    then show ?thesis using False assms(4) cleared_mono[OF _ assms(2,3)] by (auto split: pc.splits)
  qed
qed

lemma cleared_start:
  assumes "threads_ok s" shows "cleared P (dm_threads (rs_dom s)) (rs_dom s) (rs_refs s)"
proof -
  have "rs_refs s u = {}" if "u \<notin> set (dm_threads (rs_dom s))" for u
  proof (rule ccontr)
    assume "rs_refs s u \<noteq> {}"
    then show False using assms that by (auto simp: threads_ok_def)
  qed
  then show ?thesis by (auto simp: cleared_def)
qed

lemma held_slot:
  assumes "threads_ok s" "nodes_ok s" "n \<in> pending (rs_dom s)" "rn_object n = Some x" "x \<in> rs_refs s u"
  shows "dm_slot (rs_dom s) u \<noteq> 0 \<and> dm_slot (rs_dom s) u \<le> rn_epoch n"
proof -
  have "u \<in> rs_open s" using assms(1,5) by (auto simp: threads_ok_def)
  then show ?thesis using assms by (auto simp: threads_ok_def nodes_ok_def)
qed

lemma cleared_pass:
  assumes "threads_ok s" "nodes_ok s" "cleared P (u # us) (rs_dom s) (rs_refs s)"
    and "\<And>e. P e \<Longrightarrow> dm_slot (rs_dom s) u = 0 \<or> e < dm_slot (rs_dom s) u"
  shows "cleared P us (rs_dom s) (rs_refs s)"
  unfolding cleared_def
proof (intro allI impI ballI)
  fix v n x assume v: "v \<notin> set us" and n: "n \<in> pending (rs_dom s)" "P (rn_epoch n)" "rn_object n = Some x"
  show "x \<notin> rs_refs s v"
  proof (cases "v = u")
    case True
    then show ?thesis using held_slot[OF assms(1,2) n(1,3), of u] assms(4)[OF n(2)] by auto
  next
    case False
    then show ?thesis using assms(3) v n by (auto simp: cleared_def)
  qed
qed

lemma scan_cleared: "scans_ok s \<Longrightarrow> rs_pc s t = pc_scan k old todo \<Longrightarrow> cleared (\<lambda>e. e \<le> old) todo (rs_dom s) (rs_refs s)"
  unfolding scans_ok_def by (drule spec[of _ t]) simp

lemma tryscan_cleared: "scans_ok s \<Longrightarrow> rs_pc s t = pc_tryscan m todo \<Longrightarrow> cleared (\<lambda>e. e < m) todo (rs_dom s) (rs_refs s)"
  unfolding scans_ok_def by (drule spec[of _ t]) simp

lemma scans_ok_same:
  assumes "scans_ok s" "rs_pc s' = rs_pc s" "pending (rs_dom s') \<subseteq> pending (rs_dom s)" "\<And>u. rs_refs s' u \<subseteq> rs_refs s u"
  shows "scans_ok s'"
proof (rule scans_ok_pc[OF assms(1,3,4), of 0 "rs_pc s 0"])
  show "cleared (\<lambda>e. e \<le> old) todo (rs_dom s') (rs_refs s')" if "rs_pc s 0 = pc_scan k old todo" for k old todo
    by (rule cleared_mono[OF scan_cleared[OF assms(1) that] assms(3,4)])
  show "cleared (\<lambda>e. e < m) todo (rs_dom s') (rs_refs s')" if "rs_pc s 0 = pc_tryscan m todo" for m todo
    by (rule cleared_mono[OF tryscan_cleared[OF assms(1) that] assms(3,4)])
qed (simp add: assms(2))

lemma scans_ok_retire:
  assumes "threads_ok s" "scans_ok s" "rs_refs s' = rs_refs s" "rs_pc s' = rs_pc s"
    "pending (rs_dom s') = insert n (pending (rs_dom s))" "rn_epoch n = dm_global (rs_dom s)"
  shows "scans_ok s'"
  unfolding scans_ok_def
proof
  fix t
  have pc: "pc_ok (rs_dom s) t (rs_pc s t)" using assms(1) by (simp add: threads_ok_def)
  have ins: "cleared P todo (rs_dom s') (rs_refs s')"
    if "cleared P todo (rs_dom s) (rs_refs s)" "\<not> P (dm_global (rs_dom s))" for P todo
    using that assms(3,5,6) by (auto simp: cleared_def)
  show "case rs_pc s' t of
     pc_scan k old todo \<Rightarrow> cleared (\<lambda>e. e \<le> old) todo (rs_dom s') (rs_refs s')
   | pc_tryscan m todo \<Rightarrow> cleared (\<lambda>e. e < m) todo (rs_dom s') (rs_refs s') | _ \<Rightarrow> True"
  proof (cases "rs_pc s t")
    case (pc_scan k old todo)
    then show ?thesis using ins[OF scan_cleared[OF assms(2) pc_scan]] pc assms(4) by (simp add: pc_ok_def)
  next
    case (pc_tryscan m todo)
    then show ?thesis using ins[OF tryscan_cleared[OF assms(2) pc_tryscan]] pc assms(4) by (auto simp: pc_ok_def)
  qed (use assms(4) in simp_all)
qed

lemma scans_ok_acquire:
  assumes "scans_ok s" "nodes_ok s" "x \<in> rs_live s" "s' = s\<lparr>rs_refs := (rs_refs s)(t := insert x (rs_refs s t))\<rparr>"
  shows "scans_ok s'"
proof -
  have "cleared P todo (rs_dom s') (rs_refs s')" if "cleared P todo (rs_dom s) (rs_refs s)" for P todo
    using that assms(2-4) by (auto simp: cleared_def nodes_ok_def)
  then show ?thesis using assms(1,4) by (auto simp: scans_ok_def split: pc.splits)
qed

lemma scans_ok_preserved:
  assumes "rcu_step True s s'" "threads_ok s" "nodes_ok s" "scans_ok s"
  shows "scans_ok s'"
  using assms(1)
proof (cases rule: rcu_step.cases)
  case (acquire t x)
  show ?thesis by (rule scans_ok_acquire[OF assms(4,3) acquire(3,1)])
next
  case (retire x t stats now f cls)
  show ?thesis
    by (rule scans_ok_retire[OF assms(2,4), of s'
          "\<lparr>rn_object = Some x, rn_epoch = dm_global (rs_dom s), rn_reclaim = Some f, rn_cls = cls,
            rn_retired_at_ns = (if stats then now else 0)\<rparr>"])
       (simp_all add: retire(1) pending_retire)
next
  case (publish_object x)
  then show ?thesis by (intro scans_ok_same[OF assms(4)]) simp_all
next
  case (unlink x)
  then show ?thesis by (intro scans_ok_same[OF assms(4)]) simp_all
next
  case (scan_start t k old)
  then show ?thesis using cleared_start[OF assms(2)]
    by (intro scans_ok_pc[OF assms(4), of s' t "pc_scan k old (dm_threads (rs_dom s))"]) auto
next
  case (scan_pass t k old u us)
  have "cleared (\<lambda>e. e \<le> old) us (rs_dom s) (rs_refs s)"
    by (rule cleared_pass[OF assms(2,3) scan_cleared[OF assms(4) scan_pass(2)]])
       (use scan_pass(3) in \<open>auto simp: slot_passed_def\<close>)
  then show ?thesis using scan_pass by (intro scans_ok_pc[OF assms(4), of s' t "pc_scan k old us"]) auto
next
  case (try_start t m)
  then show ?thesis using cleared_start[OF assms(2)]
    by (intro scans_ok_pc[OF assms(4), of s' t "pc_tryscan m (dm_threads (rs_dom s))"]) auto
next
  case (try_scan t m u us)
  let ?m = "min_epoch_from (dm_slot (rs_dom s)) [u] m"
  have "cleared (\<lambda>e. e < ?m) (u # us) (rs_dom s) (rs_refs s)"
    using tryscan_cleared[OF assms(4) try_scan(2)] by (auto simp: cleared_def)
  then have "cleared (\<lambda>e. e < ?m) us (rs_dom s) (rs_refs s)"
    by (rule cleared_pass[OF assms(2,3)]) (auto split: if_splits)
  then show ?thesis using try_scan by (intro scans_ok_pc[OF assms(4), of s' t "pc_tryscan ?m us"]) auto
next
  case (drain t e)
  then show ?thesis using assms(2) by (simp add: threads_ok_def)
next
  case (publish_batch t)
  then show ?thesis by (intro scans_ok_same[OF assms(4)]) (simp_all add: publish_local_batch_def)
next
  case (thread_end t)
  show ?thesis
  proof (rule scans_ok_pc[OF assms(4), of s' t pc_idle])
    show "pending (rs_dom s') \<subseteq> pending (rs_dom s)" using thread_end by (auto simp: pending_def split: if_splits)
    show "rs_pc s' = (rs_pc s)(t := pc_idle)" using thread_end by (simp add: fun_upd_idem)
  qed (use thread_end in auto)
next
  case (enter_load t)
  then show ?thesis by (intro scans_ok_pc[OF assms(4), of s' t "pc_loaded (dm_global (rs_dom s))"]) (auto simp: dom_simps)
next
  case (enter_store t e)
  then show ?thesis by (intro scans_ok_pc[OF assms(4), of s' t pc_reading]) (auto simp: dom_simps entered_def)
next
  case (leave t)
  then show ?thesis by (intro scans_ok_pc[OF assms(4), of s' t pc_idle]) (auto simp: dom_simps exited_def split: if_splits)
next
  case (acquire_stale t x)
  then show ?thesis by (intro scans_ok_same[OF assms(4)]) simp_all
next
  case (begin_sync t stats eager r d)
  then show ?thesis using sync_begin_quiet[OF begin_sync(3)]
    by (intro scans_ok_pc[OF assms(4), of s' t
          "case r of sync_advance old \<Rightarrow> pc_wait (sk_sync eager) old | _ \<Rightarrow> rs_pc s t"])
       (auto simp: quiet_advance_def split: sync_step.splits)
next
  case (begin_until t stats r d)
  then show ?thesis using begin_advance_quiet[OF begin_until(3)]
    by (intro scans_ok_pc[OF assms(4), of s' t "case r of Some old \<Rightarrow> pc_wait sk_until old | None \<Rightarrow> rs_pc s t"])
       (auto simp: quiet_advance_def split: option.splits)
next
  case (scan_blocked t k old u us)
  then show ?thesis by (intro scans_ok_pc[OF assms(4), of s' t "pc_wait k old"]) auto
next
  case (give_up t old)
  then show ?thesis using collects_end_advance[of old "rs_dom s" False]
    by (intro scans_ok_pc[OF assms(4), of s' t "resting s t"]) (auto simp: collects_def split: if_splits)
next
  case (finish_until t old)
  then show ?thesis using collects_end_advance[of old "rs_dom s" True]
    by (intro scans_ok_pc[OF assms(4), of s' t "resting s t"]) (auto simp: collects_def split: if_splits)
next
  case (finish_sync t eager old)
  then show ?thesis using collects_sync_end[of old "rs_dom s" eager]
    by (intro scans_ok_pc[OF assms(4), of s' t "resting s t"]) (auto simp: collects_def split: if_splits)
next
  case (try_begin t)
  then show ?thesis by (intro scans_ok_pc[OF assms(4), of s' t "pc_try (dm_global (rs_dom s))"]) auto
next
  case (try_finish t m)
  then have "pc_ok (rs_dom s) t (pc_tryscan m [])" using assms(2) by (metis threads_ok_def)
  then show ?thesis using try_finish collects_below[of m "rs_dom s"]
    by (intro scans_ok_pc[OF assms(4), of s' t "resting s t"]) (auto simp: collects_def pc_ok_def split: if_splits)
qed simp

text \<open>Collecting after a completed scan.\<close>

lemma log_ok_collects:
  assumes "nodes_ok s" "log_ok s" "cleared P [] (rs_dom s) (rs_refs s)" "\<And>e. e \<le> safe \<Longrightarrow> P e"
    "collects safe (rs_dom s) (rs_dom s')" "rs_refs s' = rs_refs s" "rs_used s' = rs_used s" "rs_live s' = rs_live s"
    "rs_unlinked s' = rs_unlinked s"
  shows "log_ok s'"
  unfolding log_ok_def
proof (intro allI impI)
  fix f x assume "(f, x) \<in> set (dm_log (rs_dom s'))"
  then consider "(f, x) \<in> set (dm_log (rs_dom s))" | n where "n \<in> pending (rs_dom s)" "rn_object n = Some x" "rn_epoch n \<le> safe"
    using assms(5) unfolding collects_def by blast
  then show "x \<in> rs_used s' \<and> x \<notin> rs_live s' \<and> x \<notin> rs_unlinked s' \<and> (\<forall>t. x \<notin> rs_refs s' t)"
  proof cases
    case 1
    then show ?thesis using assms(2,6-9) by (simp add: log_ok_def)
  next
    case 2
    then show ?thesis using assms(1,3,4,6-9) by (auto simp: nodes_ok_def cleared_def)
  qed
qed

lemma log_ok_same:
  assumes "log_ok s" "dm_log (rs_dom s') = dm_log (rs_dom s)" "\<And>u. rs_refs s' u \<subseteq> rs_refs s u"
    "rs_used s' = rs_used s" "rs_live s' = rs_live s" "rs_unlinked s' = rs_unlinked s"
  shows "log_ok s'"
  using assms(1,3) unfolding log_ok_def assms(2,4-6) by blast

lemma log_ok_preserved:
  assumes "rcu_step True s s'" "threads_ok s" "objects_ok s" "nodes_ok s" "scans_ok s" "log_ok s"
  shows "log_ok s'"
  using assms(1)
proof (cases rule: rcu_step.cases)
  case (finish_until t old)
  then show ?thesis using collects_end_advance[of old "rs_dom s" True]
    by (intro log_ok_collects[OF assms(4,6) scan_cleared[OF assms(5) finish_until(2)], of old]) auto
next
  case (finish_sync t eager old)
  then show ?thesis using collects_sync_end[of old "rs_dom s" eager]
    by (intro log_ok_collects[OF assms(4,6) scan_cleared[OF assms(5) finish_sync(2)], of old]) auto
next
  case (try_finish t m)
  then have "pc_ok (rs_dom s) t (pc_tryscan m [])" using assms(2) by (metis threads_ok_def)
  then have m: "m \<noteq> 0" by (simp add: pc_ok_def)
  have "0 < unat m" using m by (simp add: unat_gt_0)
  then have "e < m" if "e \<le> m - 1" for e
    using that unat_minus_one[OF m] by (simp add: word_le_nat_alt word_less_nat_alt)
  then show ?thesis using try_finish collects_below[OF m, of "rs_dom s"]
    by (intro log_ok_collects[OF assms(4,6) tryscan_cleared[OF assms(5) try_finish(2)], of "m - 1"]) auto
next
  case (retire x t stats now f cls)
  then show ?thesis using assms(6) by (auto simp: log_ok_def retire_local_def)
next
  case (publish_object x)
  then show ?thesis using assms(6) by (auto simp: log_ok_def)
next
  case (acquire t x)
  then show ?thesis using assms(6) by (auto simp: log_ok_def)
next
  case (unlink x)
  then show ?thesis using assms(6) by (auto simp: log_ok_def)
next
  case (begin_sync t stats eager r d)
  then show ?thesis using sync_begin_quiet[OF begin_sync(3)]
    by (intro log_ok_same[OF assms(6)]) (auto simp: quiet_advance_def)
next
  case (begin_until t stats r d)
  then show ?thesis using begin_advance_quiet[OF begin_until(3)]
    by (intro log_ok_same[OF assms(6)]) (auto simp: quiet_advance_def)
next
  case (give_up t old)
  then show ?thesis by (intro log_ok_same[OF assms(6)]) (auto simp: end_advance_unproven_pending)
next
  case (leave t)
  then show ?thesis by (intro log_ok_same[OF assms(6)]) (auto simp: dom_simps exited_def split: if_splits)
next
  case (enter_load t)
  then show ?thesis by (intro log_ok_same[OF assms(6)]) (auto simp: dom_simps)
next
  case (enter_store t e)
  then show ?thesis by (intro log_ok_same[OF assms(6)]) (auto simp: dom_simps entered_def)
next
  case (acquire_stale t x)
  then show ?thesis by (intro log_ok_same[OF assms(6)]) simp_all
next
  case (drain t e)
  then show ?thesis using assms(2) by (simp add: threads_ok_def)
next
  case (publish_batch t)
  then show ?thesis by (intro log_ok_same[OF assms(6)]) (auto simp: publish_local_batch_def)
qed (use assms(6) in \<open>auto simp: log_ok_def\<close>)

lemma rcu_inv_reachable: "rcu_reachable True s \<Longrightarrow> rcu_inv s"
proof (induction rule: rcu_reachable.induct)
  case start
  show ?case by (simp add: rcu_inv_def threads_ok_def objects_ok_def nodes_ok_def log_ok_def scans_ok_def
        initial_state_def initial_domain_def pending_def pc_ok_def)
next
  case (step s s')
  then show ?case unfolding rcu_inv_def
    using threads_ok_preserved objects_ok_preserved nodes_ok_preserved log_ok_preserved scans_ok_preserved by blast
qed

section \<open>Nesting\<close>

text \<open>A thread that never opened a section inside another holds only references its slot stands for.\<close>

definition nest_ok :: "'f rcu_state \<Rightarrow> bool" where
  "nest_ok s \<longleftrightarrow> (\<forall>t. t \<notin> rs_nested s \<longrightarrow> rs_stale s t = {} \<and> rs_depth s t = (if t \<in> rs_open s then 1 else 0))"

lemma nest_ok_preserved:
  assumes "rcu_step True s s'" "threads_ok s" "nest_ok s"
  shows "nest_ok s'"
  using assms(1)
proof (cases rule: rcu_step.cases)
  case (enter_store t e)
  then show ?thesis using assms(3) refs_empty[OF assms(2), of t] by (auto simp: nest_ok_def entered_def split: if_splits)
next
  case (leave t)
  then show ?thesis using assms(3) by (auto simp: nest_ok_def exited_def split: if_splits)
next
  case (acquire_stale t x)
  then show ?thesis using assms(3) idle_closed[OF assms(2), of t] by (auto simp: nest_ok_def)
qed (use assms(3) in \<open>auto simp: nest_ok_def\<close>)

lemma nest_ok_reachable: "rcu_reachable True s \<Longrightarrow> nest_ok s"
proof (induction rule: rcu_reachable.induct)
  case (step s s')
  then show ?case using nest_ok_preserved rcu_inv_reachable unfolding rcu_inv_def by blast
qed (simp add: nest_ok_def initial_state_def)

section \<open>Each callback at most once\<close>

definition node_objs :: "'f RetiredNode list \<Rightarrow> nat list" where
  "node_objs ns = concat (map (\<lambda>n. case rn_object n of None \<Rightarrow> [] | Some x \<Rightarrow> [x]) ns)"

definition log_objs :: "'f Domain \<Rightarrow> nat list" where
  "log_objs d = map snd (dm_log d)"

definition once :: "'f Domain \<Rightarrow> bool" where
  "once d \<longleftrightarrow> (\<forall>x t u. t \<noteq> u \<longrightarrow> count_list (log_objs d) x + count_list (node_objs (dm_retired d)) x
     + count_list (node_objs (dm_batch d t)) x + count_list (node_objs (dm_batch d u)) x \<le> 1)"

lemma node_objs_append: "node_objs (xs @ ys) = node_objs xs @ node_objs ys"
  by (simp add: node_objs_def)

lemma count_list_zero: "x \<notin> set xs \<Longrightarrow> count_list xs x = 0"
  by simp

lemma set_node_objs: "x \<in> set (node_objs ns) \<longleftrightarrow> (\<exists>n \<in> set ns. rn_object n = Some x)"
  by (induction ns) (auto simp: node_objs_def split: option.splits)

lemma collected_objs:
  "count_list (map snd (concat (map node_calls (filter P ns)))) x + count_list (node_objs (filter (\<lambda>n. \<not> P n) ns)) x
     \<le> count_list (node_objs ns) x"
  by (induction ns) (auto simp: node_objs_def node_calls_def split: option.splits)

lemma once_le:
  assumes "once d" "\<And>x. count_list (log_objs d') x + count_list (node_objs (dm_retired d')) x
      \<le> count_list (log_objs d) x + count_list (node_objs (dm_retired d)) x"
    "\<And>t. dm_batch d' t = dm_batch d t \<or> dm_batch d' t = []"
  shows "once d'"
  unfolding once_def
proof (intro allI impI)
  fix x and t u :: tid assume "t \<noteq> u"
  then have "count_list (log_objs d) x + count_list (node_objs (dm_retired d)) x
     + count_list (node_objs (dm_batch d t)) x + count_list (node_objs (dm_batch d u)) x \<le> 1"
    using assms(1) by (simp add: once_def)
  moreover have "count_list (node_objs (dm_batch d' v)) x \<le> count_list (node_objs (dm_batch d v)) x" for v
    using assms(3)[of v] by (auto simp: node_objs_def)
  ultimately show "count_list (log_objs d') x + count_list (node_objs (dm_retired d')) x
     + count_list (node_objs (dm_batch d' t)) x + count_list (node_objs (dm_batch d' u)) x \<le> 1"
    using assms(2)[of x] by (meson add_mono order.trans)
qed

lemma once_collect: "once d \<Longrightarrow> once (collect s c d)"
proof (rule once_le)
  show "count_list (log_objs (collect s c d)) x + count_list (node_objs (dm_retired (collect s c d))) x
      \<le> count_list (log_objs d) x + count_list (node_objs (dm_retired d)) x" for x
    using collected_objs[of "due s c" "dm_retired d" x] by (simp add: log_objs_def collect_log collect_retired)
qed simp_all

lemma once_publish:
  assumes "once d" shows "once (publish_local_batch_locked t0 d)"
proof (cases "dm_batch d t0 = []")
  case True
  then show ?thesis using assms by (simp add: publish_local_batch_locked_def)
next
  case False
  let ?d = "publish_local_batch_locked t0 d"
  have q: "count_list (log_objs d) x + count_list (node_objs (dm_retired d)) x
     + count_list (node_objs (dm_batch d t)) x + count_list (node_objs (dm_batch d u)) x \<le> 1" if "t \<noteq> u" for x t u
    using assms that by (simp add: once_def)
  have ret: "count_list (node_objs (dm_retired ?d)) x =
      count_list (node_objs (dm_batch d t0)) x + count_list (node_objs (dm_retired d)) x"
    and bat: "dm_batch ?d = (dm_batch d)(t0 := [])" and lg: "log_objs ?d = log_objs d" for x
    using False by (simp_all add: publish_local_batch_locked_def node_objs_append log_objs_def)
  have e: "count_list (node_objs []) x = 0" for x by (simp add: node_objs_def)
  show ?thesis unfolding once_def
  proof (intro allI impI)
    fix x and t u :: tid assume tu: "t \<noteq> u"
    consider "t = t0" | "u = t0" | "t \<noteq> t0" "u \<noteq> t0" by blast
    then show "count_list (log_objs ?d) x + count_list (node_objs (dm_retired ?d)) x
     + count_list (node_objs (dm_batch ?d t)) x + count_list (node_objs (dm_batch ?d u)) x \<le> 1"
    proof cases
      case 1
      then show ?thesis using q[of t0 u x] tu by (simp add: ret bat lg e)
    next
      case 2
      then show ?thesis using q[of t0 t x] tu by (simp add: ret bat lg e)
    next
      case 3
      have "count_list (node_objs (dm_batch ?d t)) x = count_list (node_objs (dm_batch d t)) x"
        "count_list (node_objs (dm_batch ?d u)) x = count_list (node_objs (dm_batch d u)) x" using 3 by (simp_all add: bat)
      then show ?thesis using q[of t0 t x] q[of t0 u x] q[of t u x] tu 3 unfolding ret lg by linarith
    qed
  qed
qed

lemma once_upd:
  assumes "once d" "dm_log d' = dm_log d" "dm_retired d' = dm_retired d" "dm_batch d' = dm_batch d"
  shows "once d'"
  using assms by (simp add: once_def log_objs_def)

lemma once_retire:
  assumes "once d" "x \<notin> set (log_objs d)" "\<forall>n \<in> pending d. rn_object n \<noteq> Some x"
  shows "once (retire_local stats now t0 (Some x) f cls d)"
proof -
  have nr: "x \<notin> set (node_objs (dm_retired d))" and nb: "x \<notin> set (node_objs (dm_batch d t))" for t
    using assms(3) unfolding set_node_objs pending_def by blast+
  have z: "count_list (log_objs d) x = 0" "count_list (node_objs (dm_retired d)) x = 0"
    "count_list (node_objs (dm_batch d t)) x = 0" for t
    using assms(2) nr nb by (auto intro!: count_list_zero)
  have b: "count_list (node_objs (dm_batch (retire_local stats now t0 (Some x) f cls d) t)) y =
      count_list (node_objs (dm_batch d t)) y + (if t = t0 \<and> y = x then 1 else 0)" for t y
    by (simp add: retire_local_def node_objs_append) (simp add: node_objs_def)
  have r: "log_objs (retire_local stats now t0 (Some x) f cls d) = log_objs d"
    "dm_retired (retire_local stats now t0 (Some x) f cls d) = dm_retired d"
    by (simp_all add: retire_local_def log_objs_def)
  show ?thesis unfolding once_def r b
  proof (intro allI impI)
    fix y and t u :: tid assume "t \<noteq> u"
    then show "count_list (log_objs d) y + count_list (node_objs (dm_retired d)) y
     + (count_list (node_objs (dm_batch d t)) y + (if t = t0 \<and> y = x then 1 else 0))
     + (count_list (node_objs (dm_batch d u)) y + (if u = t0 \<and> y = x then 1 else 0)) \<le> 1"
      using assms(1) by (cases "y = x") (auto simp: z once_def)
  qed
qed

lemma once_sync_begin: "once d \<Longrightarrow> sync_begin stats eager t d = (r, d') \<Longrightarrow> once d'"
  by (auto simp: sync_begin_def open_advance_def Let_def split: if_splits
      intro: once_upd[OF once_publish])

lemma once_begin_advance: "once d \<Longrightarrow> begin_advance stats t d = (r, d') \<Longrightarrow> once d'"
  by (auto simp: begin_advance_def open_advance_def Let_def split: if_splits intro: once_upd[OF once_publish])

lemma once_end_advance: "once d \<Longrightarrow> once (end_advance old p d)"
  by (auto simp: end_advance_def Let_def intro: once_upd[OF once_collect[OF once_collect]] once_upd)

lemma once_sync_end: "once d \<Longrightarrow> once (sync_end eager old d)"
  unfolding sync_end_def by (rule once_upd[OF once_collect]) simp_all

lemma once_preserved:
  assumes "rcu_step True s s'" "rcu_inv s" "once (rs_dom s)"
  shows "once (rs_dom s')"
  using assms(1)
proof (cases rule: rcu_step.cases)
  case (retire x t stats now f cls)
  have "x \<notin> set (log_objs (rs_dom s))" "\<forall>n \<in> pending (rs_dom s). rn_object n \<noteq> Some x"
    using assms(2) retire by (auto simp: rcu_inv_def log_ok_def nodes_ok_def log_objs_def)
  then show ?thesis using once_retire[OF assms(3)] retire by simp
next
  case (begin_sync t stats eager r d)
  then show ?thesis using once_sync_begin[OF assms(3) begin_sync(3)] by simp
next
  case (begin_until t stats r d)
  then show ?thesis using once_begin_advance[OF assms(3) begin_until(3)] by simp
next
  case (give_up t old)
  then show ?thesis using once_end_advance[OF assms(3)] by simp
next
  case (finish_until t old)
  then show ?thesis using once_end_advance[OF assms(3)] by simp
next
  case (finish_sync t eager old)
  then show ?thesis using once_sync_end[OF assms(3)] by simp
next
  case (try_begin t)
  then show ?thesis using once_publish[OF assms(3)] by simp
next
  case (publish_batch t)
  then show ?thesis using once_publish[OF assms(3)] by (simp add: publish_local_batch_def)
next
  case (try_finish t m)
  then show ?thesis using once_collect[OF once_collect[OF assms(3)]] assms(3) by (simp add: collect_below_def)
next
  case (thread_end t)
  then show ?thesis by (intro once_le[OF assms(3)]) (auto simp: log_objs_def)
qed (auto simp: dom_simps intro: once_upd[OF assms(3)])

lemma once_reachable: "rcu_reachable True s \<Longrightarrow> once (rs_dom s)"
proof (induction rule: rcu_reachable.induct)
  case start
  show ?case by (simp add: once_def initial_state_def initial_domain_def log_objs_def node_objs_def)
next
  case (step s s')
  then show ?case using once_preserved rcu_inv_reachable by blast
qed

lemma once_distinct: "once d \<Longrightarrow> distinct (log_objs d)"
proof -
  assume o: "once d"
  have "count_list (log_objs d) x \<le> 1" for x
    using o unfolding once_def by (meson add_leD1 n_not_Suc_n)
  moreover have "(\<And>x. count_list xs x \<le> 1) \<Longrightarrow> distinct xs" for xs :: "nat list"
  proof (induction xs)
    case (Cons a xs)
    have "count_list xs a = 0" using Cons.prems[of a] by simp
    moreover have "count_list xs x \<le> 1" for x using Cons.prems[of x] by (auto split: if_splits)
    ultimately show ?case using Cons.IH by (simp add: count_list_0_iff)
  qed simp
  ultimately show ?thesis by blast
qed

section \<open>Properties of the grace period\<close>

text \<open>A writer alone: object 7 is published, unlinked, retired by thread 1 and collected eagerly.\<close>

definition lone_writer :: "unit rcu_state" where
  "lone_writer =
     (let s = initial_state;
          s = s\<lparr>rs_used := {7}, rs_live := {7}\<rparr>;
          s = s\<lparr>rs_live := {}, rs_unlinked := {7}\<rparr>;
          s = on_dom (retire_local False 0 1 (Some 7) (Some ()) rc_eager) (s\<lparr>rs_unlinked := {}\<rparr>);
          s = goto 1 (pc_wait (sk_sync True) 1) (s\<lparr>rs_dom := snd (sync_begin False True 1 (rs_dom s))\<rparr>);
          s = goto 1 (pc_scan (sk_sync True) 1 []) s
      in goto 1 pc_idle (on_dom (sync_end True 1) s))"

lemma sync_begin_eager:
  "dm_sync d = 0 \<Longrightarrow> sync_begin False True t d = (sync_advance (dm_global d),
     (publish_local_batch_locked t d)\<lparr>dm_global := dm_global d + 1, dm_sync := dm_global d + 1\<rparr>)"
  by (simp add: sync_begin_def open_advance_def count_attempt_def publish_local_batch_locked_def Let_def)

lemmas run_simps = initial_state_def initial_domain_def retire_local_def sync_begin_eager
  publish_local_batch_locked_def sync_end_def collect_def dom_simps slot_passed_def

lemma lone_writer_run: "rcu_reachable fenced lone_writer" "dm_log (rs_dom lone_writer) = [((), 7)]"
proof -
  define s0 where "s0 = (initial_state :: unit rcu_state)"
  define s1 where "s1 = s0\<lparr>rs_used := {7}, rs_live := {7}\<rparr>"
  define s2 where "s2 = s1\<lparr>rs_live := {}, rs_unlinked := {7}\<rparr>"
  define s3 where "s3 = on_dom (retire_local False 0 1 (Some 7) (Some ()) rc_eager) (s2\<lparr>rs_unlinked := {}\<rparr>)"
  define s4 where "s4 = goto 1 (pc_wait (sk_sync True) 1) (s3\<lparr>rs_dom := snd (sync_begin False True 1 (rs_dom s3))\<rparr>)"
  define s5 where "s5 = goto 1 (pc_scan (sk_sync True) 1 []) s4"
  note d = s0_def s1_def s2_def s3_def s4_def s5_def
  have "rcu_reachable fenced s0" unfolding s0_def by (rule rcu_reachable.start)
  then have "rcu_reachable fenced s1"
    by (rule rcu_reachable.step) (use publish_object[of 7 s0 fenced] in \<open>simp_all add: d initial_state_def initial_domain_def\<close>)
  then have "rcu_reachable fenced s2"
    by (rule rcu_reachable.step) (use unlink[of 7 s1 fenced] in \<open>simp_all add: d initial_state_def initial_domain_def\<close>)
  then have "rcu_reachable fenced s3"
    by (rule rcu_reachable.step)
       (use retire[of 7 s2 1 fenced False 0 "()" rc_eager] in \<open>simp_all add: d run_simps\<close>)
  then have "rcu_reachable fenced s4"
    by (rule rcu_reachable.step)
       (use begin_sync[of s3 1 False True "sync_advance 1" "rs_dom s4" fenced] in \<open>simp_all add: d run_simps\<close>)
  then have "rcu_reachable fenced s5"
    by (rule rcu_reachable.step)
       (use scan_start[of s4 1 "sk_sync True" 1 fenced] in \<open>simp_all add: d run_simps\<close>)
  then have "rcu_reachable fenced (goto 1 pc_idle (on_dom (sync_end True 1) s5))"
    by (rule rcu_reachable.step)
       (use finish_sync[of s5 1 True 1 fenced] in \<open>simp_all add: d run_simps\<close>)
  then show "rcu_reachable fenced lone_writer" by (simp add: lone_writer_def d Let_def)
  show "dm_log (rs_dom lone_writer) = [((), 7)]" by (simp add: lone_writer_def run_simps Let_def)
qed

text \<open>C1.  Grace periods are safe. Threads enter and leave read sections, also inside one another, take
  references, publish, unlink and retire objects, run batched, eager and bounded synchronizations and
  \<open>try_collect\<close>, inside and outside of sections, and end. In every interleaving in which the store of a slot by
  \<open>enter\<close> takes effect before the thread's next load, and as long as the 64-bit epoch has not wrapped, a
  reclaim callback has only run for an object that no published pointer leads to and that no thread refers to
  through a reference taken since its last \<open>enter\<close> with no \<open>exit\<close> since. For a thread that never opened a section
  inside another these are all its references. The two conditions matter: \<open>unfenced_enter_unsafe\<close> and
  \<open>nested_reader_unprotected\<close>.\<close>

theorem grace_period_safe:
  assumes "rcu_reachable True s" "(f, x) \<in> set (dm_log (rs_dom s))"
  shows "x \<notin> rs_live s \<and> (\<forall>t. x \<notin> rs_refs s t) \<and> (\<forall>t. t \<notin> rs_nested s \<longrightarrow> x \<notin> rs_refs s t \<union> rs_stale s t)"
  using rcu_inv_reachable[OF assms(1)] nest_ok_reachable[OF assms(1)] assms(2)
  by (auto simp: rcu_inv_def log_ok_def nest_ok_def)

theorem grace_period_safe_witness:
  "rcu_reachable True lone_writer \<and> dm_log (rs_dom lone_writer) = [((), 7)] \<and> (\<forall>t. 7 \<notin> rs_refs lone_writer t)"
  using grace_period_safe[OF lone_writer_run(1), of "()" 7] lone_writer_run by simp

text \<open>C14.  No object is reclaimed twice: the objects whose callbacks have run are pairwise distinct, also
  when batches are published, scans race with \<open>try_collect\<close> and both reclaim classes are collected.\<close>

theorem reclaimed_at_most_once:
  assumes "rcu_reachable True s" shows "distinct (map snd (dm_log (rs_dom s)))"
  using once_distinct[OF once_reachable[OF assms]] by (simp add: log_objs_def)

theorem reclaimed_at_most_once_witness: "distinct (map snd (dm_log (rs_dom lone_writer)))"
  using reclaimed_at_most_once[OF lone_writer_run(1)] .

text \<open>A reader with its slot still in the store buffer, holding object 7.\<close>

definition buffered_reader :: "unit rcu_state" where
  "buffered_reader =
     \<lparr>rs_dom = initial_domain\<lparr>dm_threads := [0]\<rparr>, rs_used = {7}, rs_live = {7}, rs_unlinked = {},
      rs_refs = (\<lambda>t. if t = 0 then {7} else {}), rs_pc = (\<lambda>t. if t = 0 then pc_reading else pc_idle),
      rs_buf = (\<lambda>t. if t = 0 then Some 1 else None), rs_stale = (\<lambda>_. {}), rs_open = {0},
      rs_depth = (\<lambda>t. if t = 0 then 1 else 0), rs_nested = {}\<rparr>"

lemma buffered_reader_run: "rcu_reachable False buffered_reader"
proof -
  define s0 where "s0 = (initial_state :: unit rcu_state)"
  define s1 where "s1 = s0\<lparr>rs_used := {7}, rs_live := {7}\<rparr>"
  define s2 where "s2 = goto 0 (pc_loaded 1) (on_dom (get_thread 0) s1)"
  define s3 where "s3 = goto 0 pc_reading ((entered 0 s2)\<lparr>rs_buf := (rs_buf s2)(0 := Some 1)\<rparr>)"
  define s4 where "s4 = s3\<lparr>rs_refs := (rs_refs s3)(0 := {7})\<rparr>"
  note d = s0_def s1_def s2_def s3_def s4_def
  have "rcu_reachable False s0" unfolding s0_def by (rule rcu_reachable.start)
  then have "rcu_reachable False s1"
    by (rule rcu_reachable.step) (use publish_object[of 7 s0 False] in \<open>simp_all add: d run_simps\<close>)
  then have "rcu_reachable False s2"
    by (rule rcu_reachable.step) (use enter_load[of s1 0 False] in \<open>simp_all add: d run_simps\<close>)
  then have "rcu_reachable False s3"
    by (rule rcu_reachable.step) (use enter_buffer[of s2 0 1 False] in \<open>simp_all add: d run_simps\<close>)
  then have "rcu_reachable False s4"
    by (rule rcu_reachable.step) (use acquire[of s3 0 7 False] in \<open>simp_all add: d run_simps entered_def\<close>)
  moreover have "s4 = buffered_reader" by (simp add: d run_simps entered_def buffered_reader_def fun_eq_iff)
  ultimately show ?thesis by simp
qed

text \<open>C38.  The store of the reader's slot in \<open>enter\<close> is a release store with no fence after it. If it
  is still in the store buffer when the reader loads the shared pointer, a writer sees the slot
  empty, proves a grace period and runs the callback of the very object the reader holds.\<close>

theorem unfenced_enter_unsafe:
  "\<exists>s :: unit rcu_state. rcu_reachable False s \<and> 7 \<in> rs_refs s 0 \<and> rs_pc s 0 = pc_reading
     \<and> ((), 7) \<in> set (dm_log (rs_dom s))"
proof -
  define s5 where "s5 = buffered_reader\<lparr>rs_live := {}, rs_unlinked := {7}\<rparr>"
  define n where "n = \<lparr>rn_object = Some 7, rn_epoch = 1, rn_reclaim = Some (), rn_cls = rc_eager, rn_retired_at_ns = 0\<rparr>"
  define s6 where "s6 = s5\<lparr>rs_unlinked := {}, rs_dom := (rs_dom s5)\<lparr>dm_batch := (\<lambda>_. [])(1 := [n])\<rparr>\<rparr>"
  define d7 where "d7 = (rs_dom s6)\<lparr>dm_batch := (\<lambda>_. []), dm_retired := [n], dm_global := 2, dm_sync := 2\<rparr>"
  define s7 where "s7 = goto 1 (pc_wait (sk_sync True) 1) (s6\<lparr>rs_dom := d7\<rparr>)"
  define s8 where "s8 = goto 1 (pc_scan (sk_sync True) 1 [0]) s7"
  define s9 where "s9 = goto 1 (pc_scan (sk_sync True) 1 []) s8"
  define s10 where "s10 = goto 1 pc_idle (on_dom (sync_end True 1) s9)"
  have s5: "dm_global (rs_dom s5) = 1" "dm_batch (rs_dom s5) = (\<lambda>_. [])" "dm_sync (rs_dom s5) = 0"
    "rs_pc s5 1 = pc_idle" "rs_unlinked s5 = {7}" "dm_retired (rs_dom s5) = []" "dm_threads (rs_dom s5) = [0]"
    "dm_slot (rs_dom s5) 0 = 0" "dm_completed_eager (rs_dom s5) = 0" "rs_pc s5 0 = pc_reading" "rs_refs s5 0 = {7}"
    "rs_open s5 = {0}"
    by (simp_all add: s5_def buffered_reader_def initial_domain_def)
  have "rcu_reachable False s5"
    by (rule rcu_reachable.step[OF buffered_reader_run])
       (use unlink[of 7 buffered_reader False] s5(1) in \<open>simp_all add: s5_def buffered_reader_def\<close>)
  then have "rcu_reachable False s6"
    by (rule rcu_reachable.step)
       (use retire[of 7 s5 1 False False 0 "()" rc_eager] s5 in \<open>simp_all add: s6_def n_def retire_local_def\<close>)
  then have "rcu_reachable False s7"
  proof (rule rcu_reachable.step)
    have "sync_begin False True 1 (rs_dom s6) = (sync_advance 1, d7)"
      using s5 by (simp add: sync_begin_eager publish_local_batch_locked_def s6_def d7_def fun_eq_iff)
    from begin_sync[OF _ this, of False] s5 show "rcu_step False s6 s7" by (simp add: s6_def s7_def)
  qed (simp add: s7_def d7_def)
  then have "rcu_reachable False s8"
    by (rule rcu_reachable.step)
       (use scan_start[of s7 1 "sk_sync True" 1 False] s5 in \<open>simp_all add: s6_def s7_def s8_def d7_def\<close>)
  then have "rcu_reachable False s9"
    by (rule rcu_reachable.step)
       (use scan_pass[of s8 1 "sk_sync True" 1 0 "[]" False] s5 in
         \<open>simp_all add: s6_def s7_def s8_def s9_def d7_def slot_passed_def\<close>)
  moreover have closed: "1 \<notin> rs_open s9" using s5 by (simp add: s6_def s7_def s8_def s9_def)
  ultimately have "rcu_reachable False s10"
    by (elim rcu_reachable.step)
       (use finish_sync[of s9 1 True 1 False] closed in
         \<open>simp_all add: s7_def s8_def s9_def s10_def d7_def sync_end_def\<close>)
  moreover have "7 \<in> rs_refs s10 0 \<and> rs_pc s10 0 = pc_reading \<and> ((), 7) \<in> set (dm_log (rs_dom s10))"
    using s5 by (simp add: s6_def s7_def s8_def s9_def s10_def d7_def n_def sync_end_def collect_def)
  ultimately show ?thesis by blast
qed

text \<open>Read sections do not nest. A call made from inside a read section enters and leaves once
  more; the inner \<open>exit\<close> clears the thread's only slot, so the outer section, still running, no
  longer holds a grace period back and the object it uses is reclaimed.\<close>

lemma nested_section_unprotected:
  "\<exists>d d'. d = rcu_exit 0 (rcu_enter 0 (rcu_enter 0 (initial_domain :: unit Domain)))
     \<and> synchronize_impl False True 1 (retire_eager False 0 True 1 (Some 7) (Some ()) d) = Some d'
     \<and> ((), 7) \<in> set (dm_log d')
     \<and> synchronize_impl False True 1
         (retire_eager False 0 True 1 (Some 7) (Some ()) (rcu_enter 0 (initial_domain :: unit Domain))) = None"
  by (simp add: rcu_enter_def retire_eager_def retire_impl_def synchronize_impl_def readers_passed_def Let_def
      SKL_ABIX_RCU_BATCH_PUBLISH_def run_simps)

text \<open>The same as an interleaving: thread 0 takes object 7, enters and leaves an inner section, and is still inside
  its outer one with the object in hand when thread 1 retires and reclaims it.\<close>

definition inside_outer :: "unit rcu_state" where
  "inside_outer = initial_state\<lparr>rs_dom := initial_domain\<lparr>dm_threads := [0], dm_slot := (\<lambda>_. 0)(0 := 1)\<rparr>,
     rs_used := {7}, rs_live := {7}, rs_refs := (\<lambda>_. {})(0 := {7}), rs_pc := (\<lambda>_. pc_idle)(0 := pc_reading),
     rs_open := {0}, rs_depth := (\<lambda>_. 0)(0 := 1)\<rparr>"

definition after_inner :: "unit rcu_state" where
  "after_inner = initial_state\<lparr>rs_dom := initial_domain\<lparr>dm_threads := [0]\<rparr>, rs_used := {7}, rs_live := {7},
     rs_stale := (\<lambda>_. {})(0 := {7}), rs_depth := (\<lambda>_. 0)(0 := 1), rs_nested := {0}\<rparr>"

lemmas outer_simps = inside_outer_def after_inner_def initial_state_def initial_domain_def dom_simps entered_def exited_def

lemma inside_outer_run: "rcu_reachable True inside_outer"
proof -
  define s1 where "s1 = (initial_state :: unit rcu_state)\<lparr>rs_used := {7}, rs_live := {7}\<rparr>"
  define s2 where "s2 = s1\<lparr>rs_dom := initial_domain\<lparr>dm_threads := [0]\<rparr>, rs_pc := (\<lambda>_. pc_idle)(0 := pc_loaded 1)\<rparr>"
  define s3 where "s3 = inside_outer\<lparr>rs_refs := \<lambda>_. {}\<rparr>"
  have "rcu_reachable True s1"
    by (rule rcu_reachable.step[OF rcu_reachable.start])
       (use publish_object[of 7 initial_state True] in \<open>simp_all add: s1_def outer_simps\<close>)
  then have "rcu_reachable True s2"
    by (rule rcu_reachable.step) (use enter_load[of s1 0 True] in \<open>simp_all add: s1_def s2_def outer_simps\<close>)
  then have "rcu_reachable True s3"
    by (rule rcu_reachable.step)
       (use enter_store[of s2 0 1 True] in \<open>simp_all add: s1_def s2_def s3_def outer_simps fun_upd_idem\<close>)
  then show ?thesis
    by (rule rcu_reachable.step) (use acquire[of s3 0 7 True] in \<open>simp_all add: s3_def outer_simps\<close>)
qed

lemma after_inner_run: "rcu_reachable True after_inner"
proof -
  define s1 where "s1 = goto 0 (pc_loaded 1) inside_outer"
  define s2 where "s2 = after_inner\<lparr>rs_dom := initial_domain\<lparr>dm_threads := [0], dm_slot := (\<lambda>_. 0)(0 := 1)\<rparr>,
    rs_pc := (\<lambda>_. pc_idle)(0 := pc_reading), rs_open := {0}, rs_depth := (\<lambda>_. 0)(0 := 2)\<rparr>"
  have "rcu_reachable True s1"
    by (rule rcu_reachable.step[OF inside_outer_run])
       (use enter_load[of inside_outer 0 True] in \<open>simp_all add: s1_def outer_simps\<close>)
  then have "rcu_reachable True s2"
    by (rule rcu_reachable.step)
       (use enter_store[of s1 0 1 True] in \<open>simp_all add: s1_def s2_def outer_simps numeral_2_eq_2 fun_upd_idem\<close>)
  then show ?thesis
    by (rule rcu_reachable.step)
       (use leave[of s2 0 True] in \<open>simp_all add: s2_def outer_simps fun_upd_idem\<close>)
qed

lemma nested_reader_unprotected:
  "\<exists>s :: unit rcu_state. rcu_reachable True s \<and> 7 \<in> rs_stale s 0 \<and> rs_depth s 0 = 1 \<and> ((), 7) \<in> set (dm_log (rs_dom s))"
proof -
  define n where "n = \<lparr>rn_object = Some 7, rn_epoch = 1, rn_reclaim = Some (), rn_cls = rc_eager, rn_retired_at_ns = 0\<rparr>"
  define s1 where "s1 = after_inner\<lparr>rs_live := {}, rs_unlinked := {7}\<rparr>"
  define s2 where "s2 = s1\<lparr>rs_unlinked := {}, rs_dom := (rs_dom s1)\<lparr>dm_batch := (\<lambda>_. [])(1 := [n])\<rparr>\<rparr>"
  define d3 where "d3 = (rs_dom s2)\<lparr>dm_batch := (\<lambda>_. []), dm_retired := [n], dm_global := 2, dm_sync := 2\<rparr>"
  define s3 where "s3 = goto 1 (pc_wait (sk_sync True) 1) (s2\<lparr>rs_dom := d3\<rparr>)"
  define s4 where "s4 = goto 1 (pc_scan (sk_sync True) 1 [0]) s3"
  define s5 where "s5 = goto 1 (pc_scan (sk_sync True) 1 []) s4"
  define s6 where "s6 = goto 1 pc_idle (on_dom (sync_end True 1) s5)"
  have s1: "dm_global (rs_dom s1) = 1" "dm_batch (rs_dom s1) = (\<lambda>_. [])" "dm_sync (rs_dom s1) = 0"
    "rs_pc s1 1 = pc_idle" "rs_unlinked s1 = {7}" "dm_retired (rs_dom s1) = []" "dm_threads (rs_dom s1) = [0]"
    "dm_slot (rs_dom s1) 0 = 0" "dm_completed_eager (rs_dom s1) = 0" "rs_open s1 = {}" "rs_stale s1 0 = {7}" "rs_depth s1 0 = 1"
    by (simp_all add: s1_def outer_simps)
  have "rcu_reachable True s1"
    by (rule rcu_reachable.step[OF after_inner_run])
       (use unlink[of 7 after_inner True] s1(1) in \<open>simp_all add: s1_def after_inner_def initial_state_def\<close>)
  then have "rcu_reachable True s2"
    by (rule rcu_reachable.step)
       (use retire[of 7 s1 1 True False 0 "()" rc_eager] s1 in \<open>simp_all add: s2_def n_def retire_local_def\<close>)
  then have "rcu_reachable True s3"
  proof (rule rcu_reachable.step)
    have "sync_begin False True 1 (rs_dom s2) = (sync_advance 1, d3)"
      using s1 by (simp add: sync_begin_eager publish_local_batch_locked_def s2_def d3_def fun_eq_iff)
    from begin_sync[OF _ this, of True] s1 show "rcu_step True s2 s3" by (simp add: s2_def s3_def)
  qed (simp add: s3_def d3_def)
  then have "rcu_reachable True s4"
    by (rule rcu_reachable.step)
       (use scan_start[of s3 1 "sk_sync True" 1 True] s1 in \<open>simp_all add: s2_def s3_def s4_def d3_def\<close>)
  then have "rcu_reachable True s5"
    by (rule rcu_reachable.step)
       (use scan_pass[of s4 1 "sk_sync True" 1 0 "[]" True] s1 in
         \<open>simp_all add: s2_def s3_def s4_def s5_def d3_def slot_passed_def\<close>)
  then have "rcu_reachable True s6"
    by (rule rcu_reachable.step)
       (use finish_sync[of s5 1 True 1 True] s1 in
         \<open>simp_all add: s2_def s3_def s4_def s5_def s6_def d3_def sync_end_def\<close>)
  moreover have "7 \<in> rs_stale s6 0 \<and> rs_depth s6 0 = 1 \<and> ((), 7) \<in> set (dm_log (rs_dom s6))"
    using s1 by (simp add: s2_def s3_def s4_def s5_def s6_def d3_def n_def sync_end_def collect_def)
  ultimately show ?thesis by blast
qed

end
