(* ===== verification/Interface_Contract.thy ===== *)
theory Interface_Contract
  imports Util_Hash Model_ABI Error_Model "HOL-Library.Multiset"
begin

text \<open>
  Interface contracts, \<open>Interface/Contract.h\<close>: the method and implementation records, the identity
  of an interface and of a method signature, and the packed version numbers of
  \<open>Interface/Declaration.h\<close>.

  Shown: the fixed 20-character digit buffer is never overrun, an interface identity is the digest
  of its canonical text and that text determines name, version and signatures for the names of C++, the
  in-place insertion sort of the keyed overload makes the identity independent of the declaration order when a
  slot determines its signature, and the text of a method signature, which has no separators, does not determine the signature.
\<close>

section \<open>Data\<close>

type_synonym InterfaceId = Hash128
type_synonym InterfaceMethodHash = Hash128

record InterfaceMethod =
  im_signature :: InterfaceMethodHash
  im_entry :: uintptr_t
  im_slot :: u32
  im_flags :: u32

record InterfaceImplementation =
  ii_interface_id :: InterfaceId
  ii_concrete_type :: TypeId
  ii_methods :: "InterfaceMethod arr"
  ii_method_count :: u32
  ii_version :: u32
  ii_flags :: u32

record InterfaceMethodKey =
  mk_signature :: InterfaceMethodHash
  mk_slot :: u32

definition interface_identity_domain :: u64 where
  "interface_identity_domain = 0x494E544552464143"

definition method_signature_domain :: u64 where
  "method_signature_domain = 0x5349474E41545552"

section \<open>Decimal fields\<close>

lemma unat_div10_less: "(v :: u64) \<noteq> 0 \<Longrightarrow> unat (v div 10) < unat v"
proof -
  assume "v \<noteq> 0"
  then have "0 < unat v" by (simp add: unat_gt_0)
  then show ?thesis by (simp add: unat_div)
qed

text \<open>The loop writes into a fixed array; \<open>None\<close> is a write behind its end.\<close>

function digits_loop :: "u8 list \<Rightarrow> nat \<Rightarrow> u64 \<Rightarrow> (u8 list \<times> nat) option" where
  "digits_loop digits cnt v =
     (if v = 0 then Some (digits, cnt)
      else if cnt < length digits
      then digits_loop (digits[cnt := 48 + ucast (v mod 10)]) (Suc cnt) (v div 10)
      else None)"
  by pat_completeness auto

termination by (relation "measure (\<lambda>(d, c, v). unat v)") (simp_all add: unat_div10_less)

declare digits_loop.simps [simp del]

definition interface_digits :: "u64 \<Rightarrow> (u8 list \<times> nat) option" where
  "interface_digits v =
     (let digits = replicate 20 0
      in if v = 0 then digits_loop (digits[0 := 48]) 1 v else digits_loop digits 0 v)"

text \<open>\<open>for (uint32_t i = cnt; i-- > 0;)\<close>\<close>

fun emit_digits :: "CanonicalState \<Rightarrow> u8 list \<Rightarrow> nat \<Rightarrow> CanonicalState" where
  "emit_digits state digits 0 = state"
| "emit_digits state digits (Suc i) = emit_digits (canonical_hash_byte state (digits ! i)) digits i"

definition interface_hash_u64 :: "CanonicalState \<Rightarrow> u64 \<Rightarrow> CanonicalState option" where
  "interface_hash_u64 state v =
     (case interface_digits v of
        None \<Rightarrow> None
      | Some (digits, cnt) \<Rightarrow> Some (emit_digits state digits cnt))"

section \<open>Identities\<close>

text \<open>A null name contributes no bytes.\<close>

definition name_bytes :: "string ptr \<Rightarrow> u8 list" where
  "name_bytes name = (case name of None \<Rightarrow> [] | Some s \<Rightarrow> bytes_of (c_str s))"

fun hash_name :: "CanonicalState \<Rightarrow> u8 list \<Rightarrow> CanonicalState" where
  "hash_name state [] = state"
| "hash_name state (b # bs) = hash_name (canonical_hash_byte state b) bs"

fun hash_signatures :: "CanonicalState \<Rightarrow> InterfaceMethodHash list \<Rightarrow> CanonicalState option" where
  "hash_signatures state [] = Some state"
| "hash_signatures state (s # ss) =
     Option.bind (interface_hash_u64 (canonical_hash_byte state (of_char CHR '':'')) (lo s))
       (\<lambda>st. Option.bind (interface_hash_u64 (canonical_hash_byte st (of_char CHR '':'')) (hi s))
         (\<lambda>st. hash_signatures st ss))"

definition interface_id :: "string ptr \<Rightarrow> u32 \<Rightarrow> InterfaceMethodHash list \<Rightarrow> InterfaceId option" where
  "interface_id name version signatures =
     (let state = canonical_hash_begin interface_identity_domain;
          state = canonical_hash_bytes state (bytes_of ''ABIX-INTERFACE:'') 15;
          state = hash_name state (name_bytes name);
          state = canonical_hash_byte state (of_char CHR '':'')
      in Option.bind (interface_hash_u64 state (ucast version))
           (\<lambda>st. Option.bind (hash_signatures st signatures)
             (\<lambda>st. Some \<lparr>lo = st_lo st, hi = st_hi st\<rparr>)))"

text \<open>The keyed overload sorts a copy of the list in place before hashing.\<close>

fun shift_loop :: "InterfaceMethodKey list \<Rightarrow> InterfaceMethodKey \<Rightarrow> nat \<Rightarrow> InterfaceMethodKey list \<times> nat" where
  "shift_loop sorted_ks k 0 = (sorted_ks, 0)"
| "shift_loop sorted_ks k (Suc j) =
     (if mk_slot (sorted_ks ! j) > mk_slot k
      then shift_loop (sorted_ks[Suc j := sorted_ks ! j]) k j
      else (sorted_ks, Suc j))"

definition insert_step :: "InterfaceMethodKey list \<Rightarrow> nat \<Rightarrow> InterfaceMethodKey list" where
  "insert_step ks i = (let k = ks ! i; (ks', j) = shift_loop ks k i in ks'[j := k])"

definition sort_by_slot :: "InterfaceMethodKey list \<Rightarrow> InterfaceMethodKey list" where
  "sort_by_slot ks = foldl insert_step ks [1..<length ks]"

definition interface_id_keyed :: "string ptr \<Rightarrow> u32 \<Rightarrow> InterfaceMethodKey list \<Rightarrow> InterfaceId option" where
  "interface_id_keyed name version methods =
     interface_id name version (map mk_signature (sort_by_slot methods))"

fun hash_types :: "CanonicalState \<Rightarrow> TypeId list \<Rightarrow> CanonicalState option" where
  "hash_types state [] = Some state"
| "hash_types state (t # ts) =
     Option.bind (interface_hash_u64 state (lo t))
       (\<lambda>st. Option.bind (interface_hash_u64 st (hi t)) (\<lambda>st. hash_types st ts))"

definition method_signature :: "string ptr \<Rightarrow> TypeId \<Rightarrow> TypeId list \<Rightarrow> InterfaceMethodHash option" where
  "method_signature name return_type parameters =
     (let state = hash_name (canonical_hash_begin method_signature_domain) (name_bytes name)
      in Option.bind (interface_hash_u64 state (lo return_type))
           (\<lambda>st. Option.bind (interface_hash_u64 st (hi return_type))
             (\<lambda>st. Option.bind (hash_types st parameters)
               (\<lambda>st. Some \<lparr>lo = st_lo st, hi = st_hi st\<rparr>))))"

section \<open>Packed versions\<close>

definition version_number :: "u32 \<Rightarrow> u32 \<Rightarrow> u32 \<Rightarrow> u32" where
  "version_number major minor patch =
     (major mod 100) * 10000000 + (minor mod 100) * 100000 + patch mod 100000"

definition version_extract :: "u32 \<Rightarrow> u32 \<times> u32 \<times> u32" where
  "version_extract v = (v div 10000000, (v div 100000) mod 100, v mod 100000)"

section \<open>Decimal text\<close>

text \<open>Reference: the digits of a number, least significant first, and its decimal text.\<close>

fun rdigits :: "nat \<Rightarrow> u8 list" where
  "rdigits v = (if v = 0 then [] else (48 + of_nat (v mod 10)) # rdigits (v div 10))"

declare rdigits.simps [simp del]

definition decimal :: "nat \<Rightarrow> u8 list" where
  "decimal v = (if v = 0 then [48] else rev (rdigits v))"

lemma rdigits_0 [simp]: "rdigits 0 = []"
  by (simp add: rdigits.simps)

lemma length_rdigits: "v < 10 ^ n \<Longrightarrow> length (rdigits v) \<le> n"
proof (induction n arbitrary: v)
  case (Suc n)
  then have "length (rdigits (v div 10)) \<le> n" by (simp add: less_mult_imp_div_less)
  then show ?case by (subst rdigits.simps) simp
qed simp

lemma digit_word: "(48 + ucast (v mod 10) :: u8) = 48 + of_nat (unat v mod 10)" for v :: u64
proof -
  have "unat (v mod 10) = unat v mod 10" by (simp add: unat_mod)
  moreover have "(ucast (v mod 10) :: u8) = of_nat (unat (v mod 10))" by simp
  ultimately show ?thesis by (simp only:)
qed

lemma digits_loop_rdigits:
  assumes "cnt + length (rdigits (unat v)) \<le> length digits"
  shows "\<exists>d. digits_loop digits cnt v = Some (d, cnt + length (rdigits (unat v)))
             \<and> length d = length digits
             \<and> take (cnt + length (rdigits (unat v))) d = take cnt digits @ rdigits (unat v)"
  using assms
proof (induction digits cnt v rule: digits_loop.induct)
  case (1 digits cnt v)
  show ?case
  proof (cases "v = 0")
    case True
    then show ?thesis by (simp add: digits_loop.simps)
  next
    case False
    let ?x = "48 + ucast (v mod 10) :: u8"
    have dv: "unat (v div 10) = unat v div 10" by (simp add: unat_div)
    have rd: "rdigits (unat v) = ?x # rdigits (unat (v div 10))"
      using False by (subst rdigits.simps) (simp add: digit_word dv unat_eq_0 del: ucast_id)
    have lt: "cnt < length digits" using 1(2) rd by simp
    have "\<exists>d. digits_loop (digits[cnt := ?x]) (Suc cnt) (v div 10) =
                Some (d, Suc cnt + length (rdigits (unat (v div 10))))
             \<and> length d = length (digits[cnt := ?x])
             \<and> take (Suc cnt + length (rdigits (unat (v div 10)))) d =
                 take (Suc cnt) (digits[cnt := ?x]) @ rdigits (unat (v div 10))"
      using 1(1)[OF False lt] 1(2) rd by simp
    moreover have "take (Suc cnt) (digits[cnt := ?x]) = take cnt digits @ [?x]"
      using lt by (simp add: take_Suc_conv_app_nth)
    ultimately show ?thesis using False lt rd by (subst digits_loop.simps) auto
  qed
qed

lemma emit_digits_absorb:
  "n \<le> length digits \<Longrightarrow> emit_digits state digits n = absorb state (rev (take n digits))"
  by (induction n arbitrary: state) (simp_all add: take_Suc_conv_app_nth)

lemma interface_hash_u64_absorb [simp]:
  "interface_hash_u64 state v = Some (absorb state (decimal (unat v)))"
proof (cases "v = 0")
  case True
  then show ?thesis
    by (simp add: interface_hash_u64_def interface_digits_def digits_loop.simps decimal_def)
next
  case False
  have "unat v < 18446744073709551616" by simp
  also have "\<dots> < 10 ^ 20" by simp
  finally have "unat v < 10 ^ 20" .
  then have len: "length (rdigits (unat v)) \<le> 20" by (rule length_rdigits)
  then obtain d where d: "digits_loop (replicate 20 0) 0 v = Some (d, length (rdigits (unat v)))"
    "length d = 20" "take (length (rdigits (unat v))) d = rdigits (unat v)"
    using digits_loop_rdigits[of 0 v "replicate 20 0"] by auto
  have "interface_hash_u64 state v = Some (emit_digits state d (length (rdigits (unat v))))"
    using d(1) False by (simp add: interface_hash_u64_def interface_digits_def)
  also have "\<dots> = Some (absorb state (rev (rdigits (unat v))))"
    using d len by (simp add: emit_digits_absorb)
  finally show ?thesis using False by (simp add: decimal_def unat_eq_0)
qed

lemma digit_eq: "(48 + of_nat (a mod 10) :: u8) = 48 + of_nat (b mod 10) \<Longrightarrow> a mod 10 = b mod 10"
proof -
  assume "(48 + of_nat (a mod 10) :: u8) = 48 + of_nat (b mod 10)"
  then have "unat (of_nat (a mod 10) :: u8) = unat (of_nat (b mod 10) :: u8)" by simp
  moreover have "unat (of_nat (n mod 10) :: u8) = n mod 10" for n :: nat
    by (simp add: unat_of_nat)
  ultimately show ?thesis by simp
qed

lemma rdigits_inj: "rdigits a = rdigits b \<Longrightarrow> a = b"
proof (induction a arbitrary: b rule: less_induct)
  case (less a)
  show ?case
  proof (cases "a = 0 \<or> b = 0")
    case True
    then show ?thesis using less.prems by (auto simp: rdigits.simps[of a] rdigits.simps[of b] split: if_splits)
  next
    case False
    then have "48 + of_nat (a mod 10) = (48 + of_nat (b mod 10) :: u8)"
      and "rdigits (a div 10) = rdigits (b div 10)"
      using less.prems by (simp_all add: rdigits.simps[of a] rdigits.simps[of b])
    then have "a mod 10 = b mod 10" "a div 10 = b div 10"
      using less.IH[of "a div 10" "b div 10"] False digit_eq by simp_all
    then show ?thesis by (metis div_mult_mod_eq)
  qed
qed

lemma rdigits_no_colon: "58 \<notin> set (rdigits v)"
proof (induction v rule: rdigits.induct)
  case (1 v)
  have "(58 :: u8) \<noteq> 48 + of_nat (v mod 10)"
  proof
    assume "(58 :: u8) = 48 + of_nat (v mod 10)"
    then have "(58 :: u8) - 48 = of_nat (v mod 10)" by (simp only: add_diff_cancel_left')
    then have "(10 :: u8) = of_nat (v mod 10)" by simp
    then have "unat (10 :: u8) = unat (of_nat (v mod 10) :: u8)" by simp
    then show False by (simp add: unat_of_nat)
  qed
  then show ?case using 1 by (subst rdigits.simps) auto
qed

lemma rdigits_not_zero: "rdigits v \<noteq> [48]"
proof
  assume *: "rdigits v = [48]"
  then have "v \<noteq> 0" and "48 + of_nat (v mod 10) = (48 + of_nat (0 mod 10) :: u8)" "rdigits (v div 10) = []"
    by (auto simp: rdigits.simps[of v] split: if_splits)
  then have "v mod 10 = 0" "v div 10 = 0"
    using digit_eq[of v 0] rdigits.simps[of "v div 10"] by (auto split: if_splits)
  then show False using \<open>v \<noteq> 0\<close> by presburger
qed

lemma decimal_inj: "decimal a = decimal b \<longleftrightarrow> a = b"
  using rdigits_inj rdigits_not_zero[of a] rdigits_not_zero[of b]
  by (auto simp: decimal_def rev_swap split: if_splits)

lemma decimal_no_colon [simp]: "58 \<notin> set (decimal v)"
  by (simp add: decimal_def rdigits_no_colon)

section \<open>Canonical texts\<close>

definition colon_fields :: "u8 list list \<Rightarrow> u8 list" where
  "colon_fields fs = concat (map (Cons 58) fs)"

definition signature_fields :: "InterfaceMethodHash list \<Rightarrow> u8 list list" where
  "signature_fields ss = concat (map (\<lambda>s. [decimal (unat (lo s)), decimal (unat (hi s))]) ss)"

definition interface_text :: "string ptr \<Rightarrow> u32 \<Rightarrow> InterfaceMethodHash list \<Rightarrow> u8 list" where
  "interface_text name version signatures =
     bytes_of ''ABIX-INTERFACE:'' @ name_bytes name
       @ colon_fields (decimal (unat version) # signature_fields signatures)"

definition type_text :: "TypeId list \<Rightarrow> u8 list" where
  "type_text ts = concat (map (\<lambda>t. decimal (unat (lo t)) @ decimal (unat (hi t))) ts)"

lemma hash_name_absorb: "hash_name state bs = absorb state bs"
  by (induction bs arbitrary: state) simp_all

lemma colon_byte: "(of_char CHR '':'' :: u8) = 58"
  by simp

lemma no_colon_byte: "CHR '':'' \<notin> set s \<Longrightarrow> 58 \<notin> set (bytes_of s)"
proof
  assume "CHR '':'' \<notin> set s" "58 \<in> set (bytes_of s)"
  then obtain c where "c \<in> set s" "(of_char c :: u8) = of_char CHR '':''"
    unfolding bytes_of_def colon_byte by auto
  then have "c = CHR '':''" by (simp only: of_char_u8_inj)
  then show False using \<open>c \<in> set s\<close> \<open>CHR '':'' \<notin> set s\<close> by simp
qed

lemma hash_signatures_absorb:
  "hash_signatures state ss = Some (absorb state (colon_fields (signature_fields ss)))"
  by (induction ss arbitrary: state)
    (simp_all add: colon_fields_def signature_fields_def absorb_append)

lemma hash_types_absorb: "hash_types state ts = Some (absorb state (type_text ts))"
  by (induction ts arbitrary: state) (simp_all add: type_text_def absorb_append)

lemma interface_id_digest:
  "interface_id name version ss =
     Some (digest (absorb (canonical_hash_begin interface_identity_domain)
                    (interface_text name version ss)))"
  by (simp add: interface_id_def hash_name_absorb hash_signatures_absorb interface_text_def digest_def
      Let_def absorb_append colon_fields_def canonical_hash_bytes_absorb bytes_of_def unat_ucast_up)

lemma method_signature_digest:
  "method_signature name ret ps =
     Some (digest (absorb (canonical_hash_begin method_signature_domain)
                    (name_bytes name @ type_text (ret # ps))))"
  by (simp add: method_signature_def hash_name_absorb hash_types_absorb type_text_def digest_def
      Let_def absorb_append)

lemma first_colon_unique:
  assumes "xs @ c # r = ys @ c # r'" "c \<notin> set xs" "c \<notin> set ys"
  shows "xs = ys \<and> r = r'"
  using assms
proof (induction xs arbitrary: ys)
  case Nil
  then show ?case by (cases ys) auto
next
  case (Cons x xs)
  then show ?case by (cases ys) auto
qed

lemma colon_fields_inj:
  assumes "xs @ colon_fields fs = ys @ colon_fields gs" "58 \<notin> set xs" "58 \<notin> set ys"
    and "\<And>f. f \<in> set fs \<union> set gs \<Longrightarrow> 58 \<notin> set f"
  shows "xs = ys \<and> fs = gs"
  using assms
proof (induction fs arbitrary: xs ys gs)
  case Nil
  then show ?case by (cases gs) (auto simp: colon_fields_def)
next
  case (Cons f fs)
  have "gs \<noteq> []"
  proof
    assume "gs = []"
    then have "xs @ colon_fields (f # fs) = ys" using Cons.prems(1) by (simp add: colon_fields_def)
    then have "58 \<in> set ys" by (auto simp: colon_fields_def)
    then show False using Cons.prems(3) by simp
  qed
  then obtain g gs' where gs: "gs = g # gs'" by (cases gs) auto
  have "xs @ 58 # (f @ colon_fields fs) = ys @ 58 # (g @ colon_fields gs')"
    using Cons.prems(1) by (simp add: gs colon_fields_def)
  then have "xs = ys" and rest: "f @ colon_fields fs = g @ colon_fields gs'"
    using first_colon_unique[OF _ Cons.prems(2,3)] by simp_all
  have "f = g \<and> fs = gs'" using rest by (rule Cons.IH) (use Cons.prems(4) in \<open>auto simp: gs\<close>)
  then show ?case using \<open>xs = ys\<close> by (simp add: gs)
qed

lemma signature_fields_no_colon: "f \<in> set (signature_fields ss) \<Longrightarrow> 58 \<notin> set f"
  by (auto simp: signature_fields_def)

lemma signature_fields_inj: "signature_fields ss = signature_fields ts \<Longrightarrow> ss = ts"
proof (induction ss arbitrary: ts)
  case Nil
  then show ?case by (cases ts) (auto simp: signature_fields_def)
next
  case (Cons s ss)
  then obtain t ts' where t: "ts = t # ts'" by (cases ts) (auto simp: signature_fields_def)
  have "lo s = lo t" "hi s = hi t" "signature_fields ss = signature_fields ts'"
    using Cons.prems by (auto simp: t signature_fields_def decimal_inj unsigned_word_eqI)
  then show ?case using Cons.IH by (simp add: t)
qed

text \<open>Where the name ends: no colon of a C++ name, qualified or not, is followed by a digit, and every field
  after the name starts with one.\<close>

fun plain_name :: "string \<Rightarrow> bool" where
  "plain_name (c # d # r) \<longleftrightarrow> (c = CHR '':'' \<longrightarrow> d \<notin> set ''0123456789'') \<and> plain_name (d # r)"
| "plain_name _ \<longleftrightarrow> True"

definition digit_bytes :: "u8 list" where
  "digit_bytes = bytes_of ''0123456789''"

fun plain_bytes :: "u8 list \<Rightarrow> bool" where
  "plain_bytes (c # d # r) \<longleftrightarrow> (c = 58 \<longrightarrow> d \<notin> set digit_bytes) \<and> plain_bytes (d # r)"
| "plain_bytes _ \<longleftrightarrow> True"

lemma plain_name_bytes: "plain_name s \<Longrightarrow> plain_bytes (bytes_of s)"
proof (induction s rule: plain_name.induct)
  case (1 c d r)
  have "c = CHR '':''" if "(of_char c :: u8) = 58" using that by (simp only: of_char_u8_inj flip: colon_byte)
  moreover have "d \<in> set ''0123456789''" if "(of_char d :: u8) \<in> set digit_bytes"
    using that unfolding digit_bytes_def bytes_of_def set_map image_iff of_char_u8_inj by blast
  ultimately show ?case using 1 by (auto simp: bytes_of_def)
qed (simp_all add: bytes_of_def)

lemma plain_bytes_cut: "plain_bytes (xs @ 58 # d # r) \<Longrightarrow> d \<notin> set digit_bytes"
proof (induction xs)
  case (Cons x xs)
  then show ?case by (cases xs) auto
qed simp

lemma rdigits_digits: "set (rdigits v) \<subseteq> set digit_bytes"
proof (induction v rule: rdigits.induct)
  case (1 v)
  have "v mod 10 = 0 \<or> v mod 10 = 1 \<or> v mod 10 = 2 \<or> v mod 10 = 3 \<or> v mod 10 = 4 \<or> v mod 10 = 5 \<or> v mod 10 = 6
      \<or> v mod 10 = 7 \<or> v mod 10 = 8 \<or> v mod 10 = 9" by presburger
  then have "(48 + of_nat (v mod 10) :: u8) \<in> set digit_bytes"
    by (elim disjE) (simp_all add: digit_bytes_def bytes_of_def)
  then show ?case using 1 by (subst rdigits.simps) auto
qed

lemma decimal_head: "\<exists>d r. decimal n = d # r \<and> d \<in> set digit_bytes"
proof -
  have "set (decimal n) \<subseteq> set digit_bytes" "decimal n \<noteq> []"
    using rdigits_digits[of n] rdigits.simps[of n] by (auto simp: decimal_def digit_bytes_def bytes_of_def)
  then show ?thesis by (cases "decimal n") auto
qed

lemma plain_prefix:
  assumes "xs @ us = ys" "colon_fields (decimal n # fs) = us @ colon_fields gs" "plain_bytes ys" "gs \<noteq> []"
  shows "us = []"
proof (rule ccontr)
  assume "us \<noteq> []"
  obtain d r where d: "decimal n = d # r" "d \<in> set digit_bytes" using decimal_head by blast
  obtain g gs' where g: "gs = g # gs'" using assms(4) by (cases gs) auto
  obtain u us' where u: "us = u # us'" using \<open>us \<noteq> []\<close> by (cases us) auto
  with assms(2) have "u = 58" "d # r @ colon_fields fs = us' @ 58 # (g @ colon_fields gs')"
    by (simp_all add: colon_fields_def g d)
  moreover have "(58 :: u8) \<notin> set digit_bytes" by (simp add: digit_bytes_def bytes_of_def)
  then have "us' \<noteq> []" using calculation d by auto
  ultimately obtain us'' where "us = 58 # d # us''" using u by (cases us') auto
  then show False using assms(1,3) plain_bytes_cut d by blast
qed

lemma interface_text_inj:
  assumes "plain_bytes (name_bytes n)" "plain_bytes (name_bytes n')"
  shows "interface_text n v ss = interface_text n' v' ss' \<longleftrightarrow>
           name_bytes n = name_bytes n' \<and> v = v' \<and> ss = ss'"
proof
  let ?fs = "decimal (unat v) # signature_fields ss" and ?gs = "decimal (unat v') # signature_fields ss'"
  assume "interface_text n v ss = interface_text n' v' ss'"
  then have eq: "name_bytes n @ colon_fields ?fs = name_bytes n' @ colon_fields ?gs"
    by (simp add: interface_text_def)
  then obtain us where "name_bytes n = name_bytes n' @ us \<and> us @ colon_fields ?fs = colon_fields ?gs
      \<or> name_bytes n @ us = name_bytes n' \<and> colon_fields ?fs = us @ colon_fields ?gs"
    by (auto simp: append_eq_append_conv2)
  then have "us = []"
    using plain_prefix[of "name_bytes n'" us "name_bytes n" "unat v'" _ ?fs]
      plain_prefix[of "name_bytes n" us "name_bytes n'" "unat v" _ ?gs] assms by (metis list.distinct(1))
  then have "name_bytes n = name_bytes n'" using eq \<open>_ \<or> _\<close> by auto
  moreover have "[] = ([] :: u8 list) \<and> ?fs = ?gs"
    by (rule colon_fields_inj) (use eq calculation in \<open>auto dest: signature_fields_no_colon\<close>)
  ultimately show "name_bytes n = name_bytes n' \<and> v = v' \<and> ss = ss'"
    by (auto simp: decimal_inj unsigned_word_eqI dest: signature_fields_inj)
qed (simp add: interface_text_def)

section \<open>Sorting by slot\<close>

text \<open>What one step of the sort does to the sorted prefix: insert behind the last entry that is not
  greater.\<close>

definition ins_after :: "InterfaceMethodKey \<Rightarrow> InterfaceMethodKey list \<Rightarrow> InterfaceMethodKey list" where
  "ins_after k xs = rev (takeWhile (\<lambda>x. mk_slot x > mk_slot k) (rev xs) @
                         k # dropWhile (\<lambda>x. mk_slot x > mk_slot k) (rev xs))"

lemma ins_after_simps:
  "ins_after k [] = [k]"
  "ins_after k (xs @ [x]) = (if mk_slot x > mk_slot k then ins_after k xs @ [x] else xs @ [x, k])"
  by (simp_all add: ins_after_def)

lemma shift_loop_ins:
  "(case shift_loop (xs @ y # r) k (length xs) of (ks, j) \<Rightarrow> ks[j := k]) = ins_after k xs @ r"
proof (induction xs arbitrary: y r rule: rev_induct)
  case (snoc x xs)
  have eq: "(xs @ x # y # r)[Suc (length xs) := x] = xs @ x # x # r" by (simp add: list_update_append)
  show ?case
  proof (cases "mk_slot x > mk_slot k")
    case True
    then show ?thesis using snoc[of x "x # r"] eq by (simp add: ins_after_simps)
  next
    case False
    then show ?thesis by (simp add: ins_after_simps list_update_append)
  qed
qed (simp add: ins_after_simps)

lemma insert_step_ins:
  "insert_step (xs @ k # r) (length xs) = ins_after k xs @ r"
  using shift_loop_ins[where xs = xs and y = k and r = r and k = k] by (simp add: insert_step_def split_def)

lemma mset_ins_after [simp]: "mset (ins_after k xs) = add_mset k (mset xs)"
proof -
  have "mset (ins_after k xs) = add_mset k (mset (takeWhile (\<lambda>x. mk_slot x > mk_slot k) (rev xs) @
      dropWhile (\<lambda>x. mk_slot x > mk_slot k) (rev xs)))"
    by (simp add: ins_after_def del: takeWhile_dropWhile_id)
  then show ?thesis by (simp only: takeWhile_dropWhile_id mset_rev)
qed

lemma set_ins_after [simp]: "set (ins_after k xs) = insert k (set xs)"
  using mset_ins_after[of k xs] by (metis set_mset_mset set_mset_add_mset_insert)

lemma length_ins_after [simp]: "length (ins_after k xs) = Suc (length xs)"
  using mset_ins_after[of k xs] by (metis size_mset size_add_mset)

lemma sorted_ins_after:
  "sorted (map mk_slot xs) \<Longrightarrow> sorted (map mk_slot (ins_after k xs))"
proof (induction xs rule: rev_induct)
  case (snoc x xs)
  then show ?case by (auto simp: ins_after_simps sorted_append)
qed (simp add: ins_after_simps)

lemma filter_ins_after:
  "filter (\<lambda>x. c = mk_slot x) (ins_after k xs) =
     filter (\<lambda>x. c = mk_slot x) xs @ (if c = mk_slot k then [k] else [])"
  by (induction xs rule: rev_induct) (auto simp: ins_after_simps)

definition ins_all :: "InterfaceMethodKey list \<Rightarrow> InterfaceMethodKey list" where
  "ins_all xs = foldl (\<lambda>acc k. ins_after k acc) [] xs"

lemma ins_all_sort: "ins_all xs = sort_key mk_slot xs"
proof -
  have "mset (ins_all xs) = mset xs \<and> sorted (map mk_slot (ins_all xs)) \<and>
      (\<forall>c. filter (\<lambda>x. c = mk_slot x) (ins_all xs) = filter (\<lambda>x. c = mk_slot x) xs)"
    by (induction xs rule: rev_induct) (simp_all add: ins_all_def sorted_ins_after filter_ins_after)
  then show ?thesis by (intro properties_for_sort_key[symmetric]) simp_all
qed

lemma length_ins_all [simp]: "length (ins_all xs) = length xs"
  by (simp add: ins_all_sort)

lemma sort_loop_prefix:
  "n \<le> length ks \<Longrightarrow> 0 < n \<Longrightarrow> foldl insert_step ks [1..<n] = ins_all (take n ks) @ drop n ks"
proof (induction n)
  case (Suc n)
  show ?case
  proof (cases "n = 0")
    case True
    then show ?thesis using Suc.prems by (cases ks) (auto simp: ins_all_def ins_after_simps)
  next
    case False
    have lt: "n < length ks" using Suc.prems by simp
    have "foldl insert_step ks [1..<Suc n] = insert_step (ins_all (take n ks) @ drop n ks) n"
      using Suc False by simp
    also have "\<dots> = insert_step (ins_all (take n ks) @ ks ! n # drop (Suc n) ks) (length (ins_all (take n ks)))"
      using lt by (simp add: Cons_nth_drop_Suc)
    also have "\<dots> = ins_after (ks ! n) (ins_all (take n ks)) @ drop (Suc n) ks"
      by (rule insert_step_ins)
    also have "\<dots> = ins_all (take (Suc n) ks) @ drop (Suc n) ks"
      using lt by (simp add: take_Suc_conv_app_nth ins_all_def)
    finally show ?thesis .
  qed
qed simp

lemma sort_by_slot_sort: "sort_by_slot ks = sort_key mk_slot ks"
proof (cases "ks = []")
  case False
  then show ?thesis using sort_loop_prefix[of "length ks" ks] by (simp add: sort_by_slot_def ins_all_sort)
qed (simp add: sort_by_slot_def)

text \<open>Two listings of the same methods are sorted to one list when a slot determines its signature.\<close>

lemma sort_by_slot_perm:
  assumes "mset ks = mset ks'"
    and "\<And>k k'. k \<in> set ks \<Longrightarrow> k' \<in> set ks \<Longrightarrow> mk_slot k = mk_slot k' \<Longrightarrow> mk_signature k = mk_signature k'"
  shows "sort_by_slot ks = sort_by_slot ks'"
proof -
  have "set ks' = set ks" using assms(1) by (metis mset_eq_setD)
  then have "inj_on mk_slot (set ks')" using assms(2) by (auto intro!: inj_onI InterfaceMethodKey.equality)
  then show ?thesis using assms(1)
    by (simp add: sort_by_slot_sort)
       (metis properties_for_sort_key mset_sort sorted_sort_key sort_key_inj_key_eq set_mset_mset)
qed

section \<open>Versions and ambiguous signatures\<close>

lemma version_number_unat:
  "unat (version_number a b c) =
     (unat a mod 100) * 10000000 + (unat b mod 100) * 100000 + unat c mod 100000"
proof -
  let ?n = "(unat a mod 100) * 10000000 + (unat b mod 100) * 100000 + unat c mod 100000"
  have "unat a mod 100 \<le> 99" "unat b mod 100 \<le> 99" "unat c mod 100000 \<le> 99999" by simp_all
  then have lt: "?n < 2 ^ 32" by simp
  have m0: "x mod k = of_nat (unat x mod unat k)" for x k :: u32 by (simp flip: unat_mod)
  have m: "a mod 100 = of_nat (unat a mod 100)" "b mod 100 = of_nat (unat b mod 100)"
    "c mod 100000 = of_nat (unat c mod 100000)"
    using m0[of a 100] m0[of b 100] m0[of c 100000] by simp_all
  have "version_number a b c = of_nat ?n"
    by (simp only: version_number_def m of_nat_add of_nat_mult of_nat_numeral)
  then show ?thesis using lt by (simp only: unat_of_nat) simp
qed

lemma version_roundtrip:
  "version_extract (version_number a b c) = (a mod 100, b mod 100, c mod 100000)"
proof -
  let ?v = "version_number a b c"
  define A B C where "A = unat a mod 100" and "B = unat b mod 100" and "C = unat c mod 100000"
  have b: "A < 100" "B < 100" "C < 100000" by (simp_all add: A_def B_def C_def)
  have v: "unat ?v = A * 10000000 + B * 100000 + C"
    by (simp add: version_number_unat A_def B_def C_def)
  have "unat ?v div 10000000 = A" using b unfolding v by (intro div_nat_eqI) simp_all
  moreover have "unat ?v div 100000 = A * 100 + B" using b unfolding v by (intro div_nat_eqI) simp_all
  then have "unat ?v div 100000 mod 100 = B" using b by simp
  moreover have "unat ?v = C + 100000 * (A * 100 + B)" by (simp add: v)
  then have "unat ?v mod 100000 = C" using b by (simp only: mod_mult_self2 mod_less)
  ultimately have *: "unat ?v div 10000000 = A" "unat ?v div 100000 mod 100 = B" "unat ?v mod 100000 = C" .
  from * have "unat (?v div 10000000) = unat (a mod 100)"
    "unat (?v div 100000 mod 100) = unat (b mod 100)" "unat (?v mod 100000) = unat (c mod 100000)"
    by (simp_all add: unat_div unat_mod A_def B_def C_def)
  then show ?thesis by (auto simp: version_extract_def intro: unsigned_word_eqI)
qed

lemma method_signature_ambiguous:
  "method_signature (Some ''f'') \<lparr>lo = 1, hi = 23\<rparr> [] = method_signature (Some ''f'') \<lparr>lo = 12, hi = 3\<rparr> []"
  "method_signature (Some ''f'') \<lparr>lo = 12, hi = 3\<rparr> [] = method_signature (Some ''f1'') \<lparr>lo = 2, hi = 3\<rparr> []"
  by (simp_all add: method_signature_digest type_text_def decimal_def rdigits.simps name_bytes_def
      bytes_of_def c_str_def)

section \<open>Properties\<close>

text \<open>C27. Computing an interface identity never overruns the 20-character digit buffer: for any name it
  yields the digest of the canonical text. For names in which no colon is followed by a digit, so for every C++ name,
  qualified (\<open>ns::Shape\<close>) or not, that text determines the name, the version and the ordered list of method
  signatures.\<close>

theorem interface_id_canonical:
  "interface_id name v ss =
           Some (digest (absorb (canonical_hash_begin interface_identity_domain) (interface_text name v ss))) \<and>
         (plain_name (c_str n) \<longrightarrow> plain_name (c_str n') \<longrightarrow>
           (interface_text (Some n) v ss = interface_text (Some n') v' ss' \<longleftrightarrow>
             c_str n = c_str n' \<and> v = v' \<and> ss = ss'))"
  using interface_text_inj[of "Some n" "Some n'"] plain_name_bytes[of "c_str n"] plain_name_bytes[of "c_str n'"]
  by (simp add: interface_id_digest name_bytes_def)

theorem interface_id_canonical_witness:
  "interface_id (Some ''ns::Shape'') 1 [\<lparr>lo = 7, hi = 9\<rparr>] =
     Some (digest (absorb (canonical_hash_begin interface_identity_domain)
                    (interface_text (Some ''ns::Shape'') 1 [\<lparr>lo = 7, hi = 9\<rparr>])))
   \<and> interface_text (Some ''ns::Shape'') 1 [\<lparr>lo = 7, hi = 9\<rparr>] \<noteq>
       interface_text (Some ''ns::Shape'') 17 [\<lparr>lo = 9, hi = 9\<rparr>]"
  using interface_id_canonical[of "Some ''ns::Shape''" 1 "[\<lparr>lo = 7, hi = 9\<rparr>]" "''ns::Shape''" "''ns::Shape''" 17 "[\<lparr>lo = 9, hi = 9\<rparr>]"]
  by (simp add: c_str_def)

text \<open>A name given to \<open>interface_id\<close> by hand can run into the version: nothing separates the two but a colon.\<close>

lemma interface_name_ambiguous:
  "interface_id (Some ''f:1:2'') 3 [] = interface_id (Some ''f'') 1 [\<lparr>lo = 2, hi = 3\<rparr>]"
  by (simp add: interface_id_digest interface_text_def name_bytes_def bytes_of_def c_str_def colon_fields_def
      signature_fields_def decimal_def rdigits.simps)

text \<open>C28. The in-place insertion sort of the keyed overload orders the methods by slot and keeps the
  listed order of methods with the same slot: the identity is always that of the signatures in that order. It does
  not depend on the order in which the methods are listed when methods with the same slot have the same signature, so
  in particular when the slots are distinct.\<close>

theorem interface_id_order_independent:
  "interface_id_keyed name v ks = interface_id name v (map mk_signature (sort_key mk_slot ks)) \<and>
    (mset ks = mset ks' \<longrightarrow> (\<forall>k \<in> set ks. \<forall>k' \<in> set ks. mk_slot k = mk_slot k' \<longrightarrow> mk_signature k = mk_signature k') \<longrightarrow>
      interface_id_keyed name v ks = interface_id_keyed name v ks')"
proof (intro conjI impI)
  assume "mset ks = mset ks'" "\<forall>k \<in> set ks. \<forall>k' \<in> set ks. mk_slot k = mk_slot k' \<longrightarrow> mk_signature k = mk_signature k'"
  then have "sort_by_slot ks = sort_by_slot ks'" by (intro sort_by_slot_perm) blast+
  then show "interface_id_keyed name v ks = interface_id_keyed name v ks'" by (simp add: interface_id_keyed_def)
qed (simp add: interface_id_keyed_def sort_by_slot_sort)

theorem interface_id_order_independent_witness:
  "interface_id_keyed (Some ''Shape'') 1
     [\<lparr>mk_signature = \<lparr>lo = 5, hi = 6\<rparr>, mk_slot = 1\<rparr>, \<lparr>mk_signature = \<lparr>lo = 7, hi = 8\<rparr>, mk_slot = 0\<rparr>] =
   interface_id_keyed (Some ''Shape'') 1
     [\<lparr>mk_signature = \<lparr>lo = 7, hi = 8\<rparr>, mk_slot = 0\<rparr>, \<lparr>mk_signature = \<lparr>lo = 5, hi = 6\<rparr>, mk_slot = 1\<rparr>]
   \<and> interface_id_keyed (Some ''Shape'') 1
     [\<lparr>mk_signature = \<lparr>lo = 5, hi = 6\<rparr>, mk_slot = 1\<rparr>, \<lparr>mk_signature = \<lparr>lo = 7, hi = 8\<rparr>, mk_slot = 0\<rparr>] =
   interface_id (Some ''Shape'') 1 [\<lparr>lo = 7, hi = 8\<rparr>, \<lparr>lo = 5, hi = 6\<rparr>]"
  using interface_id_order_independent
    [of "Some ''Shape''" 1 "[\<lparr>mk_signature = \<lparr>lo = 5, hi = 6\<rparr>, mk_slot = 1\<rparr>, \<lparr>mk_signature = \<lparr>lo = 7, hi = 8\<rparr>, mk_slot = 0\<rparr>]"
        "[\<lparr>mk_signature = \<lparr>lo = 7, hi = 8\<rparr>, mk_slot = 0\<rparr>, \<lparr>mk_signature = \<lparr>lo = 5, hi = 6\<rparr>, mk_slot = 1\<rparr>]"]
  by (simp add: add_mset_commute) metis

text \<open>With a slot given twice the listed order does matter.\<close>

lemma keyed_order_matters:
  "interface_text name v (map mk_signature (sort_by_slot
     [\<lparr>mk_signature = \<lparr>lo = 5, hi = 6\<rparr>, mk_slot = 1\<rparr>, \<lparr>mk_signature = \<lparr>lo = 7, hi = 8\<rparr>, mk_slot = 1\<rparr>])) \<noteq>
   interface_text name v (map mk_signature (sort_by_slot
     [\<lparr>mk_signature = \<lparr>lo = 7, hi = 8\<rparr>, mk_slot = 1\<rparr>, \<lparr>mk_signature = \<lparr>lo = 5, hi = 6\<rparr>, mk_slot = 1\<rparr>]))"
  by (simp add: sort_by_slot_sort interface_text_def colon_fields_def signature_fields_def decimal_def rdigits.simps)

end
