(* ===== verification/Interface_Binding.thy ===== *)
theory Interface_Binding
  imports Interface_Contract Scan_Registry
begin

text \<open>
  Binding an interface: the implementation registry of \<open>Interface/Registry.h\<close>, the resolved handles
  and slot tables of \<open>Interface/Ref.h\<close> and the proxies of \<open>Interface/Proxy.h\<close>.

  The template capacities are arguments: \<open>cap\<close> of a registry, \<open>mx\<close> (\<open>MaxMethods\<close>) of a handle. A
  pointer to an implementation record is the record; an object handle and an adapter entry are
  addresses, 0 the null pointer. A shared slot table lives in a store of tables, because many
  proxies point at one.

  The locale \<open>slot_binding\<close> states what a proxy needs of the cache behind it; the inline cache
  and the shared table are its two interpretations.
\<close>

type_synonym vptr = uintptr_t

section \<open>Registry\<close>

record InterfaceRegistry =
  ir_entries :: "InterfaceImplementation list"
  ir_lookups :: size_t

definition empty_interface_registry :: InterfaceRegistry where
  "empty_interface_registry = \<lparr>ir_entries = [], ir_lookups = 0\<rparr>"

definition impl_key :: "InterfaceImplementation \<Rightarrow> TypeId \<times> InterfaceId \<times> u32" where
  "impl_key e = (ii_concrete_type e, ii_interface_id e, ii_version e)"

definition find_exact :: "InterfaceRegistry \<Rightarrow> TypeId \<Rightarrow> InterfaceId \<Rightarrow> u32 \<Rightarrow> InterfaceImplementation ptr" where
  "find_exact reg concrete iid version =
     find (\<lambda>e. ii_concrete_type e = concrete \<and> ii_interface_id e = iid \<and> ii_version e = version)
       (ir_entries reg)"

fun newest_scan :: "TypeId \<Rightarrow> InterfaceId \<Rightarrow> InterfaceImplementation ptr \<Rightarrow> InterfaceImplementation list
    \<Rightarrow> InterfaceImplementation ptr" where
  "newest_scan concrete iid best [] = best"
| "newest_scan concrete iid best (e # es) =
     (if ii_concrete_type e \<noteq> concrete \<or> ii_interface_id e \<noteq> iid then newest_scan concrete iid best es
      else newest_scan concrete iid
        (case best of None \<Rightarrow> Some e | Some b \<Rightarrow> if ii_version e \<ge> ii_version b then Some e else best) es)"

definition find_newest :: "InterfaceRegistry \<Rightarrow> TypeId \<Rightarrow> InterfaceId \<Rightarrow> InterfaceImplementation ptr" where
  "find_newest reg concrete iid = newest_scan concrete iid None (ir_entries reg)"

text \<open>\<open>find\<close> counts the lookup even on a \<open>const\<close> registry.\<close>

definition interface_find :: "InterfaceRegistry \<Rightarrow> TypeId \<Rightarrow> InterfaceId \<Rightarrow> u32
    \<Rightarrow> InterfaceRegistry \<times> InterfaceImplementation ptr" where
  "interface_find reg concrete iid version =
     (let reg = reg\<lparr>ir_lookups := ir_lookups reg + 1\<rparr>
      in (reg, if version = 0 then find_newest reg concrete iid
               else find_exact reg concrete iid version))"

definition interface_available :: "InterfaceRegistry \<Rightarrow> TypeId \<Rightarrow> InterfaceId \<Rightarrow> u32 option" where
  "interface_available reg concrete iid = map_option ii_version (find_newest reg concrete iid)"

definition interface_at :: "InterfaceRegistry \<Rightarrow> nat \<Rightarrow> InterfaceImplementation ptr" where
  "interface_at reg i = (if i < length (ir_entries reg) then Some (ir_entries reg ! i) else None)"

definition interface_add :: "nat \<Rightarrow> InterfaceRegistry \<Rightarrow> InterfaceImplementation \<Rightarrow> InterfaceRegistry \<times> InterfaceStatus" where
  "interface_add cap reg impl =
     (if hash_eq (ii_interface_id impl) Hash128_zero \<or> hash_eq (ii_concrete_type impl) Hash128_zero
         \<or> (ii_method_count impl \<noteq> 0 \<and> ii_methods impl = None) then (reg, is_invalid_table)
      else if find_exact reg (ii_concrete_type impl) (ii_interface_id impl) (ii_version impl) \<noteq> None
      then (reg, is_duplicate_implementation)
      else if length (ir_entries reg) = cap then (reg, is_capacity_exceeded)
      else (reg\<lparr>ir_entries := ir_entries reg @ [impl]\<rparr>, is_ok))"

section \<open>Slot loops\<close>

text \<open>The first loop of every binding: bound every slot and find the highest.\<close>

fun scan_slots :: "nat \<Rightarrow> InterfaceMethod list \<Rightarrow> u32 \<Rightarrow> InterfaceStatus \<times> u32" where
  "scan_slots mx [] highest = (is_ok, highest)"
| "scan_slots mx (m # ms) highest =
     (if unat (im_slot m) \<ge> mx then (is_method_capacity_exceeded, highest)
      else scan_slots mx ms (if im_slot m + 1 > highest then im_slot m + 1 else highest))"

fun store_entries :: "uintptr_t list \<Rightarrow> InterfaceMethod list \<Rightarrow> uintptr_t list" where
  "store_entries es [] = es"
| "store_entries es (m # ms) = store_entries (es[unat (im_slot m) := im_entry m]) ms"

fun store_signatures :: "InterfaceMethodHash list \<Rightarrow> InterfaceMethod list \<Rightarrow> InterfaceMethodHash list" where
  "store_signatures ss [] = ss"
| "store_signatures ss (m # ms) = store_signatures (ss[unat (im_slot m) := im_signature m]) ms"

definition slot_array_size :: "nat \<Rightarrow> nat" where
  "slot_array_size mx = (if mx = 0 then 1 else mx)"

section \<open>Interface handles\<close>

record InterfaceRef =
  ref_object :: vptr
  ref_interface_id :: InterfaceId
  ref_version :: u32
  ref_method_count :: u32
  ref_entries :: "uintptr_t list"
  ref_signatures :: "InterfaceMethodHash list"

definition ref_reset :: "nat \<Rightarrow> InterfaceRef" where
  "ref_reset mx =
     \<lparr>ref_object = 0, ref_interface_id = Hash128_zero, ref_version = 0, ref_method_count = 0,
      ref_entries = replicate (slot_array_size mx) 0,
      ref_signatures = replicate (slot_array_size mx) Hash128_zero\<rparr>"

definition ref_resolve_methods :: "nat \<Rightarrow> InterfaceId \<Rightarrow> u32 \<Rightarrow> InterfaceMethod arr \<Rightarrow> u32 \<Rightarrow> vptr
    \<Rightarrow> InterfaceRef \<times> InterfaceStatus" where
  "ref_resolve_methods mx iid version methods method_count object =
     (let r = ref_reset mx
      in if object = 0 \<or> (method_count \<noteq> 0 \<and> methods = None) then (r, is_invalid_table)
         else case scan_slots mx (arr_elems methods method_count) 0 of (st, highest) \<Rightarrow>
             if st \<noteq> is_ok then (r, st)
             else
             (r\<lparr>ref_entries := store_entries (ref_entries r) (arr_elems methods method_count),
                ref_signatures := store_signatures (ref_signatures r) (arr_elems methods method_count),
                ref_object := object, ref_interface_id := iid, ref_version := version,
                ref_method_count := highest\<rparr>, is_ok))"

text \<open>What a failed lookup reports: the interface is unknown, or known in other versions only.\<close>

definition missing_status :: "InterfaceRegistry \<Rightarrow> TypeId \<Rightarrow> InterfaceId \<Rightarrow> InterfaceStatus" where
  "missing_status reg concrete iid =
     (if interface_available reg concrete iid \<noteq> None then is_version_mismatch else is_interface_not_found)"

definition ref_resolve :: "nat \<Rightarrow> InterfaceRegistry \<Rightarrow> vptr \<Rightarrow> TypeId \<Rightarrow> InterfaceId \<Rightarrow> u32
    \<Rightarrow> InterfaceRegistry \<times> InterfaceRef \<times> InterfaceStatus" where
  "ref_resolve mx reg object concrete iid version =
     (if object = 0 then (reg, ref_reset mx, is_invalid_table)
      else case interface_find reg concrete iid version of
        (reg', None) \<Rightarrow> (reg', ref_reset mx, missing_status reg' concrete iid)
      | (reg', Some impl) \<Rightarrow>
          (reg', ref_resolve_methods mx (ii_interface_id impl) (ii_version impl) (ii_methods impl)
                   (ii_method_count impl) object))"

definition ref_method :: "InterfaceRef \<Rightarrow> u32 \<Rightarrow> uintptr_t" where
  "ref_method r slot =
     (if slot \<ge> ref_method_count r \<or> ref_entries r ! unat slot = 0 then 0 else ref_entries r ! unat slot)"

definition ref_bound :: "InterfaceRef \<Rightarrow> u32 \<Rightarrow> bool" where
  "ref_bound r slot \<longleftrightarrow> slot < ref_method_count r \<and> ref_entries r ! unat slot \<noteq> 0"

definition ref_valid :: "InterfaceRef \<Rightarrow> bool" where
  "ref_valid r \<longleftrightarrow> ref_object r \<noteq> 0"

definition ref_signature :: "InterfaceRef \<Rightarrow> u32 \<Rightarrow> InterfaceMethodHash" where
  "ref_signature r slot = (if slot < ref_method_count r then ref_signatures r ! unat slot else Hash128_zero)"

definition ref_verify :: "InterfaceRef \<Rightarrow> u32 \<Rightarrow> InterfaceMethodHash \<Rightarrow> InterfaceStatus" where
  "ref_verify r slot expected =
     (if slot \<ge> ref_method_count r \<or> ref_entries r ! unat slot = 0 then is_method_not_found
      else if \<not> hash_eq expected Hash128_zero \<and> \<not> hash_eq (ref_signatures r ! unat slot) expected
      then is_signature_mismatch else is_ok)"

definition ref_method_checked :: "InterfaceRef \<Rightarrow> u32 \<Rightarrow> InterfaceMethodHash \<Rightarrow> uintptr_t \<times> InterfaceStatus" where
  "ref_method_checked r slot expected =
     (let st = ref_verify r slot expected in (if st = is_ok then ref_method r slot else 0, st))"

definition query_interface :: "nat \<Rightarrow> InterfaceRegistry \<Rightarrow> vptr \<Rightarrow> TypeId \<Rightarrow> InterfaceId \<Rightarrow> u32
    \<Rightarrow> InterfaceRegistry \<times> InterfaceRef" where
  "query_interface mx reg object concrete iid version =
     (case ref_resolve mx reg object concrete iid version of (reg', r, _) \<Rightarrow> (reg', r))"

section \<open>Slot entries checked against a contract\<close>

fun check_expected :: "InterfaceMethod list \<Rightarrow> u32 \<Rightarrow> InterfaceMethodHash list \<Rightarrow> InterfaceStatus" where
  "check_expected ms slot [] = is_ok"
| "check_expected ms slot (x # xs) =
     (if hash_eq x Hash128_zero then check_expected ms (slot + 1) xs
      else case find (\<lambda>m. im_slot m = slot) ms of
        None \<Rightarrow> is_method_not_found
      | Some m \<Rightarrow>
          if im_entry m = 0 then is_method_not_found
          else if \<not> hash_eq (im_signature m) x then is_signature_mismatch
          else check_expected ms (slot + 1) xs)"

text \<open>The result is the status with the entries and the highest slot, both references of the caller.\<close>

definition fill_slot_entries :: "nat \<Rightarrow> uintptr_t list \<Rightarrow> InterfaceMethod list \<Rightarrow> InterfaceMethodHash list
    \<Rightarrow> InterfaceStatus \<times> uintptr_t list \<times> u32" where
  "fill_slot_entries mx entries ms expected =
     (case scan_slots mx ms 0 of (st, highest) \<Rightarrow>
        if st \<noteq> is_ok then (st, entries, highest)
        else let st = check_expected ms 0 expected
             in if st \<noteq> is_ok then (st, entries, highest)
                else (is_ok, store_entries entries ms, highest))"

record InterfaceSlotCache =
  sc_object :: vptr
  sc_method_count :: u32
  sc_entries :: "uintptr_t list"

definition cache_reset :: "nat \<Rightarrow> InterfaceSlotCache" where
  "cache_reset mx = \<lparr>sc_object = 0, sc_method_count = 0, sc_entries = replicate (slot_array_size mx) 0\<rparr>"

definition cache_resolve_methods :: "nat \<Rightarrow> InterfaceMethod arr \<Rightarrow> u32 \<Rightarrow> vptr \<Rightarrow> InterfaceMethodHash list
    \<Rightarrow> InterfaceSlotCache \<times> InterfaceStatus" where
  "cache_resolve_methods mx methods method_count object expected =
     (let c = cache_reset mx
      in if object = 0 \<or> (method_count \<noteq> 0 \<and> methods = None) then (c, is_invalid_table)
         else case fill_slot_entries mx (sc_entries c) (arr_elems methods method_count) expected of
           (st, entries, highest) \<Rightarrow>
             if st \<noteq> is_ok then (cache_reset mx, st)
             else (c\<lparr>sc_entries := entries, sc_object := object, sc_method_count := highest\<rparr>, is_ok))"

definition cache_resolve :: "nat \<Rightarrow> InterfaceRegistry \<Rightarrow> vptr \<Rightarrow> TypeId \<Rightarrow> InterfaceId \<Rightarrow> u32
    \<Rightarrow> InterfaceMethodHash list \<Rightarrow> InterfaceRegistry \<times> InterfaceSlotCache \<times> InterfaceStatus" where
  "cache_resolve mx reg object concrete iid version expected =
     (if object = 0 then (reg, cache_reset mx, is_invalid_table)
      else case interface_find reg concrete iid version of
        (reg', None) \<Rightarrow> (reg', cache_reset mx, missing_status reg' concrete iid)
      | (reg', Some impl) \<Rightarrow>
          (reg', cache_resolve_methods mx (ii_methods impl) (ii_method_count impl) object expected))"

definition cache_method :: "nat \<Rightarrow> InterfaceSlotCache \<Rightarrow> u32 \<Rightarrow> uintptr_t" where
  "cache_method mx c slot =
     (if unat slot \<ge> mx \<or> sc_entries c ! unat slot = 0 then 0 else sc_entries c ! unat slot)"

definition cache_bound :: "nat \<Rightarrow> InterfaceSlotCache \<Rightarrow> u32 \<Rightarrow> bool" where
  "cache_bound mx c slot \<longleftrightarrow> unat slot < mx \<and> sc_entries c ! unat slot \<noteq> 0"

definition cache_valid :: "InterfaceSlotCache \<Rightarrow> bool" where
  "cache_valid c \<longleftrightarrow> sc_object c \<noteq> 0"

record InterfaceSlotTable =
  tb_entries :: "uintptr_t list"
  tb_method_count :: u32
  tb_ready :: bool

definition table_reset :: "nat \<Rightarrow> InterfaceSlotTable" where
  "table_reset mx = \<lparr>tb_entries = replicate (slot_array_size mx) 0, tb_method_count = 0, tb_ready = False\<rparr>"

definition table_build :: "nat \<Rightarrow> InterfaceMethod arr \<Rightarrow> u32 \<Rightarrow> InterfaceMethodHash list
    \<Rightarrow> InterfaceSlotTable \<times> InterfaceStatus" where
  "table_build mx methods method_count expected =
     (let t = table_reset mx
      in if method_count \<noteq> 0 \<and> methods = None then (t, is_invalid_table)
         else case fill_slot_entries mx (tb_entries t) (arr_elems methods method_count) expected of
           (st, entries, highest) \<Rightarrow>
             if st \<noteq> is_ok then (t\<lparr>tb_entries := entries\<rparr>, st)
             else (t\<lparr>tb_entries := entries, tb_method_count := highest, tb_ready := True\<rparr>, is_ok))"

definition table_method :: "nat \<Rightarrow> InterfaceSlotTable \<Rightarrow> u32 \<Rightarrow> uintptr_t" where
  "table_method mx t slot =
     (if unat slot \<ge> mx \<or> tb_entries t ! unat slot = 0 then 0 else tb_entries t ! unat slot)"

definition table_bound :: "nat \<Rightarrow> InterfaceSlotTable \<Rightarrow> u32 \<Rightarrow> bool" where
  "table_bound mx t slot \<longleftrightarrow> tb_ready t \<and> unat slot < mx \<and> tb_entries t ! unat slot \<noteq> 0"

section \<open>Proxies\<close>

text \<open>A proxy's \<open>Traits\<close>; its slot capacity is the number of signatures.\<close>

record Traits =
  tr_id :: InterfaceId
  tr_version :: u32
  tr_signatures :: "InterfaceMethodHash list"

definition slot_capacity :: "Traits \<Rightarrow> nat" where
  "slot_capacity tr = length (tr_signatures tr)"

text \<open>Calling an adapter is a parameter: \<open>invoke entry object args\<close>.\<close>

definition checked_call :: "(uintptr_t \<Rightarrow> vptr \<Rightarrow> 'a \<Rightarrow> 'r) \<Rightarrow> uintptr_t \<Rightarrow> vptr \<Rightarrow> 'a \<Rightarrow> InterfaceStatus + 'r" where
  "checked_call invoke fn object args =
     (if fn = 0 then Inl is_method_not_found else Inr (invoke fn object args))"

record UniqueInterfaceProxy =
  up_ref :: InterfaceSlotCache
  up_status :: InterfaceStatus

definition unique_default :: "Traits \<Rightarrow> UniqueInterfaceProxy" where
  "unique_default tr = \<lparr>up_ref = cache_reset (slot_capacity tr), up_status = is_interface_not_found\<rparr>"

definition unique_bind :: "Traits \<Rightarrow> InterfaceRegistry \<Rightarrow> vptr \<Rightarrow> TypeId \<Rightarrow> u32
    \<Rightarrow> InterfaceRegistry \<times> UniqueInterfaceProxy" where
  "unique_bind tr reg object concrete version =
     (case cache_resolve (slot_capacity tr) reg object concrete (tr_id tr) version (tr_signatures tr) of
        (reg', c, st) \<Rightarrow> (reg', \<lparr>up_ref = c, up_status = st\<rparr>))"

definition unique_bind_methods :: "Traits \<Rightarrow> InterfaceId \<Rightarrow> u32 \<Rightarrow> InterfaceMethod arr \<Rightarrow> u32 \<Rightarrow> vptr
    \<Rightarrow> UniqueInterfaceProxy" where
  "unique_bind_methods tr iid version methods method_count object =
     (if iid \<noteq> tr_id tr then \<lparr>up_ref = cache_reset (slot_capacity tr), up_status = is_interface_not_found\<rparr>
      else if version \<noteq> tr_version tr
      then \<lparr>up_ref = cache_reset (slot_capacity tr), up_status = is_version_mismatch\<rparr>
      else case cache_resolve_methods (slot_capacity tr) methods method_count object (tr_signatures tr) of
        (c, st) \<Rightarrow> \<lparr>up_ref = c, up_status = st\<rparr>)"

definition unique_valid :: "UniqueInterfaceProxy \<Rightarrow> bool" where
  "unique_valid p \<longleftrightarrow> up_status p = is_ok \<and> cache_valid (up_ref p)"

definition unique_interface_id :: "Traits \<Rightarrow> UniqueInterfaceProxy \<Rightarrow> InterfaceId" where
  "unique_interface_id tr p = (if cache_valid (up_ref p) then tr_id tr else Hash128_zero)"

definition unique_version :: "Traits \<Rightarrow> UniqueInterfaceProxy \<Rightarrow> u32" where
  "unique_version tr p = (if cache_valid (up_ref p) then tr_version tr else 0)"

definition unique_verify :: "Traits \<Rightarrow> UniqueInterfaceProxy \<Rightarrow> u32 \<Rightarrow> InterfaceStatus" where
  "unique_verify tr p slot =
     (if unat slot \<ge> slot_capacity tr \<or> \<not> cache_bound (slot_capacity tr) (up_ref p) slot
      then is_method_not_found else is_ok)"

definition unique_method :: "Traits \<Rightarrow> UniqueInterfaceProxy \<Rightarrow> u32 \<Rightarrow> uintptr_t" where
  "unique_method tr p slot = cache_method (slot_capacity tr) (up_ref p) slot"

definition unique_call_checked :: "(uintptr_t \<Rightarrow> vptr \<Rightarrow> 'a \<Rightarrow> 'r) \<Rightarrow> Traits \<Rightarrow> UniqueInterfaceProxy \<Rightarrow> u32 \<Rightarrow> 'a
    \<Rightarrow> InterfaceStatus + 'r" where
  "unique_call_checked invoke tr p slot args =
     checked_call invoke (unique_method tr p slot) (sc_object (up_ref p)) args"

text \<open>\<open>call\<close> does not check the entry; calling through a null pointer is \<open>None\<close>.\<close>

definition direct_call :: "(uintptr_t \<Rightarrow> vptr \<Rightarrow> 'a \<Rightarrow> 'r) \<Rightarrow> uintptr_t \<Rightarrow> vptr \<Rightarrow> 'a \<Rightarrow> 'r option" where
  "direct_call invoke fn object args = (if fn = 0 then None else Some (invoke fn object args))"

definition unique_call :: "(uintptr_t \<Rightarrow> vptr \<Rightarrow> 'a \<Rightarrow> 'r) \<Rightarrow> Traits \<Rightarrow> UniqueInterfaceProxy \<Rightarrow> u32 \<Rightarrow> 'a \<Rightarrow> 'r option" where
  "unique_call invoke tr p slot args = direct_call invoke (unique_method tr p slot) (sc_object (up_ref p)) args"

text \<open>Shared proxies: the store holds the tables, a proxy the address of one.\<close>

type_synonym table_store = "nat \<Rightarrow> InterfaceSlotTable"

record SharedInterfaceProxy =
  sp_object :: vptr
  sp_table :: "nat option"
  sp_status :: InterfaceStatus

definition make_shared_slot_table :: "Traits \<Rightarrow> table_store \<Rightarrow> nat \<Rightarrow> InterfaceRegistry \<Rightarrow> TypeId \<Rightarrow> u32
    \<Rightarrow> InterfaceRegistry \<times> table_store \<times> InterfaceStatus" where
  "make_shared_slot_table tr tables a reg concrete version =
     (case interface_find reg concrete (tr_id tr) version of
        (reg', None) \<Rightarrow>
          (reg', tables(a := table_reset (slot_capacity tr)), missing_status reg' concrete (tr_id tr))
      | (reg', Some impl) \<Rightarrow>
          (case table_build (slot_capacity tr) (ii_methods impl) (ii_method_count impl) (tr_signatures tr) of
             (t, st) \<Rightarrow> (reg', tables(a := t), st)))"

definition make_shared_slot_table_methods :: "Traits \<Rightarrow> table_store \<Rightarrow> nat \<Rightarrow> InterfaceMethod arr \<Rightarrow> u32
    \<Rightarrow> table_store \<times> InterfaceStatus" where
  "make_shared_slot_table_methods tr tables a methods method_count =
     (case table_build (slot_capacity tr) methods method_count (tr_signatures tr) of
        (t, st) \<Rightarrow> (tables(a := t), st))"

definition shared_bind_table :: "table_store \<Rightarrow> nat \<Rightarrow> vptr \<Rightarrow> SharedInterfaceProxy" where
  "shared_bind_table tables a object =
     \<lparr>sp_object = object, sp_table = Some a,
      sp_status = (if object \<noteq> 0 \<and> tb_ready (tables a) then is_ok else is_invalid_table)\<rparr>"

definition shared_bind :: "Traits \<Rightarrow> table_store \<Rightarrow> nat \<Rightarrow> InterfaceRegistry \<Rightarrow> vptr \<Rightarrow> TypeId \<Rightarrow> u32
    \<Rightarrow> InterfaceRegistry \<times> table_store \<times> SharedInterfaceProxy" where
  "shared_bind tr tables a reg object concrete version =
     (case make_shared_slot_table tr tables a reg concrete version of
        (reg', tables', st) \<Rightarrow>
          (reg', tables', if st \<noteq> is_ok then \<lparr>sp_object = 0, sp_table = None, sp_status = st\<rparr>
                          else shared_bind_table tables' a object))"

definition shared_bind_methods :: "Traits \<Rightarrow> table_store \<Rightarrow> nat \<Rightarrow> InterfaceMethod arr \<Rightarrow> u32 \<Rightarrow> vptr
    \<Rightarrow> table_store \<times> SharedInterfaceProxy" where
  "shared_bind_methods tr tables a methods method_count object =
     (case make_shared_slot_table_methods tr tables a methods method_count of
        (tables', st) \<Rightarrow>
          (tables', if st \<noteq> is_ok then \<lparr>sp_object = 0, sp_table = None, sp_status = st\<rparr>
                    else shared_bind_table tables' a object))"

definition shared_valid :: "table_store \<Rightarrow> SharedInterfaceProxy \<Rightarrow> bool" where
  "shared_valid tables p \<longleftrightarrow> sp_status p = is_ok \<and> sp_object p \<noteq> 0
     \<and> (case sp_table p of None \<Rightarrow> False | Some a \<Rightarrow> tb_ready (tables a))"

definition shared_verify :: "Traits \<Rightarrow> table_store \<Rightarrow> SharedInterfaceProxy \<Rightarrow> u32 \<Rightarrow> InterfaceStatus" where
  "shared_verify tr tables p slot =
     (case sp_table p of
        None \<Rightarrow> is_method_not_found
      | Some a \<Rightarrow> if table_bound (slot_capacity tr) (tables a) slot then is_ok else is_method_not_found)"

definition shared_interface_id :: "Traits \<Rightarrow> table_store \<Rightarrow> SharedInterfaceProxy \<Rightarrow> InterfaceId" where
  "shared_interface_id tr tables p = (if shared_valid tables p then tr_id tr else Hash128_zero)"

definition shared_version :: "Traits \<Rightarrow> table_store \<Rightarrow> SharedInterfaceProxy \<Rightarrow> u32" where
  "shared_version tr tables p = (if shared_valid tables p then tr_version tr else 0)"

definition shared_method_count :: "table_store \<Rightarrow> SharedInterfaceProxy \<Rightarrow> u32" where
  "shared_method_count tables p = (case sp_table p of None \<Rightarrow> 0 | Some a \<Rightarrow> tb_method_count (tables a))"

definition shared_method :: "Traits \<Rightarrow> table_store \<Rightarrow> SharedInterfaceProxy \<Rightarrow> u32 \<Rightarrow> uintptr_t" where
  "shared_method tr tables p slot =
     (case sp_table p of None \<Rightarrow> 0 | Some a \<Rightarrow> table_method (slot_capacity tr) (tables a) slot)"

definition shared_call_checked :: "(uintptr_t \<Rightarrow> vptr \<Rightarrow> 'a \<Rightarrow> 'r) \<Rightarrow> Traits \<Rightarrow> table_store
    \<Rightarrow> SharedInterfaceProxy \<Rightarrow> u32 \<Rightarrow> 'a \<Rightarrow> InterfaceStatus + 'r" where
  "shared_call_checked invoke tr tables p slot args =
     checked_call invoke (shared_method tr tables p slot) (sp_object p) args"

definition shared_call :: "(uintptr_t \<Rightarrow> vptr \<Rightarrow> 'a \<Rightarrow> 'r) \<Rightarrow> Traits \<Rightarrow> table_store
    \<Rightarrow> SharedInterfaceProxy \<Rightarrow> u32 \<Rightarrow> 'a \<Rightarrow> 'r option" where
  "shared_call invoke tr tables p slot args = direct_call invoke (shared_method tr tables p slot) (sp_object p) args"

section \<open>Slot loops\<close>

text \<open>Reference: the entry a slot ends up with is that of the last method naming it, 0 if none does.\<close>

definition last_entry :: "InterfaceMethod list \<Rightarrow> u32 \<Rightarrow> uintptr_t" where
  "last_entry ms s = foldl (\<lambda>a m. if im_slot m = s then im_entry m else a) 0 ms"

lemma scan_slots_ok:
  "scan_slots mx ms h = (is_ok, h') \<Longrightarrow> m \<in> set ms \<Longrightarrow> unat (im_slot m) < mx"
  by (induction ms arbitrary: h) (auto simp: not_le split: if_splits)

lemma length_store_entries [simp]: "length (store_entries es ms) = length es"
  by (induction ms arbitrary: es) simp_all

lemma store_entries_nth:
  assumes "unat s < length es"
  shows "store_entries es ms ! unat s =
           foldl (\<lambda>a m. if im_slot m = s then im_entry m else a) (es ! unat s) ms"
  using assms
proof (induction ms arbitrary: es)
  case (Cons m ms)
  have "unat (im_slot m) = unat s \<longleftrightarrow> im_slot m = s" by (auto intro: unsigned_word_eqI)
  then show ?case using Cons by (simp add: nth_list_update)
qed simp

lemma store_entries_zero:
  assumes "unat s < n"
  shows "store_entries (replicate n 0) ms ! unat s = last_entry ms s"
  using assms by (simp add: store_entries_nth last_entry_def)

lemma last_entry_append:
  "last_entry (ms @ [m]) s = (if im_slot m = s then im_entry m else last_entry ms s)"
  by (simp add: last_entry_def)

lemma last_entry_SomeD:
  "last_entry ms s \<noteq> 0 \<Longrightarrow> \<exists>m \<in> set ms. im_slot m = s \<and> im_entry m = last_entry ms s"
  by (induction ms rule: rev_induct) (auto simp: last_entry_append last_entry_def split: if_splits)

lemma last_entry_distinct:
  "distinct (map im_slot ms) \<Longrightarrow> m \<in> set ms \<Longrightarrow> last_entry ms (im_slot m) = im_entry m"
proof (induction ms rule: rev_induct)
  case (snoc x ms)
  then show ?case by (cases "m = x") (auto simp: last_entry_append rev_image_eqI)
qed simp

lemma check_expected_ok:
  assumes "check_expected ms slot xs = is_ok" "i < length xs" "xs ! i \<noteq> Hash128_zero"
  shows "\<exists>m. find (\<lambda>m. im_slot m = slot + of_nat i) ms = Some m \<and> im_entry m \<noteq> 0 \<and> im_signature m = xs ! i"
  using assms
proof (induction xs arbitrary: slot i)
  case (Cons x xs)
  have eq: "hash_eq a b \<longleftrightarrow> a = b" for a b :: Hash128
    by (cases a; cases b) (simp add: hash_eq_def)
  have rest: "check_expected ms (slot + 1) xs = is_ok"
    using Cons.prems(1) by (auto split: if_splits option.splits)
  show ?case
  proof (cases i)
    case 0
    then show ?thesis using Cons.prems by (auto simp: eq split: if_splits option.splits)
  next
    case (Suc j)
    then show ?thesis using Cons.IH[OF rest, of j] Cons.prems(2,3) by (simp add: add.assoc)
  qed
qed simp

text \<open>The two loops are complete: a table within the capacity that satisfies the contract passes.\<close>

lemma scan_slots_total:
  "(\<And>m. m \<in> set ms \<Longrightarrow> unat (im_slot m) < mx) \<Longrightarrow> fst (scan_slots mx ms h) = is_ok"
  by (induction ms arbitrary: h) (simp_all add: not_le)

lemma check_expected_total:
  assumes "\<And>i. i < length xs \<Longrightarrow>
    \<exists>m. find (\<lambda>m. im_slot m = slot + of_nat i) ms = Some m \<and> im_entry m \<noteq> 0 \<and> im_signature m = xs ! i"
  shows "check_expected ms slot xs = is_ok"
  using assms
proof (induction xs arbitrary: slot)
  case (Cons x xs)
  have "check_expected ms (slot + 1) xs = is_ok"
    by (rule Cons.IH) (use Cons.prems[of "Suc i" for i] in \<open>simp add: add.assoc\<close>)
  moreover obtain m where "find (\<lambda>m. im_slot m = slot) ms = Some m" "im_entry m \<noteq> 0" "im_signature m = x"
    using Cons.prems[of 0] by auto
  ultimately show ?case by (simp add: hash_eq_def)
qed simp

lemma fill_slot_entries_total:
  assumes "\<And>m. m \<in> set ms \<Longrightarrow> unat (im_slot m) < mx" "check_expected ms 0 ex = is_ok"
  shows "\<exists>h. fill_slot_entries mx es ms ex = (is_ok, store_entries es ms, h)"
  using scan_slots_total[of ms mx 0] assms
  by (cases "scan_slots mx ms 0") (simp add: fill_slot_entries_def)

lemma fill_slot_entries_ok:
  assumes "fill_slot_entries mx es ms ex = (is_ok, es', h)"
  shows "check_expected ms 0 ex = is_ok" "\<And>m. m \<in> set ms \<Longrightarrow> unat (im_slot m) < mx"
    "es' = store_entries es ms"
  using assms by (auto simp: fill_slot_entries_def Let_def split: prod.splits if_splits dest: scan_slots_ok)

lemma fill_slot_entries_failed:
  "fill_slot_entries mx es ms ex = (st, es', h) \<Longrightarrow> st \<noteq> is_ok \<Longrightarrow> es' = es"
  by (auto simp: fill_slot_entries_def Let_def split: prod.splits if_splits)

lemma last_entry_once:
  "count_list (map im_slot ms) (im_slot m) = 1 \<Longrightarrow> m \<in> set ms \<Longrightarrow> last_entry ms (im_slot m) = im_entry m"
proof (induction ms rule: rev_induct)
  case (snoc x ms)
  show ?case
  proof (cases "im_slot x = im_slot m")
    case True
    then have "count_list (map im_slot ms) (im_slot m) = 0" using snoc.prems(1) by simp
    then have "m \<notin> set ms" by (auto simp: count_list_0_iff)
    then show ?thesis using snoc.prems(2) by (simp add: last_entry_append)
  next
    case False
    then show ?thesis using snoc by (auto simp: last_entry_append)
  qed
qed simp

section \<open>What a proxy needs of its slot cache\<close>

text \<open>What a checked call of a contract slot may do: the provider registered a method of the contract's signature
  for the slot; the call runs an adapter registered for the slot or reports a missing method; and when the
  provider names the slot once, it runs the adapter of that method.\<close>

definition verified_call :: "(uintptr_t \<Rightarrow> 'r) \<Rightarrow> InterfaceMethod list \<Rightarrow> u32 \<Rightarrow> InterfaceMethodHash \<Rightarrow> InterfaceStatus + 'r \<Rightarrow> bool" where
  "verified_call run ms s sig res \<longleftrightarrow>
     (\<exists>m \<in> set ms. im_slot m = s \<and> im_signature m = sig)
     \<and> (res = Inl is_method_not_found \<or> (\<exists>m \<in> set ms. im_slot m = s \<and> res = Inr (run (im_entry m))))
     \<and> (count_list (map im_slot ms) s = 1 \<longrightarrow>
          (\<exists>m \<in> set ms. im_slot m = s \<and> im_signature m = sig \<and> res = Inr (run (im_entry m))))"

locale slot_binding =
  fixes mx :: nat
    and methods_of :: "'p \<Rightarrow> InterfaceMethod list"
    and bind :: "'p \<Rightarrow> InterfaceMethodHash list \<Rightarrow> 'c \<times> InterfaceStatus"
    and entry :: "'c \<Rightarrow> u32 \<Rightarrow> uintptr_t"
  assumes bind_checks: "bind p ex = (c, is_ok) \<Longrightarrow> check_expected (methods_of p) 0 ex = is_ok"
    and bind_bounds: "bind p ex = (c, is_ok) \<Longrightarrow> m \<in> set (methods_of p) \<Longrightarrow> unat (im_slot m) < mx"
    and bind_entry: "bind p ex = (c, is_ok) \<Longrightarrow> unat s < mx \<Longrightarrow> entry c s = last_entry (methods_of p) s"
    and bind_outside: "mx \<le> unat s \<Longrightarrow> entry c s = 0"
    and bind_failed: "bind p ex = (c, st) \<Longrightarrow> st \<noteq> is_ok \<Longrightarrow> entry c s = 0"
begin

lemma verified:
  assumes bd: "bind p ex = (c, is_ok)" and d: "distinct (map im_slot (methods_of p))"
    and i: "i < length ex" "ex ! i \<noteq> Hash128_zero"
  shows "\<exists>m \<in> set (methods_of p). im_slot m = of_nat i \<and> im_signature m = ex ! i
           \<and> im_entry m \<noteq> 0 \<and> entry c (of_nat i) = im_entry m"
proof -
  obtain m where f: "find (\<lambda>m. im_slot m = 0 + of_nat i) (methods_of p) = Some m"
    and m: "im_entry m \<noteq> 0" "im_signature m = ex ! i"
    using check_expected_ok[OF bind_checks[OF bd] i] by blast
  have ms: "m \<in> set (methods_of p)" "im_slot m = of_nat i" using find_SomeD[OF f] by simp_all
  have "entry c (of_nat i) = im_entry m"
    using bind_entry[OF bd bind_bounds[OF bd ms(1)]] last_entry_distinct[OF d ms(1)] ms(2) by simp
  then show ?thesis using m ms by blast
qed

lemma called:
  assumes bd: "bind p ex = (c, is_ok)" and i: "i < length ex" "ex ! i \<noteq> Hash128_zero"
  shows "verified_call (\<lambda>e. invoke e obj args) (methods_of p) (of_nat i) (ex ! i)
           (checked_call invoke (entry c (of_nat i)) obj args)"
proof -
  let ?ms = "methods_of p" and ?s = "of_nat i :: u32"
  obtain m where f: "find (\<lambda>m. im_slot m = 0 + of_nat i) ?ms = Some m"
    and m: "im_entry m \<noteq> 0" "im_signature m = ex ! i"
    using check_expected_ok[OF bind_checks[OF bd] i] by blast
  have ms: "m \<in> set ?ms" "im_slot m = ?s" using find_SomeD[OF f] by simp_all
  have e: "entry c ?s = last_entry ?ms ?s" using bind_entry[OF bd bind_bounds[OF bd ms(1)]] ms(2) by simp
  have "entry c ?s = 0 \<or> (\<exists>m \<in> set ?ms. im_slot m = ?s \<and> im_entry m = entry c ?s)"
    using last_entry_SomeD e by metis
  moreover have "entry c ?s = im_entry m" if "count_list (map im_slot ?ms) ?s = 1"
    using last_entry_once[of ?ms m] that ms e by simp
  ultimately show ?thesis using m ms by (auto simp: verified_call_def checked_call_def)
qed

lemma only_provider:
  assumes "bind p ex = (c, st)" "entry c s \<noteq> 0"
  shows "st = is_ok \<and> (\<exists>m \<in> set (methods_of p). im_slot m = s \<and> im_entry m = entry c s)"
proof -
  have ok: "st = is_ok" using assms bind_failed by blast
  then have "unat s < mx" using assms bind_outside[of s c] by (metis not_le)
  then have "entry c s = last_entry (methods_of p) s" using bind_entry assms ok by blast
  then show ?thesis using assms(2) ok last_entry_SomeD by metis
qed

end

lemma slot_array_size_gt: "n < mx \<Longrightarrow> n < slot_array_size mx"
  by (simp add: slot_array_size_def)

lemma cache_resolve_methods_ok:
  assumes "cache_resolve_methods mx ms n obj ex = (c, is_ok)"
  shows "\<exists>h. fill_slot_entries mx (replicate (slot_array_size mx) 0) (arr_elems ms n) ex = (is_ok, sc_entries c, h)"
    and "sc_object c = obj" "obj \<noteq> 0"
  using assms by (auto simp: cache_resolve_methods_def cache_reset_def Let_def split: if_splits prod.splits)

lemma cache_resolve_methods_failed:
  "cache_resolve_methods mx ms n obj ex = (c, st) \<Longrightarrow> st \<noteq> is_ok \<Longrightarrow> c = cache_reset mx"
  by (auto simp: cache_resolve_methods_def Let_def split: if_splits prod.splits)

lemma table_build_ok:
  assumes "table_build mx ms n ex = (t, is_ok)"
  shows "\<exists>h. fill_slot_entries mx (replicate (slot_array_size mx) 0) (arr_elems ms n) ex = (is_ok, tb_entries t, h)"
    and "tb_ready t"
  using assms by (auto simp: table_build_def table_reset_def Let_def split: if_splits prod.splits)

lemma table_build_failed:
  assumes "table_build mx ms n ex = (t, st)" "st \<noteq> is_ok"
  shows "t = table_reset mx"
proof (cases "n \<noteq> 0 \<and> ms = None")
  case True
  then show ?thesis using assms by (simp add: table_build_def Let_def)
next
  case False
  obtain st' es h where f: "fill_slot_entries mx (tb_entries (table_reset mx)) (arr_elems ms n) ex = (st', es, h)"
    by (metis prod_cases3)
  then have "st' \<noteq> is_ok" "t = (table_reset mx)\<lparr>tb_entries := es\<rparr>"
    using assms False by (auto simp: table_build_def Let_def split: if_splits)
  then show ?thesis using fill_slot_entries_failed[OF f] by simp
qed

interpretation cache: slot_binding mx "\<lambda>(ms, n). arr_elems ms n"
  "\<lambda>(ms, n) ex. cache_resolve_methods mx ms n obj ex" "cache_method mx" for mx obj
proof
  fix p :: "InterfaceMethod arr \<times> u32" and ex c s st m
  obtain ms n where p: "p = (ms, n)" by (cases p)
  {
    assume "(case p of (ms, n) \<Rightarrow> \<lambda>ex. cache_resolve_methods mx ms n obj ex) ex = (c, is_ok)"
    then have "cache_resolve_methods mx ms n obj ex = (c, is_ok)" by (simp add: p)
    then obtain h where f: "fill_slot_entries mx (replicate (slot_array_size mx) 0) (arr_elems ms n) ex = (is_ok, sc_entries c, h)"
      using cache_resolve_methods_ok by blast
    show "check_expected (case p of (ms, n) \<Rightarrow> arr_elems ms n) 0 ex = is_ok"
      using fill_slot_entries_ok(1)[OF f] by (simp add: p)
    show "unat (im_slot m) < mx" if "m \<in> set (case p of (ms, n) \<Rightarrow> arr_elems ms n)"
      using fill_slot_entries_ok(2)[OF f] that by (simp add: p)
    show "cache_method mx c s = last_entry (case p of (ms, n) \<Rightarrow> arr_elems ms n) s" if "unat s < mx"
      using fill_slot_entries_ok(3)[OF f] that
      by (simp add: p cache_method_def store_entries_zero slot_array_size_gt)
  }
  show "mx \<le> unat s \<Longrightarrow> cache_method mx c s = 0" by (simp add: cache_method_def)
  assume "(case p of (ms, n) \<Rightarrow> \<lambda>ex. cache_resolve_methods mx ms n obj ex) ex = (c, st)" "st \<noteq> is_ok"
  then have "c = cache_reset mx" using cache_resolve_methods_failed by (simp add: p)
  then show "cache_method mx c s = 0"
    by (simp add: cache_method_def cache_reset_def slot_array_size_gt)
qed

interpretation table: slot_binding mx "\<lambda>(ms, n). arr_elems ms n"
  "\<lambda>(ms, n) ex. table_build mx ms n ex" "table_method mx" for mx
proof
  fix p :: "InterfaceMethod arr \<times> u32" and ex c s st m
  obtain ms n where p: "p = (ms, n)" by (cases p)
  {
    assume "(case p of (ms, n) \<Rightarrow> \<lambda>ex. table_build mx ms n ex) ex = (c, is_ok)"
    then have "table_build mx ms n ex = (c, is_ok)" by (simp add: p)
    then obtain h where f: "fill_slot_entries mx (replicate (slot_array_size mx) 0) (arr_elems ms n) ex = (is_ok, tb_entries c, h)"
      using table_build_ok by blast
    show "check_expected (case p of (ms, n) \<Rightarrow> arr_elems ms n) 0 ex = is_ok"
      using fill_slot_entries_ok(1)[OF f] by (simp add: p)
    show "unat (im_slot m) < mx" if "m \<in> set (case p of (ms, n) \<Rightarrow> arr_elems ms n)"
      using fill_slot_entries_ok(2)[OF f] that by (simp add: p)
    show "table_method mx c s = last_entry (case p of (ms, n) \<Rightarrow> arr_elems ms n) s" if "unat s < mx"
      using fill_slot_entries_ok(3)[OF f] that
      by (simp add: p table_method_def store_entries_zero slot_array_size_gt)
  }
  show "mx \<le> unat s \<Longrightarrow> table_method mx c s = 0" by (simp add: table_method_def)
  assume "(case p of (ms, n) \<Rightarrow> \<lambda>ex. table_build mx ms n ex) ex = (c, st)" "st \<noteq> is_ok"
  then have "c = table_reset mx" using table_build_failed by (simp add: p)
  then show "table_method mx c s = 0"
    by (simp add: table_method_def table_reset_def slot_array_size_gt)
qed

lemma cache_resolve_methods_total:
  assumes "\<And>m. m \<in> set (arr_elems ms n) \<Longrightarrow> unat (im_slot m) < mx" "check_expected (arr_elems ms n) 0 ex = is_ok"
    "obj \<noteq> 0" "ms \<noteq> None"
  shows "\<exists>c. cache_resolve_methods mx ms n obj ex = (c, is_ok)"
  using fill_slot_entries_total[OF assms(1,2), of "sc_entries (cache_reset mx)"] assms(3,4)
  by (auto simp: cache_resolve_methods_def Let_def)

lemma table_build_total:
  assumes "\<And>m. m \<in> set (arr_elems ms n) \<Longrightarrow> unat (im_slot m) < mx" "check_expected (arr_elems ms n) 0 ex = is_ok"
    "ms \<noteq> None"
  shows "\<exists>t. table_build mx ms n ex = (t, is_ok)"
  using fill_slot_entries_total[OF assms(1,2), of "tb_entries (table_reset mx)"] assms(3)
  by (auto simp: table_build_def Let_def)

section \<open>Registry lemmas\<close>

interpretation impls: scan_registry ir_entries impl_key "\<lambda>r (t, i, v). find_exact r t i v"
  by unfold_locales (auto simp: find_exact_def impl_key_def intro!: arg_cong2[where f = find])

lemma newest_scan_spec:
  assumes "newest_scan t i best es = Some e"
    and "\<And>b. best = Some b \<Longrightarrow> ii_concrete_type b = t \<and> ii_interface_id b = i"
  shows "(e \<in> set es \<or> best = Some e) \<and> ii_concrete_type e = t \<and> ii_interface_id e = i
     \<and> (\<forall>x \<in> set es. ii_concrete_type x = t \<longrightarrow> ii_interface_id x = i \<longrightarrow> ii_version x \<le> ii_version e)
     \<and> (\<forall>b. best = Some b \<longrightarrow> ii_version b \<le> ii_version e)"
  using assms
proof (induction es arbitrary: best)
  case (Cons x es)
  show ?case
  proof (cases "ii_concrete_type x \<noteq> t \<or> ii_interface_id x \<noteq> i")
    case True
    then show ?thesis using Cons.IH[of best] Cons.prems by auto
  next
    case False
    let ?b = "case best of None \<Rightarrow> Some x | Some b \<Rightarrow> if ii_version x \<ge> ii_version b then Some x else best"
    have "newest_scan t i ?b es = Some e" using Cons.prems(1) False by simp
    then have ih: "(e \<in> set es \<or> ?b = Some e) \<and> ii_concrete_type e = t \<and> ii_interface_id e = i
       \<and> (\<forall>x \<in> set es. ii_concrete_type x = t \<longrightarrow> ii_interface_id x = i \<longrightarrow> ii_version x \<le> ii_version e)
       \<and> (\<forall>b. ?b = Some b \<longrightarrow> ii_version b \<le> ii_version e)"
      by (rule Cons.IH) (use Cons.prems(2) False in \<open>auto split: option.splits if_splits\<close>)
    have "ii_version x \<le> ii_version e \<and> (\<forall>b. best = Some b \<longrightarrow> ii_version b \<le> ii_version e)"
      using ih by (cases best) (auto split: if_splits)
    then show ?thesis using ih by (cases best) (auto split: if_splits)
  qed
qed simp

lemma newest_scan_None:
  "newest_scan t i best es = None \<longleftrightarrow>
     best = None \<and> (\<forall>x \<in> set es. ii_concrete_type x \<noteq> t \<or> ii_interface_id x \<noteq> i)"
  by (induction es arbitrary: best) (auto split: option.splits if_splits)

lemma interface_find_Some:
  assumes "interface_find reg t i v = (reg', Some e)"
  shows "e \<in> set (ir_entries reg)" "ii_concrete_type e = t" "ii_interface_id e = i"
    "v \<noteq> 0 \<Longrightarrow> ii_version e = v"
    "v = 0 \<Longrightarrow> x \<in> set (ir_entries reg) \<Longrightarrow> ii_concrete_type x = t \<Longrightarrow> ii_interface_id x = i
       \<Longrightarrow> ii_version x \<le> ii_version e"
    "ir_entries reg' = ir_entries reg" "ir_lookups reg' = ir_lookups reg + 1"
proof -
  have "(if v = 0 then newest_scan t i None (ir_entries reg)
     else find (\<lambda>e. ii_concrete_type e = t \<and> ii_interface_id e = i \<and> ii_version e = v) (ir_entries reg)) = Some e"
    using assms by (auto simp: interface_find_def find_newest_def find_exact_def Let_def split: if_splits)
  then show "e \<in> set (ir_entries reg)" "ii_concrete_type e = t" "ii_interface_id e = i"
    "v \<noteq> 0 \<Longrightarrow> ii_version e = v"
    "v = 0 \<Longrightarrow> x \<in> set (ir_entries reg) \<Longrightarrow> ii_concrete_type x = t \<Longrightarrow> ii_interface_id x = i
       \<Longrightarrow> ii_version x \<le> ii_version e"
    using newest_scan_spec[of t i None "ir_entries reg" e] by (auto split: if_splits dest: find_SomeD)
  show "ir_entries reg' = ir_entries reg" "ir_lookups reg' = ir_lookups reg + 1"
    using assms by (auto simp: interface_find_def Let_def)
qed

text \<open>What a lookup without result means: with version 0 the pair is unknown; with a version, no entry
  has exactly that one, and the status tells whether another version exists.\<close>

lemma missing_status_exact:
  "missing_status reg t i = (if \<exists>x \<in> set (ir_entries reg). ii_concrete_type x = t \<and> ii_interface_id x = i
     then is_version_mismatch else is_interface_not_found)"
  using newest_scan_None[of t i None "ir_entries reg"]
  by (auto simp: missing_status_def interface_available_def find_newest_def)

lemma interface_add_distinct:
  assumes "interface_add cap reg impl = (reg', st)" "distinct (map impl_key (ir_entries reg))"
    "length (ir_entries reg) \<le> cap"
  shows "distinct (map impl_key (ir_entries reg'))" "length (ir_entries reg') \<le> cap"
proof -
  show "length (ir_entries reg') \<le> cap"
    using assms by (auto simp: interface_add_def split: if_splits)
  show "distinct (map impl_key (ir_entries reg'))"
  proof (cases "st = is_ok")
    case True
    then have e: "ir_entries reg' = ir_entries reg @ [impl]"
      and n: "find_exact reg (ii_concrete_type impl) (ii_interface_id impl) (ii_version impl) = None"
      using assms(1) by (auto simp: interface_add_def split: if_splits)
    show ?thesis using assms(2) _ _ e
      by (rule impls.keys_distinct_append) (use n in \<open>simp_all add: impl_key_def\<close>)
  next
    case False
    then show ?thesis using assms by (auto simp: interface_add_def split: if_splits)
  qed
qed

section \<open>Proxy lemmas\<close>

lemma unique_bind_ok:
  assumes "unique_bind tr reg obj t v = (reg', p)" "up_status p = is_ok"
  shows "\<exists>e. interface_find reg t (tr_id tr) v = (reg', Some e) \<and>
     cache_resolve_methods (slot_capacity tr) (ii_methods e) (ii_method_count e) obj (tr_signatures tr)
       = (up_ref p, is_ok)"
  using assms
  by (auto simp: unique_bind_def cache_resolve_def missing_status_def split: prod.splits option.splits if_splits)

lemma shared_bind_ok:
  assumes "shared_bind tr tables a reg obj t v = (reg', tables', p)" "sp_status p = is_ok"
  shows "\<exists>e. interface_find reg t (tr_id tr) v = (reg', Some e) \<and>
     table_build (slot_capacity tr) (ii_methods e) (ii_method_count e) (tr_signatures tr) = (tables' a, is_ok)
     \<and> sp_table p = Some a \<and> sp_object p = obj \<and> obj \<noteq> 0"
  using assms
  by (auto simp: shared_bind_def make_shared_slot_table_def shared_bind_table_def missing_status_def
      split: prod.splits option.splits if_splits)

text \<open>A table shared by several proxies: rebuilding it unsuccessfully disables all of them.\<close>

lemma shared_rebuild_failed:
  assumes "make_shared_slot_table tr tables a reg t v = (reg', tables', st)" "st \<noteq> is_ok"
    "sp_table p = Some a"
  shows "\<not> shared_valid tables' p" "shared_call_checked invoke tr tables' p slot args = Inl is_method_not_found"
proof -
  have t: "tables' a = table_reset (slot_capacity tr)"
    using assms(1,2) table_build_failed
    by (auto simp: make_shared_slot_table_def split: prod.splits option.splits)
  show "\<not> shared_valid tables' p" using assms(3) t by (simp add: shared_valid_def table_reset_def)
  show "shared_call_checked invoke tr tables' p slot args = Inl is_method_not_found"
    using assms(3) t by (simp add: shared_call_checked_def checked_call_def shared_method_def
        table_method_def table_reset_def slot_array_size_gt)
qed

section \<open>Properties\<close>

text \<open>C2. Whatever way a proxy is bound, inline or through a shared table, and whatever the provider registered: after a
  successful bind the provider found has the type, interface and version asked for and registered a method with
  exactly the contract's signature for each contract slot; a checked call of the slot runs an adapter registered
  for that slot, on the bound object, or reports a missing method; and if the provider's table names the slot
  once, the call runs the adapter of that method. With a slot named twice the signature of the adapter run is
  not checked (\<open>duplicate_slot_bypasses_check\<close>).\<close>

theorem proxy_calls_verified:
  assumes "i < slot_capacity tr" "tr_signatures tr ! i \<noteq> Hash128_zero"
  shows "(unique_bind tr reg obj t v = (reg1, p) \<and> up_status p = is_ok \<longrightarrow>
           (\<exists>e \<in> set (ir_entries reg). ii_concrete_type e = t \<and> ii_interface_id e = tr_id tr \<and> (v = 0 \<or> ii_version e = v)
              \<and> verified_call (\<lambda>fn. invoke fn obj args) (arr_elems (ii_methods e) (ii_method_count e)) (of_nat i)
                   (tr_signatures tr ! i) (unique_call_checked invoke tr p (of_nat i) args)))
       \<and> (shared_bind tr tables a reg obj t v = (reg2, tables', q) \<and> sp_status q = is_ok \<longrightarrow>
           (\<exists>e \<in> set (ir_entries reg). ii_concrete_type e = t \<and> ii_interface_id e = tr_id tr \<and> (v = 0 \<or> ii_version e = v)
              \<and> verified_call (\<lambda>fn. invoke fn obj args) (arr_elems (ii_methods e) (ii_method_count e)) (of_nat i)
                   (tr_signatures tr ! i) (shared_call_checked invoke tr tables' q (of_nat i) args)))"
proof (intro conjI impI; elim conjE)
  have len: "i < length (tr_signatures tr)" using assms(1) by (simp add: slot_capacity_def)
  {
    assume u: "unique_bind tr reg obj t v = (reg1, p)" "up_status p = is_ok"
    then obtain e where e: "interface_find reg t (tr_id tr) v = (reg1, Some e)"
      and c: "cache_resolve_methods (slot_capacity tr) (ii_methods e) (ii_method_count e) obj (tr_signatures tr)
                = (up_ref p, is_ok)"
      using unique_bind_ok by blast
    show "\<exists>e \<in> set (ir_entries reg). ii_concrete_type e = t \<and> ii_interface_id e = tr_id tr \<and> (v = 0 \<or> ii_version e = v)
              \<and> verified_call (\<lambda>fn. invoke fn obj args) (arr_elems (ii_methods e) (ii_method_count e)) (of_nat i)
                   (tr_signatures tr ! i) (unique_call_checked invoke tr p (of_nat i) args)"
      using interface_find_Some(1-4)[OF e] cache_resolve_methods_ok(2)[OF c]
        cache.called[of "slot_capacity tr" obj "(ii_methods e, ii_method_count e)" "tr_signatures tr" "up_ref p" i invoke obj args]
        c len assms(2) by (auto simp: unique_call_checked_def unique_method_def)
  }
  assume u: "shared_bind tr tables a reg obj t v = (reg2, tables', q)" "sp_status q = is_ok"
  then obtain e where e: "interface_find reg t (tr_id tr) v = (reg2, Some e)"
    and c: "table_build (slot_capacity tr) (ii_methods e) (ii_method_count e) (tr_signatures tr) = (tables' a, is_ok)"
    and q: "sp_table q = Some a" "sp_object q = obj"
    using shared_bind_ok by blast
  show "\<exists>e \<in> set (ir_entries reg). ii_concrete_type e = t \<and> ii_interface_id e = tr_id tr \<and> (v = 0 \<or> ii_version e = v)
              \<and> verified_call (\<lambda>fn. invoke fn obj args) (arr_elems (ii_methods e) (ii_method_count e)) (of_nat i)
                   (tr_signatures tr ! i) (shared_call_checked invoke tr tables' q (of_nat i) args)"
    using interface_find_Some(1-4)[OF e] q
      table.called[of "slot_capacity tr" "(ii_methods e, ii_method_count e)" "tr_signatures tr" "tables' a" i invoke obj args]
      c len assms(2) by (auto simp: shared_call_checked_def shared_method_def)
qed

definition shape_traits :: Traits where
  "shape_traits = \<lparr>tr_id = \<lparr>lo = 1, hi = 2\<rparr>, tr_version = 1, tr_signatures = [\<lparr>lo = 3, hi = 4\<rparr>]\<rparr>"

definition shape_impl :: "InterfaceMethod list \<Rightarrow> InterfaceImplementation" where
  "shape_impl ms = \<lparr>ii_interface_id = \<lparr>lo = 1, hi = 2\<rparr>, ii_concrete_type = \<lparr>lo = 9, hi = 9\<rparr>, ii_methods = Some ms,
     ii_method_count = of_nat (length ms), ii_version = 1, ii_flags = 0\<rparr>"

lemmas binding_defs =
  shape_traits_def shape_impl_def unique_bind_def cache_resolve_def interface_find_def find_exact_def
  cache_resolve_methods_def cache_reset_def fill_slot_entries_def arr_elems_def slot_capacity_def
  slot_array_size_def hash_eq_def Hash128_zero_def unique_call_checked_def checked_call_def
  unique_method_def cache_method_def

theorem proxy_calls_verified_witness:
  "\<exists>e \<in> {shape_impl [\<lparr>im_signature = \<lparr>lo = 3, hi = 4\<rparr>, im_entry = 77, im_slot = 0, im_flags = 0\<rparr>]}.
     \<exists>m \<in> set (arr_elems (ii_methods e) (ii_method_count e)). im_signature m = \<lparr>lo = 3, hi = 4\<rparr> \<and>
     (case unique_bind shape_traits \<lparr>ir_entries = [e], ir_lookups = 0\<rparr> 500 \<lparr>lo = 9, hi = 9\<rparr> 1 of
        (reg, p) \<Rightarrow> unique_call_checked (\<lambda>fn ob x. (fn, ob, x)) shape_traits p 0 (5 :: int) = Inr (im_entry m, 500, 5))"
proof -
  let ?e = "shape_impl [\<lparr>im_signature = \<lparr>lo = 3, hi = 4\<rparr>, im_entry = 77, im_slot = 0, im_flags = 0\<rparr>]"
  let ?reg = "\<lparr>ir_entries = [?e], ir_lookups = 0\<rparr>"
  obtain reg p where b: "unique_bind shape_traits ?reg 500 \<lparr>lo = 9, hi = 9\<rparr> 1 = (reg, p)"
    by (metis surj_pair)
  then have st: "up_status p = is_ok" by (auto simp: binding_defs)
  have "\<exists>e \<in> set (ir_entries ?reg). verified_call (\<lambda>fn. (fn, 500 :: vptr, 5 :: int))
      (arr_elems (ii_methods e) (ii_method_count e)) (of_nat 0) (tr_signatures shape_traits ! 0)
      (unique_call_checked (\<lambda>fn ob x. (fn, ob, x)) shape_traits p (of_nat 0) 5)"
    using proxy_calls_verified[of 0 shape_traits ?reg 500 "\<lparr>lo = 9, hi = 9\<rparr>" 1 reg p "\<lambda>fn ob (x :: int). (fn, ob, x)" 5,
        THEN conjunct1] b st
    by (auto simp: shape_traits_def slot_capacity_def Hash128_zero_def)
  then have "\<exists>m \<in> set (arr_elems (ii_methods ?e) (ii_method_count ?e)). im_signature m = \<lparr>lo = 3, hi = 4\<rparr> \<and>
      unique_call_checked (\<lambda>fn ob x. (fn, ob, x)) shape_traits p 0 (5 :: int) = Inr (im_entry m, 500, 5)"
    by (simp add: verified_call_def shape_impl_def shape_traits_def arr_elems_def)
  then show ?thesis using b by simp
qed

text \<open>When a provider's table names a slot twice the contract check reads the first method and the
  binding stores the last: registration and binding succeed, and the call runs an adapter whose
  recorded signature is not the contract's.\<close>

lemma duplicate_slot_bypasses_check:
  assumes "A \<noteq> Hash128_zero" "A \<noteq> B" "e1 \<noteq> 0" "e2 \<noteq> 0" "obj \<noteq> 0" "iid \<noteq> Hash128_zero" "t \<noteq> Hash128_zero"
    and "impl = \<lparr>ii_interface_id = iid, ii_concrete_type = t,
           ii_methods = Some [\<lparr>im_signature = A, im_entry = e1, im_slot = 0, im_flags = 0\<rparr>,
                              \<lparr>im_signature = B, im_entry = e2, im_slot = 0, im_flags = 0\<rparr>],
           ii_method_count = 2, ii_version = 1, ii_flags = 0\<rparr>"
    and "tr = \<lparr>tr_id = iid, tr_version = 1, tr_signatures = [A]\<rparr>"
  shows "\<exists>reg reg' p. interface_add 64 empty_interface_registry impl = (reg, is_ok)
     \<and> unique_bind tr reg obj t 1 = (reg', p) \<and> unique_valid p
     \<and> unique_call_checked invoke tr p 0 args = Inr (invoke e2 obj args)"
proof -
  have eq: "hash_eq a b \<longleftrightarrow> a = b" for a b :: Hash128
    by (cases a; cases b) (simp add: hash_eq_def)
  let ?reg = "\<lparr>ir_entries = [impl], ir_lookups = 0\<rparr>"
  let ?c = "\<lparr>sc_object = obj, sc_method_count = 1, sc_entries = [e2]\<rparr>"
  have add: "interface_add 64 empty_interface_registry impl = (?reg, is_ok)"
    using assms(6,7) by (simp add: interface_add_def empty_interface_registry_def assms(8) eq find_exact_def)
  have fnd: "interface_find ?reg t iid 1 = (?reg\<lparr>ir_lookups := 1\<rparr>, Some impl)"
    by (simp add: interface_find_def find_exact_def assms(8))
  have "cache_resolve_methods 1 (ii_methods impl) (ii_method_count impl) obj [A] = (?c, is_ok)"
    using assms(1,3,5) by (simp add: cache_resolve_methods_def assms(8) eq fill_slot_entries_def
        cache_reset_def arr_elems_def slot_array_size_def)
  then have "unique_bind tr ?reg obj t 1 = (?reg\<lparr>ir_lookups := 1\<rparr>, \<lparr>up_ref = ?c, up_status = is_ok\<rparr>)"
    using assms(5) fnd by (simp add: unique_bind_def cache_resolve_def assms(9) slot_capacity_def)
  moreover have "unique_valid \<lparr>up_ref = ?c, up_status = is_ok\<rparr>"
    using assms(5) by (simp add: unique_valid_def cache_valid_def)
  moreover have "unique_call_checked invoke tr \<lparr>up_ref = ?c, up_status = is_ok\<rparr> 0 args = Inr (invoke e2 obj args)"
    using assms(4) by (simp add: unique_call_checked_def checked_call_def unique_method_def cache_method_def
        assms(9) slot_capacity_def)
  ultimately show ?thesis using add by blast
qed

lemma duplicate_slot_bypasses_check_witness:
  "\<exists>reg reg' p. interface_add 64 empty_interface_registry
       \<lparr>ii_interface_id = \<lparr>lo = 1, hi = 2\<rparr>, ii_concrete_type = \<lparr>lo = 9, hi = 9\<rparr>,
        ii_methods = Some [\<lparr>im_signature = \<lparr>lo = 3, hi = 4\<rparr>, im_entry = 77, im_slot = 0, im_flags = 0\<rparr>,
                           \<lparr>im_signature = \<lparr>lo = 5, hi = 6\<rparr>, im_entry = 88, im_slot = 0, im_flags = 0\<rparr>],
        ii_method_count = 2, ii_version = 1, ii_flags = 0\<rparr> = (reg, is_ok)
     \<and> unique_bind shape_traits reg 500 \<lparr>lo = 9, hi = 9\<rparr> 1 = (reg', p) \<and> unique_valid p
     \<and> unique_call_checked (\<lambda>fn ob x. fn) shape_traits p 0 () = Inr 88"
  using duplicate_slot_bypasses_check[of "\<lparr>lo = 3, hi = 4\<rparr>" "\<lparr>lo = 5, hi = 6\<rparr>" 77 88 500 "\<lparr>lo = 1, hi = 2\<rparr>"
      "\<lparr>lo = 9, hi = 9\<rparr>" _ shape_traits "\<lambda>fn ob x. fn" "()"]
  by (simp add: shape_traits_def Hash128_zero_def)

end
