(* ===== verification/Interface_Declaration.thy ===== *)
theory Interface_Declaration
  imports Interface_Binding
begin

text \<open>
  The declaration macros of \<open>Interface/Declaration.h\<close>. A method list is a list of \<open>MethodDecl\<close>; what the
  macros generate from it is a value: the \<open>Traits\<close> with its slot constants, the adapters of a provider's
  members, the provider's method table and registration record, and the two methods per list entry
  (unchecked and checked). A name that is no field of \<open>Slots\<close> does not compile: \<open>None\<close>.

  \<open>mics::util::make_iota\<close> is not part of the repository; it is the parameter \<open>iota\<close>, and the documented
  \<open>slots are zero-based, list order is slot order\<close> is the hypothesis on it. Objects live in a heap
  \<open>vptr \<Rightarrow> 's\<close>, so a call is a function of the heap; \<open>addr\<close> gives the address of the adapter the compiler
  generates for a member and \<open>invoke\<close> is the call through such an address.
\<close>

section \<open>Traits\<close>

text \<open>A list entry \<open>X(fn, ret_t, reg_ret_t, {params})\<close>; \<open>md_native\<close> is the spelling of \<open>ret_t\<close>. Parameter types are not
  part of an entry: the proxies take them from the call.\<close>

record MethodDecl =
  md_name :: string
  md_native :: string
  md_return :: TypeId
  md_params :: "TypeId list"

definition method_item :: "MethodDecl \<Rightarrow> InterfaceMethodHash option" where
  "method_item x = method_signature (Some (md_name x)) (md_return x) (md_params x)"

definition interface_traits :: "string \<Rightarrow> MethodDecl list \<Rightarrow> u32 \<Rightarrow> Traits option" where
  "interface_traits type xs ver =
     Option.bind (those (map method_item xs)) (\<lambda>signatures.
       Option.bind (interface_id (Some type) ver signatures) (\<lambda>iid.
         Some \<lparr>tr_id = iid, tr_version = ver, tr_signatures = signatures\<rparr>))"

type_synonym slots = "(string \<times> u32) list"

definition interface_slots :: "(nat \<Rightarrow> u32 list) \<Rightarrow> MethodDecl list \<Rightarrow> slots" where
  "interface_slots iota xs = zip (map md_name xs) (iota (length xs))"

text \<open>The macros as a whole. Two entries of one name would declare a field of \<open>Slots\<close> twice, and the checked
  method of a \<open>void\<close> entry would take a reference to \<open>void\<close>: neither compiles.\<close>

definition interface_declare :: "(nat \<Rightarrow> u32 list) \<Rightarrow> string \<Rightarrow> MethodDecl list \<Rightarrow> u32 \<Rightarrow> (Traits \<times> slots) option" where
  "interface_declare iota type xs ver =
     (if distinct (map md_name xs) \<and> (\<forall>x \<in> set xs. md_native x \<noteq> ''void'')
      then map_option (\<lambda>tr. (tr, interface_slots iota xs)) (interface_traits type xs ver) else None)"

definition slot_field :: "slots \<Rightarrow> string \<Rightarrow> u32 option" where
  "slot_field sl fn = map_of sl fn"

section \<open>Adapters and tables of a provider\<close>

datatype ('s, 'a, 'r) cxx_member =
    Nonconst_member "'s \<Rightarrow> 'a \<Rightarrow> 'r \<times> 's"
  | Const_member "'s \<Rightarrow> 'a \<Rightarrow> 'r"
  | Static_member "'a \<Rightarrow> 'r"

fun member_adapter :: "('s, 'a, 'r) cxx_member \<Rightarrow> vptr \<Rightarrow> 'a \<Rightarrow> (vptr \<Rightarrow> 's) \<Rightarrow> 'r \<times> (vptr \<Rightarrow> 's)" where
  "member_adapter (Nonconst_member f) self args heap = (case f (heap self) args of (r, s) \<Rightarrow> (r, heap(self := s)))"
| "member_adapter (Const_member f) self args heap = (f (heap self) args, heap)"
| "member_adapter (Static_member f) self args heap = (f args, heap)"

definition member_entry :: "(('s, 'a, 'r) cxx_member \<Rightarrow> uintptr_t) \<Rightarrow> Traits \<Rightarrow> slots \<Rightarrow> string
    \<Rightarrow> ('s, 'a, 'r) cxx_member \<Rightarrow> InterfaceMethod option" where
  "member_entry addr tr sl slot_name member =
     Option.bind (slot_field sl slot_name) (\<lambda>slot.
       if unat slot < length (tr_signatures tr)
       then Some \<lparr>im_signature = tr_signatures tr ! unat slot, im_entry = addr member, im_slot = slot, im_flags = 0\<rparr>
       else None)"

definition member_table :: "(('s, 'a, 'r) cxx_member \<Rightarrow> uintptr_t) \<Rightarrow> Traits \<Rightarrow> slots
    \<Rightarrow> (string \<times> ('s, 'a, 'r) cxx_member) list \<Rightarrow> InterfaceMethod list option" where
  "member_table addr tr sl xs = those (map (\<lambda>(n, m). member_entry addr tr sl n m) xs)"

definition implementation_record :: "Traits \<Rightarrow> InterfaceMethod list \<Rightarrow> TypeId \<Rightarrow> u32 \<Rightarrow> InterfaceImplementation" where
  "implementation_record tr ms type flags =
     \<lparr>ii_interface_id = tr_id tr, ii_concrete_type = type, ii_methods = Some ms, ii_method_count = of_nat (length ms),
      ii_version = tr_version tr, ii_flags = flags\<rparr>"

section \<open>Generated methods\<close>

text \<open>Each list entry gives an unchecked and a checked method; \<open>None\<close> from the lookup of the field is again a
  program that does not compile, \<open>None\<close> from the unchecked call is a call through a null pointer.\<close>

definition unique_forward :: "(uintptr_t \<Rightarrow> vptr \<Rightarrow> 'a \<Rightarrow> 'c) \<Rightarrow> Traits \<Rightarrow> slots \<Rightarrow> UniqueInterfaceProxy \<Rightarrow> string
    \<Rightarrow> 'a \<Rightarrow> 'c option" where
  "unique_forward invoke tr sl p fn args =
     Option.bind (slot_field sl fn) (\<lambda>slot. unique_call invoke tr p slot args)"

definition unique_forward_checked :: "(uintptr_t \<Rightarrow> vptr \<Rightarrow> 'a \<Rightarrow> 'c) \<Rightarrow> Traits \<Rightarrow> slots \<Rightarrow> UniqueInterfaceProxy
    \<Rightarrow> string \<Rightarrow> 'a \<Rightarrow> (InterfaceStatus + 'c) option" where
  "unique_forward_checked invoke tr sl p fn args =
     map_option (\<lambda>slot. unique_call_checked invoke tr p slot args) (slot_field sl fn)"

definition shared_forward :: "(uintptr_t \<Rightarrow> vptr \<Rightarrow> 'a \<Rightarrow> 'c) \<Rightarrow> Traits \<Rightarrow> slots \<Rightarrow> table_store
    \<Rightarrow> SharedInterfaceProxy \<Rightarrow> string \<Rightarrow> 'a \<Rightarrow> 'c option" where
  "shared_forward invoke tr sl tables p fn args =
     Option.bind (slot_field sl fn) (\<lambda>slot. shared_call invoke tr tables p slot args)"

definition shared_forward_checked :: "(uintptr_t \<Rightarrow> vptr \<Rightarrow> 'a \<Rightarrow> 'c) \<Rightarrow> Traits \<Rightarrow> slots \<Rightarrow> table_store
    \<Rightarrow> SharedInterfaceProxy \<Rightarrow> string \<Rightarrow> 'a \<Rightarrow> (InterfaceStatus + 'c) option" where
  "shared_forward_checked invoke tr sl tables p fn args =
     map_option (\<lambda>slot. shared_call_checked invoke tr tables p slot args) (slot_field sl fn)"

section \<open>The generated constants\<close>

lemma those_Some: "(\<And>x. x \<in> set xs \<Longrightarrow> f x \<noteq> None) \<Longrightarrow> those (map f xs) = Some (map (the \<circ> f) xs)"
proof (induction xs)
  case (Cons x xs)
  then obtain y where "f x = Some y" by fastforce
  with Cons show ?case by simp
qed simp

lemma interface_traits_Some:
  "\<exists>tr. interface_traits type xs ver = Some tr \<and> tr_version tr = ver \<and> length (tr_signatures tr) = length xs"
  by (simp add: interface_traits_def those_Some method_item_def method_signature_digest interface_id_digest)

lemma slot_field_nth:
  assumes "distinct (map md_name xs)" "i < length xs" "\<And>n. iota n = map of_nat [0..<n]"
  shows "slot_field (interface_slots iota xs) (md_name (xs ! i)) = Some (of_nat i)"
proof -
  have "slot_field (interface_slots iota xs) (map md_name xs ! i) = Some (map of_nat [0..<length xs] ! i)"
    unfolding slot_field_def interface_slots_def assms(3) using assms(1,2) by (intro map_of_zip_nth) simp_all
  with assms(2) show ?thesis by simp
qed

lemma slot_field_index:
  assumes "distinct (map md_name xs)" "fn \<in> md_name ` set xs" "\<And>n. iota n = map of_nat [0..<n]"
  obtains i where "i < length xs" "md_name (xs ! i) = fn" "slot_field (interface_slots iota xs) fn = Some (of_nat i)"
proof -
  obtain i where i: "i < length xs" "fn = md_name (xs ! i)" using assms(2) by (auto simp: in_set_conv_nth)
  from i that show thesis using slot_field_nth[OF assms(1) i(1) assms(3)] by simp
qed

section \<open>The table of a complete provider\<close>

text \<open>\<open>complete_provider\<close>: one member for each declared method, in any order.\<close>

definition complete_provider :: "MethodDecl list \<Rightarrow> (string \<times> ('s, 'a, 'r) cxx_member) list \<Rightarrow> bool" where
  "complete_provider xs ps \<longleftrightarrow> distinct (map md_name xs) \<and> length xs < 2 ^ 32 \<and> distinct (map fst ps) \<and>
     fst ` set ps = md_name ` set xs"

lemma member_entry_at:
  assumes "complete_provider xs ps" "length (tr_signatures tr) = length xs" "(n, m) \<in> set ps"
    "\<And>n. iota n = map of_nat [0..<n]"
  obtains i where "i < length xs" "md_name (xs ! i) = n" "slot_field (interface_slots iota xs) n = Some (of_nat i)"
    "member_entry addr tr (interface_slots iota xs) n m =
       Some \<lparr>im_signature = tr_signatures tr ! i, im_entry = addr m, im_slot = of_nat i, im_flags = 0\<rparr>"
proof -
  have "n \<in> fst ` set ps" using assms(3) by force
  then have "n \<in> md_name ` set xs" "distinct (map md_name xs)" using assms(1) by (simp_all add: complete_provider_def)
  then obtain i where i: "i < length xs" "md_name (xs ! i) = n" "slot_field (interface_slots iota xs) n = Some (of_nat i)"
    using slot_field_index[of xs n iota] assms(4) by metis
  moreover have "unat (of_nat i :: u32) = i"
    using i(1) assms(1) by (intro unat_of_nat_small) (simp add: complete_provider_def)
  ultimately show thesis using that[of i] assms(2) by (simp add: member_entry_def)
qed

lemma member_table_Some:
  assumes "complete_provider xs ps" "length (tr_signatures tr) = length xs" "\<And>n. iota n = map of_nat [0..<n]"
  shows "member_table addr tr (interface_slots iota xs) ps =
    Some (map (\<lambda>(n, m). the (member_entry addr tr (interface_slots iota xs) n m)) ps)"
proof -
  have "(case q of (n, m) \<Rightarrow> member_entry addr tr (interface_slots iota xs) n m) \<noteq> None" if "q \<in> set ps" for q
  proof -
    have "(fst q, snd q) \<in> set ps" using that by simp
    then show ?thesis by (rule member_entry_at[OF assms(1,2) _ assms(3), of _ _ addr]) (simp add: case_prod_beta)
  qed
  then have "those (map (\<lambda>(n, m). member_entry addr tr (interface_slots iota xs) n m) ps) =
      Some (map (the \<circ> (\<lambda>(n, m). member_entry addr tr (interface_slots iota xs) n m)) ps)"
    by (rule those_Some)
  then show ?thesis by (simp add: member_table_def comp_def case_prod_beta)
qed

text \<open>Every method of the table is the entry of one declared method, and each slot occurs once.\<close>

lemma member_table_entries:
  assumes "complete_provider xs ps" "length (tr_signatures tr) = length xs" "\<And>n. iota n = map of_nat [0..<n]"
    and "member_table addr tr (interface_slots iota xs) ps = Some ms"
  shows "length ms = length xs" "\<And>m. m \<in> set ms \<Longrightarrow> unat (im_slot m) < length xs" "distinct (map im_slot ms)"
    "\<And>n m. (n, m) \<in> set ps \<Longrightarrow> \<exists>i < length xs. md_name (xs ! i) = n \<and>
       slot_field (interface_slots iota xs) n = Some (of_nat i) \<and>
       \<lparr>im_signature = tr_signatures tr ! i, im_entry = addr m, im_slot = of_nat i, im_flags = 0\<rparr> \<in> set ms"
proof -
  let ?sl = "interface_slots iota xs"
  have ms: "ms = map (\<lambda>(n, m). the (member_entry addr tr ?sl n m)) ps"
    using member_table_Some[OF assms(1-3), of addr] assms(4) by simp
  have small: "unat (of_nat i :: u32) = i" if "i < length xs" for i
    using that assms(1) by (intro unat_of_nat_small) (simp add: complete_provider_def)
  have "length ps = length xs"
    using assms(1) distinct_card[of "map fst ps"] distinct_card[of "map md_name xs"] by (simp add: complete_provider_def)
  then show "length ms = length xs" by (simp add: ms)
  have slot: "im_slot (the (member_entry addr tr ?sl n m)) = the (slot_field ?sl n) \<and>
      unat (the (slot_field ?sl n)) < length xs \<and> md_name (xs ! unat (the (slot_field ?sl n))) = n"
    if "(n, m) \<in> set ps" for n m
    by (rule member_entry_at[OF assms(1,2) that assms(3), of addr]) (simp_all add: small)
  then show "unat (im_slot m) < length xs" if "m \<in> set ms" for m using that by (auto simp: ms)
  have "map im_slot ms = map (\<lambda>n. the (slot_field ?sl n)) (map fst ps)" using slot by (auto simp: ms)
  moreover have "inj_on (\<lambda>n. the (slot_field ?sl n)) (set (map fst ps))"
    by (rule inj_onI) (use slot in \<open>metis (no_types, lifting) image_iff list.set_map prod.collapse\<close>)
  moreover have "distinct (map fst ps)" using assms(1) by (simp add: complete_provider_def)
  ultimately show "distinct (map im_slot ms)" by (simp only: distinct_map[of _ "map fst ps"])
  show "\<exists>i < length xs. md_name (xs ! i) = n \<and> slot_field ?sl n = Some (of_nat i) \<and>
       \<lparr>im_signature = tr_signatures tr ! i, im_entry = addr m, im_slot = of_nat i, im_flags = 0\<rparr> \<in> set ms"
    if "(n, m) \<in> set ps" for n m
    by (rule member_entry_at[OF assms(1,2) that assms(3), of addr]) (use that in \<open>force simp: ms\<close>)
qed

lemma member_table_checked:
  assumes "complete_provider xs ps" "length (tr_signatures tr) = length xs" "\<And>n. iota n = map of_nat [0..<n]"
    and "member_table addr tr (interface_slots iota xs) ps = Some ms" "\<And>n m. (n, m) \<in> set ps \<Longrightarrow> addr m \<noteq> 0"
  shows "check_expected ms 0 (tr_signatures tr) = is_ok"
proof (rule check_expected_total)
  fix i
  assume i: "i < length (tr_signatures tr)"
  note T = member_table_entries[OF assms(1-4)]
  have "md_name (xs ! i) \<in> fst ` set ps" using assms(1,2) i by (simp add: complete_provider_def)
  then obtain m where nm: "(md_name (xs ! i), m) \<in> set ps" by force
  let ?e = "\<lparr>im_signature = tr_signatures tr ! i, im_entry = addr m, im_slot = of_nat i, im_flags = 0\<rparr>"
  have "distinct (map md_name xs)" using assms(1) by (simp add: complete_provider_def)
  then have "j = i" if "j < length xs" "md_name (xs ! j) = md_name (xs ! i)" for j
    using that i assms(2) nth_eq_iff_index_eq[of "map md_name xs" j i] by simp
  then have e: "?e \<in> set ms" using T(4)[OF nm] by blast
  have "im_slot ?e = of_nat i" by simp
  with e have "find (\<lambda>m. im_slot m = of_nat i) ms \<noteq> None" unfolding find_None_iff by blast
  then obtain k where k: "find (\<lambda>m. im_slot m = of_nat i) ms = Some k" by blast
  have "k = ?e"
  proof (rule inj_onD)
    show "inj_on im_slot (set ms)" using T(3) by (simp add: distinct_map)
  qed (use find_SomeD[OF k] e in simp_all)
  with k assms(5)[OF nm] show "\<exists>m. find (\<lambda>m. im_slot m = 0 + of_nat i) ms = Some m \<and> im_entry m \<noteq> 0 \<and> im_signature m = tr_signatures tr ! i"
    by simp
qed

lemma registered_found:
  assumes "interface_add cap reg impl = (reg', is_ok)" "v \<noteq> 0" "ii_version impl = v"
  shows "\<exists>reg''. interface_find reg' (ii_concrete_type impl) (ii_interface_id impl) v = (reg'', Some impl)"
proof -
  have "find_exact reg (ii_concrete_type impl) (ii_interface_id impl) (ii_version impl) = None"
    "ir_entries reg' = ir_entries reg @ [impl]"
    using assms(1) by (auto simp: interface_add_def split: if_splits)
  then show ?thesis using assms(2,3) by (simp add: interface_find_def find_exact_def find_append)
qed

lemma unique_declared_bind:
  assumes "interface_find reg t (tr_id tr) v = (reg', Some impl)" "ii_methods impl = Some ms"
    "ii_method_count impl = of_nat (length ms)" "length ms < 2 ^ 32" "obj \<noteq> 0" "distinct (map im_slot ms)"
    "\<And>m. m \<in> set ms \<Longrightarrow> unat (im_slot m) < slot_capacity tr" "check_expected ms 0 (tr_signatures tr) = is_ok"
  shows "\<exists>p. unique_bind tr reg obj t v = (reg', p) \<and> unique_valid p \<and> sc_object (up_ref p) = obj \<and>
    (\<forall>m \<in> set ms. unique_method tr p (im_slot m) = im_entry m)"
proof -
  let ?n = "of_nat (length ms) :: u32" and ?mx = "slot_capacity tr"
  have el: "arr_elems (Some ms) ?n = ms" using assms(4) by (simp add: arr_elems_def unat_of_nat_small)
  obtain c where c: "cache_resolve_methods ?mx (Some ms) ?n obj (tr_signatures tr) = (c, is_ok)"
    using cache_resolve_methods_total[of "Some ms" ?n ?mx "tr_signatures tr" obj] assms(5,7,8) el by auto
  have b: "unique_bind tr reg obj t v = (reg', \<lparr>up_ref = c, up_status = is_ok\<rparr>)"
    using c assms(1-3,5) by (simp add: unique_bind_def cache_resolve_def)
  have "cache_method ?mx c (im_slot m) = im_entry m" if "m \<in> set ms" for m
    using cache.bind_entry[of ?mx obj "(Some ms, ?n)" "tr_signatures tr" c "im_slot m"] c el
      assms(7)[OF that] last_entry_distinct[OF assms(6) that] by simp
  with b cache_resolve_methods_ok(2,3)[OF c] show ?thesis
    by (simp add: unique_valid_def cache_valid_def unique_method_def)
qed

lemma shared_declared_bind:
  assumes "interface_find reg t (tr_id tr) v = (reg', Some impl)" "ii_methods impl = Some ms"
    "ii_method_count impl = of_nat (length ms)" "length ms < 2 ^ 32" "obj \<noteq> 0" "distinct (map im_slot ms)"
    "\<And>m. m \<in> set ms \<Longrightarrow> unat (im_slot m) < slot_capacity tr" "check_expected ms 0 (tr_signatures tr) = is_ok"
  shows "\<exists>tables' q. shared_bind tr tables a reg obj t v = (reg', tables', q) \<and> shared_valid tables' q \<and> sp_object q = obj \<and>
    (\<forall>m \<in> set ms. shared_method tr tables' q (im_slot m) = im_entry m)"
proof -
  let ?n = "of_nat (length ms) :: u32" and ?mx = "slot_capacity tr"
  have el: "arr_elems (Some ms) ?n = ms" using assms(4) by (simp add: arr_elems_def unat_of_nat_small)
  obtain c where c: "table_build ?mx (Some ms) ?n (tr_signatures tr) = (c, is_ok)"
    using table_build_total[of "Some ms" ?n ?mx "tr_signatures tr"] assms(7,8) el by auto
  have b: "shared_bind tr tables a reg obj t v =
      (reg', tables(a := c), \<lparr>sp_object = obj, sp_table = Some a, sp_status = is_ok\<rparr>)"
    using c assms(1-3,5) table_build_ok(2)[OF c]
    by (simp add: shared_bind_def make_shared_slot_table_def shared_bind_table_def)
  have "table_method ?mx c (im_slot m) = im_entry m" if "m \<in> set ms" for m
    using table.bind_entry[of ?mx "(Some ms, ?n)" "tr_signatures tr" c "im_slot m"] c el
      assms(7)[OF that] last_entry_distinct[OF assms(6) that] by simp
  with b table_build_ok(2)[OF c] assms(5) show ?thesis
    by (simp add: shared_valid_def shared_method_def)
qed

lemmas forward_defs = unique_forward_def unique_forward_checked_def shared_forward_def shared_forward_checked_def
  unique_call_def unique_call_checked_def shared_call_def shared_call_checked_def direct_call_def checked_call_def

section \<open>Property\<close>

definition runs_members :: "(string \<Rightarrow> 'a \<Rightarrow> ((vptr \<Rightarrow> 's) \<Rightarrow> 'r \<times> (vptr \<Rightarrow> 's)) option)
    \<Rightarrow> (string \<Rightarrow> 'a \<Rightarrow> (InterfaceStatus + ((vptr \<Rightarrow> 's) \<Rightarrow> 'r \<times> (vptr \<Rightarrow> 's))) option)
    \<Rightarrow> (string \<times> ('s, 'a, 'r) cxx_member) list \<Rightarrow> vptr \<Rightarrow> bool" where
  "runs_members forward forward_checked ps obj \<longleftrightarrow> (\<forall>(n, m) \<in> set ps. \<forall>args.
     forward n args = Some (member_adapter m obj args) \<and>
     forward_checked n args = Some (Inr (member_adapter m obj args)))"

lemma unique_runs:
  assumes "\<And>n m. (n, m) \<in> set ps \<Longrightarrow> \<exists>s. slot_field sl n = Some s \<and> unique_method tr p s = addr m \<and> addr m \<noteq> 0 \<and>
      invoke (addr m) = member_adapter m" and "sc_object (up_ref p) = obj"
  shows "runs_members (unique_forward invoke tr sl p) (unique_forward_checked invoke tr sl p) ps obj"
  unfolding runs_members_def
proof (intro ballI, clarify)
  fix n m args
  assume "(n, m) \<in> set ps"
  from assms(1)[OF this] assms(2)
  show "unique_forward invoke tr sl p n args = Some (member_adapter m obj args) \<and>
      unique_forward_checked invoke tr sl p n args = Some (Inr (member_adapter m obj args))"
    by (elim exE conjE) (simp add: forward_defs)
qed

lemma shared_runs:
  assumes "\<And>n m. (n, m) \<in> set ps \<Longrightarrow> \<exists>s. slot_field sl n = Some s \<and> shared_method tr tables q s = addr m \<and> addr m \<noteq> 0 \<and>
      invoke (addr m) = member_adapter m" and "sp_object q = obj"
  shows "runs_members (shared_forward invoke tr sl tables q) (shared_forward_checked invoke tr sl tables q) ps obj"
  unfolding runs_members_def
proof (intro ballI, clarify)
  fix n m args
  assume "(n, m) \<in> set ps"
  from assms(1)[OF this] assms(2)
  show "shared_forward invoke tr sl tables q n args = Some (member_adapter m obj args) \<and>
      shared_forward_checked invoke tr sl tables q n args = Some (Inr (member_adapter m obj args))"
    by (elim exE conjE) (simp add: forward_defs)
qed

text \<open>C6. Declaring an interface and implementing it with the macros works, within what the macros can express: a
  method list with distinct names (no overloads) and no \<open>void\<close> return type, whose slot constants count up from
  zero, and a provider class that lists one member function for each entry, in any order. A call through the
  address of a generated adapter runs that adapter; in C++ that means the member takes its parameters by value and
  the call passes them with the same types. Then the declaration and the provider's table
  compile, and once a registry has accepted the provider's record, for a non-zero version, binding a non-null object
  gives a valid proxy, inline or shared, and both methods generated for an entry, the direct and the checked one, run
  exactly the member listed under its name on the bound object.\<close>

theorem declared_interface_runs_members:
  assumes provider: "complete_provider xs ps" and returns: "\<And>x. x \<in> set xs \<Longrightarrow> md_native x \<noteq> ''void''"
    and iota: "\<And>n. iota n = map of_nat [0..<n]"
    and code: "\<And>n m. (n, m) \<in> set ps \<Longrightarrow> addr m \<noteq> 0 \<and> invoke (addr m) = member_adapter m"
    and "ver \<noteq> 0" "obj \<noteq> 0"
  shows "\<exists>tr ms. interface_declare iota type xs ver = Some (tr, interface_slots iota xs) \<and>
    member_table addr tr (interface_slots iota xs) ps = Some ms \<and>
    (\<forall>reg1. interface_add cap reg (implementation_record tr ms t flags) = (reg1, is_ok) \<longrightarrow>
      (\<exists>reg2 p. unique_bind tr reg1 obj t ver = (reg2, p) \<and> unique_valid p \<and>
        runs_members (unique_forward invoke tr (interface_slots iota xs) p)
          (unique_forward_checked invoke tr (interface_slots iota xs) p) ps obj) \<and>
      (\<exists>reg2 tables' q. shared_bind tr tables a reg1 obj t ver = (reg2, tables', q) \<and> shared_valid tables' q \<and>
        runs_members (shared_forward invoke tr (interface_slots iota xs) tables' q)
          (shared_forward_checked invoke tr (interface_slots iota xs) tables' q) ps obj))"
proof -
  let ?sl = "interface_slots iota xs"
  obtain tr where tr: "interface_traits type xs ver = Some tr" "tr_version tr = ver" "length (tr_signatures tr) = length xs"
    using interface_traits_Some by metis
  obtain ms where ms: "member_table addr tr ?sl ps = Some ms"
    using member_table_Some[OF provider tr(3) iota] by metis
  note T = member_table_entries[OF provider tr(3) iota ms]
  have chk: "check_expected ms 0 (tr_signatures tr) = is_ok"
    using code by (intro member_table_checked[OF provider tr(3) iota ms]) blast
  have len: "length ms < 2 ^ 32" using T(1) provider by (simp add: complete_provider_def)
  have cap: "unat (im_slot m) < slot_capacity tr" if "m \<in> set ms" for m
    using T(2)[OF that] tr(3) by (simp add: slot_capacity_def)
  have slot: "\<exists>e \<in> set ms. slot_field ?sl n = Some (im_slot e) \<and> im_entry e = addr m" if "(n, m) \<in> set ps" for n m
    using T(4)[OF that] by force
  have "(\<exists>reg2 p. unique_bind tr reg1 obj t ver = (reg2, p) \<and> unique_valid p \<and>
        runs_members (unique_forward invoke tr ?sl p) (unique_forward_checked invoke tr ?sl p) ps obj) \<and>
      (\<exists>reg2 tables' q. shared_bind tr tables a reg1 obj t ver = (reg2, tables', q) \<and> shared_valid tables' q \<and>
        runs_members (shared_forward invoke tr ?sl tables' q) (shared_forward_checked invoke tr ?sl tables' q) ps obj)"
    if add: "interface_add cap reg (implementation_record tr ms t flags) = (reg1, is_ok)" for reg1
  proof -
    let ?impl = "implementation_record tr ms t flags"
    obtain reg2 where f: "interface_find reg1 t (tr_id tr) ver = (reg2, Some ?impl)"
      using registered_found[OF add, of ver] tr(2) \<open>ver \<noteq> 0\<close> by (auto simp: implementation_record_def)
    note B = f _ _ len \<open>obj \<noteq> 0\<close> T(3) cap chk
    obtain p where p: "unique_bind tr reg1 obj t ver = (reg2, p)" "unique_valid p" "sc_object (up_ref p) = obj"
      "\<forall>m \<in> set ms. unique_method tr p (im_slot m) = im_entry m"
      using unique_declared_bind[OF B] by (auto simp: implementation_record_def)
    obtain tables' q where q: "shared_bind tr tables a reg1 obj t ver = (reg2, tables', q)" "shared_valid tables' q"
      "sp_object q = obj" "\<forall>m \<in> set ms. shared_method tr tables' q (im_slot m) = im_entry m"
      using shared_declared_bind[OF B, where tables = tables and a = a] by (auto simp: implementation_record_def)
    have "runs_members (unique_forward invoke tr ?sl p) (unique_forward_checked invoke tr ?sl p) ps obj"
    proof (rule unique_runs[OF _ p(3)])
      show "\<exists>s. slot_field ?sl n = Some s \<and> unique_method tr p s = addr m \<and> addr m \<noteq> 0 \<and> invoke (addr m) = member_adapter m"
        if "(n, m) \<in> set ps" for n m using slot[OF that] code[OF that] p(4) by auto
    qed
    moreover have "runs_members (shared_forward invoke tr ?sl tables' q) (shared_forward_checked invoke tr ?sl tables' q) ps obj"
    proof (rule shared_runs[OF _ q(3)])
      show "\<exists>s. slot_field ?sl n = Some s \<and> shared_method tr tables' q s = addr m \<and> addr m \<noteq> 0 \<and> invoke (addr m) = member_adapter m"
        if "(n, m) \<in> set ps" for n m using slot[OF that] code[OF that] q(4) by auto
    qed
    ultimately show ?thesis using p(1,2) q(1,2) by blast
  qed
  moreover have "interface_declare iota type xs ver = Some (tr, ?sl)"
    using tr(1) returns provider by (simp add: interface_declare_def complete_provider_def)
  ultimately show ?thesis using ms by blast
qed

definition shape_methods :: "MethodDecl list" where
  "shape_methods = [\<lparr>md_name = ''area'', md_native = ''int32_t'', md_return = \<lparr>lo = 1, hi = 2\<rparr>, md_params = []\<rparr>,
     \<lparr>md_name = ''grow'', md_native = ''int32_t'', md_return = \<lparr>lo = 1, hi = 2\<rparr>, md_params = [\<lparr>lo = 1, hi = 2\<rparr>]\<rparr>]"

definition box_area :: "(int, int, int) cxx_member" where
  "box_area = Const_member (\<lambda>s a. s * s)"

definition box_grow :: "(int, int, int) cxx_member" where
  "box_grow = Nonconst_member (\<lambda>s a. (s, s + a))"

lemma shape_traits_id: "map_option (\<lambda>tr. hash_eq (tr_id tr) Hash128_zero) (interface_traits ''Shape'' shape_methods 1) = Some False"
  by code_simp

definition box_addr :: "(int, int, int) cxx_member \<Rightarrow> uintptr_t" where
  "box_addr m = (case m of Const_member _ \<Rightarrow> 1 | _ \<Rightarrow> 2)"

definition box_invoke :: "uintptr_t \<Rightarrow> vptr \<Rightarrow> int \<Rightarrow> (vptr \<Rightarrow> int) \<Rightarrow> int \<times> (vptr \<Rightarrow> int)" where
  "box_invoke fn = (if fn = 1 then member_adapter box_area else member_adapter box_grow)"

theorem declared_interface_runs_members_witness:
  "let sl = interface_slots (\<lambda>n. map of_nat [0..<n]) shape_methods; ps = [(''grow'', box_grow), (''area'', box_area)]
   in \<exists>tr ms reg1 reg2 p. interface_declare (\<lambda>n. map of_nat [0..<n]) ''Shape'' shape_methods 1 = Some (tr, sl) \<and> member_table box_addr tr sl ps = Some ms \<and>
     interface_add 4 empty_interface_registry (implementation_record tr ms \<lparr>lo = 9, hi = 9\<rparr> 0) = (reg1, is_ok) \<and>
     unique_bind tr reg1 500 \<lparr>lo = 9, hi = 9\<rparr> 1 = (reg2, p) \<and>
     unique_forward box_invoke tr sl p ''grow'' 3 = Some (\<lambda>heap. (heap 500, heap(500 := heap 500 + 3)))"
proof -
  let ?sl = "interface_slots (\<lambda>n. map of_nat [0..<n]) shape_methods"
  let ?ps = "[(''grow'', box_grow), (''area'', box_area)]" and ?t = "\<lparr>lo = 9, hi = 9\<rparr> :: TypeId"
  have "complete_provider shape_methods ?ps" by (auto simp: complete_provider_def shape_methods_def)
  moreover have "box_addr m \<noteq> 0 \<and> box_invoke (box_addr m) = member_adapter m" if "(n, m) \<in> set ?ps" for n m
    using that by (auto simp: box_area_def box_grow_def box_addr_def box_invoke_def)
  moreover have "md_native x \<noteq> ''void''" if "x \<in> set shape_methods" for x using that by (auto simp: shape_methods_def)
  ultimately obtain tr ms where tr: "interface_declare (\<lambda>n. map of_nat [0..<n]) ''Shape'' shape_methods 1 = Some (tr, ?sl)" "member_table box_addr tr ?sl ?ps = Some ms"
    and B: "\<forall>reg1. interface_add 4 empty_interface_registry (implementation_record tr ms ?t 0) = (reg1, is_ok) \<longrightarrow>
      (\<exists>reg2 p. unique_bind tr reg1 500 ?t 1 = (reg2, p) \<and> unique_valid p \<and>
        runs_members (unique_forward box_invoke tr ?sl p) (unique_forward_checked box_invoke tr ?sl p) ?ps 500)"
    using declared_interface_runs_members[of shape_methods ?ps "\<lambda>n. map of_nat [0..<n]" box_addr box_invoke 1 500 "''Shape''" 4
        empty_interface_registry ?t 0 "\<lambda>_. table_reset 0" 0] by auto
  have "hash_eq (tr_id tr) Hash128_zero = False" using shape_traits_id tr(1) by (auto simp: interface_declare_def split: if_splits)
  then have "snd (interface_add 4 empty_interface_registry (implementation_record tr ms ?t 0)) = is_ok"
    by (simp add: interface_add_def implementation_record_def empty_interface_registry_def find_exact_def
        hash_eq_def Hash128_zero_def)
  then obtain reg1 where add: "interface_add 4 empty_interface_registry (implementation_record tr ms ?t 0) = (reg1, is_ok)"
    by (metis prod.collapse)
  then obtain reg2 p where p: "unique_bind tr reg1 500 ?t 1 = (reg2, p)"
    "runs_members (unique_forward box_invoke tr ?sl p) (unique_forward_checked box_invoke tr ?sl p) ?ps 500" using B by blast
  have "unique_forward box_invoke tr ?sl p ''grow'' 3 = Some (member_adapter box_grow 500 3)"
    using p(2) by (simp add: runs_members_def)
  moreover have "member_adapter box_grow 500 3 = (\<lambda>heap. (heap 500, heap(500 := heap 500 + 3)))"
    by (simp add: box_grow_def fun_eq_iff)
  ultimately have "unique_forward box_invoke tr ?sl p ''grow'' 3 = Some (\<lambda>heap. (heap 500, heap(500 := heap 500 + 3)))"
    by (simp only:)
  then show ?thesis
    unfolding Let_def using tr add p(1)
    by (intro exI[of _ tr] exI[of _ ms] exI[of _ reg1] exI[of _ reg2] exI[of _ p] conjI)
qed

end
