(* ===== verification/Module_Lease.thy ===== *)
theory Module_Lease
  imports Abix_Prelude "HOL-Library.Multiset"
begin

text \<open>
  Module lifetime: the lifecycle control and its leases (\<open>Interface/Lease.h\<close>), the platform pin
  hooks (\<open>Interface/Discovery.h\<close>) and the owner handles of \<open>Interface/Owner.h\<close>.

  The operations are given twice. The sequential functions describe a call that nobody interferes
  with and are what the registry uses. The actions of \<open>lease_do\<close> split the same calls at their
  atomic accesses, so that \<open>lease_reachable\<close> covers every interleaving of any number of threads with
  one unloader; atomics are sequentially consistent.

  Shown: a module is marked unloaded only when no thread holds or is about to be granted a lease;
  the pin the first lease takes is not reliable under concurrency; an owner handle runs its destroy
  entry exactly once.
\<close>

type_synonym ModuleInstanceId = u64

definition invalid_module_instance :: ModuleInstanceId where
  "invalid_module_instance = 0"

section \<open>Lifecycle control\<close>

datatype ModuleState = st_loading | st_active | st_draining | st_unloaded

fun ModuleState_to_string :: "ModuleState \<Rightarrow> string" where
  "ModuleState_to_string st_loading = ''loading''"
| "ModuleState_to_string st_active = ''active''"
| "ModuleState_to_string st_draining = ''draining''"
| "ModuleState_to_string st_unloaded = ''unloaded''"

text \<open>The hooks are either null or the platform's \<open>pin_module\<close> and \<open>unpin_module\<close>.\<close>

record ModuleControl =
  mc_id :: ModuleInstanceId
  mc_name :: "string ptr"
  mc_module_handle :: uintptr_t
  mc_module_path :: "string ptr"
  mc_pin_state :: uintptr_t
  mc_pin :: bool
  mc_unpin :: bool
  mc_state :: ModuleState
  mc_leases :: u32

definition new_control :: ModuleControl where
  "new_control = \<lparr>mc_id = invalid_module_instance, mc_name = None, mc_module_handle = 0,
     mc_module_path = None, mc_pin_state = 0, mc_pin = False, mc_unpin = False,
     mc_state = st_loading, mc_leases = 0\<rparr>"

text \<open>The counter behind the instance ids is passed and returned.\<close>

definition next_module_instance_id :: "u64 \<Rightarrow> u64 \<times> ModuleInstanceId" where
  "next_module_instance_id ctr = (ctr + 1, ctr + 1)"

definition module_state :: "ModuleControl \<Rightarrow> ModuleState" where
  "module_state c = mc_state c"

definition activate_module :: "ModuleControl \<Rightarrow> ModuleControl \<times> bool" where
  "activate_module c =
     (if mc_state c = st_loading then (c\<lparr>mc_state := st_active\<rparr>, True) else (c, False))"

section \<open>Platform pins\<close>

text \<open>The loader is a parameter: \<open>dl path\<close> is the handle of the object at a path, 0 when it cannot be
  opened. \<open>refs\<close> counts the references taken on each handle.\<close>

type_synonym os_refs = "uintptr_t \<Rightarrow> int"

definition dlopen :: "(string \<Rightarrow> uintptr_t) \<Rightarrow> string \<Rightarrow> os_refs \<Rightarrow> uintptr_t \<times> os_refs" where
  "dlopen dl path refs = (let h = dl path in if h = 0 then (0, refs) else (h, refs(h := refs h + 1)))"

definition dlclose :: "uintptr_t \<Rightarrow> os_refs \<Rightarrow> os_refs" where
  "dlclose h refs = refs(h := refs h - 1)"

definition pin_module :: "(string \<Rightarrow> uintptr_t) \<Rightarrow> ModuleControl \<Rightarrow> os_refs \<Rightarrow> ModuleControl \<times> os_refs \<times> bool" where
  "pin_module dl c refs =
     (case mc_module_path c of
        None \<Rightarrow> (c, refs, False)
      | Some path \<Rightarrow>
          (case dlopen dl path refs of (h, refs') \<Rightarrow> (c\<lparr>mc_pin_state := h\<rparr>, refs', h \<noteq> 0)))"

definition unpin_module :: "ModuleControl \<Rightarrow> os_refs \<Rightarrow> ModuleControl \<times> os_refs" where
  "unpin_module c refs =
     (if mc_pin_state c \<noteq> 0 then (c\<lparr>mc_pin_state := 0\<rparr>, dlclose (mc_pin_state c) refs) else (c, refs))"

text \<open>\<open>if (before == 0 && control.pin != nullptr) control.pin(control);\<close> and its counterpart.\<close>

definition pin_first :: "(string \<Rightarrow> uintptr_t) \<Rightarrow> u32 \<Rightarrow> ModuleControl \<Rightarrow> os_refs \<Rightarrow> ModuleControl \<times> os_refs" where
  "pin_first dl before c refs =
     (if before = 0 \<and> mc_pin c then (case pin_module dl c refs of (c', refs', _) \<Rightarrow> (c', refs'))
      else (c, refs))"

definition unpin_last :: "u32 \<Rightarrow> ModuleControl \<Rightarrow> os_refs \<Rightarrow> ModuleControl \<times> os_refs" where
  "unpin_last old c refs = (if old = 1 \<and> mc_unpin c then unpin_module c refs else (c, refs))"

section \<open>Leases\<close>

definition try_acquire_lease :: "(string \<Rightarrow> uintptr_t) \<Rightarrow> ModuleControl \<Rightarrow> os_refs
    \<Rightarrow> ModuleControl \<times> os_refs \<times> bool" where
  "try_acquire_lease dl c refs =
     (if mc_state c \<noteq> st_active then (c, refs, False)
      else let before = mc_leases c; c = c\<lparr>mc_leases := before + 1\<rparr>
           in if mc_state c \<noteq> st_active then (c\<lparr>mc_leases := mc_leases c - 1\<rparr>, refs, False)
              else case pin_first dl before c refs of (c', refs') \<Rightarrow> (c', refs', True))"

definition release_lease :: "ModuleControl \<Rightarrow> os_refs \<Rightarrow> ModuleControl \<times> os_refs" where
  "release_lease c refs =
     (let old = mc_leases c in unpin_last old (c\<lparr>mc_leases := old - 1\<rparr>) refs)"

text \<open>The argument counts the spurious failures of \<open>compare_exchange_weak\<close> before it succeeds.\<close>

fun begin_unload :: "nat \<Rightarrow> ModuleControl \<Rightarrow> ModuleControl \<times> bool" where
  "begin_unload spurious c =
     (if mc_state c = st_draining \<or> mc_state c = st_unloaded then (c, True)
      else if mc_state c \<noteq> st_active then (c, False)
      else case spurious of
        0 \<Rightarrow> (c\<lparr>mc_state := st_draining\<rparr>, True)
      | Suc n \<Rightarrow> begin_unload n c)"

declare begin_unload.simps [simp del]

text \<open>\<open>seen i\<close> is the lease count the i-th load observes while other threads release.\<close>

fun wait_for_idle_from :: "(nat \<Rightarrow> u32) \<Rightarrow> nat \<Rightarrow> nat \<Rightarrow> bool" where
  "wait_for_idle_from seen i 0 = (seen i = 0)"
| "wait_for_idle_from seen i (Suc n) = (if seen i = 0 then True else wait_for_idle_from seen (Suc i) n)"

definition wait_for_idle :: "(nat \<Rightarrow> u32) \<Rightarrow> u32 \<Rightarrow> bool" where
  "wait_for_idle seen max_spins = wait_for_idle_from seen 0 (unat max_spins)"

definition default_max_spins :: u32 where
  "default_max_spins = 1000000"

definition mark_unloaded :: "ModuleControl \<Rightarrow> ModuleControl" where
  "mark_unloaded c = c\<lparr>mc_state := st_unloaded\<rparr>"

section \<open>Interleaved lease operations\<close>

text \<open>Where a thread is inside \<open>try_acquire_lease\<close> or \<open>release_lease\<close>; the number is the value its
  \<open>fetch_add\<close> or \<open>fetch_sub\<close> returned.\<close>

datatype lease_pc =
    lp_idle
  | lp_checked
  | lp_added u32
  | lp_granted u32
  | lp_held
  | lp_released u32

datatype unload_pc = ul_idle | ul_draining | ul_seen_idle | ul_done

record lease_state =
  ls_control :: ModuleControl
  ls_refs :: os_refs
  ls_pc :: "nat \<Rightarrow> lease_pc"
  ls_unloader :: unload_pc

datatype lease_action =
    la_activate
  | la_check nat
  | la_add nat
  | la_recheck nat
  | la_pin nat
  | la_release nat
  | la_unpin nat
  | la_begin_unload
  | la_wait_idle
  | la_mark_unloaded

definition set_pc :: "nat \<Rightarrow> lease_pc \<Rightarrow> lease_state \<Rightarrow> lease_state" where
  "set_pc t p s = s\<lparr>ls_pc := (ls_pc s)(t := p)\<rparr>"

definition set_control :: "ModuleControl \<Rightarrow> lease_state \<Rightarrow> lease_state" where
  "set_control c s = s\<lparr>ls_control := c\<rparr>"

fun lease_do :: "nat \<Rightarrow> (string \<Rightarrow> uintptr_t) \<Rightarrow> lease_action \<Rightarrow> lease_state \<Rightarrow> lease_state option" where
  "lease_do n dl la_activate s = Some (set_control (fst (activate_module (ls_control s))) s)"
| "lease_do n dl (la_check t) s =
     (if t < n \<and> ls_pc s t = lp_idle \<and> mc_state (ls_control s) = st_active
      then Some (set_pc t lp_checked s) else None)"
| "lease_do n dl (la_add t) s =
     (if t < n \<and> ls_pc s t = lp_checked
      then let c = ls_control s; before = mc_leases c
           in Some (set_pc t (lp_added before) (set_control (c\<lparr>mc_leases := before + 1\<rparr>) s))
      else None)"
| "lease_do n dl (la_recheck t) s =
     (if t < n
      then case ls_pc s t of
          lp_added before \<Rightarrow>
            let c = ls_control s
            in if mc_state c \<noteq> st_active
               then Some (set_pc t lp_idle (set_control (c\<lparr>mc_leases := mc_leases c - 1\<rparr>) s))
               else Some (set_pc t (lp_granted before) s)
        | _ \<Rightarrow> None
      else None)"
| "lease_do n dl (la_pin t) s =
     (if t < n
      then case ls_pc s t of
          lp_granted before \<Rightarrow>
            (case pin_first dl before (ls_control s) (ls_refs s) of
               (c, refs) \<Rightarrow> Some ((set_pc t lp_held (set_control c s))\<lparr>ls_refs := refs\<rparr>))
        | _ \<Rightarrow> None
      else None)"
| "lease_do n dl (la_release t) s =
     (if t < n \<and> ls_pc s t = lp_held
      then let c = ls_control s; old = mc_leases c
           in Some (set_pc t (lp_released old) (set_control (c\<lparr>mc_leases := old - 1\<rparr>) s))
      else None)"
| "lease_do n dl (la_unpin t) s =
     (if t < n
      then case ls_pc s t of
          lp_released old \<Rightarrow>
            (case unpin_last old (ls_control s) (ls_refs s) of
               (c, refs) \<Rightarrow> Some ((set_pc t lp_idle (set_control c s))\<lparr>ls_refs := refs\<rparr>))
        | _ \<Rightarrow> None
      else None)"
| "lease_do n dl la_begin_unload s =
     (if ls_unloader s = ul_idle
      then case begin_unload 0 (ls_control s) of
          (c, True) \<Rightarrow> Some ((set_control c s)\<lparr>ls_unloader := ul_draining\<rparr>)
        | (c, False) \<Rightarrow> None
      else None)"
| "lease_do n dl la_wait_idle s =
     (if ls_unloader s = ul_draining \<and> mc_leases (ls_control s) = 0
      then Some (s\<lparr>ls_unloader := ul_seen_idle\<rparr>) else None)"
| "lease_do n dl la_mark_unloaded s =
     (if ls_unloader s = ul_seen_idle
      then Some ((set_control (mark_unloaded (ls_control s)) s)\<lparr>ls_unloader := ul_done\<rparr>) else None)"

fun lease_run :: "nat \<Rightarrow> (string \<Rightarrow> uintptr_t) \<Rightarrow> lease_action list \<Rightarrow> lease_state \<Rightarrow> lease_state option" where
  "lease_run n dl [] s = Some s"
| "lease_run n dl (a # as) s = Option.bind (lease_do n dl a s) (lease_run n dl as)"

definition lease_initial :: "ModuleControl \<Rightarrow> lease_state" where
  "lease_initial c = \<lparr>ls_control = c\<lparr>mc_state := st_loading, mc_leases := 0, mc_pin_state := 0\<rparr>,
     ls_refs = (\<lambda>_. 0), ls_pc = (\<lambda>_. lp_idle), ls_unloader = ul_idle\<rparr>"

inductive lease_reachable :: "nat \<Rightarrow> (string \<Rightarrow> uintptr_t) \<Rightarrow> lease_state \<Rightarrow> bool" for n dl where
  start: "lease_reachable n dl (lease_initial c)"
| step: "lease_reachable n dl s \<Longrightarrow> lease_do n dl a s = Some s' \<Longrightarrow> lease_reachable n dl s'"

inductive_cases lease_reachableE: "lease_reachable n dl s"

section \<open>Lease handles\<close>

text \<open>A \<open>ModuleLease\<close> is the address of its control or null; the controls live in a store.\<close>

type_synonym control_store = "nat \<Rightarrow> ModuleControl"
type_synonym ModuleLease = "nat option"

record lease_world =
  lw_controls :: control_store
  lw_refs :: os_refs

definition acquire_lease :: "(string \<Rightarrow> uintptr_t) \<Rightarrow> nat \<Rightarrow> lease_world \<Rightarrow> lease_world \<times> ModuleLease" where
  "acquire_lease dl a w =
     (case try_acquire_lease dl (lw_controls w a) (lw_refs w) of
        (c, refs, ok) \<Rightarrow>
          (w\<lparr>lw_controls := (lw_controls w)(a := c), lw_refs := refs\<rparr>, if ok then Some a else None))"

definition lease_release :: "ModuleLease \<Rightarrow> lease_world \<Rightarrow> lease_world \<times> ModuleLease" where
  "lease_release l w =
     (case l of
        None \<Rightarrow> (w, None)
      | Some a \<Rightarrow>
          (case release_lease (lw_controls w a) (lw_refs w) of
             (c, refs) \<Rightarrow> (w\<lparr>lw_controls := (lw_controls w)(a := c), lw_refs := refs\<rparr>, None)))"

section \<open>Owner handles\<close>

definition abix_owner_abi_version :: u32 where
  "abix_owner_abi_version = 1"

datatype owner_mode = om_borrowed | om_owned | om_copied

fun owner_mode_num :: "owner_mode \<Rightarrow> u32" where
  "owner_mode_num om_borrowed = 0"
| "owner_mode_num om_owned = 1"
| "owner_mode_num om_copied = 2"

text \<open>Any 32-bit value may stand in a handle that crossed the boundary.\<close>

definition owner_mode_to_string :: "u32 \<Rightarrow> string" where
  "owner_mode_to_string m =
     (if m = owner_mode_num om_borrowed then ''borrowed'' else if m = owner_mode_num om_owned then ''owned''
      else if m = owner_mode_num om_copied then ''copied'' else ''unknown'')"

record owner_handle =
  oh_object :: uintptr_t
  oh_mode :: u32
  oh_flags :: u32
  oh_destroy :: uintptr_t
  oh_module_instance :: u64

definition empty_handle :: owner_handle where
  "empty_handle = \<lparr>oh_object = 0, oh_mode = 0, oh_flags = 0, oh_destroy = 0, oh_module_instance = 0\<rparr>"

definition handle_valid :: "owner_handle \<Rightarrow> bool" where
  "handle_valid h \<longleftrightarrow> oh_object h \<noteq> 0"

definition make_borrowed :: "uintptr_t \<Rightarrow> owner_handle" where
  "make_borrowed object = \<lparr>oh_object = object, oh_mode = owner_mode_num om_borrowed, oh_flags = 0,
     oh_destroy = 0, oh_module_instance = invalid_module_instance\<rparr>"

definition make_owned :: "uintptr_t \<Rightarrow> uintptr_t \<Rightarrow> ModuleInstanceId \<Rightarrow> owner_handle" where
  "make_owned object destroy instance_id = \<lparr>oh_object = object, oh_mode = owner_mode_num om_owned, oh_flags = 0,
     oh_destroy = destroy, oh_module_instance = instance_id\<rparr>"

definition make_copied :: "uintptr_t \<Rightarrow> uintptr_t \<Rightarrow> ModuleInstanceId \<Rightarrow> owner_handle" where
  "make_copied object destroy instance_id = \<lparr>oh_object = object, oh_mode = owner_mode_num om_copied, oh_flags = 0,
     oh_destroy = destroy, oh_module_instance = instance_id\<rparr>"

record owner_ref =
  or_handle :: owner_handle
  or_lease :: ModuleLease

definition empty_ref :: owner_ref where
  "empty_ref = \<lparr>or_handle = empty_handle, or_lease = None\<rparr>"

text \<open>The log of destroy calls, as (entry, object) in the order they ran.\<close>

record owner_world =
  ow_leases :: lease_world
  ow_destroyed :: "(uintptr_t \<times> uintptr_t) list"

definition owner_valid :: "owner_ref \<Rightarrow> bool" where
  "owner_valid r \<longleftrightarrow> oh_object (or_handle r) \<noteq> 0"

definition owns :: "owner_ref \<Rightarrow> bool" where
  "owns r \<longleftrightarrow> oh_mode (or_handle r) = owner_mode_num om_owned \<or> oh_mode (or_handle r) = owner_mode_num om_copied"

definition owner_leased :: "owner_ref \<Rightarrow> bool" where
  "owner_leased r \<longleftrightarrow> or_lease r \<noteq> None"

definition owner_release :: "owner_ref \<Rightarrow> owner_world \<Rightarrow> owner_ref \<times> owner_world" where
  "owner_release r w =
     (let w = (if oh_object (or_handle r) \<noteq> 0 \<and> owns r \<and> oh_destroy (or_handle r) \<noteq> 0
               then w\<lparr>ow_destroyed := ow_destroyed w @ [(oh_destroy (or_handle r), oh_object (or_handle r))]\<rparr>
               else w)
      in case lease_release (or_lease r) (ow_leases w) of
           (lw, l) \<Rightarrow> (\<lparr>or_handle = empty_handle, or_lease = l\<rparr>, w\<lparr>ow_leases := lw\<rparr>))"

definition owner_adopt :: "(string \<Rightarrow> uintptr_t) \<Rightarrow> owner_handle \<Rightarrow> nat option \<Rightarrow> owner_world
    \<Rightarrow> owner_ref \<times> owner_world" where
  "owner_adopt dl h control w =
     (case control of
        None \<Rightarrow> (\<lparr>or_handle = h, or_lease = None\<rparr>, w)
      | Some a \<Rightarrow>
          (case acquire_lease dl a (ow_leases w) of
             (lw, l) \<Rightarrow> (\<lparr>or_handle = h, or_lease = l\<rparr>, w\<lparr>ow_leases := lw\<rparr>)))"

definition owner_borrow :: "(string \<Rightarrow> uintptr_t) \<Rightarrow> uintptr_t \<Rightarrow> nat option \<Rightarrow> owner_world
    \<Rightarrow> owner_ref \<times> owner_world" where
  "owner_borrow dl object control w = owner_adopt dl (make_borrowed object) control w"

text \<open>Move assignment between two different handles: the target is released first, and the source is
  left empty.\<close>

definition owner_move_assign :: "owner_ref \<Rightarrow> owner_ref \<Rightarrow> owner_world \<Rightarrow> owner_ref \<times> owner_ref \<times> owner_world" where
  "owner_move_assign dst src w =
     (case owner_release dst w of (dst', w') \<Rightarrow>
        (case lease_release (or_lease dst') (ow_leases w') of (lw, _) \<Rightarrow>
           (\<lparr>or_handle = or_handle src, or_lease = or_lease src\<rparr>,
            \<lparr>or_handle = empty_handle, or_lease = None\<rparr>, w'\<lparr>ow_leases := lw\<rparr>)))"

text \<open>Programs over a store of handles. Adopting assigns the temporary to the handle; the empty
  temporary is then destroyed without effect.\<close>

datatype owner_op =
    oo_adopt nat owner_handle "nat option"
  | oo_move nat nat
  | oo_release nat

fun owner_exec :: "(string \<Rightarrow> uintptr_t) \<Rightarrow> owner_op \<Rightarrow> (nat \<Rightarrow> owner_ref) \<times> owner_world
    \<Rightarrow> (nat \<Rightarrow> owner_ref) \<times> owner_world" where
  "owner_exec dl (oo_adopt i h control) (rs, w) =
     (case owner_adopt dl h control w of (tmp, w1) \<Rightarrow>
        case owner_move_assign (rs i) tmp w1 of (r, tmp', w2) \<Rightarrow>
          case owner_release tmp' w2 of (_, w3) \<Rightarrow> (rs(i := r), w3))"
| "owner_exec dl (oo_move i j) (rs, w) =
     (if i = j then (rs, w)
      else case owner_move_assign (rs i) (rs j) w of (r, src, w1) \<Rightarrow> (rs(i := r, j := src), w1))"
| "owner_exec dl (oo_release i) (rs, w) =
     (case owner_release (rs i) w of (r, w1) \<Rightarrow> (rs(i := r), w1))"

fun owner_run :: "(string \<Rightarrow> uintptr_t) \<Rightarrow> owner_op list \<Rightarrow> (nat \<Rightarrow> owner_ref) \<times> owner_world
    \<Rightarrow> (nat \<Rightarrow> owner_ref) \<times> owner_world" where
  "owner_run dl [] s = s"
| "owner_run dl (a # as) s = owner_run dl as (owner_exec dl a s)"

section \<open>Sequential lemmas\<close>

lemma begin_unload_eq:
  "begin_unload n c =
     (if mc_state c = st_loading then (c, False)
      else (c\<lparr>mc_state := (if mc_state c = st_unloaded then st_unloaded else st_draining)\<rparr>, True))"
proof (induction n)
  case 0
  show ?case by (subst begin_unload.simps, cases "mc_state c") (simp_all add: begin_unload.simps)
next
  case (Suc n)
  then show ?case by (subst begin_unload.simps, cases "mc_state c") simp_all
qed

lemma wait_for_idle_from_iff: "wait_for_idle_from seen i n \<longleftrightarrow> (\<exists>k \<le> n. seen (i + k) = 0)"
proof (induction n arbitrary: i)
  case (Suc n)
  have "(\<exists>k \<le> Suc n. seen (i + k) = 0) \<longleftrightarrow> seen i = 0 \<or> (\<exists>k \<le> n. seen (Suc i + k) = 0)"
  proof
    assume "\<exists>k \<le> Suc n. seen (i + k) = 0"
    then obtain k where "k \<le> Suc n" "seen (i + k) = 0" by blast
    then show "seen i = 0 \<or> (\<exists>k \<le> n. seen (Suc i + k) = 0)" by (cases k) auto
  next
    assume "seen i = 0 \<or> (\<exists>k \<le> n. seen (Suc i + k) = 0)"
    then show "\<exists>k \<le> Suc n. seen (i + k) = 0"
    proof
      assume "seen i = 0"
      then show ?thesis by (intro exI[of _ 0]) simp
    next
      assume "\<exists>k \<le> n. seen (Suc i + k) = 0"
      then obtain k where "k \<le> n" "seen (Suc i + k) = 0" by blast
      then show ?thesis by (intro exI[of _ "Suc k"]) simp
    qed
  qed
  then show ?case using Suc by simp
qed simp

lemma wait_for_idle_iff: "wait_for_idle seen m \<longleftrightarrow> (\<exists>k \<le> unat m. seen k = 0)"
  by (simp add: wait_for_idle_def wait_for_idle_from_iff)

lemma pin_first_fields [simp]:
  "mc_state (fst (pin_first dl b c refs)) = mc_state c"
  "mc_leases (fst (pin_first dl b c refs)) = mc_leases c"
  by (simp_all add: pin_first_def pin_module_def split: option.splits prod.splits)

lemma pin_firstD:
  "pin_first dl b c refs = (c', refs') \<Longrightarrow> mc_state c' = mc_state c \<and> mc_leases c' = mc_leases c"
  using pin_first_fields[of dl b c refs] by simp

lemma unpin_last_fields [simp]:
  "mc_state (fst (unpin_last b c refs)) = mc_state c"
  "mc_leases (fst (unpin_last b c refs)) = mc_leases c"
  by (simp_all add: unpin_last_def unpin_module_def)

lemma try_acquire_lease_spec:
  assumes "try_acquire_lease dl c refs = (c', refs', ok)"
  shows "ok \<longleftrightarrow> mc_state c = st_active" "mc_state c' = mc_state c"
    "mc_leases c' = mc_leases c + (if ok then 1 else 0)"
proof -
  show "ok \<longleftrightarrow> mc_state c = st_active"
    using assms by (auto simp: try_acquire_lease_def Let_def split: if_splits prod.splits)
  show "mc_state c' = mc_state c" "mc_leases c' = mc_leases c + (if ok then 1 else 0)"
    using assms by (auto simp: try_acquire_lease_def Let_def split: if_splits prod.splits dest!: pin_firstD)
qed

lemma release_lease_spec:
  assumes "release_lease c refs = (c', refs')"
  shows "mc_state c' = mc_state c" "mc_leases c' = mc_leases c - 1"
  using assms unpin_last_fields[of "mc_leases c" "c\<lparr>mc_leases := mc_leases c - 1\<rparr>" refs]
  by (auto simp: release_lease_def Let_def)

text \<open>Without interference a lease that was the first takes exactly one reference and its release
  drops it again.\<close>

lemma pin_roundtrip:
  assumes "mc_state c = st_active" "mc_leases c = 0" "mc_pin c" "mc_unpin c"
    "mc_module_path c = Some path" "dl path \<noteq> 0"
  shows "\<exists>c' r' c'' r''. try_acquire_lease dl c refs = (c', r', True) \<and> r' (dl path) = refs (dl path) + 1
           \<and> release_lease c' r' = (c'', r'') \<and> r'' = refs \<and> mc_pin_state c'' = 0"
  using assms by (simp add: try_acquire_lease_def release_lease_def pin_first_def unpin_last_def
      pin_module_def unpin_module_def dlopen_def dlclose_def Let_def fun_upd_idem)

section \<open>Counting leases\<close>

fun counted :: "lease_pc \<Rightarrow> bool" where
  "counted (lp_added b) = True"
| "counted (lp_granted b) = True"
| "counted lp_held = True"
| "counted p = False"

text \<open>A thread whose call returned true, or is certain to.\<close>

fun entitled :: "lease_pc \<Rightarrow> bool" where
  "entitled (lp_granted b) = True"
| "entitled lp_held = True"
| "entitled p = False"

definition holders :: "nat \<Rightarrow> lease_state \<Rightarrow> nat set" where
  "holders n s = {t. t < n \<and> counted (ls_pc s t)}"

definition lease_inv :: "nat \<Rightarrow> lease_state \<Rightarrow> bool" where
  "lease_inv n s \<longleftrightarrow>
     mc_leases (ls_control s) = of_nat (card (holders n s))
     \<and> (ls_unloader s \<noteq> ul_idle \<longrightarrow> mc_state (ls_control s) \<in> {st_draining, st_unloaded})
     \<and> (ls_unloader s \<in> {ul_seen_idle, ul_done} \<longrightarrow> (\<forall>t < n. \<not> entitled (ls_pc s t)))
     \<and> (mc_state (ls_control s) = st_unloaded \<longrightarrow> ls_unloader s = ul_done)
     \<and> (\<forall>t \<ge> n. ls_pc s t = lp_idle)"

lemma finite_holders [simp]: "finite (holders n s)"
  by (simp add: holders_def)

lemma holders_set_pc:
  assumes "t < n"
  shows "holders n (set_pc t p s) = (if counted p then insert t (holders n s) else holders n s - {t})"
  using assms by (auto simp: holders_def set_pc_def)

lemma holders_other [simp]:
  "holders n (set_control c s) = holders n s" "holders n (s\<lparr>ls_refs := r\<rparr>) = holders n s"
  "holders n (s\<lparr>ls_unloader := u\<rparr>) = holders n s"
  by (simp_all add: holders_def set_control_def)

lemma mem_holders: "t \<in> holders n s \<longleftrightarrow> t < n \<and> counted (ls_pc s t)"
  by (simp add: holders_def)

lemma card_holders_le: "card (holders n s) \<le> n"
  using card_mono[of "{..<n}" "holders n s"] by (auto simp: holders_def)

lemma entitled_counted: "entitled p \<Longrightarrow> counted p"
  by (cases p) simp_all

lemma lease_fields [simp]:
  "ls_control (set_pc t p s) = ls_control s" "ls_unloader (set_pc t p s) = ls_unloader s"
  "ls_pc (set_pc t p s) = (ls_pc s)(t := p)" "ls_control (set_control c s) = c"
  "ls_unloader (set_control c s) = ls_unloader s" "ls_pc (set_control c s) = ls_pc s"
  "ls_refs (set_control c s) = ls_refs s" "ls_refs (set_pc t p s) = ls_refs s"
  by (simp_all add: set_pc_def set_control_def)

lemma zero_leases_no_holder:
  assumes "lease_inv n s" "n < 2 ^ 32" "mc_leases (ls_control s) = 0"
  shows "holders n s = {}"
proof -
  have "(of_nat (card (holders n s)) :: u32) = 0" using assms(1,3) by (simp add: lease_inv_def)
  then have "card (holders n s) mod 2 ^ 32 = 0" by (metis unat_of_nat unat_0 len32)
  moreover have "card (holders n s) < 2 ^ 32" using card_holders_le[of n s] assms(2) by linarith
  ultimately have "card (holders n s) = 0" by (metis mod_less)
  then show ?thesis by simp
qed

lemma lease_invD:
  assumes "lease_inv n s"
  shows "mc_leases (ls_control s) = of_nat (card (holders n s))"
    and "ls_unloader s \<noteq> ul_idle \<Longrightarrow> mc_state (ls_control s) \<in> {st_draining, st_unloaded}"
    and "ls_unloader s \<in> {ul_seen_idle, ul_done} \<Longrightarrow> t < n \<Longrightarrow> \<not> entitled (ls_pc s t)"
    and "mc_state (ls_control s) = st_unloaded \<Longrightarrow> ls_unloader s = ul_done"
    and "n \<le> t \<Longrightarrow> ls_pc s t = lp_idle"
  using assms unfolding lease_inv_def by blast+

lemma holders_count:
  assumes "mc_leases (ls_control s) = of_nat (card (holders n s))" "t < n"
  shows "mc_leases (ls_control s) + (if counted p then 1 else 0) - (if counted (ls_pc s t) then 1 else 0)
           = of_nat (card (holders n (set_pc t p s)))"
proof (cases "counted (ls_pc s t)")
  case True
  then have t: "t \<in> holders n s" using assms(2) by (simp add: mem_holders)
  then have "card (holders n s) = Suc (card (holders n s - {t}))"
    by (rule card.remove[OF finite_holders])
  then show ?thesis using True assms t by (simp add: holders_set_pc insert_absorb)
next
  case False
  then have "t \<notin> holders n s" by (simp add: mem_holders)
  then show ?thesis using False assms by (simp add: holders_set_pc)
qed

lemma lease_inv_set_pc:
  assumes inv: "lease_inv n s" and t: "t < n"
    and leases: "mc_leases c = mc_leases (ls_control s) + (if counted p then 1 else 0) - (if counted (ls_pc s t) then 1 else 0)"
    and st: "mc_state c = mc_state (ls_control s)"
    and ent: "entitled p \<Longrightarrow> entitled (ls_pc s t) \<or> mc_state (ls_control s) = st_active"
  shows "lease_inv n (set_pc t p (set_control c s))"
  unfolding lease_inv_def
proof (intro conjI impI allI)
  let ?s = "set_pc t p (set_control c s)"
  have "holders n ?s = holders n (set_pc t p s)" using t by (simp add: holders_set_pc)
  then show "mc_leases (ls_control ?s) = of_nat (card (holders n ?s))"
    using holders_count[OF lease_invD(1)[OF inv] t, of p] leases by simp
  show "mc_state (ls_control ?s) \<in> {st_draining, st_unloaded}" if "ls_unloader ?s \<noteq> ul_idle"
    using lease_invD(2)[OF inv] that st by simp
  show "ls_unloader ?s = ul_done" if "mc_state (ls_control ?s) = st_unloaded"
    using lease_invD(4)[OF inv] that st by simp
  show "ls_pc ?s u = lp_idle" if "n \<le> u" for u
    using lease_invD(5)[OF inv that] that t by simp
  fix u assume u: "ls_unloader ?s \<in> {ul_seen_idle, ul_done}" "u < n"
  then have "mc_state (ls_control s) \<noteq> st_active" using lease_invD(2)[OF inv] by auto
  then show "\<not> entitled (ls_pc ?s u)" using lease_invD(3)[OF inv] u ent t by (cases "u = t") auto
qed

lemma set_control_id: "set_control (ls_control s) s = s"
  by (simp add: set_control_def)

lemma lease_inv_refs [simp]: "lease_inv n (s\<lparr>ls_refs := r\<rparr>) = lease_inv n s"
  by (simp add: lease_inv_def)

lemma lease_do_inv:
  assumes inv: "lease_inv n s" and d: "lease_do n dl a s = Some s'" and n: "n < 2 ^ 32"
  shows "lease_inv n s'"
proof (cases a)
  case la_activate
  then have s': "s' = set_control (fst (activate_module (ls_control s))) s" using d by simp
  have "mc_state (ls_control s) \<noteq> st_loading" if "ls_unloader s \<noteq> ul_idle"
    using lease_invD(2)[OF inv that] by auto
  then show ?thesis unfolding s' using inv by (auto simp: lease_inv_def activate_module_def)
next
  case (la_check t)
  then have s': "s' = set_pc t lp_checked (set_control (ls_control s) s)" and t: "t < n" "ls_pc s t = lp_idle"
    using d by (auto simp: set_control_id split: if_splits)
  show ?thesis unfolding s' by (rule lease_inv_set_pc[OF inv t(1)]) (simp_all add: t)
next
  case (la_add t)
  then have s': "s' = set_pc t (lp_added (mc_leases (ls_control s)))
      (set_control ((ls_control s)\<lparr>mc_leases := mc_leases (ls_control s) + 1\<rparr>) s)"
    and t: "t < n" "ls_pc s t = lp_checked"
    using d by (auto simp: Let_def split: if_splits)
  show ?thesis unfolding s' by (rule lease_inv_set_pc[OF inv t(1)]) (simp_all add: t)
next
  case (la_recheck t)
  then obtain b where t: "t < n" "ls_pc s t = lp_added b" using d by (auto split: if_splits lease_pc.splits)
  show ?thesis
  proof (cases "mc_state (ls_control s) = st_active")
    case True
    then have s': "s' = set_pc t (lp_granted b) (set_control (ls_control s) s)"
      using d la_recheck t by (simp add: Let_def set_control_id)
    show ?thesis unfolding s' by (rule lease_inv_set_pc[OF inv t(1)]) (simp_all add: t True)
  next
    case False
    then have s': "s' = set_pc t lp_idle (set_control ((ls_control s)\<lparr>mc_leases := mc_leases (ls_control s) - 1\<rparr>) s)"
      using d la_recheck t by (simp add: Let_def)
    show ?thesis unfolding s' by (rule lease_inv_set_pc[OF inv t(1)]) (simp_all add: t)
  qed
next
  case (la_pin t)
  then obtain b where t: "t < n" "ls_pc s t = lp_granted b" using d by (auto split: if_splits lease_pc.splits)
  obtain c r where p: "pin_first dl b (ls_control s) (ls_refs s) = (c, r)" by (metis surj_pair)
  then have s': "s' = (set_pc t lp_held (set_control c s))\<lparr>ls_refs := r\<rparr>" using d la_pin t by simp
  show ?thesis unfolding s' lease_inv_refs
    by (rule lease_inv_set_pc[OF inv t(1)]) (simp_all add: t pin_firstD[OF p])
next
  case (la_release t)
  then have s': "s' = set_pc t (lp_released (mc_leases (ls_control s)))
      (set_control ((ls_control s)\<lparr>mc_leases := mc_leases (ls_control s) - 1\<rparr>) s)"
    and t: "t < n" "ls_pc s t = lp_held"
    using d by (auto simp: Let_def split: if_splits)
  show ?thesis unfolding s' by (rule lease_inv_set_pc[OF inv t(1)]) (simp_all add: t)
next
  case (la_unpin t)
  then obtain b where t: "t < n" "ls_pc s t = lp_released b" using d by (auto split: if_splits lease_pc.splits)
  obtain c r where p: "unpin_last b (ls_control s) (ls_refs s) = (c, r)" by (metis surj_pair)
  then have s': "s' = (set_pc t lp_idle (set_control c s))\<lparr>ls_refs := r\<rparr>" using d la_unpin t by simp
  have "mc_state c = mc_state (ls_control s)" "mc_leases c = mc_leases (ls_control s)"
    using unpin_last_fields[of b "ls_control s" "ls_refs s"] p by simp_all
  then show ?thesis unfolding s' lease_inv_refs
    by (intro lease_inv_set_pc[OF inv t(1)]) (simp_all add: t)
next
  case la_begin_unload
  then have "ls_unloader s = ul_idle" "mc_state (ls_control s) \<noteq> st_loading"
    and s': "s' = (set_control (fst (begin_unload 0 (ls_control s))) s)\<lparr>ls_unloader := ul_draining\<rparr>"
    using d by (auto simp: begin_unload_eq split: if_splits)
  moreover have "mc_state (ls_control s) \<noteq> st_unloaded"
    using lease_invD(4)[OF inv] \<open>ls_unloader s = ul_idle\<close> by auto
  ultimately show ?thesis unfolding s' using lease_invD(1,5)[OF inv]
    by (simp add: lease_inv_def begin_unload_eq)
next
  case la_wait_idle
  then have u: "ls_unloader s = ul_draining" "mc_leases (ls_control s) = 0" and s': "s' = s\<lparr>ls_unloader := ul_seen_idle\<rparr>"
    using d by (auto split: if_splits)
  have "\<not> entitled (ls_pc s t)" if "t < n" for t
    using zero_leases_no_holder[OF inv n u(2)] that entitled_counted mem_holders[of t n s] by auto
  moreover have "mc_state (ls_control s) = st_draining"
    using lease_invD(2,4)[OF inv] u(1) by auto
  ultimately show ?thesis unfolding s' using lease_invD(1,5)[OF inv] u
    by (simp add: lease_inv_def)
next
  case la_mark_unloaded
  then have u: "ls_unloader s = ul_seen_idle"
    and s': "s' = (set_control (mark_unloaded (ls_control s)) s)\<lparr>ls_unloader := ul_done\<rparr>"
    using d by (auto split: if_splits)
  have "\<not> entitled (ls_pc s t)" if "t < n" for t using lease_invD(3)[OF inv _ that] u by simp
  then show ?thesis unfolding s' using lease_invD(1,5)[OF inv]
    by (simp add: lease_inv_def mark_unloaded_def)
qed

lemma lease_initial_inv: "lease_inv n (lease_initial c)"
  by (simp add: lease_inv_def lease_initial_def holders_def)

lemma lease_reachable_inv: "lease_reachable n dl s \<Longrightarrow> n < 2 ^ 32 \<Longrightarrow> lease_inv n s"
  by (induction rule: lease_reachable.induct) (auto intro: lease_initial_inv lease_do_inv)

lemma lease_run_reachable:
  "lease_reachable n dl s \<Longrightarrow> lease_run n dl as s = Some s' \<Longrightarrow> lease_reachable n dl s'"
  by (induction as arbitrary: s) (auto simp: bind_eq_Some_conv intro: lease_reachable.step)

text \<open>A call that nobody interferes with is the sequential function.\<close>

lemma acquire_run_refines:
  assumes "t < n" "ls_pc s t = lp_idle" "mc_state (ls_control s) = st_active"
    and "try_acquire_lease dl (ls_control s) (ls_refs s) = (c, refs, ok)"
  shows "\<exists>s'. lease_run n dl [la_check t, la_add t, la_recheck t, la_pin t] s = Some s'
           \<and> ls_control s' = c \<and> ls_refs s' = refs \<and> ls_pc s' = (ls_pc s)(t := lp_held) \<and> ok"
  using assms by (auto simp: try_acquire_lease_def Let_def split: prod.splits)

lemma release_run_refines:
  assumes "t < n" "ls_pc s t = lp_held" "release_lease (ls_control s) (ls_refs s) = (c, refs)"
  shows "\<exists>s'. lease_run n dl [la_release t, la_unpin t] s = Some s'
           \<and> ls_control s' = c \<and> ls_refs s' = refs \<and> ls_pc s' = (ls_pc s)(t := lp_idle)"
  using assms by (auto simp: release_lease_def Let_def split: prod.splits)

section \<open>Owner lemmas\<close>

text \<open>What a handle still owes: the destroy call its release will make.\<close>

definition owed :: "owner_handle \<Rightarrow> (uintptr_t \<times> uintptr_t) multiset" where
  "owed h = (if oh_object h \<noteq> 0 \<and> (oh_mode h = 1 \<or> oh_mode h = 2) \<and> oh_destroy h \<noteq> 0
             then {#(oh_destroy h, oh_object h)#} else {#})"

fun op_owed :: "owner_op \<Rightarrow> (uintptr_t \<times> uintptr_t) multiset" where
  "op_owed (oo_adopt i h control) = owed h"
| "op_owed (oo_move i j) = {#}"
| "op_owed (oo_release i) = {#}"

fun op_slots :: "owner_op \<Rightarrow> nat set" where
  "op_slots (oo_adopt i h control) = {i}"
| "op_slots (oo_move i j) = {i, j}"
| "op_slots (oo_release i) = {i}"

definition live :: "nat \<Rightarrow> (nat \<Rightarrow> owner_ref) \<Rightarrow> (uintptr_t \<times> uintptr_t) multiset" where
  "live k rs = (\<Sum>i<k. owed (or_handle (rs i)))"

lemma owed_empty [simp]: "owed empty_handle = {#}"
  by (simp add: owed_def empty_handle_def)

lemma live_upd: "i < k \<Longrightarrow> live k (rs(i := r)) + owed (or_handle (rs i)) = live k rs + owed (or_handle r)"
proof -
  assume "i < k"
  then have "live k f = owed (or_handle (f i)) + (\<Sum>j\<in>{..<k} - {i}. owed (or_handle (f j)))" for f
    unfolding live_def by (intro sum.remove) simp_all
  moreover have "(\<Sum>j\<in>{..<k} - {i}. owed (or_handle ((rs(i := r)) j))) = (\<Sum>j\<in>{..<k} - {i}. owed (or_handle (rs j)))"
    by (intro sum.cong) simp_all
  ultimately show ?thesis by (simp add: ac_simps)
qed

lemma owner_mode_named:
  "owner_mode_to_string m \<noteq> ''unknown'' \<longleftrightarrow> (\<exists>x. m = owner_mode_num x)"
proof
  assume "owner_mode_to_string m \<noteq> ''unknown''"
  then show "\<exists>x. m = owner_mode_num x" by (auto simp: owner_mode_to_string_def simp del: owner_mode_num.simps split: if_splits)
next
  assume "\<exists>x. m = owner_mode_num x"
  then obtain x where "m = owner_mode_num x" by blast
  then show "owner_mode_to_string m \<noteq> ''unknown''" by (cases x) (simp_all add: owner_mode_to_string_def)
qed

lemma lease_release_None: "snd (lease_release l w) = None"
  by (simp add: lease_release_def split: option.split prod.split)

lemma owner_release_eq:
  "owner_release r w =
     (empty_ref,
      w\<lparr>ow_destroyed := ow_destroyed w @
           (if owed (or_handle r) = {#} then [] else [(oh_destroy (or_handle r), oh_object (or_handle r))]),
         ow_leases := fst (lease_release (or_lease r) (ow_leases w))\<rparr>)"
  using lease_release_None[of "or_lease r" "ow_leases w"]
  by (simp add: owner_release_def owed_def owns_def empty_ref_def split_def Let_def)

lemma owner_release_spec:
  assumes "owner_release r w = (r', w')"
  shows "or_handle r' = empty_handle" "or_lease r' = None"
    "mset (ow_destroyed w') = mset (ow_destroyed w) + owed (or_handle r)"
proof -
  have "r' = empty_ref" and w': "ow_destroyed w' = ow_destroyed w @
      (if owed (or_handle r) = {#} then [] else [(oh_destroy (or_handle r), oh_object (or_handle r))])"
    using assms by (auto simp add: owner_release_eq)
  then show "or_handle r' = empty_handle" "or_lease r' = None" by (simp_all add: empty_ref_def)
  show "mset (ow_destroyed w') = mset (ow_destroyed w) + owed (or_handle r)"
    unfolding w' by (simp add: owed_def)
qed

lemma owner_move_assign_spec:
  assumes "owner_move_assign dst src w = (r, src', w')"
  shows "or_handle r = or_handle src" "or_handle src' = empty_handle" "or_lease src' = None"
    "mset (ow_destroyed w') = mset (ow_destroyed w) + owed (or_handle dst)"
proof -
  obtain d w1 where 1: "owner_release dst w = (d, w1)" by (metis surj_pair)
  then have "r = \<lparr>or_handle = or_handle src, or_lease = or_lease src\<rparr>"
    "src' = \<lparr>or_handle = empty_handle, or_lease = None\<rparr>" "ow_destroyed w' = ow_destroyed w1"
    using assms by (auto simp: owner_move_assign_def split_def)
  then show "or_handle r = or_handle src" "or_handle src' = empty_handle" "or_lease src' = None"
    "mset (ow_destroyed w') = mset (ow_destroyed w) + owed (or_handle dst)"
    using owner_release_spec(3)[OF 1] by simp_all
qed

lemma owner_adopt_spec:
  assumes "owner_adopt dl h control w = (r, w')"
  shows "or_handle r = h" "ow_destroyed w' = ow_destroyed w"
  using assms by (auto simp: owner_adopt_def split: option.splits prod.splits)

lemma conserve_step:
  fixes d d' l l' a b :: "'x multiset"
  assumes "d' = d + a" "l' + a = l + b"
  shows "d' + l' = d + l + b"
  using assms by (metis add.assoc add.commute)

lemma owner_exec_conserves:
  assumes ex: "owner_exec dl a (rs, w) = (rs', w')" and sl: "op_slots a \<subseteq> {..<k}"
  shows "mset (ow_destroyed w') + live k rs' = mset (ow_destroyed w) + live k rs + op_owed a"
proof (cases a)
  case (oo_adopt i h control)
  obtain tmp w1 where 1: "owner_adopt dl h control w = (tmp, w1)" by (metis surj_pair)
  obtain r tmp' w2 where 2: "owner_move_assign (rs i) tmp w1 = (r, tmp', w2)" by (metis prod_cases3)
  obtain x w3 where 3: "owner_release tmp' w2 = (x, w3)" by (metis surj_pair)
  have rs': "rs' = rs(i := r)" and w': "w' = w3" using ex 1 2 3 by (simp_all add: oo_adopt)
  have h: "or_handle r = h" using owner_move_assign_spec(1)[OF 2] owner_adopt_spec(1)[OF 1] by simp
  have i: "i < k" using sl by (simp add: oo_adopt)
  have "mset (ow_destroyed w') = mset (ow_destroyed w) + owed (or_handle (rs i))"
    using owner_release_spec(3)[OF 3] owner_move_assign_spec(2,4)[OF 2] owner_adopt_spec(2)[OF 1]
    by (simp add: w')
  moreover have "live k rs' + owed (or_handle (rs i)) = live k rs + owed h"
    using live_upd[OF i, of rs r] by (simp only: rs' h)
  ultimately show ?thesis unfolding oo_adopt op_owed.simps by (rule conserve_step)
next
  case (oo_move i j)
  show ?thesis
  proof (cases "i = j")
    case True
    then show ?thesis using ex by (simp add: oo_move)
  next
    case False
    obtain r src w1 where 1: "owner_move_assign (rs i) (rs j) w = (r, src, w1)" by (metis prod_cases3)
    have rs': "rs' = (rs(i := r))(j := src)" and w': "w' = w1" using ex 1 False by (simp_all add: oo_move)
    have ij: "i < k" "j < k" using sl by (simp_all add: oo_move)
    have "live k (rs(i := r)) + owed (or_handle (rs i)) = live k rs + owed (or_handle (rs j))"
      using live_upd[OF ij(1), of rs r] owner_move_assign_spec(1)[OF 1] by simp
    moreover have "live k rs' + owed (or_handle (rs j)) = live k (rs(i := r))"
      using live_upd[OF ij(2), of "rs(i := r)" src] owner_move_assign_spec(2)[OF 1] False by (simp add: rs')
    ultimately have "(live k rs' + owed (or_handle (rs j))) + owed (or_handle (rs i)) = live k rs + owed (or_handle (rs j))"
      by simp
    then have "(live k rs' + owed (or_handle (rs i))) + owed (or_handle (rs j)) = live k rs + owed (or_handle (rs j))"
      by (simp only: ac_simps)
    then have "live k rs' + owed (or_handle (rs i)) = live k rs + {#}" by simp
    with owner_move_assign_spec(4)[OF 1] show ?thesis unfolding w' oo_move op_owed.simps by (rule conserve_step)
  qed
next
  case (oo_release i)
  obtain r w1 where 1: "owner_release (rs i) w = (r, w1)" by (metis surj_pair)
  have rs': "rs' = rs(i := r)" and w': "w' = w1" using ex 1 by (simp_all add: oo_release)
  have i: "i < k" using sl by (simp add: oo_release)
  have "live k rs' + owed (or_handle (rs i)) = live k rs + {#}"
    using live_upd[OF i, of rs r] owner_release_spec(1)[OF 1] by (simp add: rs')
  with owner_release_spec(3)[OF 1] show ?thesis unfolding w' oo_release op_owed.simps by (rule conserve_step)
qed

lemma owner_run_conserves:
  assumes "owner_run dl as (rs, w) = (rs', w')" "\<Union> (op_slots ` set as) \<subseteq> {..<k}"
  shows "mset (ow_destroyed w') + live k rs' = mset (ow_destroyed w) + live k rs + (\<Sum>a\<leftarrow>as. op_owed a)"
  using assms
proof (induction as arbitrary: rs w)
  case (Cons a as)
  obtain rs1 w1 where 1: "owner_exec dl a (rs, w) = (rs1, w1)" by (metis surj_pair)
  have "mset (ow_destroyed w1) + live k rs1 = mset (ow_destroyed w) + live k rs + op_owed a"
    using owner_exec_conserves[OF 1] Cons.prems(2) by simp
  moreover have "mset (ow_destroyed w') + live k rs' = mset (ow_destroyed w1) + live k rs1 + (\<Sum>a\<leftarrow>as. op_owed a)"
    using Cons.prems by (intro Cons.IH) (simp_all add: 1)
  ultimately show ?case by (simp add: ac_simps)
qed simp

text \<open>Adopting with a control that is not active yields an owning handle without a lease.\<close>

lemma adopt_without_lease:
  assumes "mc_state (lw_controls (ow_leases w) a) \<noteq> st_active" "oh_object h \<noteq> 0" "oh_mode h = 1"
  shows "\<exists>r w'. owner_adopt dl h (Some a) w = (r, w') \<and> owner_valid r \<and> owns r \<and> \<not> owner_leased r"
  using assms by (simp add: owner_adopt_def acquire_lease_def try_acquire_lease_def owner_valid_def
      owns_def owner_leased_def)

section \<open>Properties\<close>

text \<open>C7. In every interleaving of any number of threads that acquire and release leases with an
  unloader, the lease count is the number of threads inside a counted lease, and once the module is
  marked unloaded no thread holds a lease or will be granted one.\<close>

theorem unloaded_means_no_lease:
  assumes "lease_reachable n dl s" "n < 2 ^ 32"
  shows "mc_leases (ls_control s) = of_nat (card {t. t < n \<and> counted (ls_pc s t)})
     \<and> (mc_state (ls_control s) = st_unloaded \<longrightarrow>
          (\<forall>t. ls_pc s t \<noteq> lp_held \<and> (\<forall>b. ls_pc s t \<noteq> lp_granted b)))"
proof -
  note inv = lease_reachable_inv[OF assms]
  have "\<not> entitled (ls_pc s t)" if "mc_state (ls_control s) = st_unloaded" for t
    using lease_invD(3)[OF inv, of t] lease_invD(4)[OF inv that] lease_invD(5)[OF inv, of t]
    by (cases "t < n") simp_all
  then show ?thesis using lease_invD(1)[OF inv] by (metis entitled.simps(1,2) holders_def)
qed

definition demo_control :: ModuleControl where
  "demo_control = new_control\<lparr>mc_module_path := Some ''m'', mc_pin := True, mc_unpin := True\<rparr>"

lemmas lease_run_defs =
  demo_control_def new_control_def lease_initial_def activate_module_def set_pc_def set_control_def
  pin_first_def pin_module_def dlopen_def unpin_last_def unpin_module_def dlclose_def
  begin_unload_eq mark_unloaded_def invalid_module_instance_def

theorem unloaded_means_no_lease_witness:
  "\<exists>s. lease_run 2 (\<lambda>_. 5)
      [la_activate, la_check 0, la_add 0, la_recheck 0, la_pin 0, la_check 1, la_add 1, la_begin_unload,
       la_recheck 1, la_release 0, la_unpin 0, la_wait_idle, la_mark_unloaded] (lease_initial demo_control) = Some s
     \<and> mc_state (ls_control s) = st_unloaded \<and> (\<forall>t. ls_pc s t \<noteq> lp_held)"
proof -
  let ?as = "[la_activate, la_check 0, la_add 0, la_recheck 0, la_pin 0, la_check 1, la_add 1, la_begin_unload,
       la_recheck 1, la_release 0, la_unpin 0, la_wait_idle, la_mark_unloaded]"
  obtain s where r: "lease_run 2 (\<lambda>_. 5) ?as (lease_initial demo_control) = Some s"
    and u: "mc_state (ls_control s) = st_unloaded"
    by (simp add: lease_run_defs)
  have "lease_reachable 2 (\<lambda>_. 5) s"
    using lease_run_reachable[OF lease_reachable.start r] .
  then show ?thesis using unloaded_means_no_lease[of 2 "\<lambda>_. 5" s] r u by simp
qed

text \<open>The platform reference of the first lease is not reliable: a thread can hold a granted lease
  on a module nobody pinned, because the thread that was to pin it backed out; and the delayed unpin
  of one thread can drop the pin of the next, so that a reference is left when no lease exists.\<close>

theorem lease_pin_races:
  "\<exists>s s'. lease_reachable 2 (\<lambda>_. 5) s \<and> mc_pin (ls_control s) \<and> ls_pc s 1 = lp_held \<and> ls_pc s 0 = lp_idle
       \<and> ls_refs s = (\<lambda>_. 0) \<and> mc_pin_state (ls_control s) = 0
     \<and> lease_reachable 2 (\<lambda>_. 5) s' \<and> mc_leases (ls_control s') = 0 \<and> ls_pc s' = (\<lambda>_. lp_idle)
       \<and> mc_pin_state (ls_control s') = 0 \<and> ls_refs s' 5 = 1"
proof -
  let ?as = "[la_activate, la_check 0, la_add 0, la_check 1, la_add 1, la_recheck 1, la_begin_unload,
       la_recheck 0, la_pin 1]"
  let ?bs = "[la_activate, la_check 0, la_add 0, la_recheck 0, la_pin 0, la_release 0, la_check 1, la_add 1,
       la_recheck 1, la_pin 1, la_unpin 0, la_release 1, la_unpin 1]"
  obtain s where r: "lease_run 2 (\<lambda>_. 5) ?as (lease_initial demo_control) = Some s"
    and 1: "mc_pin (ls_control s)" "ls_pc s 1 = lp_held" "ls_pc s 0 = lp_idle" "ls_refs s = (\<lambda>_. 0)"
      "mc_pin_state (ls_control s) = 0"
    by (simp add: lease_run_defs)
  obtain s' where r': "lease_run 2 (\<lambda>_. 5) ?bs (lease_initial demo_control) = Some s'"
    and 2: "mc_leases (ls_control s') = 0" "ls_pc s' = (\<lambda>_. lp_idle)" "mc_pin_state (ls_control s') = 0"
      "ls_refs s' 5 = 1"
    by (simp add: lease_run_defs fun_upd_def fun_eq_iff)
  show ?thesis
    using lease_run_reachable[OF lease_reachable.start r] lease_run_reachable[OF lease_reachable.start r'] 1 2
    by blast
qed

text \<open>C29. Owner handles run each destroy entry exactly once: over any sequence of adoptions, moves and
  releases, the destroy calls made so far together with those still owed by live handles are exactly
  the ones adopted, so when every handle is empty each adopted object was destroyed once.\<close>

theorem owner_destroys_exactly_once:
  assumes "owner_run dl as (\<lambda>_. empty_ref, w) = (rs, w')" "\<Union> (op_slots ` set as) \<subseteq> {..<k}"
    and "ow_destroyed w = []"
  shows "mset (ow_destroyed w') + live k rs = (\<Sum>a\<leftarrow>as. op_owed a)
     \<and> ((\<forall>i < k. \<not> owner_valid (rs i)) \<longrightarrow> mset (ow_destroyed w') = (\<Sum>a\<leftarrow>as. op_owed a))"
proof -
  have "live k (\<lambda>_. empty_ref) = {#}" by (simp add: live_def empty_ref_def)
  then have *: "mset (ow_destroyed w') + live k rs = (\<Sum>a\<leftarrow>as. op_owed a)"
    using owner_run_conserves[OF assms(1,2)] assms(3) by simp
  have "live k rs = {#}" if "\<forall>i < k. \<not> owner_valid (rs i)"
    using that by (simp add: live_def owner_valid_def owed_def)
  then show ?thesis using * by auto
qed

theorem owner_destroys_exactly_once_witness:
  "mset (ow_destroyed (snd (owner_run (\<lambda>_. 0)
       [oo_adopt 0 (make_owned 100 7 1) (Some 0), oo_move 1 0, oo_release 0, oo_release 1, oo_release 1]
       (\<lambda>_. empty_ref, \<lparr>ow_leases = \<lparr>lw_controls = (\<lambda>_. new_control\<lparr>mc_state := st_active\<rparr>), lw_refs = (\<lambda>_. 0)\<rparr>,
          ow_destroyed = []\<rparr>)))) = {#(7, 100)#}"
proof -
  let ?as = "[oo_adopt 0 (make_owned 100 7 1) (Some 0), oo_move 1 0, oo_release 0, oo_release 1, oo_release 1]"
  let ?w = "\<lparr>ow_leases = \<lparr>lw_controls = (\<lambda>_. new_control\<lparr>mc_state := st_active\<rparr>), lw_refs = (\<lambda>_. 0)\<rparr>,
          ow_destroyed = []\<rparr>"
  obtain rs w' where r: "owner_run (\<lambda>_. 0) ?as (\<lambda>_. empty_ref, ?w) = (rs, w')" by (metis surj_pair)
  have "mset (ow_destroyed w') + live 2 rs = (\<Sum>a\<leftarrow>?as. op_owed a)
      \<and> ((\<forall>i < 2. \<not> owner_valid (rs i)) \<longrightarrow> mset (ow_destroyed w') = (\<Sum>a\<leftarrow>?as. op_owed a))"
    by (rule owner_destroys_exactly_once[OF r]) simp_all
  moreover have "\<forall>i < 2. \<not> owner_valid (rs i)"
    using r by (auto simp: less_2_cases_iff owner_valid_def owner_adopt_def owner_move_assign_def
        owner_release_def owns_def make_owned_def empty_ref_def empty_handle_def Let_def
        split: prod.splits)
  ultimately show ?thesis using r by (simp add: make_owned_def owed_def)
qed

end
