(* ===== verification/Module_Registry.thy ===== *)
theory Module_Registry
  imports Interface_Binding Module_Lease
begin

text \<open>
  Dynamically discovered modules: the manifest and its validation (\<open>Interface/Module.h\<close>), the registry
  of module interfaces (\<open>Interface/ModuleRegistry.h\<close>) and discovery (\<open>Interface/Discovery.h\<close>).

  The registry keeps module slots that are reused and one dense interface array that is compacted on
  unregistration; each slot remembers where its interfaces begin. Its abstract view is the list of
  registered modules with their interfaces in registration order. Shown: registering appends to that
  list, unregistering removes from it, failures leave it alone and the queries read it; validation
  accepts exactly the well-formed manifests; and a discovered interface bound to a proxy only runs
  adapters with the signatures the contract expects.
\<close>

section \<open>Manifests\<close>

definition abix_manifest_version :: u32 where
  "abix_manifest_version = 1"

definition abix_module_query_symbol :: string where
  "abix_module_query_symbol = ''abix_module_query_v1''"

definition abix_max_manifest_interfaces :: u32 where
  "abix_max_manifest_interfaces = 4096"

definition abix_max_manifest_methods :: u32 where
  "abix_max_manifest_methods = 65536"

record InterfaceManifestEntry =
  me_interface_id :: InterfaceId
  me_interface_version :: u32
  me_flags :: u32
  me_methods :: "InterfaceMethod arr"
  me_method_count :: u32
  me_reserved :: u32

record ModuleManifest =
  mm_manifest_version :: u32
  mm_module_abi_version :: u32
  mm_flags :: u32
  mm_interface_count :: u32
  mm_interfaces :: "InterfaceManifestEntry arr"
  mm_extension_count :: u32
  mm_reserved :: u32
  mm_extensions :: uintptr_t

fun check_method_slots :: "InterfaceMethod list \<Rightarrow> InterfaceMethod list \<Rightarrow> ManifestStatus" where
  "check_method_slots previous [] = mf_ok"
| "check_method_slots previous (m # ms) =
     (if list_ex (\<lambda>p. im_slot p = im_slot m) previous then mf_invalid_binding
      else check_method_slots (previous @ [m]) ms)"

fun check_manifest_entries :: "InterfaceManifestEntry list \<Rightarrow> ManifestStatus" where
  "check_manifest_entries [] = mf_ok"
| "check_manifest_entries (e # es) =
     (if hash_eq (me_interface_id e) Hash128_zero then mf_invalid_interface
      else if me_method_count e > abix_max_manifest_methods then mf_too_many_methods
      else if me_method_count e \<noteq> 0 \<and> me_methods e = None then mf_invalid_interface
      else let st = check_method_slots [] (arr_elems (me_methods e) (me_method_count e))
           in if st \<noteq> mf_ok then st else check_manifest_entries es)"

definition validate_manifest :: "ModuleManifest ptr \<Rightarrow> ManifestStatus" where
  "validate_manifest manifest =
     (case manifest of
        None \<Rightarrow> mf_null_manifest
      | Some mm \<Rightarrow>
          if mm_manifest_version mm \<noteq> abix_manifest_version then mf_unsupported_version
          else if mm_interface_count mm > abix_max_manifest_interfaces then mf_too_many_interfaces
          else if mm_interface_count mm \<noteq> 0 \<and> mm_interfaces mm = None then mf_invalid_interface
          else check_manifest_entries (arr_elems (mm_interfaces mm) (mm_interface_count mm)))"

section \<open>Registry\<close>

record ModuleInterface =
  mi_module :: ModuleInstanceId
  mi_interface_id :: InterfaceId
  mi_version :: u32
  mi_methods :: "InterfaceMethod arr"
  mi_method_count :: u32
  mi_control :: "nat option"

definition default_interface :: ModuleInterface where
  "default_interface = \<lparr>mi_module = invalid_module_instance, mi_interface_id = Hash128_zero, mi_version = 0,
     mi_methods = None, mi_method_count = 0, mi_control = None\<rparr>"

record ModuleSlot =
  sl_control :: "nat option"
  sl_begin :: u32
  sl_count :: u32
  sl_used :: bool

definition free_slot :: ModuleSlot where
  "free_slot = \<lparr>sl_control = None, sl_begin = 0, sl_count = 0, sl_used = False\<rparr>"

record ModuleRegistry =
  mr_modules :: "ModuleSlot list"
  mr_interfaces :: "ModuleInterface list"
  mr_module_count :: nat
  mr_interface_count :: nat

definition empty_module_registry :: "nat \<Rightarrow> nat \<Rightarrow> ModuleRegistry" where
  "empty_module_registry mcap icap =
     \<lparr>mr_modules = replicate (if mcap = 0 then 1 else mcap) free_slot,
      mr_interfaces = replicate (if icap = 0 then 1 else icap) default_interface,
      mr_module_count = 0, mr_interface_count = 0\<rparr>"

text \<open>The world of the registry: the lifecycle controls with the platform references, and the counter
  of instance ids.\<close>

record module_world =
  mw_leases :: lease_world
  mw_counter :: u64

definition control_at :: "module_world \<Rightarrow> nat \<Rightarrow> ModuleControl" where
  "control_at w a = lw_controls (mw_leases w) a"

definition put_control :: "nat \<Rightarrow> ModuleControl \<Rightarrow> module_world \<Rightarrow> module_world" where
  "put_control a c w =
     w\<lparr>mw_leases := (mw_leases w)\<lparr>lw_controls := (lw_controls (mw_leases w))(a := c)\<rparr>\<rparr>"

fun has_duplicate_interface :: "InterfaceManifestEntry list \<Rightarrow> bool" where
  "has_duplicate_interface [] = False"
| "has_duplicate_interface (e # es) =
     (if list_ex (\<lambda>x. hash_eq (me_interface_id e) (me_interface_id x)
                    \<and> me_interface_version e = me_interface_version x) es
      then True else has_duplicate_interface es)"

fun first_free :: "ModuleSlot list \<Rightarrow> nat" where
  "first_free [] = 0"
| "first_free (s # ss) = (if sl_used s then Suc (first_free ss) else 0)"

definition manifest_binding :: "nat \<Rightarrow> ModuleInstanceId \<Rightarrow> InterfaceManifestEntry \<Rightarrow> ModuleInterface" where
  "manifest_binding a i e =
     \<lparr>mi_module = i, mi_interface_id = me_interface_id e, mi_version = me_interface_version e,
      mi_methods = me_methods e, mi_method_count = me_method_count e, mi_control = Some a\<rparr>"

fun append_bindings :: "ModuleInterface list \<Rightarrow> nat \<Rightarrow> ModuleInterface list \<Rightarrow> ModuleInterface list \<times> nat" where
  "append_bindings arr n [] = (arr, n)"
| "append_bindings arr n (b # bs) = append_bindings (arr[n := b]) (Suc n) bs"

definition mr_register_module :: "nat \<Rightarrow> nat \<Rightarrow> nat \<Rightarrow> ModuleManifest \<Rightarrow> ModuleRegistry \<Rightarrow> module_world
    \<Rightarrow> ModuleRegistry \<times> module_world \<times> ModuleStatus" where
  "mr_register_module mcap icap a mm reg w =
     (let entries = arr_elems (mm_interfaces mm) (mm_interface_count mm)
      in if validate_manifest (Some mm) \<noteq> mf_ok then (reg, w, ms_invalid_manifest)
      else if list_ex (\<lambda>s. sl_used s \<and> sl_control s = Some a) (mr_modules reg) then (reg, w, ms_already_registered)
      else if mm_interface_count mm \<noteq> 0 \<and> has_duplicate_interface entries then (reg, w, ms_duplicate_interface)
      else if mr_module_count reg = mcap then (reg, w, ms_capacity_exceeded)
      else if mr_interface_count reg + unat (mm_interface_count mm) > icap
      then (reg, w, ms_interface_capacity_exceeded)
      else let k = first_free (take mcap (mr_modules reg))
      in if k = mcap then (reg, w, ms_capacity_exceeded)
      else case activate_module (control_at w a) of
        (c, False) \<Rightarrow> (reg, w, ms_invalid_state)
      | (c, True) \<Rightarrow>
          (case next_module_instance_id (mw_counter w) of (ctr, i) \<Rightarrow>
           case append_bindings (mr_interfaces reg) (mr_interface_count reg) (map (manifest_binding a i) entries) of
             (arr, n) \<Rightarrow>
               (reg\<lparr>mr_modules := (mr_modules reg)[k := \<lparr>sl_control = Some a,
                       sl_begin = of_nat (mr_interface_count reg), sl_count = mm_interface_count mm, sl_used = True\<rparr>],
                    mr_module_count := Suc (mr_module_count reg),
                    mr_interfaces := arr, mr_interface_count := n\<rparr>,
                (put_control a (c\<lparr>mc_id := i\<rparr>) w)\<lparr>mw_counter := ctr\<rparr>, ms_ok)))"

text \<open>\<open>find_slot\<close> yields the index of the slot.\<close>

fun find_slot_from :: "module_world \<Rightarrow> ModuleInstanceId \<Rightarrow> ModuleSlot list \<Rightarrow> nat \<Rightarrow> nat option" where
  "find_slot_from w i [] k = None"
| "find_slot_from w i (s # ss) k =
     (if sl_used s \<and> (case sl_control s of None \<Rightarrow> False | Some a \<Rightarrow> mc_id (control_at w a) = i) then Some k
      else find_slot_from w i ss (Suc k))"

definition find_slot :: "ModuleRegistry \<Rightarrow> module_world \<Rightarrow> ModuleInstanceId \<Rightarrow> nat option" where
  "find_slot reg w i = (if i = invalid_module_instance then None else find_slot_from w i (mr_modules reg) 0)"

function compact_from :: "ModuleInterface list \<Rightarrow> nat \<Rightarrow> nat \<Rightarrow> nat \<Rightarrow> ModuleInterface list" where
  "compact_from arr i cnt n = (if i + cnt < n then compact_from (arr[i := arr ! (i + cnt)]) (Suc i) cnt n else arr)"
  by pat_completeness auto

termination by (relation "measure (\<lambda>(arr, i, cnt, n). n - i)") auto

declare compact_from.simps [simp del]

definition shift_begin :: "u32 \<Rightarrow> u32 \<Rightarrow> ModuleSlot \<Rightarrow> ModuleSlot" where
  "shift_begin bgn cnt s = (if sl_used s \<and> sl_begin s > bgn then s\<lparr>sl_begin := sl_begin s - cnt\<rparr> else s)"

text \<open>\<open>seen\<close> are the lease counts that \<open>wait_for_idle\<close> observes.\<close>

definition mr_unregister_module :: "(nat \<Rightarrow> u32) \<Rightarrow> ModuleInstanceId \<Rightarrow> ModuleRegistry \<Rightarrow> module_world
    \<Rightarrow> ModuleRegistry \<times> module_world \<times> ModuleStatus" where
  "mr_unregister_module seen i reg w =
     (case find_slot reg w i of
        None \<Rightarrow> (reg, w, ms_not_registered)
      | Some k \<Rightarrow>
          let s = mr_modules reg ! k; a = the (sl_control s);
              w = put_control a (fst (begin_unload 0 (control_at w a))) w
          in if \<not> wait_for_idle seen default_max_spins then (reg, w, ms_busy)
             else let bgn = sl_begin s; cnt = sl_count s
             in (reg\<lparr>mr_interfaces := compact_from (mr_interfaces reg) (unat bgn) (unat cnt) (mr_interface_count reg),
                     mr_interface_count := mr_interface_count reg - unat cnt,
                     mr_modules := (map (shift_begin bgn cnt) (mr_modules reg))[k := free_slot],
                     mr_module_count := mr_module_count reg - 1\<rparr>,
                 put_control a (mark_unloaded (control_at w a)) w, ms_ok))"

definition mr_registered :: "ModuleRegistry \<Rightarrow> module_world \<Rightarrow> ModuleInstanceId \<Rightarrow> bool" where
  "mr_registered reg w i \<longleftrightarrow> find_slot reg w i \<noteq> None"

definition mr_interface_at :: "ModuleRegistry \<Rightarrow> nat \<Rightarrow> ModuleInterface ptr" where
  "mr_interface_at reg i = (if i < mr_interface_count reg then Some (mr_interfaces reg ! i) else None)"

fun find_interface_from :: "InterfaceId \<Rightarrow> u32 \<Rightarrow> nat \<Rightarrow> ModuleInterface list \<Rightarrow> nat \<Rightarrow> ModuleInterface list" where
  "find_interface_from i v mx [] written = []"
| "find_interface_from i v mx (e # es) written =
     (if written < mx
      then if mi_interface_id e \<noteq> i then find_interface_from i v mx es written
           else if v \<noteq> 0 \<and> mi_version e \<noteq> v then find_interface_from i v mx es written
           else e # find_interface_from i v mx es (Suc written)
      else [])"

definition find_interface :: "ModuleRegistry \<Rightarrow> InterfaceId \<Rightarrow> u32 \<Rightarrow> nat \<Rightarrow> ModuleInterface list" where
  "find_interface reg i v mx = find_interface_from i v mx (take (mr_interface_count reg) (mr_interfaces reg)) 0"

fun find_first_from :: "InterfaceId \<Rightarrow> u32 \<Rightarrow> ModuleInterface ptr \<Rightarrow> ModuleInterface list \<Rightarrow> ModuleInterface ptr" where
  "find_first_from i v best [] = best"
| "find_first_from i v best (e # es) =
     (if mi_interface_id e \<noteq> i then find_first_from i v best es
      else if v \<noteq> 0 \<and> mi_version e \<noteq> v then find_first_from i v best es
      else find_first_from i v
        (case best of None \<Rightarrow> Some e | Some b \<Rightarrow> if mi_version e \<ge> mi_version b then Some e else best) es)"

definition find_first :: "ModuleRegistry \<Rightarrow> InterfaceId \<Rightarrow> u32 \<Rightarrow> ModuleInterface ptr" where
  "find_first reg i v = find_first_from i v None (take (mr_interface_count reg) (mr_interfaces reg))"

record BoundInterface =
  bi_ref :: InterfaceRef
  bi_lease :: ModuleLease

definition bound_valid :: "BoundInterface \<Rightarrow> bool" where
  "bound_valid b \<longleftrightarrow> ref_valid (bi_ref b) \<and> bi_lease b \<noteq> None"

definition bind_interface :: "nat \<Rightarrow> (string \<Rightarrow> uintptr_t) \<Rightarrow> ModuleInterface \<Rightarrow> vptr \<Rightarrow> lease_world
    \<Rightarrow> BoundInterface \<times> lease_world" where
  "bind_interface mx dl b object lw =
     (case mi_control b of
        None \<Rightarrow> (\<lparr>bi_ref = ref_reset mx, bi_lease = None\<rparr>, lw)
      | Some a \<Rightarrow>
          (case acquire_lease dl a lw of
             (lw', None) \<Rightarrow> (\<lparr>bi_ref = ref_reset mx, bi_lease = None\<rparr>, lw')
           | (lw', Some l) \<Rightarrow>
               (\<lparr>bi_ref = fst (ref_resolve_methods mx (mi_interface_id b) (mi_version b) (mi_methods b)
                           (mi_method_count b) object), bi_lease = Some l\<rparr>, lw')))"

section \<open>Discovery\<close>

record DiscoveryResult =
  dr_manifest :: ManifestStatus
  dr_registration :: ModuleStatus
  dr_queried :: "ModuleManifest ptr"

definition discovery_ok :: "DiscoveryResult \<Rightarrow> bool" where
  "discovery_ok r \<longleftrightarrow> dr_manifest r = mf_ok \<and> dr_registration r = ms_ok"

text \<open>What discovery reads of a loaded module: its handle, its path and its exported symbols; calling
  the query entry is a parameter.\<close>

record dll_module =
  dm_module :: uintptr_t
  dm_path :: "string ptr"
  dm_resolve :: "string \<Rightarrow> uintptr_t"

definition bind_module_platform :: "ModuleControl \<Rightarrow> dll_module \<Rightarrow> ModuleControl" where
  "bind_module_platform c m =
     c\<lparr>mc_module_handle := dm_module m, mc_module_path := dm_path m, mc_pin := True, mc_unpin := True\<rparr>"

definition discover_module :: "nat \<Rightarrow> nat \<Rightarrow> (uintptr_t \<Rightarrow> ModuleManifest ptr) \<Rightarrow> dll_module \<Rightarrow> nat
    \<Rightarrow> ModuleRegistry \<Rightarrow> module_world \<Rightarrow> ModuleRegistry \<times> module_world \<times> DiscoveryResult" where
  "discover_module mcap icap query m a reg w =
     (let fn = dm_resolve m abix_module_query_symbol
      in if fn = 0
         then (reg, w, \<lparr>dr_manifest = mf_null_manifest, dr_registration = ms_invalid_manifest, dr_queried = None\<rparr>)
         else let q = query fn; st = validate_manifest q
         in if st \<noteq> mf_ok
            then (reg, w, \<lparr>dr_manifest = st, dr_registration = ms_invalid_manifest, dr_queried = q\<rparr>)
            else let w = put_control a (bind_module_platform (control_at w a) m) w
            in case mr_register_module mcap icap a (the q) reg w of
                 (reg', w', rs) \<Rightarrow>
                   (reg', w', \<lparr>dr_manifest = st, dr_registration = rs, dr_queried = q\<rparr>))"

section \<open>Validation lemmas\<close>

definition entry_ok :: "InterfaceManifestEntry \<Rightarrow> bool" where
  "entry_ok e \<longleftrightarrow> me_interface_id e \<noteq> Hash128_zero \<and> unat (me_method_count e) \<le> 65536
     \<and> (me_method_count e = 0 \<or> me_methods e \<noteq> None)
     \<and> distinct (map im_slot (arr_elems (me_methods e) (me_method_count e)))"

definition manifest_ok :: "ModuleManifest \<Rightarrow> bool" where
  "manifest_ok mm \<longleftrightarrow> mm_manifest_version mm = 1 \<and> unat (mm_interface_count mm) \<le> 4096
     \<and> (mm_interface_count mm = 0 \<or> mm_interfaces mm \<noteq> None)
     \<and> (\<forall>e \<in> set (arr_elems (mm_interfaces mm) (mm_interface_count mm)). entry_ok e)"

lemma hash_eq_iff: "hash_eq a b \<longleftrightarrow> a = b"
  by (cases a; cases b) (simp add: hash_eq_def)

lemma check_method_slots_ok:
  "check_method_slots previous ms = mf_ok \<longleftrightarrow>
     (distinct (map im_slot ms) \<and> set (map im_slot previous) \<inter> set (map im_slot ms) = {})"
proof (induction ms arbitrary: previous)
  case (Cons m ms)
  have "list_ex (\<lambda>p. im_slot p = im_slot m) previous \<longleftrightarrow> im_slot m \<in> im_slot ` set previous"
    by (auto simp: list_ex_iff) (metis image_eqI)
  then show ?case by (auto simp: Cons)
qed simp

lemma check_manifest_entries_ok:
  "check_manifest_entries es = mf_ok \<longleftrightarrow> (\<forall>e \<in> set es. entry_ok e)"
proof (induction es)
  case (Cons e es)
  have "me_method_count e > abix_max_manifest_methods \<longleftrightarrow> \<not> unat (me_method_count e) \<le> 65536"
    by (auto simp: abix_max_manifest_methods_def word_less_nat_alt)
  then show ?case using check_method_slots_ok[of "[]" "arr_elems (me_methods e) (me_method_count e)"] Cons
    by (cases "me_method_count e = 0") (auto simp: entry_ok_def hash_eq_iff Let_def arr_elems_def split: option.splits)
qed simp

lemma validate_manifest_ok:
  "validate_manifest q = mf_ok \<longleftrightarrow> (\<exists>mm. q = Some mm \<and> manifest_ok mm)"
proof (cases q)
  case (Some mm)
  have "mm_interface_count mm > abix_max_manifest_interfaces \<longleftrightarrow> \<not> unat (mm_interface_count mm) \<le> 4096"
    by (auto simp: abix_max_manifest_interfaces_def word_less_nat_alt)
  then show ?thesis using check_manifest_entries_ok
    by (auto simp: Some validate_manifest_def manifest_ok_def abix_manifest_version_def)
qed (simp add: validate_manifest_def)

section \<open>Array lemmas\<close>

lemma append_bindings_spec:
  assumes "append_bindings arr n bs = (arr', n')" "n + length bs \<le> length arr"
  shows "n' = n + length bs" "length arr' = length arr" "take n' arr' = take n arr @ bs"
  using assms
proof (induction bs arbitrary: arr n)
  case (Cons b bs)
  {
    case 1
    then show ?case using Cons.IH(1)[of "arr[n := b]" "Suc n"] by simp
  next
    case 2
    then show ?case using Cons.IH(2)[of "arr[n := b]" "Suc n"] by simp
  next
    case 3
    then have "take n' arr' = take (Suc n) (arr[n := b]) @ bs"
      using Cons.IH(3)[of "arr[n := b]" "Suc n"] by simp
    moreover have "take (Suc n) (arr[n := b]) = take n arr @ [b]"
      using 3(2) by (simp add: take_Suc_conv_app_nth)
    ultimately show ?case by simp
  }
qed simp_all

lemma compact_from_length [simp]: "length (compact_from arr i cnt n) = length arr"
  by (induction arr i cnt n rule: compact_from.induct) (subst compact_from.simps, simp)

lemma compact_from_nth:
  assumes "n \<le> length arr" "k < length arr"
  shows "compact_from arr i cnt n ! k = (if i \<le> k \<and> k + cnt < n then arr ! (k + cnt) else arr ! k)"
  using assms
proof (induction arr i cnt n rule: compact_from.induct)
  case (1 arr i cnt n)
  show ?case
  proof (cases "i + cnt < n")
    case True
    let ?arr = "arr[i := arr ! (i + cnt)]"
    have "compact_from arr i cnt n ! k = compact_from ?arr (Suc i) cnt n ! k"
      using True by (subst compact_from.simps) simp
    also have "\<dots> = (if Suc i \<le> k \<and> k + cnt < n then ?arr ! (k + cnt) else ?arr ! k)"
      using 1 True by simp
    also have "\<dots> = (if i \<le> k \<and> k + cnt < n then arr ! (k + cnt) else arr ! k)"
      using True 1(2,3) by (cases "k = i") (auto simp: nth_list_update)
    finally show ?thesis .
  next
    case False
    then show ?thesis by (subst compact_from.simps) auto
  qed
qed

lemma compact_from_take:
  assumes "i + cnt \<le> n" "n \<le> length arr"
  shows "take (n - cnt) (compact_from arr i cnt n) = take i arr @ drop (i + cnt) (take n arr)"
proof (rule nth_equalityI)
  fix k assume "k < length (take (n - cnt) (compact_from arr i cnt n))"
  then have k: "k < n - cnt" by simp
  then show "take (n - cnt) (compact_from arr i cnt n) ! k = (take i arr @ drop (i + cnt) (take n arr)) ! k"
    using assms compact_from_nth[OF assms(2), of k i cnt] by (auto simp: nth_append min_def ac_simps)
qed (use assms in auto)

lemma first_free_spec:
  "first_free ss < length ss \<Longrightarrow> \<not> sl_used (ss ! first_free ss)" "first_free ss \<le> length ss"
  by (induction ss) auto

lemma find_slot_from_Some:
  "find_slot_from w i ss k = Some j \<Longrightarrow>
     k \<le> j \<and> j - k < length ss \<and> sl_used (ss ! (j - k))
     \<and> (\<exists>a. sl_control (ss ! (j - k)) = Some a \<and> mc_id (control_at w a) = i)"
proof (induction ss arbitrary: k)
  case (Cons s ss)
  then show ?case
    by (cases "j = k") (fastforce split: if_splits option.splits simp: Suc_le_eq nth_Cons')+
qed simp

section \<open>The abstract registry\<close>

text \<open>Registered modules in registration order, each with its control and its interfaces.\<close>

type_synonym module_list = "(nat \<times> ModuleInterface list) list"

text \<open>Where each module's interfaces lie in the dense array: (control, begin, count).\<close>

fun layout :: "nat \<Rightarrow> module_list \<Rightarrow> (nat option \<times> nat \<times> nat) list" where
  "layout off [] = []"
| "layout off ((a, ifs) # ms) = (Some a, off, length ifs) # layout (off + length ifs) ms"

definition slot_triple :: "ModuleSlot \<Rightarrow> nat option \<times> nat \<times> nat" where
  "slot_triple s = (sl_control s, unat (sl_begin s), unat (sl_count s))"

definition used_triples :: "ModuleSlot list \<Rightarrow> (nat option \<times> nat \<times> nat) multiset" where
  "used_triples ss = mset (map slot_triple (filter sl_used ss))"

definition all_interfaces :: "module_list \<Rightarrow> ModuleInterface list" where
  "all_interfaces ms = concat (map snd ms)"

definition registry_abs :: "nat \<Rightarrow> nat \<Rightarrow> ModuleRegistry \<Rightarrow> module_list \<Rightarrow> bool" where
  "registry_abs mcap icap reg ms \<longleftrightarrow>
     mr_interface_count reg = length (all_interfaces ms)
     \<and> take (mr_interface_count reg) (mr_interfaces reg) = all_interfaces ms
     \<and> used_triples (mr_modules reg) = mset (layout 0 ms)
     \<and> mr_module_count reg = length ms
     \<and> mr_interface_count reg \<le> icap \<and> icap \<le> length (mr_interfaces reg) \<and> icap < 2 ^ 32
     \<and> mcap \<le> length (mr_modules reg)
     \<and> distinct (map fst ms)
     \<and> (\<forall>(a, ifs) \<in> set ms. \<forall>b \<in> set ifs. mi_control b = Some a)"

lemma layout_append:
  "layout off (xs @ ys) = layout off xs @ layout (off + length (all_interfaces xs)) ys"
  by (induction xs arbitrary: off) (auto simp: all_interfaces_def ac_simps)

lemma length_layout [simp]: "length (layout off ms) = length ms"
  by (induction off ms rule: layout.induct) simp_all

lemma fst_layout: "map fst (layout off ms) = map (Some \<circ> fst) ms"
  by (induction off ms rule: layout.induct) simp_all

lemma layout_bounds:
  "(a, b, c) \<in> set (layout off ms) \<Longrightarrow> off \<le> b \<and> b + c \<le> off + length (all_interfaces ms)"
  by (induction off ms rule: layout.induct) (auto simp: all_interfaces_def)

lemma layout_split:
  assumes "(Some a, b, c) \<in> set (layout off ms)"
  obtains xs ifs ys where "ms = xs @ (a, ifs) # ys" "b = off + length (all_interfaces xs)" "c = length ifs"
  using assms
proof (induction off ms arbitrary: thesis rule: layout.induct)
  case (2 off x ifs ms)
  show ?case
  proof (cases "(Some a, b, c) = (Some x, off, length ifs)")
    case True
    then show ?thesis using 2(2)[of "[]" ifs ms] by (simp add: all_interfaces_def)
  next
    case False
    then have "(Some a, b, c) \<in> set (layout (off + length ifs) ms)" using 2(3) by auto
    then obtain xs ifs' ys where "ms = xs @ (a, ifs') # ys"
      "b = off + length ifs + length (all_interfaces xs)" "c = length ifs'"
      using 2(1) by blast
    then show ?thesis using 2(2)[of "(x, ifs) # xs" ifs' ys] by (simp add: all_interfaces_def)
  qed
qed simp

lemma used_triples_update:
  assumes "k < length ss"
  shows "used_triples (ss[k := s]) + (if sl_used (ss ! k) then {#slot_triple (ss ! k)#} else {#}) =
         used_triples ss + (if sl_used s then {#slot_triple s#} else {#})"
proof -
  have e: "used_triples xs = {# slot_triple x. x \<in># filter_mset sl_used (mset xs) #}" for xs
    by (simp add: used_triples_def)
  have "add_mset (ss ! k) (mset (ss[k := s])) = add_mset s (mset ss)"
    using assms by (simp add: mset_update)
  then have "image_mset slot_triple (filter_mset sl_used (add_mset (ss ! k) (mset (ss[k := s])))) =
      image_mset slot_triple (filter_mset sl_used (add_mset s (mset ss)))" by simp
  then show ?thesis unfolding e by (auto split: if_splits)
qed

definition shift_triple :: "nat \<Rightarrow> nat \<Rightarrow> nat option \<times> nat \<times> nat \<Rightarrow> nat option \<times> nat \<times> nat" where
  "shift_triple b0 c0 t = (case t of (a, b, c) \<Rightarrow> (a, if b > b0 then b - c0 else b, c))"

lemma shift_triple_eq: "shift_triple b0 c0 (a, b, c) = (a, if b > b0 then b - c0 else b, c)"
  by (simp add: shift_triple_def)

lemma used_triples_shift:
  assumes "\<And>s. s \<in> set ss \<Longrightarrow> sl_used s \<Longrightarrow> unat (sl_begin s) > unat bgn \<Longrightarrow> unat cnt \<le> unat (sl_begin s)"
  shows "used_triples (map (shift_begin bgn cnt) ss) = image_mset (shift_triple (unat bgn) (unat cnt)) (used_triples ss)"
  using assms
proof (induction ss)
  case (Cons s ss)
  have "unat (sl_begin s - cnt) = unat (sl_begin s) - unat cnt" if "sl_used s" "unat (sl_begin s) > unat bgn"
    using Cons.prems[of s] that by (intro unat_sub) (simp add: word_le_nat_alt)
  then have "sl_used s \<Longrightarrow> slot_triple (shift_begin bgn cnt s) = shift_triple (unat bgn) (unat cnt) (slot_triple s)"
    by (auto simp: shift_begin_def slot_triple_def shift_triple_def word_less_nat_alt)
  moreover have "sl_used (shift_begin bgn cnt s) = sl_used s" by (simp add: shift_begin_def)
  ultimately show ?case using Cons by (simp add: used_triples_def)
qed (simp add: used_triples_def)

lemma shift_layout_before:
  "off + length (all_interfaces ms) \<le> b0 \<Longrightarrow> map (shift_triple b0 c0) (layout off ms) = layout off ms"
  by (rule map_idI) (auto simp: shift_triple_def dest!: layout_bounds)

lemma shift_layout_after:
  "b0 + c0 \<le> off \<Longrightarrow> map (shift_triple b0 c0) (layout off ms) = layout (off - c0) ms"
proof (induction off ms rule: layout.induct)
  case (2 off a ifs ms)
  then have "map (shift_triple b0 c0) (layout (off + length ifs) ms) = layout (off - c0 + length ifs) ms"
    by simp
  then show ?case using 2(2) by (auto simp: shift_triple_eq)
qed simp

lemma registry_absD:
  assumes "registry_abs mcap icap reg ms"
  shows "mr_interface_count reg = length (all_interfaces ms)"
    and "take (mr_interface_count reg) (mr_interfaces reg) = all_interfaces ms"
    and "used_triples (mr_modules reg) = mset (layout 0 ms)"
    and "mr_module_count reg = length ms"
    and "mr_interface_count reg \<le> icap" "icap \<le> length (mr_interfaces reg)" "icap < 2 ^ 32"
    and "mcap \<le> length (mr_modules reg)" "distinct (map fst ms)"
    and "(a, ifs) \<in> set ms \<Longrightarrow> b \<in> set ifs \<Longrightarrow> mi_control b = Some a"
  using assms unfolding registry_abs_def by blast+

lemma used_slot_iff:
  assumes "registry_abs mcap icap reg ms"
  shows "t \<in> set (layout 0 ms) \<longleftrightarrow> (\<exists>s \<in> set (mr_modules reg). sl_used s \<and> slot_triple s = t)"
proof -
  have "set_mset (used_triples (mr_modules reg)) = set (layout 0 ms)"
    using registry_absD(3)[OF assms] by simp
  then have "set (layout 0 ms) = slot_triple ` {s \<in> set (mr_modules reg). sl_used s}"
    by (simp add: used_triples_def)
  then show ?thesis by (simp only:) blast
qed

lemma registered_controls:
  assumes "registry_abs mcap icap reg ms"
  shows "a \<in> fst ` set ms \<longleftrightarrow> (\<exists>s \<in> set (mr_modules reg). sl_used s \<and> sl_control s = Some a)"
proof -
  have "Some a \<in> set (map fst (layout 0 ms)) \<longleftrightarrow> a \<in> fst ` set ms"
    unfolding fst_layout by auto
  moreover have "Some a \<in> set (map fst (layout 0 ms)) \<longleftrightarrow> (\<exists>s \<in> set (mr_modules reg). sl_used s \<and> sl_control s = Some a)"
    using used_slot_iff[OF assms] by (auto simp: slot_triple_def image_iff) (metis fst_conv)+
  ultimately show ?thesis by simp
qed

lemma register_ok_cases:
  assumes "mr_register_module mcap icap a mm reg w = (reg', w', ms_ok)"
  obtains k c ctr i arr n where
    "manifest_ok mm" "\<not> list_ex (\<lambda>s. sl_used s \<and> sl_control s = Some a) (mr_modules reg)"
    "mr_interface_count reg + unat (mm_interface_count mm) \<le> icap"
    "k = first_free (take mcap (mr_modules reg))" "k \<noteq> mcap"
    "activate_module (control_at w a) = (c, True)" "next_module_instance_id (mw_counter w) = (ctr, i)"
    "append_bindings (mr_interfaces reg) (mr_interface_count reg)
       (map (manifest_binding a i) (arr_elems (mm_interfaces mm) (mm_interface_count mm))) = (arr, n)"
    "reg' = reg\<lparr>mr_modules := (mr_modules reg)[k := \<lparr>sl_control = Some a,
                       sl_begin = of_nat (mr_interface_count reg), sl_count = mm_interface_count mm, sl_used = True\<rparr>],
                    mr_module_count := Suc (mr_module_count reg),
                    mr_interfaces := arr, mr_interface_count := n\<rparr>"
    "w' = (put_control a (c\<lparr>mc_id := i\<rparr>) w)\<lparr>mw_counter := ctr\<rparr>"
  using assms validate_manifest_ok[of "Some mm"]
  by (auto simp: mr_register_module_def Let_def not_less split: if_splits prod.splits bool.splits)

lemma control_at_put [simp]:
  "control_at (put_control a c w) b = (if b = a then c else control_at w b)"
  "control_at (w\<lparr>mw_counter := ctr\<rparr>) b = control_at w b"
  by (simp_all add: control_at_def put_control_def)

definition manifest_interfaces :: "nat \<Rightarrow> ModuleInstanceId \<Rightarrow> ModuleManifest \<Rightarrow> ModuleInterface list" where
  "manifest_interfaces a i mm =
     map (manifest_binding a i) (arr_elems (mm_interfaces mm) (mm_interface_count mm))"

lemma manifest_ok_length:
  assumes "manifest_ok mm" "arr_ok (mm_interfaces mm) (mm_interface_count mm)"
  shows "length (manifest_interfaces a i mm) = unat (mm_interface_count mm)"
  using assms by (cases "mm_interfaces mm") (auto simp: manifest_ok_def manifest_interfaces_def arr_elems_def arr_ok_def)

lemma register_refines:
  assumes abs: "registry_abs mcap icap reg ms"
    and reg: "mr_register_module mcap icap a mm reg w = (reg', w', ms_ok)"
    and ok: "arr_ok (mm_interfaces mm) (mm_interface_count mm)"
  shows "registry_abs mcap icap reg' (ms @ [(a, manifest_interfaces a (mc_id (control_at w' a)) mm)])"
    and "a \<notin> fst ` set ms" "manifest_ok mm"
    and "mc_state (control_at w a) = st_loading" "mc_state (control_at w' a) = st_active"
proof -
  obtain k c ctr i arr n where m: "manifest_ok mm"
    and nex: "\<not> list_ex (\<lambda>s. sl_used s \<and> sl_control s = Some a) (mr_modules reg)"
    and cap: "mr_interface_count reg + unat (mm_interface_count mm) \<le> icap"
    and k: "k = first_free (take mcap (mr_modules reg))" "k \<noteq> mcap"
    and act: "activate_module (control_at w a) = (c, True)"
    and nxt: "next_module_instance_id (mw_counter w) = (ctr, i)"
    and ap: "append_bindings (mr_interfaces reg) (mr_interface_count reg)
       (map (manifest_binding a i) (arr_elems (mm_interfaces mm) (mm_interface_count mm))) = (arr, n)"
    and reg': "reg' = reg\<lparr>mr_modules := (mr_modules reg)[k := \<lparr>sl_control = Some a,
                       sl_begin = of_nat (mr_interface_count reg), sl_count = mm_interface_count mm, sl_used = True\<rparr>],
                    mr_module_count := Suc (mr_module_count reg),
                    mr_interfaces := arr, mr_interface_count := n\<rparr>"
    and w': "w' = (put_control a (c\<lparr>mc_id := i\<rparr>) w)\<lparr>mw_counter := ctr\<rparr>"
    by (rule register_ok_cases[OF reg])
  note D = registry_absD[OF abs]
  let ?ifs = "manifest_interfaces a i mm"
  have i: "mc_id (control_at w' a) = i" by (simp add: w')
  show "manifest_ok mm" by (rule m)
  show "mc_state (control_at w a) = st_loading" "mc_state (control_at w' a) = st_active"
    using act by (auto simp: w' activate_module_def split: if_splits)
  show fresh: "a \<notin> fst ` set ms"
    using nex registered_controls[OF abs, of a] by (auto simp: list_ex_iff)
  have len: "length ?ifs = unat (mm_interface_count mm)" by (rule manifest_ok_length[OF m ok])
  have "mr_interface_count reg + length ?ifs \<le> length (mr_interfaces reg)" using cap len D(6) by linarith
  note A = append_bindings_spec[OF ap[folded manifest_interfaces_def] this]
  have klt: "k < length (mr_modules reg)" "k < mcap"
    using first_free_spec(2)[of "take mcap (mr_modules reg)"] k D(8) by auto
  have "\<not> sl_used (mr_modules reg ! k)"
    using first_free_spec(1)[of "take mcap (mr_modules reg)"] klt D(8) by (simp add: k(1)[symmetric])
  moreover have "unat (of_nat (mr_interface_count reg) :: u32) = mr_interface_count reg"
    using D(5,7) by (intro unat_of_nat_small) simp
  ultimately have tr: "used_triples (mr_modules reg') = mset (layout 0 (ms @ [(a, ?ifs)]))"
    using used_triples_update[OF klt(1), of "\<lparr>sl_control = Some a, sl_begin = of_nat (mr_interface_count reg),
        sl_count = mm_interface_count mm, sl_used = True\<rparr>"] D(1,3) len
    by (simp add: reg' slot_triple_def layout_append)
  have "registry_abs mcap icap reg' (ms @ [(a, ?ifs)])"
    unfolding registry_abs_def
  proof (intro conjI)
    show "used_triples (mr_modules reg') = mset (layout 0 (ms @ [(a, ?ifs)]))" by (rule tr)
    show "\<forall>(x, ifs) \<in> set (ms @ [(a, ?ifs)]). \<forall>b \<in> set ifs. mi_control b = Some x"
      using D(10) by (auto simp: manifest_interfaces_def manifest_binding_def)
  qed (use A D len cap fresh in \<open>simp_all add: reg' all_interfaces_def\<close>)
  then show "registry_abs mcap icap reg' (ms @ [(a, manifest_interfaces a (mc_id (control_at w' a)) mm)])"
    by (simp only: i)
qed

lemma unregister_ok_cases:
  assumes "mr_unregister_module seen i reg w = (reg', w', ms_ok)"
  obtains k s a where "find_slot reg w i = Some k" "s = mr_modules reg ! k" "a = the (sl_control s)"
    "reg' = reg\<lparr>mr_interfaces := compact_from (mr_interfaces reg) (unat (sl_begin s)) (unat (sl_count s)) (mr_interface_count reg),
                mr_interface_count := mr_interface_count reg - unat (sl_count s),
                mr_modules := (map (shift_begin (sl_begin s) (sl_count s)) (mr_modules reg))[k := free_slot],
                mr_module_count := mr_module_count reg - 1\<rparr>"
    "mc_state (control_at w' a) = st_unloaded" "wait_for_idle seen default_max_spins"
  using assms by (auto simp: mr_unregister_module_def Let_def mark_unloaded_def split: option.splits if_splits)

lemma find_slot_Some:
  assumes "find_slot reg w i = Some k"
  shows "k < length (mr_modules reg)" "sl_used (mr_modules reg ! k)"
    "\<exists>a. sl_control (mr_modules reg ! k) = Some a \<and> mc_id (control_at w a) = i"
  using assms find_slot_from_Some[of w i "mr_modules reg" 0 k] by (auto simp: find_slot_def split: if_splits)

lemma unregister_refines:
  assumes abs: "registry_abs mcap icap reg ms"
    and un: "mr_unregister_module seen i reg w = (reg', w', ms_ok)"
  shows "\<exists>a \<in> fst ` set ms. mc_id (control_at w a) = i \<and> mc_state (control_at w' a) = st_unloaded
           \<and> registry_abs mcap icap reg' (filter (\<lambda>m. fst m \<noteq> a) ms)"
proof -
  obtain k s a where fs: "find_slot reg w i = Some k" and s: "s = mr_modules reg ! k" and a: "a = the (sl_control s)"
    and reg': "reg' = reg\<lparr>mr_interfaces := compact_from (mr_interfaces reg) (unat (sl_begin s)) (unat (sl_count s)) (mr_interface_count reg),
                mr_interface_count := mr_interface_count reg - unat (sl_count s),
                mr_modules := (map (shift_begin (sl_begin s) (sl_count s)) (mr_modules reg))[k := free_slot],
                mr_module_count := mr_module_count reg - 1\<rparr>"
    and st: "mc_state (control_at w' a) = st_unloaded" and "wait_for_idle seen default_max_spins"
    by (rule unregister_ok_cases[OF un])
  note D = registry_absD[OF abs]
  have k: "k < length (mr_modules reg)" and used: "sl_used s" and ctl: "sl_control s = Some a" "mc_id (control_at w a) = i"
    using find_slot_Some[OF fs] by (auto simp: s a)
  let ?b = "unat (sl_begin s)" and ?c = "unat (sl_count s)"
  have "(Some a, ?b, ?c) \<in> set (layout 0 ms)"
    using used_slot_iff[OF abs, of "(Some a, ?b, ?c)"] used ctl k by (auto simp: slot_triple_def s)
  then obtain xs ifs ys where ms: "ms = xs @ (a, ifs) # ys" and b: "?b = length (all_interfaces xs)" and c: "?c = length ifs"
    by (rule layout_split) simp
  have "filter (\<lambda>m. fst m \<noteq> a) zs = zs" if "a \<notin> fst ` set zs" for zs :: module_list
    using that by (induction zs) auto
  then have flt: "filter (\<lambda>m. fst m \<noteq> a) ms = xs @ ys" using D(9) by (simp add: ms)
  have shift: "map (shift_triple ?b ?c) (layout 0 ms) = layout 0 xs @ shift_triple ?b ?c (Some a, ?b, ?c) # layout ?b ys"
    by (simp add: ms layout_append b c shift_layout_before shift_layout_after)
  have "used_triples (map (shift_begin (sl_begin s) (sl_count s)) (mr_modules reg)) =
      image_mset (shift_triple ?b ?c) (used_triples (mr_modules reg))"
  proof (rule used_triples_shift)
    fix r assume r: "r \<in> set (mr_modules reg)" "sl_used r" "?b < unat (sl_begin r)"
    then have "slot_triple r \<in> set (layout 0 ms)" using used_slot_iff[OF abs] by blast
    then have "slot_triple r \<in> set (layout 0 xs) \<or> slot_triple r \<in> set (layout (?b + ?c) ys)"
      using r(3) by (auto simp: ms layout_append b c slot_triple_def)
    then show "?c \<le> unat (sl_begin r)" using r(3) b by (auto simp: slot_triple_def dest!: layout_bounds)
  qed
  also have "\<dots> = mset (layout 0 (xs @ ys)) + {#slot_triple s#}"
    using D(3) shift ctl by (simp add: layout_append b shift_triple_eq slot_triple_def flip: mset_map)
  finally have tr: "used_triples (mr_modules reg') = mset (layout 0 (xs @ ys))"
    using used_triples_update[of k "map (shift_begin (sl_begin s) (sl_count s)) (mr_modules reg)" free_slot] k used
    by (simp add: reg' free_slot_def shift_begin_def s[symmetric])
  have cnt: "mr_interface_count reg = ?b + ?c + length (all_interfaces ys)"
    using D(1) by (simp add: ms all_interfaces_def b c)
  have "take (mr_interface_count reg - ?c) (mr_interfaces reg') =
      take ?b (mr_interfaces reg) @ drop (?b + ?c) (take (mr_interface_count reg) (mr_interfaces reg))"
    using compact_from_take[of ?b ?c "mr_interface_count reg" "mr_interfaces reg"] cnt D(5,6) by (simp add: reg')
  also have "take ?b (mr_interfaces reg) = take ?b (all_interfaces ms)"
    using D(2) cnt by (metis min.absorb1 take_take le_add1 add.assoc)
  also have "take ?b (all_interfaces ms) = all_interfaces xs"
    by (simp add: ms all_interfaces_def b)
  also have "drop (?b + ?c) (take (mr_interface_count reg) (mr_interfaces reg)) = all_interfaces ys"
    unfolding D(2) by (simp add: ms all_interfaces_def b c)
  finally have ifs: "take (mr_interface_count reg - ?c) (mr_interfaces reg') = all_interfaces (xs @ ys)"
    by (simp add: all_interfaces_def)
  have "registry_abs mcap icap reg' (xs @ ys)"
    unfolding registry_abs_def
  proof (intro conjI)
    show "used_triples (mr_modules reg') = mset (layout 0 (xs @ ys))" by (rule tr)
    show "take (mr_interface_count reg') (mr_interfaces reg') = all_interfaces (xs @ ys)"
      using ifs by (simp add: reg')
    show "mr_interface_count reg' = length (all_interfaces (xs @ ys))"
      using cnt by (simp add: reg' all_interfaces_def b)
    show "\<forall>(x, ifs) \<in> set (xs @ ys). \<forall>b \<in> set ifs. mi_control b = Some x"
      using D(10) by (auto simp: ms)
    show "mr_interface_count reg' \<le> icap" using D(5) by (simp add: reg')
  qed (use D in \<open>simp_all add: reg' ms\<close>)
  then show ?thesis using st ctl(2) flt ms by (intro bexI[of _ a]) simp_all
qed

lemma find_interface_from_filter:
  "find_interface_from i v mx es written =
     take (mx - written) (filter (\<lambda>e. mi_interface_id e = i \<and> (v = 0 \<or> mi_version e = v)) es)"
proof (induction es arbitrary: written)
  case (Cons e es)
  show ?case
  proof (cases "written < mx")
    case True
    then obtain d where "mx - written = Suc d" "mx - Suc written = d" by (metis Suc_diff_Suc)
    then show ?thesis using True Cons by auto
  qed simp
qed simp

lemma find_interface_abs:
  assumes "registry_abs mcap icap reg ms"
  shows "find_interface reg i v mx =
     take mx (filter (\<lambda>e. mi_interface_id e = i \<and> (v = 0 \<or> mi_version e = v)) (all_interfaces ms))"
  using registry_absD(2)[OF assms] by (simp add: find_interface_def find_interface_from_filter)

lemma register_failed: "mr_register_module mcap icap a mm reg w = (reg', w', st) \<Longrightarrow> st \<noteq> ms_ok \<Longrightarrow> reg' = reg \<and> w' = w"
  by (auto simp: mr_register_module_def Let_def split: if_splits prod.splits bool.splits)

lemma unregister_failed: "mr_unregister_module seen i reg w = (reg', w', st) \<Longrightarrow> st \<noteq> ms_ok \<Longrightarrow> reg' = reg"
  by (auto simp: mr_unregister_module_def Let_def split: if_splits option.splits)

lemma empty_registry_abs:
  assumes "icap < 2 ^ 32"
  shows "registry_abs mcap icap (empty_module_registry mcap icap) []"
  using assms by (simp add: registry_abs_def empty_module_registry_def all_interfaces_def used_triples_def free_slot_def)

lemma find_first_from_mem:
  "find_first_from i v best es = Some e \<Longrightarrow> e \<in> set es \<or> best = Some e"
  by (induction es arbitrary: best) (auto split: if_splits option.splits)

text \<open>Discovery rebinds the platform identity of a control even when that control is already registered
  for another module.\<close>

lemma discover_rebinds_registered:
  assumes "dm_resolve m abix_module_query_symbol \<noteq> 0" "query (dm_resolve m abix_module_query_symbol) = Some mm"
    and "manifest_ok mm" "list_ex (\<lambda>s. sl_used s \<and> sl_control s = Some a) (mr_modules reg)"
    and "discover_module mcap icap query m a reg w = (reg', w', r)"
  shows "dr_registration r = ms_already_registered" "mc_module_path (control_at w' a) = dm_path m"
  using assms validate_manifest_ok[of "Some mm"]
  by (auto simp: discover_module_def mr_register_module_def bind_module_platform_def Let_def)

section \<open>Properties\<close>

text \<open>C9. The module registry implements a list of modules in registration order: a successful
  registration appends the module with the interfaces its manifest declares, a successful
  unregistration removes exactly one module with the given instance id and leaves its control
  unloaded, every failure leaves the registry unchanged, and a query returns the first matching
  interfaces of that list.\<close>

theorem module_registry_refines:
  assumes "registry_abs mcap icap reg ms" "arr_ok (mm_interfaces mm) (mm_interface_count mm)"
  shows "(mr_register_module mcap icap a mm reg w = (reg1, w1, st1) \<longrightarrow>
            (if st1 = ms_ok
             then manifest_ok mm \<and> a \<notin> fst ` set ms
                  \<and> registry_abs mcap icap reg1 (ms @ [(a, manifest_interfaces a (mc_id (control_at w1 a)) mm)])
             else reg1 = reg \<and> w1 = w))
       \<and> (mr_unregister_module seen i reg w = (reg2, w2, st2) \<longrightarrow>
            (if st2 = ms_ok
             then \<exists>x \<in> fst ` set ms. mc_id (control_at w x) = i \<and> mc_state (control_at w2 x) = st_unloaded
                    \<and> registry_abs mcap icap reg2 (filter (\<lambda>m. fst m \<noteq> x) ms)
             else reg2 = reg))
       \<and> find_interface reg q v mx =
           take mx (filter (\<lambda>e. mi_interface_id e = q \<and> (v = 0 \<or> mi_version e = v)) (all_interfaces ms))"
  using register_refines(1-3)[OF assms(1) _ assms(2)] register_failed unregister_refines[OF assms(1)]
    unregister_failed find_interface_abs[OF assms(1)]
  by simp

definition demo_manifest :: ModuleManifest where
  "demo_manifest = \<lparr>mm_manifest_version = 1, mm_module_abi_version = 1, mm_flags = 0, mm_interface_count = 1,
     mm_interfaces = Some [\<lparr>me_interface_id = \<lparr>lo = 1, hi = 2\<rparr>, me_interface_version = 1, me_flags = 0,
        me_methods = Some [\<lparr>im_signature = \<lparr>lo = 3, hi = 4\<rparr>, im_entry = 77, im_slot = 0, im_flags = 0\<rparr>],
        me_method_count = 1, me_reserved = 0\<rparr>],
     mm_extension_count = 0, mm_reserved = 0, mm_extensions = 0\<rparr>"

definition demo_world :: module_world where
  "demo_world = \<lparr>mw_leases = \<lparr>lw_controls = (\<lambda>_. new_control), lw_refs = (\<lambda>_. 0)\<rparr>, mw_counter = 0\<rparr>"

definition demo_module :: dll_module where
  "demo_module = \<lparr>dm_module = 9, dm_path = Some ''m'', dm_resolve = (\<lambda>_. 8)\<rparr>"

lemma demo_manifest_ok: "manifest_ok demo_manifest" "arr_ok (mm_interfaces demo_manifest) (mm_interface_count demo_manifest)"
  by (simp_all add: manifest_ok_def demo_manifest_def entry_ok_def arr_elems_def Hash128_zero_def arr_ok_def)

lemma replicate_2: "replicate 2 x = [x, x]"
  by (simp add: numeral_2_eq_2)

lemma demo_register:
  assumes "mc_state (control_at w 0) = st_loading"
  shows "\<exists>reg w'. mr_register_module 2 4 0 demo_manifest (empty_module_registry 2 4) w = (reg, w', ms_ok)"
  using assms demo_manifest_ok validate_manifest_ok[of "Some demo_manifest"]
  by (simp add: mr_register_module_def empty_module_registry_def free_slot_def replicate_2
      activate_module_def next_module_instance_id_def demo_manifest_def arr_elems_def)

theorem module_registry_refines_witness:
  "\<exists>reg w. mr_register_module 2 4 0 demo_manifest (empty_module_registry 2 4) demo_world = (reg, w, ms_ok)
     \<and> registry_abs 2 4 reg [(0, manifest_interfaces 0 (mc_id (control_at w 0)) demo_manifest)]"
proof -
  obtain reg w where r: "mr_register_module 2 4 0 demo_manifest (empty_module_registry 2 4) demo_world = (reg, w, ms_ok)"
    using demo_register[of demo_world] by (auto simp: demo_world_def control_at_def new_control_def)
  have "registry_abs 2 4 (empty_module_registry 2 4) []" by (rule empty_registry_abs) simp
  from module_registry_refines[OF this demo_manifest_ok(2), of 0 demo_world reg w ms_ok] r
  show ?thesis by auto
qed

text \<open>C26. From discovery to the call: when a module is discovered successfully, every interface its
  manifest declares is found in the registry, and a proxy bound to it calls for each contract slot
  an adapter of that manifest entry with the signature the contract expects.\<close>

theorem discovered_interface_calls_verified:
  assumes "registry_abs mcap icap reg ms" "discover_module mcap icap query m a reg w = (reg', w', r)"
    and "discovery_ok r" "dr_queried r = Some mm" "arr_ok (mm_interfaces mm) (mm_interface_count mm)"
    and "e \<in> set (arr_elems (mm_interfaces mm) (mm_interface_count mm))"
    and "unique_bind_methods tr (me_interface_id e) (me_interface_version e) (me_methods e) (me_method_count e) obj = p"
    and "up_status p = is_ok" "j < slot_capacity tr" "tr_signatures tr ! j \<noteq> Hash128_zero"
  shows "manifest_binding a (mc_id (control_at w' a)) e \<in> set (find_interface reg' (me_interface_id e) 0 icap)
     \<and> (\<exists>x \<in> set (arr_elems (me_methods e) (me_method_count e)). im_slot x = of_nat j
          \<and> im_signature x = tr_signatures tr ! j
          \<and> unique_call_checked invoke tr p (of_nat j) args = Inr (invoke (im_entry x) obj args))"
proof -
  define w0 where "w0 = put_control a (bind_module_platform (control_at w a) m) w"
  have reg: "mr_register_module mcap icap a mm reg w0 = (reg', w', ms_ok)"
    using assms(2-4) by (auto simp: discover_module_def discovery_ok_def Let_def w0_def split: if_splits prod.splits)
  note R = register_refines[OF assms(1) reg assms(5)]
  let ?ifs = "manifest_interfaces a (mc_id (control_at w' a)) mm"
  have "length (all_interfaces (ms @ [(a, ?ifs)])) \<le> icap"
    using registry_absD(1,5)[OF R(1)] by simp
  then have len: "length (filter P (all_interfaces (ms @ [(a, ?ifs)]))) \<le> icap" for P
    using length_filter_le le_trans by blast
  have "manifest_binding a (mc_id (control_at w' a)) e \<in> set ?ifs"
    using assms(6) by (simp add: manifest_interfaces_def)
  then have mem: "manifest_binding a (mc_id (control_at w' a)) e \<in> set (find_interface reg' (me_interface_id e) 0 icap)"
    unfolding find_interface_abs[OF R(1)] take_all[OF len] by (simp add: all_interfaces_def manifest_binding_def)
  have e: "entry_ok e" using R(3) assms(6) by (simp add: manifest_ok_def)
  have c: "cache_resolve_methods (slot_capacity tr) (me_methods e) (me_method_count e) obj (tr_signatures tr) = (up_ref p, is_ok)"
    using assms(7,8) by (auto simp: unique_bind_methods_def split: if_splits prod.splits)
  obtain x where x: "x \<in> set (arr_elems (me_methods e) (me_method_count e))" "im_slot x = of_nat j"
      "im_signature x = tr_signatures tr ! j" "im_entry x \<noteq> 0"
      "cache_method (slot_capacity tr) (up_ref p) (of_nat j) = im_entry x"
    using cache.verified[of "slot_capacity tr" obj "(me_methods e, me_method_count e)" "tr_signatures tr" "up_ref p" j]
      c e assms(9,10) by (auto simp: entry_ok_def slot_capacity_def)
  then have "unique_call_checked invoke tr p (of_nat j) args = Inr (invoke (im_entry x) obj args)"
    using cache_resolve_methods_ok(2)[OF c] by (simp add: unique_call_checked_def checked_call_def unique_method_def)
  then show ?thesis using mem x by blast
qed

theorem discovered_interface_calls_verified_witness:
  "\<exists>reg w r. discover_module 2 4 (\<lambda>_. Some demo_manifest) demo_module 0 (empty_module_registry 2 4) demo_world = (reg, w, r)
     \<and> discovery_ok r
     \<and> (\<exists>e. e = hd (the (mm_interfaces demo_manifest))
         \<and> unique_call_checked (\<lambda>fn ob x. (fn, ob, x)) shape_traits
             (unique_bind_methods shape_traits (me_interface_id e) (me_interface_version e) (me_methods e) (me_method_count e) 500)
             0 () = Inr (77, 500, ()))"
proof -
  let ?e = "hd (the (mm_interfaces demo_manifest))"
  let ?p = "unique_bind_methods shape_traits (me_interface_id ?e) (me_interface_version ?e) (me_methods ?e) (me_method_count ?e) 500"
  obtain reg w r where d: "discover_module 2 4 (\<lambda>_. Some demo_manifest) demo_module 0 (empty_module_registry 2 4) demo_world = (reg, w, r)"
    by (metis prod_cases3)
  let ?w = "put_control 0 (bind_module_platform (control_at demo_world 0) demo_module) demo_world"
  have "mc_state (control_at demo_world 0) = st_loading"
    by (simp add: demo_world_def control_at_def new_control_def)
  then have "mc_state (control_at ?w 0) = st_loading" by (simp add: bind_module_platform_def)
  from demo_register[OF this] obtain reg1 w1 where "mr_register_module 2 4 0 demo_manifest (empty_module_registry 2 4) ?w = (reg1, w1, ms_ok)" by blast
  then have ok: "discovery_ok r" "dr_queried r = Some demo_manifest"
    using d demo_manifest_ok validate_manifest_ok[of "Some demo_manifest"]
    by (auto simp: discover_module_def discovery_ok_def Let_def demo_module_def)
  have abs: "registry_abs 2 4 (empty_module_registry 2 4) []" by (rule empty_registry_abs) simp
  have "?e \<in> set (arr_elems (mm_interfaces demo_manifest) (mm_interface_count demo_manifest))"
    by (simp add: demo_manifest_def arr_elems_def)
  moreover have "up_status ?p = is_ok"
    by (simp add: demo_manifest_def unique_bind_methods_def binding_defs)
  ultimately have "\<exists>x \<in> set (arr_elems (me_methods ?e) (me_method_count ?e)). im_slot x = of_nat 0
          \<and> im_signature x = tr_signatures shape_traits ! 0
          \<and> unique_call_checked (\<lambda>fn ob x. (fn, ob, x)) shape_traits ?p (of_nat 0) () = Inr (im_entry x, 500, ())"
    using discovered_interface_calls_verified[OF abs d ok demo_manifest_ok(2), of ?e shape_traits 500 ?p 0
        "\<lambda>fn ob x. (fn, ob, x)" "()"]
    by (simp add: shape_traits_def slot_capacity_def Hash128_zero_def)
  then show ?thesis using d ok by (auto simp: demo_manifest_def arr_elems_def)
qed

end
