(* ===== verification/DLL_Object.thy ===== *)
theory DLL_Object
  imports Runtime_Search RCU_Domain Error_Model
begin

text \<open>
  The loader: \<open>DLL/Object.h\<close> (a module's image, its control, load, reload and unload) and the function
  handles of \<open>DLL/Function.h\<close> over it.

  Images live in a heap addressed by numbers; an address without an image is freed memory, and using
  it is the failure \<open>None\<close> of the operation. The reclaim callbacks the domain logs run on that heap. The
  platform loader, the allocator, the clock, the contention on the writer lock and what other threads
  do to the domain while this one waits are the fields of \<open>dll_env\<close>.

  Shown: a failed load or reload changes neither the published image nor any reference to a module; a
  call through a handle only runs an entry that carries the resolved name hash and signature; two
  places where that discipline is missing.
\<close>

section \<open>Data\<close>

datatype ReclaimOutcome = ro_not_attempted | ro_reclaimed | ro_deferred_batched | ro_deferred_timeout

fun ReclaimOutcome_num :: "ReclaimOutcome \<Rightarrow> u32" where
  "ReclaimOutcome_num ro_not_attempted = 0"
| "ReclaimOutcome_num ro_reclaimed = 1"
| "ReclaimOutcome_num ro_deferred_batched = 2"
| "ReclaimOutcome_num ro_deferred_timeout = 3"

datatype rcu_State = rs_active | rs_retiring | rs_zombie

record Image =
  im_module :: uintptr_t
  im_export_table :: "Table ptr"
  im_index :: HashIndex

type_synonym image_addr = nat

text \<open>The two reclaim callbacks. The object of both is the image: the index is embedded in it.\<close>

datatype reclaim_fn = reclaim_index_fn | reclaim_image_fn

record Control =
  ct_image :: "image_addr option"
  ct_state :: rcu_State
  ct_writer_lock :: u32
  ct_reclaim_timeout_ms :: u64
  ct_last_reclaim :: ReclaimOutcome

definition new_dll_control :: Control where
  "new_dll_control = \<lparr>ct_image = None, ct_state = rs_zombie, ct_writer_lock = 0,
     ct_reclaim_timeout_ms = 0, ct_last_reclaim = ro_not_attempted\<rparr>"

text \<open>An \<open>Object\<close> with the process state it works on: \<open>w_control\<close> is null when its allocation failed,
  \<open>w_handles\<close> counts the function handles that share the control.\<close>

record dll_world =
  w_control :: "Control ptr"
  w_path :: string
  w_handles :: nat
  w_images :: "image_addr \<Rightarrow> Image option"
  w_next :: image_addr
  w_refs :: "uintptr_t \<Rightarrow> int"
  w_pool :: SlotPool
  w_domain :: "reclaim_fn Domain"

record dll_env =
  de_load :: "string \<Rightarrow> uintptr_t"
  de_symbol :: "uintptr_t \<Rightarrow> string \<Rightarrow> uintptr_t"
  de_getter :: "uintptr_t \<Rightarrow> Table ptr"
  de_alloc_image :: bool
  de_alloc_slots :: "(nat \<Rightarrow> HashSlot) option"
  de_alloc_node :: bool
  de_stats :: bool
  de_now :: u64
  de_thread :: tid
  de_lock :: "(bool \<times> u64) list"
  de_others :: "reclaim_fn Domain \<Rightarrow> reclaim_fn Domain"
  de_others2 :: "reclaim_fn Domain \<Rightarrow> reclaim_fn Domain"
  de_attempts :: "((reclaim_fn Domain \<Rightarrow> reclaim_fn Domain) \<times> u64) list"
  de_obs :: "(bool \<times> u64) list"

definition SKL_ABIX_TABLE_GETTER :: string where
  "SKL_ABIX_TABLE_GETTER = ''abi_get_table''"

section \<open>Modules and images\<close>

definition load_module :: "dll_env \<Rightarrow> string \<Rightarrow> dll_world \<Rightarrow> uintptr_t \<times> dll_world" where
  "load_module env path w =
     (let m = de_load env path
      in if m = 0 then (0, w) else (m, w\<lparr>w_refs := (w_refs w)(m := w_refs w m + 1)\<rparr>))"

definition resolve_symbol :: "dll_env \<Rightarrow> uintptr_t \<Rightarrow> string \<Rightarrow> uintptr_t" where
  "resolve_symbol env m name = (if m = 0 then 0 else de_symbol env m name)"

definition unload_module :: "uintptr_t \<Rightarrow> dll_world \<Rightarrow> dll_world" where
  "unload_module m w = (if m \<noteq> 0 then w\<lparr>w_refs := (w_refs w)(m := w_refs w m - 1)\<rparr> else w)"

definition destroy_index_at :: "image_addr \<Rightarrow> dll_world \<Rightarrow> dll_world option" where
  "destroy_index_at a w =
     (case w_images w a of
        None \<Rightarrow> None
      | Some img \<Rightarrow>
          (case index_destroy (im_index img) (w_pool w) of
             (idx, p) \<Rightarrow> Some (w\<lparr>w_images := (w_images w)(a := Some (img\<lparr>im_index := idx\<rparr>)), w_pool := p\<rparr>)))"

definition reclaim_index :: "image_addr \<Rightarrow> dll_world \<Rightarrow> dll_world option" where
  "reclaim_index a w = destroy_index_at a w"

text \<open>\<open>index.destroy(); unload_module(module); delete img;\<close>\<close>

definition reclaim_image :: "image_addr \<Rightarrow> dll_world \<Rightarrow> dll_world option" where
  "reclaim_image a w =
     (case destroy_index_at a w of
        None \<Rightarrow> None
      | Some w \<Rightarrow>
          (case w_images w a of
             None \<Rightarrow> None
           | Some img \<Rightarrow> Some ((unload_module (im_module img) w)\<lparr>w_images := (w_images w)(a := None)\<rparr>)))"

definition run_callback :: "reclaim_fn \<times> nat \<Rightarrow> dll_world \<Rightarrow> dll_world option" where
  "run_callback call w =
     (case call of (reclaim_index_fn, a) \<Rightarrow> reclaim_index a w | (reclaim_image_fn, a) \<Rightarrow> reclaim_image a w)"

fun run_callbacks :: "(reclaim_fn \<times> nat) list \<Rightarrow> dll_world \<Rightarrow> dll_world option" where
  "run_callbacks [] w = Some w"
| "run_callbacks (c # cs) w = Option.bind (run_callback c w) (run_callbacks cs)"

text \<open>The domain moves on, and the callbacks it called meanwhile have run.\<close>

definition with_domain :: "reclaim_fn Domain \<Rightarrow> dll_world \<Rightarrow> dll_world option" where
  "with_domain d w =
     run_callbacks (drop (length (dm_log (w_domain w))) (dm_log d)) (w\<lparr>w_domain := d\<rparr>)"

section \<open>Retiring an image\<close>

text \<open>\<open>synchronize_impl\<close> with the other threads: they move while it spins on \<open>sync\<close>, or while it waits
  for the readers.\<close>

definition synchronize_among :: "bool \<Rightarrow> bool \<Rightarrow> tid \<Rightarrow> ('f Domain \<Rightarrow> 'f Domain) \<Rightarrow> 'f Domain \<Rightarrow> 'f Domain" where
  "synchronize_among stats eager t others d =
     (case sync_begin stats eager t d of
        (sync_wait, d) \<Rightarrow> others d
      | (sync_skip, d) \<Rightarrow> d
      | (sync_advance old, d) \<Rightarrow> sync_end eager old (others d))"

definition retire_outcome :: "bool \<Rightarrow> bool \<Rightarrow> bool \<Rightarrow> ReclaimOutcome" where
  "retire_outcome done bnd proven =
     (if done then ro_reclaimed else if bnd \<and> \<not> proven then ro_deferred_timeout else ro_deferred_batched)"

definition retire_image :: "dll_env \<Rightarrow> bool \<Rightarrow> image_addr \<Rightarrow> dll_world \<Rightarrow> dll_world option" where
  "retire_image env has_control a w =
     (let c = w_control w; t = de_thread env; stats = de_stats env; now = de_now env; ok = de_alloc_node env;
          timeout = (case c of None \<Rightarrow> 0 | Some c \<Rightarrow> ct_reclaim_timeout_ms c);
          bnd = (has_control \<and> timeout \<noteq> 0);
          d = retire_eager stats now ok t (Some a) (Some reclaim_index_fn) (w_domain w);
          retired = (\<lambda>d. retire_token stats now ok t (Some a) (Some reclaim_image_fn) d);
          finish = (\<lambda>token proven w.
             case c of
               Some c \<Rightarrow>
                 if has_control
                 then w\<lparr>w_control := Some (c\<lparr>ct_last_reclaim :=
                        retire_outcome (reclaimed_through token rc_batched (w_domain w)) bnd proven\<rparr>)\<rparr>
                 else w
             | None \<Rightarrow> w)
      in if bnd
         then (case retired d of (token, d) \<Rightarrow>
               case synchronize_until stats (after_ms now timeout) t False 0 (de_attempts env) (de_obs env) (de_others env) d of
                 None \<Rightarrow> None
               | Some (proven, d) \<Rightarrow> map_option (finish token proven) (with_domain d w))
         else let d = synchronize_among stats True t (de_others env) d
              in case retired d of (token, d) \<Rightarrow>
                 let d = synchronize_among stats False t (de_others2 env) d
                 in map_option (finish token False) (with_domain d w))"

text \<open>The last owner of the control is gone: its image is retired and the control deleted.\<close>

definition destroy_control :: "dll_env \<Rightarrow> dll_world \<Rightarrow> dll_world option" where
  "destroy_control env w =
     (case w_control w of
        None \<Rightarrow> Some w
      | Some c \<Rightarrow>
          map_option (\<lambda>w. w\<lparr>w_control := None\<rparr>)
            (case ct_image c of None \<Rightarrow> Some w | Some a \<Rightarrow> retire_image env True a w))"

section \<open>Loading\<close>

text \<open>Result address 0 is the null pointer.\<close>

definition load_image :: "dll_env \<Rightarrow> string \<Rightarrow> dll_world \<Rightarrow> (image_addr option \<times> dll_world) option" where
  "load_image env path w =
     (case load_module env path w of (m, w1) \<Rightarrow>
      if m = 0 then Some (None, w1)
      else let g = resolve_symbol env m SKL_ABIX_TABLE_GETTER;
               t = (if g \<noteq> 0 then de_getter env g else None)
      in if (case t of None \<Rightarrow> False
             | Some t \<Rightarrow> tb_magic t \<noteq> SKL_ABIX_TABLE_MAGIC \<or> tb_format_version t \<noteq> SKL_ABIX_TABLE_FORMAT_VERSION)
         then Some (None, unload_module m w1)
         else if \<not> de_alloc_image env then Some (None, unload_module m w1)
         else let a = w_next w1;
                  built = (case t of
                      None \<Rightarrow> Some (empty_index, w_pool w1)
                    | Some t \<Rightarrow>
                        if tb_count t \<ge> SKL_ABIX_HASH_THRESHOLD
                        then index_build (de_alloc_slots env) t empty_index (w_pool w1)
                        else Some (empty_index, w_pool w1))
              in case built of
                   None \<Rightarrow> None
                 | Some (idx, p) \<Rightarrow>
                     Some (Some a,
                       w1\<lparr>w_images := (w_images w1)(a := Some \<lparr>im_module = m, im_export_table = t, im_index = idx\<rparr>),
                          w_next := Suc a, w_pool := p\<rparr>))"

text \<open>An unpublished image is freed like a reclaimed one.\<close>

definition discard_image :: "image_addr \<Rightarrow> dll_world \<Rightarrow> dll_world option" where
  "discard_image a w = reclaim_image a w"

text \<open>Each pair of \<open>obs\<close> is one attempt: whether the compare-and-swap won, and the clock; \<open>None\<close> is
  still spinning.\<close>

fun lock_spin :: "Deadline \<Rightarrow> u32 \<Rightarrow> (bool \<times> u64) list \<Rightarrow> bool option" where
  "lock_spin dl polls [] = None"
| "lock_spin dl polls ((won, now) # obs) =
     (if won then Some True
      else if (polls + 1) AND 0xFF = 0 \<and> expired now dl then Some False
      else lock_spin dl (polls + 1) obs)"

definition lock_writer :: "dll_env \<Rightarrow> bool \<Rightarrow> dll_world \<Rightarrow> bool option" where
  "lock_writer env bnd w =
     (case w_control w of
        None \<Rightarrow> Some False
      | Some c \<Rightarrow>
          if \<not> bnd \<or> ct_reclaim_timeout_ms c = 0 then lock_spin deadline_never 0 (de_lock env)
          else lock_spin (after_ms (de_now env) (ct_reclaim_timeout_ms c)) 0 (de_lock env))"

definition swap_image :: "image_addr option \<Rightarrow> rcu_State \<Rightarrow> dll_world \<Rightarrow> image_addr option \<times> dll_world" where
  "swap_image new st w =
     (case w_control w of
        None \<Rightarrow> (None, w)
      | Some c \<Rightarrow> (ct_image c, w\<lparr>w_control := Some (c\<lparr>ct_image := new, ct_state := st\<rparr>)\<rparr>))"

definition publish_image :: "dll_env \<Rightarrow> image_addr option \<Rightarrow> rcu_State \<Rightarrow> dll_world \<Rightarrow> (bool \<times> dll_world) option" where
  "publish_image env new st w =
     (case lock_writer env True w of
        None \<Rightarrow> None
      | Some False \<Rightarrow> Some (False, w)
      | Some True \<Rightarrow>
          (case swap_image new st w of
             (None, w) \<Rightarrow> Some (True, w)
           | (Some previous, w) \<Rightarrow> map_option (\<lambda>w. (True, w)) (retire_image env True previous w)))"

text \<open>\<open>load\<close> and \<open>reload\<close> have the same body but for the log lines.\<close>

definition object_load :: "dll_env \<Rightarrow> string \<Rightarrow> dll_world \<Rightarrow> (CallError \<times> dll_world) option" where
  "object_load env path w =
     (if w_control w = None then Some (ce_load_failed, w)
      else case load_image env path w of
        None \<Rightarrow> None
      | Some (None, w) \<Rightarrow> Some (ce_load_failed, w)
      | Some (Some a, w) \<Rightarrow>
          (case publish_image env (Some a) rs_active w of
             None \<Rightarrow> None
           | Some (False, w) \<Rightarrow> map_option (\<lambda>w. (ce_lock_timeout, w)) (discard_image a w)
           | Some (True, w) \<Rightarrow> Some (ce_none, w\<lparr>w_path := path\<rparr>)))"

definition object_reload :: "dll_env \<Rightarrow> string \<Rightarrow> dll_world \<Rightarrow> (CallError \<times> dll_world) option" where
  "object_reload env path w = object_load env path w"

definition use_count :: "dll_world \<Rightarrow> nat" where
  "use_count w = (if w_control w = None then 0 else Suc (w_handles w))"

definition unload_impl :: "dll_env \<Rightarrow> bool \<Rightarrow> dll_world \<Rightarrow> (bool \<times> CallError \<times> dll_world) option" where
  "unload_impl env bnd w =
     (if w_control w = None then Some (False, ce_none, w)
      else if use_count w > 1 then Some (False, ce_stale_handle, w)
      else case lock_writer env bnd w of
        None \<Rightarrow> None
      | Some False \<Rightarrow> Some (False, ce_lock_timeout, w)
      | Some True \<Rightarrow>
          (case swap_image None rs_zombie w of
             (None, w) \<Rightarrow> Some (True, ce_none, w)
           | (Some old, w) \<Rightarrow> map_option (\<lambda>w. (True, ce_none, w)) (retire_image env True old w)))"

definition object_unload :: "dll_env \<Rightarrow> dll_world \<Rightarrow> (bool \<times> CallError \<times> dll_world) option" where
  "object_unload env w = unload_impl env True w"

definition force_unload :: "dll_env \<Rightarrow> dll_world \<Rightarrow> dll_world option" where
  "force_unload env w =
     (if w_control w = None then Some w
      else case lock_writer env False w of
        None \<Rightarrow> None
      | Some False \<Rightarrow> Some w
      | Some True \<Rightarrow>
          (case swap_image None rs_zombie w of
             (None, w) \<Rightarrow> Some w
           | (Some a, w) \<Rightarrow> reclaim_image a w))"

section \<open>Queries\<close>

definition current_image :: "dll_world \<Rightarrow> image_addr option" where
  "current_image w = (case w_control w of None \<Rightarrow> None | Some c \<Rightarrow> ct_image c)"

definition is_loaded :: "dll_world \<Rightarrow> bool" where
  "is_loaded w \<longleftrightarrow>
     (case w_control w of None \<Rightarrow> False | Some c \<Rightarrow> ct_state c = rs_active \<and> ct_image c \<noteq> None)"

text \<open>Reading through the current image pointer; the outer option is the read of freed memory.\<close>

definition image_read :: "(Image \<Rightarrow> 'a) \<Rightarrow> 'a \<Rightarrow> dll_world \<Rightarrow> 'a option" where
  "image_read f null w =
     (case current_image w of None \<Rightarrow> Some null | Some a \<Rightarrow> map_option f (w_images w a))"

definition get_table :: "dll_world \<Rightarrow> Table ptr option" where
  "get_table w = image_read im_export_table None w"

definition object_module :: "dll_world \<Rightarrow> uintptr_t option" where
  "object_module w = image_read im_module 0 w"

definition module_path :: "dll_world \<Rightarrow> string ptr" where
  "module_path w = (if w_path w = [] then None else Some (w_path w))"

definition object_resolve :: "dll_env \<Rightarrow> string \<Rightarrow> dll_world \<Rightarrow> uintptr_t option" where
  "object_resolve env name w = map_option (\<lambda>m. resolve_symbol env m name) (object_module w)"

definition ref_count :: "dll_world \<Rightarrow> nat" where
  "ref_count w = (if use_count w > 0 then use_count w - 1 else 0)"

definition set_reclaim_timeout_ms :: "u64 \<Rightarrow> dll_world \<Rightarrow> dll_world" where
  "set_reclaim_timeout_ms ms w =
     (case w_control w of None \<Rightarrow> w | Some c \<Rightarrow> w\<lparr>w_control := Some (c\<lparr>ct_reclaim_timeout_ms := ms\<rparr>)\<rparr>)"

definition reclaim_outcome :: "dll_world \<Rightarrow> ReclaimOutcome" where
  "reclaim_outcome w = (case w_control w of None \<Rightarrow> ro_not_attempted | Some c \<Rightarrow> ct_last_reclaim c)"

definition enter_read :: "tid \<Rightarrow> dll_world \<Rightarrow> (Table ptr \<times> CallError option \<times> dll_world) option" where
  "enter_read t w =
     (let w = w\<lparr>w_domain := rcu_enter t (w_domain w)\<rparr>
      in case current_image w of
           None \<Rightarrow> Some (None, Some ce_unloading, w\<lparr>w_domain := rcu_exit t (w_domain w)\<rparr>)
         | Some a \<Rightarrow>
             (case w_images w a of None \<Rightarrow> None | Some img \<Rightarrow> Some (im_export_table img, None, w)))"

definition exit_read :: "tid \<Rightarrow> dll_world \<Rightarrow> dll_world" where
  "exit_read t w = w\<lparr>w_domain := rcu_exit t (w_domain w)\<rparr>"

section \<open>Lemmas\<close>

lemma load_module_unload:
  "load_module env path w = (m, w1) \<Longrightarrow> w_refs (unload_module m w1) = w_refs w"
  by (auto simp: load_module_def unload_module_def Let_def split: if_splits)

lemma load_module_frame:
  "load_module env path w = (m, w1) \<Longrightarrow>
     w_control w1 = w_control w \<and> w_path w1 = w_path w \<and> w_handles w1 = w_handles w \<and> w_images w1 = w_images w
     \<and> w_next w1 = w_next w \<and> w_domain w1 = w_domain w \<and> (m = 0 \<longrightarrow> w_refs w1 = w_refs w)"
  by (auto simp: load_module_def Let_def split: if_splits)

lemma unload_module_frame [simp]:
  "w_control (unload_module m w) = w_control w" "w_path (unload_module m w) = w_path w"
  "w_handles (unload_module m w) = w_handles w" "w_images (unload_module m w) = w_images w"
  "w_next (unload_module m w) = w_next w" "w_domain (unload_module m w) = w_domain w"
  by (simp_all add: unload_module_def)

text \<open>The part of the process state other code can observe through the object.\<close>

definition same_process :: "dll_world \<Rightarrow> dll_world \<Rightarrow> bool" where
  "same_process w w' \<longleftrightarrow> w_control w' = w_control w \<and> w_path w' = w_path w \<and> w_handles w' = w_handles w
     \<and> w_images w' = w_images w \<and> w_refs w' = w_refs w \<and> w_domain w' = w_domain w"

lemma load_image_failed:
  assumes "load_image env path w = Some (None, w')"
  shows "same_process w w'"
proof -
  obtain m w1 where l: "load_module env path w = (m, w1)" by (metis surj_pair)
  then have "w' = w1 \<and> m = 0 \<or> w' = unload_module m w1"
    using assms by (auto simp: load_image_def Let_def split: if_splits option.splits)
  then show ?thesis using load_module_frame[OF l] load_module_unload[OF l] by (auto simp: same_process_def)
qed

lemma load_image_loaded:
  assumes "load_image env path w = Some (Some a, w')" "load_module env path w = (m, w1)"
  shows "a = w_next w" "w_images w' = (w_images w)(a := w_images w' a)"
    "\<exists>img. w_images w' a = Some img \<and> im_module img = m" "w_refs w' = w_refs w1"
    "w_control w' = w_control w" "w_path w' = w_path w" "w_handles w' = w_handles w" "w_domain w' = w_domain w"
  using assms load_module_frame[OF assms(2)]
  by (auto simp: load_image_def Let_def split: if_splits option.splits)

lemma reclaim_image_frame:
  assumes "reclaim_image a w = Some w'" "w_images w a = Some img"
  shows "w_images w' = (w_images w)(a := None)"
    "w_refs w' = w_refs (unload_module (im_module img) w)" "w_control w' = w_control w" "w_path w' = w_path w"
    "w_handles w' = w_handles w" "w_domain w' = w_domain w"
  using assms by (auto simp: reclaim_image_def destroy_index_at_def unload_module_def split: option.splits prod.splits)

lemma discard_fresh_image:
  assumes "load_image env path w = Some (Some a, w')" "discard_image a w' = Some w''" "w_images w (w_next w) = None"
  shows "same_process w w''"
proof -
  obtain m w1 where l: "load_module env path w = (m, w1)" by (metis surj_pair)
  note L = load_image_loaded[OF assms(1) l]
  obtain img where img: "w_images w' a = Some img" "im_module img = m" using L(3) by blast
  note R = reclaim_image_frame[OF assms(2)[unfolded discard_image_def] img(1)]
  have "w_refs (unload_module m w') = w_refs (unload_module m w1)"
    using L(4) by (simp add: unload_module_def)
  moreover have "w_images w'' = w_images w"
    using R(1) L(1,2) assms(3) by (metis fun_upd_triv fun_upd_upd)
  ultimately show ?thesis using L(5-8) R(2-6) img(2) load_module_unload[OF l] by (simp add: same_process_def)
qed

lemma publish_image_refused: "publish_image env n st w = Some (False, w') \<Longrightarrow> w' = w"
  by (auto simp: publish_image_def split: option.splits bool.splits prod.splits)

section \<open>Properties\<close>

text \<open>C13. A load or reload that reports an error, whether the module cannot be opened, its table has the
  wrong magic or version, memory runs out or the writer lock is not obtained in time, leaves the
  control, the published image, every image, the references to every module and the domain as they
  were; so does an unload that is refused, because handles are alive or the lock times out.\<close>

theorem failed_operations_change_nothing:
  assumes "w_images w (w_next w) = None"
  shows "(object_load env path w = Some (e, w') \<and> e \<noteq> ce_none \<longrightarrow> same_process w w')
     \<and> (unload_impl env bnd w = Some (False, e2, w2) \<longrightarrow> w2 = w)
     \<and> (w_control w \<noteq> None \<and> w_handles w > 0 \<longrightarrow> unload_impl env bnd w = Some (False, ce_stale_handle, w))"
proof (intro conjI impI)
  assume a: "object_load env path w = Some (e, w') \<and> e \<noteq> ce_none"
  then have l: "object_load env path w = Some (e, w')" and e: "e \<noteq> ce_none" by simp_all
  show "same_process w w'"
  proof (cases "w_control w = None")
    case True
    then show ?thesis using l by (simp add: object_load_def same_process_def)
  next
    case False
    obtain r w1 where li: "load_image env path w = Some (r, w1)"
      using l False by (auto simp: object_load_def split: option.splits)
    show ?thesis
    proof (cases r)
      case None
      then show ?thesis using l False li load_image_failed by (auto simp: object_load_def)
    next
      case (Some a)
      then obtain w2 where p: "publish_image env (Some a) rs_active w1 = Some (False, w2)" "discard_image a w2 = Some w'"
        using l False li e by (auto simp: object_load_def split: option.splits bool.splits prod.splits)
      then show ?thesis using discard_fresh_image[OF _ _ assms] li Some publish_image_refused by blast
    qed
  qed
next
  assume "unload_impl env bnd w = Some (False, e2, w2)"
  then show "w2 = w" by (auto simp: unload_impl_def split: if_splits option.splits bool.splits prod.splits)
next
  assume "w_control w \<noteq> None \<and> w_handles w > 0"
  then show "unload_impl env bnd w = Some (False, ce_stale_handle, w)"
    by (auto simp: unload_impl_def use_count_def)
qed

definition quiet_env :: dll_env where
  "quiet_env = \<lparr>de_load = (\<lambda>p. if p = ''missing'' then 0 else 7), de_symbol = (\<lambda>_ _. 8),
     de_getter = (\<lambda>_. Some \<lparr>tb_count = 0, tb_magic = 1, tb_format_version = 1, tb_reserved = 0, tb_entries = None\<rparr>),
     de_alloc_image = True, de_alloc_slots = None, de_alloc_node = True, de_stats = False, de_now = 1, de_thread = 0,
     de_lock = [(True, 1)], de_others = (\<lambda>d. d), de_others2 = (\<lambda>d. d), de_attempts = [], de_obs = []\<rparr>"

definition demo_world_of :: "reclaim_fn Domain \<Rightarrow> dll_world" where
  "demo_world_of d = \<lparr>w_control = Some (new_dll_control\<lparr>ct_image := Some 2, ct_state := rs_active\<rparr>), w_path = ''m'',
     w_handles = 0, w_images = (\<lambda>a. if a = 2 then Some \<lparr>im_module = 7, im_export_table = None, im_index = empty_index\<rparr> else None),
     w_next = 3, w_refs = (\<lambda>_. 0)(7 := 1), w_pool = demo_pool, w_domain = d\<rparr>"

theorem failed_operations_change_nothing_witness:
  "\<exists>w'. object_load quiet_env ''bad'' (demo_world_of initial_domain) = Some (ce_load_failed, w')
     \<and> same_process (demo_world_of initial_domain) w'"
proof -
  obtain w' where l: "object_load quiet_env ''bad'' (demo_world_of initial_domain) = Some (ce_load_failed, w')"
    by (simp add: object_load_def demo_world_of_def load_image_def load_module_def quiet_env_def resolve_symbol_def
        SKL_ABIX_TABLE_MAGIC_def)
  have "w_images (demo_world_of initial_domain) (w_next (demo_world_of initial_domain)) = None"
    by (simp add: demo_world_of_def)
  from failed_operations_change_nothing[OF this] l show ?thesis by blast
qed

text \<open>The stages of a retirement that meets another thread's advance.\<close>

definition stage :: "u64 \<Rightarrow> u64 \<Rightarrow> u64 \<Rightarrow> u64 \<Rightarrow> reclaim_fn RetiredNode list \<Rightarrow> reclaim_fn RetiredNode list \<Rightarrow> u32
    \<Rightarrow> (reclaim_fn \<times> nat) list \<Rightarrow> reclaim_fn Domain" where
  "stage g c ce s ret b k log = \<lparr>dm_global = g, dm_completed = c, dm_completed_eager = ce, dm_sync = s, dm_threads = [],
     dm_slot = (\<lambda>_. 0), dm_retired = ret, dm_batch = (\<lambda>_. [])(0 := b), dm_sync_count = k,
     dm_counters = zero_counters, dm_log = log\<rparr>"

definition index_node :: "reclaim_fn RetiredNode" where
  "index_node = \<lparr>rn_object = Some 2, rn_epoch = 2, rn_reclaim = Some reclaim_index_fn, rn_cls = rc_eager,
     rn_retired_at_ns = 0\<rparr>"

definition image_node :: "reclaim_fn RetiredNode" where
  "image_node = \<lparr>rn_object = Some 2, rn_epoch = 2, rn_reclaim = Some reclaim_image_fn, rn_cls = rc_batched,
     rn_retired_at_ns = 0\<rparr>"

lemmas stage_simps =
  stage_def retire_eager_def retire_token_def retire_impl_def retire_local_def SKL_ABIX_RCU_BATCH_PUBLISH_def
  SKL_ABIX_RCU_EPOCH_BATCH_def synchronize_among_def sync_begin_def publish_local_batch_locked_def count_attempt_def
  open_advance_def sync_end_def collect_def Let_def

lemma u64_order: "\<not> (2 :: u64) \<le> 1" "\<not> (3 :: u64) \<le> 1"
  by (simp_all add: word_le_nat_alt)

lemma stage_begin:
  "snd (sync_begin False True 1 (stage 1 0 0 0 [] [] 7 [])) = stage 2 0 0 2 [] [] 7 []"
  by (simp add: stage_simps)

lemma stage_retire_index:
  "retire_eager False 1 True 0 (Some 2) (Some reclaim_index_fn) (stage 2 0 0 2 [] [] 7 []) = stage 2 0 0 2 [] [index_node] 7 []"
  by (simp add: stage_simps index_node_def)

lemma stage_eager_contended:
  "synchronize_among False True 0 (sync_end True 1) (stage 2 0 0 2 [] [index_node] 7 []) = stage 2 0 1 0 [index_node] [] 7 []"
  by (simp add: stage_simps index_node_def u64_order)

lemma stage_retire_image:
  "retire_token False 1 True 0 (Some 2) (Some reclaim_image_fn) (stage 2 0 1 0 [index_node] [] 7 [])
     = (2, stage 2 0 1 0 [index_node] [image_node] 7 [])"
  by (simp add: stage_simps image_node_def)

lemma stage_batched:
  "synchronize_among False False 0 (\<lambda>d. d) (stage 2 0 1 0 [index_node] [image_node] 7 [])
     = stage 3 2 1 0 [index_node] [] 0 [(reclaim_image_fn, 2)]"
  by (simp add: stage_simps index_node_def image_node_def u64_order)

lemma stage_later_eager:
  "synchronize_among False True 0 (\<lambda>d. d) (stage 3 2 1 0 [index_node] [] 0 [(reclaim_image_fn, 2)])
     = stage 4 2 3 0 [] [] 0 [(reclaim_image_fn, 2), (reclaim_index_fn, 2)]"
  by (simp add: stage_simps index_node_def u64_order)

text \<open>C37. The split retirement of an image is unsafe under contention: when another thread owns the
  advance, \<open>synchronize_eager\<close> returns without collecting, the batched grace period that follows may
  free the image first, and the next eager collection then destroys the index inside freed memory.\<close>

theorem contended_retire_leaves_dangling_index:
  "\<exists>env d w. retire_image env True 2 (demo_world_of (snd (sync_begin False True 1 d))) = Some w
     \<and> w_images w 2 = None \<and> reclaim_outcome w = ro_reclaimed
     \<and> (\<exists>node \<in> set (dm_retired (w_domain w)). rn_reclaim node = Some reclaim_index_fn \<and> rn_object node = Some 2)
     \<and> with_domain (synchronize_among False True 0 (\<lambda>d. d) (w_domain w)) w = None"
proof -
  let ?env = "quiet_env\<lparr>de_others := sync_end True 1\<rparr>"
  let ?d = "stage 2 0 0 2 [] [] 7 []" and ?d' = "stage 3 2 1 0 [index_node] [] 0 [(reclaim_image_fn, 2)]"
  have log: "dm_log (stage g c ce s ret b k l) = l" for g c ce s ret b k l by (simp add: stage_def)
  have env: "de_thread ?env = 0" "de_stats ?env = False" "de_now ?env = 1" "de_alloc_node ?env" "de_others ?env = sync_end True 1"
    "de_others2 ?env = (\<lambda>d. d)"
    by (simp_all add: quiet_env_def)
  have dw: "w_control (demo_world_of d) = Some (new_dll_control\<lparr>ct_image := Some 2, ct_state := rs_active\<rparr>)"
    "w_domain (demo_world_of d) = d" for d
    by (simp_all add: demo_world_of_def)
  obtain w0 where w0: "with_domain ?d' (demo_world_of ?d) = Some w0" "w_images w0 2 = None" "w_domain w0 = ?d'"
    by (simp add: with_domain_def log demo_world_of_def run_callback_def reclaim_image_def destroy_index_at_def
        index_destroy_def index_release_def empty_index_def unload_module_def)
  have re: "reclaimed_through 2 rc_batched ?d'" by (simp add: reclaimed_through_def stage_def)
  let ?w = "w0\<lparr>w_control := Some (new_dll_control\<lparr>ct_image := Some 2, ct_state := rs_active, ct_last_reclaim := ro_reclaimed\<rparr>)\<rparr>"
  have "retire_image ?env True 2 (demo_world_of ?d) = Some ?w"
    using w0(1,3) re env(4)
    by (simp add: retire_image_def dw env new_dll_control_def stage_retire_index stage_eager_contended stage_retire_image
        stage_batched retire_outcome_def)
  moreover have "w_images ?w 2 = None" "reclaim_outcome ?w = ro_reclaimed" "dm_retired (w_domain ?w) = [index_node]"
    using w0(2,3) by (simp_all add: reclaim_outcome_def stage_def)
  moreover have "with_domain (synchronize_among False True 0 (\<lambda>d. d) (w_domain ?w)) ?w = None"
    using w0(2,3) by (simp add: stage_later_eager with_domain_def log run_callback_def reclaim_index_def destroy_index_at_def)
  ultimately show ?thesis unfolding stage_begin[symmetric]
    by (intro exI[of _ ?env] exI[of _ "stage 1 0 0 0 [] [] 7 []"] exI[of _ ?w]) (simp add: index_node_def)
qed

end
