(* ===== verification/DLL_Function.thy ===== *)
theory DLL_Function
  imports DLL_Object
begin

text \<open>
  Function handles, \<open>DLL/Function.h\<close>: \<open>FunctionCC\<close> resolves a name and signature to an index into the
  export table of the current image and revalidates it on every call.

  A call reads the image pointer up to three times and the state once while other threads swap
  images; \<open>call_obs\<close> is what those reads return, so one definition covers every interleaving. The
  images themselves do not change while the call is inside its read section. Running the function is
  the parameter \<open>invoke\<close>.
\<close>

section \<open>Handles\<close>

text \<open>The signature is a compile-time constant of the handle type and an argument here. \<open>fh_control\<close>
  tells whether the handle shares the object's control.\<close>

record FunctionCC =
  fh_control :: bool
  fh_name :: "string ptr"
  fh_name_hash :: u32
  fh_index :: u32
  fh_valid :: bool
  fh_verified_image :: "image_addr option"

definition empty_function :: FunctionCC where
  "empty_function = \<lparr>fh_control = False, fh_name = None, fh_name_hash = 0, fh_index = no_index,
     fh_valid = False, fh_verified_image = None\<rparr>"

text \<open>\<open>release_lib\<close> drops the share of the control.\<close>

definition release_lib :: "FunctionCC \<Rightarrow> dll_world \<Rightarrow> FunctionCC \<times> dll_world" where
  "release_lib h w = (empty_function, if fh_control h then w\<lparr>w_handles := w_handles w - 1\<rparr> else w)"

definition function_move :: "FunctionCC \<Rightarrow> FunctionCC \<times> FunctionCC" where
  "function_move h = (h\<lparr>fh_verified_image := None\<rparr>, empty_function)"

definition function_move_assign :: "FunctionCC \<Rightarrow> FunctionCC \<Rightarrow> dll_world \<Rightarrow> FunctionCC \<times> FunctionCC \<times> dll_world" where
  "function_move_assign dst src w =
     (case release_lib dst w of (_, w) \<Rightarrow> (src\<lparr>fh_verified_image := None\<rparr>, empty_function, w))"

definition take_control :: "FunctionCC \<Rightarrow> dll_world \<Rightarrow> FunctionCC \<times> dll_world" where
  "take_control h w =
     (if w_control w = None then (h\<lparr>fh_control := False\<rparr>, w)
      else (h\<lparr>fh_control := True\<rparr>, w\<lparr>w_handles := Suc (w_handles w)\<rparr>))"

text \<open>The verdict of the table search, and what it leaves in the handle.\<close>

definition resolve_verdict :: "FunctionCC \<Rightarrow> LookupResult \<times> u32 \<Rightarrow> FunctionCC \<times> CallError" where
  "resolve_verdict h r =
     (case r of
        (lr_ok, idx) \<Rightarrow> (h\<lparr>fh_index := idx, fh_valid := True\<rparr>, ce_none)
      | (lr_sig_mismatch, idx) \<Rightarrow> (h\<lparr>fh_index := idx\<rparr>, ce_sig_mismatch)
      | (lr_version_mismatch, idx) \<Rightarrow> (h, ce_version_mismatch)
      | (lr_not_found, idx) \<Rightarrow> (h, ce_not_found)
      | (lr_bad_Table, idx) \<Rightarrow> (h, ce_load_failed))"

definition try_resolve :: "(string \<Rightarrow> u64) \<Rightarrow> u64 \<Rightarrow> tid \<Rightarrow> u64 \<Rightarrow> string ptr \<Rightarrow> u64 \<Rightarrow> FunctionCC \<Rightarrow> dll_world
    \<Rightarrow> (CallError \<times> FunctionCC \<times> dll_world) option" where
  "try_resolve cstr64 base t sig name ver h w =
     (let (h, w) = release_lib h w;
          (h, w) = take_control h w;
          h = h\<lparr>fh_name := name, fh_name_hash := name_hash cstr64 base name, fh_index := no_index, fh_valid := False\<rparr>
      in if \<not> fh_control h then Some (ce_load_failed, h, w)
         else let w = w\<lparr>w_domain := rcu_enter t (w_domain w)\<rparr>;
                  leave = (\<lambda>w. w\<lparr>w_domain := rcu_exit t (w_domain w)\<rparr>)
         in case current_image w of
              None \<Rightarrow> Some (ce_not_loaded, h, leave w)
            | Some a \<Rightarrow>
                (case w_images w a of
                   None \<Rightarrow> None
                 | Some img \<Rightarrow>
                     (case im_export_table img of
                        None \<Rightarrow> Some (ce_not_loaded, h, leave w)
                      | Some tab \<Rightarrow>
                          (case find_index tab (im_index img) name (fh_name_hash h) sig ver of
                             None \<Rightarrow> None
                           | Some r \<Rightarrow> (case resolve_verdict h r of (h, e) \<Rightarrow> Some (e, h, leave w))))))"

definition function_valid :: "FunctionCC \<Rightarrow> dll_world \<Rightarrow> bool" where
  "function_valid h w \<longleftrightarrow> fh_valid h \<and> fh_control h \<and> is_loaded w"

text \<open>\<open>raw\<close>: the address stored at the index in the current table, 0 for null.\<close>

definition function_raw :: "FunctionCC \<Rightarrow> dll_world \<Rightarrow> uintptr_t option" where
  "function_raw h w =
     (if \<not> function_valid h w then Some 0
      else case current_image w of
        None \<Rightarrow> Some 0
      | Some a \<Rightarrow>
          (case w_images w a of
             None \<Rightarrow> None
           | Some img \<Rightarrow>
               (case im_export_table img of
                  None \<Rightarrow> Some 0
                | Some tab \<Rightarrow>
                    if fh_index h \<ge> tb_count tab then Some 0
                    else map_option en_fnptr (entry_at tab (unat (fh_index h))))))"

section \<open>Calls\<close>

record call_obs =
  co_fast_image :: "image_addr option"
  co_state :: rcu_State
  co_validated :: "image_addr option"
  co_read_image :: "image_addr option"

text \<open>A result: the value stored into \<open>last_error\<close>, if any; the function's result, if it ran; the handle
  and the domain afterwards.\<close>

type_synonym 'r call_result = "CallError option \<times> 'r option \<times> FunctionCC \<times> reclaim_fn Domain"

text \<open>The entry the fast path would run, inside \<open>Some\<close>; the outer option is a bad read.\<close>

definition fast_entry :: "(image_addr \<Rightarrow> Image option) \<Rightarrow> u64 \<Rightarrow> image_addr option \<Rightarrow> FunctionCC
    \<Rightarrow> Entry option option" where
  "fast_entry images sig seen h =
     (case seen of
        None \<Rightarrow> Some None
      | Some a \<Rightarrow>
          if fh_verified_image h \<noteq> Some a then Some None
          else case images a of
            None \<Rightarrow> None
          | Some img \<Rightarrow>
              (case im_export_table img of
                 None \<Rightarrow> Some None
               | Some tab \<Rightarrow>
                   if fh_index h \<ge> tb_count tab then Some None
                   else case entry_at tab (unat (fh_index h)) of
                     None \<Rightarrow> None
                   | Some e \<Rightarrow>
                       Some (if en_name_hash e = fh_name_hash h \<and> en_sig e = sig \<and> en_fnptr e \<noteq> 0
                             then Some e else None)))"

text \<open>The checks of the slow path on the table it entered with.\<close>

definition slow_entry :: "u64 \<Rightarrow> Table \<Rightarrow> FunctionCC \<Rightarrow> (CallError + Entry) option" where
  "slow_entry sig tab h =
     (if fh_index h \<ge> tb_count tab then Some (Inl ce_table_changed)
      else case entry_at tab (unat (fh_index h)) of
        None \<Rightarrow> None
      | Some e \<Rightarrow>
          if en_name_hash e \<noteq> fh_name_hash h \<or> en_sig e \<noteq> sig then Some (Inl ce_table_changed)
          else case (en_name e, fh_name h) of
            (Some n, Some m) \<Rightarrow>
              Some (if c_str n \<noteq> c_str m then Inl ce_table_changed
                    else if en_fnptr e = 0 then Inl ce_invalid else Inr e)
          | _ \<Rightarrow> None)"

definition function_call :: "(uintptr_t \<Rightarrow> 'a \<Rightarrow> 'r) \<Rightarrow> (image_addr \<Rightarrow> Image option) \<Rightarrow> tid \<Rightarrow> u64 \<Rightarrow> call_obs
    \<Rightarrow> 'a \<Rightarrow> FunctionCC \<Rightarrow> reclaim_fn Domain \<Rightarrow> 'r call_result option" where
  "function_call invoke images t sig obs args h d =
     (if \<not> fh_control h then Some (Some ce_not_loaded, None, h, d)
      else let d = rcu_enter t d
      in case fast_entry images sig (co_fast_image obs) h of
           None \<Rightarrow> None
         | Some (Some e) \<Rightarrow> Some (Some ce_none, Some (invoke (en_fnptr e) args), h, rcu_exit t d)
         | Some None \<Rightarrow>
             let d = rcu_exit t d
             in if co_state obs \<noteq> rs_active then Some (Some ce_not_loaded, None, h, d)
                else let d = rcu_enter t d
                in case co_read_image obs of
                     None \<Rightarrow> Some (None, None, h, rcu_exit t d)
                   | Some a \<Rightarrow>
                       (case images a of
                          None \<Rightarrow> None
                        | Some img \<Rightarrow>
                            (case im_export_table img of
                               None \<Rightarrow> Some (None, None, h, d)
                             | Some tab \<Rightarrow>
                                 (case slow_entry sig tab h of
                                    None \<Rightarrow> None
                                  | Some (Inl e) \<Rightarrow> Some (Some e, None, h, rcu_exit t d)
                                  | Some (Inr e) \<Rightarrow>
                                      Some (Some ce_none, Some (invoke (en_fnptr e) args),
                                            h\<lparr>fh_verified_image := co_validated obs\<rparr>, rcu_exit t d)))))"

section \<open>Lemmas\<close>

lemma rcu_exit_slot [simp]: "dm_slot (rcu_exit t d) t = 0"
  by (simp add: rcu_exit_def store_slot_def)

lemma rcu_enter_slot [simp]: "dm_slot (rcu_enter t d) t = dm_global d"
  by (simp add: rcu_enter_def store_slot_def get_thread_def register_thread_def Let_def)

lemma fast_entry_Some:
  assumes "fast_entry images sig seen h = Some (Some e)"
  shows "\<exists>a img tab. seen = Some a \<and> fh_verified_image h = Some a \<and> images a = Some img
     \<and> im_export_table img = Some tab \<and> entry_at tab (unat (fh_index h)) = Some e
     \<and> en_name_hash e = fh_name_hash h \<and> en_sig e = sig \<and> en_fnptr e \<noteq> 0"
  using assms by (auto simp: fast_entry_def split: option.splits if_splits)

lemma slow_entry_Inr:
  assumes "slow_entry sig tab h = Some (Inr e)"
  shows "entry_at tab (unat (fh_index h)) = Some e \<and> en_name_hash e = fh_name_hash h \<and> en_sig e = sig
     \<and> en_fnptr e \<noteq> 0 \<and> (\<exists>n m. en_name e = Some n \<and> fh_name h = Some m \<and> c_str n = c_str m)"
  using assms by (auto simp: slow_entry_def split: option.splits if_splits prod.splits)

text \<open>The hint of a handle is honest when, at the handle's index, the image it names carries the
  resolved name.\<close>

definition hint_honest :: "(image_addr \<Rightarrow> Image option) \<Rightarrow> FunctionCC \<Rightarrow> bool" where
  "hint_honest images h \<longleftrightarrow>
     (\<forall>a img tab e. fh_verified_image h = Some a \<longrightarrow> images a = Some img \<longrightarrow> im_export_table img = Some tab
        \<longrightarrow> entry_at tab (unat (fh_index h)) = Some e
        \<longrightarrow> (\<exists>n m. en_name e = Some n \<and> fh_name h = Some m \<and> c_str n = c_str m))"

lemma function_call_fast:
  assumes "fh_control h" "fast_entry images sig (co_fast_image obs) h = Some (Some e)"
  shows "function_call invoke images t sig obs args h d =
     Some (Some ce_none, Some (invoke (en_fnptr e) args), h, rcu_exit t (rcu_enter t d))"
  using assms by (simp add: function_call_def)

lemma function_call_slow:
  assumes "function_call invoke images t sig obs args h d = Some (err, Some r, h', d')"
    and "\<nexists>e. fast_entry images sig (co_fast_image obs) h = Some (Some e)"
  shows "\<exists>a img tab e. co_read_image obs = Some a \<and> images a = Some img \<and> im_export_table img = Some tab
     \<and> slow_entry sig tab h = Some (Inr e) \<and> r = invoke (en_fnptr e) args
     \<and> err = Some ce_none \<and> dm_slot d' t = 0"
proof -
  have ctl: "fh_control h" using assms(1) by (cases "fh_control h") (simp_all add: function_call_def)
  have f: "fast_entry images sig (co_fast_image obs) h = Some None"
    using assms ctl by (cases "fast_entry images sig (co_fast_image obs) h") (auto simp: function_call_def)
  have st: "co_state obs = rs_active"
    using assms(1) ctl f by (cases "co_state obs = rs_active") (simp_all add: function_call_def)
  obtain a where a: "co_read_image obs = Some a"
    using assms(1) ctl f st by (cases "co_read_image obs") (simp_all add: function_call_def)
  obtain img where img: "images a = Some img"
    using assms(1) ctl f st a by (cases "images a") (simp_all add: function_call_def)
  obtain tab where tab: "im_export_table img = Some tab"
    using assms(1) ctl f st a img by (cases "im_export_table img") (simp_all add: function_call_def)
  obtain x where x: "slow_entry sig tab h = Some x"
    using assms(1) ctl f st a img tab by (cases "slow_entry sig tab h") (simp_all add: function_call_def)
  obtain e where e: "x = Inr e"
    using assms(1) ctl f st a img tab x by (cases x) (simp_all add: function_call_def)
  show ?thesis using assms(1) ctl f st a img tab x e by (auto simp: function_call_def)
qed

section \<open>Properties\<close>

lemma function_call_ran:
  assumes "function_call invoke images t sig obs args h d = Some (err, Some r, h', d')"
  shows "\<exists>a img tab e. a \<in> set_option (co_fast_image obs) \<union> set_option (co_read_image obs)
     \<and> images a = Some img \<and> im_export_table img = Some tab \<and> entry_at tab (unat (fh_index h)) = Some e
     \<and> en_name_hash e = fh_name_hash h \<and> en_sig e = sig \<and> en_fnptr e \<noteq> 0
     \<and> r = invoke (en_fnptr e) args \<and> err = Some ce_none
     \<and> (hint_honest images h \<longrightarrow> (\<exists>n m. en_name e = Some n \<and> fh_name h = Some m \<and> c_str n = c_str m))"
proof (cases "\<exists>e. fast_entry images sig (co_fast_image obs) h = Some (Some e)")
  case True
  then obtain e where e: "fast_entry images sig (co_fast_image obs) h = Some (Some e)" by blast
  have ctl: "fh_control h" using assms by (cases "fh_control h") (simp_all add: function_call_def)
  obtain a img tab where i: "co_fast_image obs = Some a" "fh_verified_image h = Some a" "images a = Some img"
    "im_export_table img = Some tab" "entry_at tab (unat (fh_index h)) = Some e" "en_name_hash e = fh_name_hash h"
    "en_sig e = sig" "en_fnptr e \<noteq> 0"
    using fast_entry_Some[OF e] by blast
  have "r = invoke (en_fnptr e) args" "err = Some ce_none"
    using assms function_call_fast[OF ctl e, of invoke t args d] by auto
  moreover have "\<exists>n m. en_name e = Some n \<and> fh_name h = Some m \<and> c_str n = c_str m" if "hint_honest images h"
    using that i(2-5) unfolding hint_honest_def by blast
  ultimately show ?thesis using i by (intro exI[of _ a] exI[of _ img] exI[of _ tab] exI[of _ e]) simp
next
  case False
  then obtain a img tab e where i: "co_read_image obs = Some a" "images a = Some img" "im_export_table img = Some tab"
    "slow_entry sig tab h = Some (Inr e)" "r = invoke (en_fnptr e) args" "err = Some ce_none"
    using function_call_slow[OF assms] by blast
  then show ?thesis using slow_entry_Inr[OF i(4)]
    by (intro exI[of _ a] exI[of _ img] exI[of _ tab] exI[of _ e]) simp
qed

text \<open>The one way out of a call that stays inside the read section: the image read by the slow path has no export table.\<close>

definition stays_inside :: "(image_addr \<Rightarrow> Image option) \<Rightarrow> u64 \<Rightarrow> call_obs \<Rightarrow> FunctionCC \<Rightarrow> bool" where
  "stays_inside images sig obs h \<longleftrightarrow> fast_entry images sig (co_fast_image obs) h = Some None \<and> co_state obs = rs_active
     \<and> (\<exists>a img. co_read_image obs = Some a \<and> images a = Some img \<and> im_export_table img = None)"

lemma function_call_section:
  assumes "function_call invoke images t sig obs args h d = Some (err, res, h', d')"
  shows "if \<not> fh_control h then d' = d
     else if stays_inside images sig obs h then (err, res) = (None, None) \<and> dm_slot d' t = dm_global d
     else dm_slot d' t = 0"
proof (cases "fh_control h")
  case True
  have g: "dm_global (rcu_exit t (rcu_enter t d)) = dm_global d"
    by (simp add: rcu_enter_def rcu_exit_def store_slot_def get_thread_def register_thread_def Let_def)
  show ?thesis
    using assms True g
    by (auto simp: function_call_def stays_inside_def Let_def split: option.splits sum.splits if_splits)
qed (use assms in \<open>simp add: function_call_def\<close>)

text \<open>C4. Whatever images other threads publish while the call runs, a call that runs a function runs
  the one stored, in an image the call read inside its read section, at the handle's index in an
  entry with the resolved name hash and signature, and reports no error; when the handle's hint is honest that
  entry also has the resolved name. A call through an empty handle touches no section. Every other call has left
  its read section when it returns, with or without an error, with one exception: a call that finds an
  image without an export table returns from inside the section and reports nothing.\<close>

theorem call_runs_resolved_entry:
  assumes "function_call invoke images t sig obs args h d = Some (err, res, h', d')"
  shows "(\<forall>r. res = Some r \<longrightarrow> (\<exists>a img tab e. a \<in> set_option (co_fast_image obs) \<union> set_option (co_read_image obs)
       \<and> images a = Some img \<and> im_export_table img = Some tab \<and> entry_at tab (unat (fh_index h)) = Some e
       \<and> en_name_hash e = fh_name_hash h \<and> en_sig e = sig \<and> en_fnptr e \<noteq> 0
       \<and> r = invoke (en_fnptr e) args \<and> err = Some ce_none
       \<and> (hint_honest images h \<longrightarrow> (\<exists>n m. en_name e = Some n \<and> fh_name h = Some m \<and> c_str n = c_str m))))
     \<and> (if \<not> fh_control h then d' = d
        else if stays_inside images sig obs h then (err, res) = (None, None) \<and> dm_slot d' t = dm_global d
        else dm_slot d' t = 0)"
  using function_call_ran[of invoke images t sig obs args h d err _ h' d'] function_call_section[OF assms] assms by blast

definition demo_export :: "Entry list \<Rightarrow> Image" where
  "demo_export es = \<lparr>im_module = 1, im_export_table = Some (make_table es), im_index = empty_index\<rparr>"

definition entry_of_name :: "string \<Rightarrow> u32 \<Rightarrow> u64 \<Rightarrow> uintptr_t \<Rightarrow> Entry" where
  "entry_of_name n nh sig fn = \<lparr>en_name = Some n, en_sig = sig, en_version = 1, en_fnptr = fn,
     en_name_hash = nh, en_flags = 0\<rparr>"

definition resolved_handle :: FunctionCC where
  "resolved_handle = \<lparr>fh_control = True, fh_name = Some ''f'', fh_name_hash = 5, fh_index = 0, fh_valid = True,
     fh_verified_image = None\<rparr>"

theorem call_runs_resolved_entry_witness:
  "\<exists>err r h' d'. function_call (\<lambda>fn x. (fn, x)) (\<lambda>_. Some (demo_export [entry_of_name ''f'' 5 9 70])) 0 9
       \<lparr>co_fast_image = Some 3, co_state = rs_active, co_validated = Some 3, co_read_image = Some 4\<rparr> (1 :: int)
       resolved_handle initial_domain = Some (err, Some r, h', d')
     \<and> r = (70, 1) \<and> err = Some ce_none \<and> dm_slot d' 0 = 0"
proof -
  let ?obs = "\<lparr>co_fast_image = Some 3, co_state = rs_active, co_validated = Some 3, co_read_image = Some 4\<rparr>"
  let ?images = "\<lambda>_. Some (demo_export [entry_of_name ''f'' 5 9 70])"
  obtain err r h' d' where c: "function_call (\<lambda>fn x. (fn, x)) ?images 0 9 ?obs (1 :: int) resolved_handle initial_domain
      = Some (err, Some r, h', d')"
    by (simp add: function_call_def fast_entry_def slow_entry_def resolved_handle_def demo_export_def make_table_def
        entry_at_def entry_of_name_def c_str_def Let_def)
  from call_runs_resolved_entry[OF c] show ?thesis using c
    by (auto simp: demo_export_def make_table_def entry_at_def entry_of_name_def resolved_handle_def stays_inside_def)
qed

text \<open>When the current image has no export table, which a module without the table getter has,
  a call returns without leaving its read section and without reporting an error: the thread's slot
  stays set, and with it every later grace period waits forever.\<close>

theorem call_without_table_leaks_section:
  assumes "fh_control h" "fh_verified_image h \<noteq> Some a" "images a = Some img" "im_export_table img = None"
    and "obs = \<lparr>co_fast_image = Some a, co_state = rs_active, co_validated = Some a, co_read_image = Some a\<rparr>"
    and "dm_global d \<noteq> 0"
  shows "\<exists>d'. function_call invoke images t sig obs args h d = Some (None, None, h, d')
     \<and> dm_slot d' t = dm_global d \<and> t \<in> set (dm_threads d')
     \<and> (\<forall>target \<ge> dm_global d. \<not> readers_passed target d')"
proof -
  let ?d = "rcu_enter t (rcu_exit t (rcu_enter t d))"
  have "function_call invoke images t sig obs args h d = Some (None, None, h, ?d)"
    using assms(1-5) by (simp add: function_call_def fast_entry_def)
  moreover have g: "dm_slot ?d t = dm_global d"
    by (simp add: rcu_enter_def rcu_exit_def store_slot_def get_thread_def register_thread_def Let_def)
  moreover have mem: "t \<in> set (dm_threads ?d)"
    by (simp add: rcu_enter_def rcu_exit_def store_slot_def get_thread_def register_thread_def Let_def)
  moreover have "\<not> readers_passed target ?d" if "target \<ge> dm_global d" for target
    using g mem that assms(6) by (auto simp: readers_passed_def list_all_iff slot_passed_def intro!: bexI[of _ t])
  ultimately show ?thesis by blast
qed

theorem call_without_table_leaks_section_witness:
  "\<exists>d'. function_call (\<lambda>fn x. ()) (\<lambda>_. Some \<lparr>im_module = 2, im_export_table = None, im_index = empty_index\<rparr>) 0 9
       \<lparr>co_fast_image = Some 4, co_state = rs_active, co_validated = Some 4, co_read_image = Some 4\<rparr> ()
       resolved_handle initial_domain = Some (None, None, resolved_handle, d')
     \<and> dm_slot d' 0 = 1"
  using call_without_table_leaks_section[of resolved_handle 4
      "\<lambda>_. Some \<lparr>im_module = 2, im_export_table = None, im_index = empty_index\<rparr>"
      "\<lparr>im_module = 2, im_export_table = None, im_index = empty_index\<rparr>" _ initial_domain "\<lambda>fn x. ()" 0 9 "()"]
  by (auto simp: resolved_handle_def initial_domain_def)

text \<open>\<open>raw\<close> does not revalidate: after another image was published it returns whatever function now
  stands at the handle's index, even one with another name hash and another signature, for which a
  call through the handle reports \<open>table_changed\<close>.\<close>

lemma raw_returns_unchecked_function:
  assumes "fh_valid h" "fh_control h" "w_control w = Some c" "ct_state c = rs_active" "ct_image c = Some a"
    and "w_images w a = Some img" "im_export_table img = Some tab" "fh_index h < tb_count tab"
    and "entry_at tab (unat (fh_index h)) = Some e" "en_sig e \<noteq> sig" "en_name_hash e \<noteq> fh_name_hash h"
    and "co_read_image obs = Some a" "co_state obs = rs_active" "fh_verified_image h = None"
  shows "function_raw h w = Some (en_fnptr e)
     \<and> (\<exists>h' d'. function_call invoke (w_images w) t sig obs args h d = Some (Some ce_table_changed, None, h', d'))"
proof -
  have "\<not> tb_count tab \<le> fh_index h" using assms(8) by (simp add: not_le)
  then have "function_raw h w = Some (en_fnptr e)"
    using assms(1-9) by (simp add: function_raw_def function_valid_def is_loaded_def current_image_def)
  moreover have "fast_entry (w_images w) sig (co_fast_image obs) h = Some None"
    using assms(14) by (simp add: fast_entry_def split: option.split)
  moreover have "slow_entry sig tab h = Some (Inl ce_table_changed)"
    using assms(9-11) \<open>\<not> tb_count tab \<le> fh_index h\<close> by (simp add: slow_entry_def)
  ultimately show ?thesis using assms(2,6,7,12,13) by (simp add: function_call_def)
qed

definition reloaded_world :: dll_world where
  "reloaded_world = \<lparr>w_control = Some (new_dll_control\<lparr>ct_state := rs_active, ct_image := Some 3\<rparr>), w_path = [],
     w_handles = 1, w_images = (\<lambda>_. Some (demo_export [entry_of_name ''other'' 6 8 99])), w_next = 4,
     w_refs = (\<lambda>_. 0), w_pool = demo_pool, w_domain = initial_domain\<rparr>"

lemma raw_returns_unchecked_function_witness:
  "function_raw resolved_handle reloaded_world = Some 99"
  using raw_returns_unchecked_function[of resolved_handle reloaded_world
      "new_dll_control\<lparr>ct_state := rs_active, ct_image := Some 3\<rparr>" 3 "demo_export [entry_of_name ''other'' 6 8 99]"
      "make_table [entry_of_name ''other'' 6 8 99]" "entry_of_name ''other'' 6 8 99" 9
      "\<lparr>co_fast_image = None, co_state = rs_active, co_validated = None, co_read_image = Some 3\<rparr>"
      "\<lambda>fn x. ()" 0 "()" initial_domain]
  by (simp add: resolved_handle_def entry_of_name_def reloaded_world_def demo_export_def make_table_def entry_at_def)

end
