(* ===== verification/Module_Export.thy ===== *)
theory Module_Export
  imports DLL_Function
begin

text \<open>
  How a module publishes its functions and how the type of a function becomes the signature both sides
  compare: \<open>Runtime/TypeSig.h\<close>, \<open>DLL/FnSig.h\<close> and the export macros of \<open>DLL/Export.h\<close> and \<open>Runtime/Type.h\<close>.
  C++ types are values of \<open>cxx_type\<close>; the template specialisations are the equations of \<open>type_sig_impl\<close> and
  \<open>fn_sig_cc\<close>. The hash functions of the MICS submodule are the fields of \<open>mics\<close>, about which nothing is
  assumed.

  Shown: what a provider exports with the macros, a consumer that loads the module and names the function
  with the same type can call.
\<close>

section \<open>Signatures of types\<close>

datatype cxx_type =
    T_named string | T_const cxx_type | T_volatile cxx_type | T_lref cxx_type | T_rref cxx_type
  | T_UniquePtr cxx_type | T_RefPtr cxx_type | T_ViewPtr cxx_type | T_SharedPtr cxx_type | T_WeakPtr cxx_type
  | T_Function cxx_type "cxx_type list"

datatype cc_tag = Cdecl | Stdcall

record mics =
  mix :: "u64 \<Rightarrow> u64 \<Rightarrow> u64"
  cstr64 :: "string \<Rightarrow> u64"
  fnv1a_offset_base :: u64
  type_hash :: "cxx_type \<Rightarrow> u64"
  compute_fn_hash :: "u64 list \<Rightarrow> u64"
  cc_num :: "cc_tag \<Rightarrow> u8"

fun remove_cv :: "cxx_type \<Rightarrow> cxx_type" where
  "remove_cv (T_const t) = remove_cv t"
| "remove_cv (T_volatile t) = remove_cv t"
| "remove_cv t = t"

fun is_reference :: "cxx_type \<Rightarrow> bool" where
  "is_reference (T_lref t) = True"
| "is_reference (T_rref t) = True"
| "is_reference t = False"

fun type_sig_impl :: "mics \<Rightarrow> cxx_type \<Rightarrow> u64" where
  "type_sig_impl m (T_UniquePtr t) = mix m (cstr64 m ''skl::abix::dll::UniquePtr'') (type_hash m t)"
| "type_sig_impl m (T_RefPtr t) = mix m (cstr64 m ''skl::abix::dll::RefPtr'') (type_hash m t)"
| "type_sig_impl m (T_ViewPtr t) = mix m (cstr64 m ''skl::abix::dll::ViewPtr'') (type_hash m t)"
| "type_sig_impl m (T_SharedPtr t) = mix m (cstr64 m ''skl::abix::dll::SharedPtr'') (type_hash m t)"
| "type_sig_impl m (T_WeakPtr t) = mix m (cstr64 m ''skl::abix::dll::WeakPtr'') (type_hash m t)"
| "type_sig_impl m (T_Function r as) =
     (let h = cstr64 m ''skl::abix::runtime::Function'';
          h = mix m h (type_hash m r);
          acc = foldl (\<lambda>acc a. mix m acc (type_hash m (remove_cv a))) 0 as
      in mix m h acc)"
| "type_sig_impl m t = type_hash m t"

definition bare_type :: "cxx_type \<Rightarrow> cxx_type" where
  "bare_type t = (if is_reference t then t else remove_cv t)"

definition type_sig :: "mics \<Rightarrow> cxx_type \<Rightarrow> u64" where
  "type_sig m t = type_sig_impl m (bare_type t)"

section \<open>Signatures of functions\<close>

definition fn_sig_impl :: "mics \<Rightarrow> cc_tag \<Rightarrow> cxx_type \<Rightarrow> cxx_type list \<Rightarrow> u64" where
  "fn_sig_impl m c r as =
     (let h = compute_fn_hash m (type_sig m r # map (type_sig m) as)
      in mix m h (ucast (cc_num m c) * 0x10001))"

text \<open>What \<open>FnSig\<close> is applied to: a function type, the type of a pointer to a function, or a closure type.\<close>

datatype fn_type = F_type cxx_type "cxx_type list" | F_pointer cxx_type "cxx_type list" | F_closure cxx_type "cxx_type list"

fun fn_sig_cc :: "mics \<Rightarrow> cc_tag \<Rightarrow> fn_type \<Rightarrow> u64" where
  "fn_sig_cc m c (F_type r as) = fn_sig_impl m c r as"
| "fn_sig_cc m c (F_pointer r as) = fn_sig_impl m c r as"
| "fn_sig_cc m c (F_closure r as) = fn_sig_impl m c (T_Function r as) []"

definition FnSig :: "mics \<Rightarrow> fn_type \<Rightarrow> cc_tag \<Rightarrow> u64" where
  "FnSig m sig c = fn_sig_cc m c sig"

section \<open>Export tables\<close>

text \<open>A function of the module: its declared type and its address.\<close>

record cxx_function =
  cf_return :: cxx_type
  cf_params :: "cxx_type list"
  cf_addr :: uintptr_t

definition entry_full :: "mics \<Rightarrow> string \<Rightarrow> cxx_function \<Rightarrow> cc_tag \<Rightarrow> u64 \<Rightarrow> u32 \<Rightarrow> Entry" where
  "entry_full m name func c ver flg =
     \<lparr>en_name = Some name, en_sig = FnSig m (F_pointer (cf_return func) (cf_params func)) c, en_version = ver,
      en_fnptr = cf_addr func, en_name_hash = name_hash (cstr64 m) (fnv1a_offset_base m) (Some name), en_flags = flg\<rparr>"

definition entry_cc :: "mics \<Rightarrow> string \<Rightarrow> cxx_function \<Rightarrow> cc_tag \<Rightarrow> Entry" where
  "entry_cc m name func c = entry_full m name func c 0 0"

definition export_entry :: "mics \<Rightarrow> string \<Rightarrow> cxx_function \<Rightarrow> Entry" where
  "export_entry m name func = entry_cc m name func Cdecl"

text \<open>\<open>SKL_ABIX_DEFINE_TABLE\<close> with one \<open>SKL_ABIX_ENTRY\<close> per function: what \<open>abi_get_table\<close> returns.\<close>

definition define_table :: "mics \<Rightarrow> (string \<times> cxx_function) list \<Rightarrow> Table" where
  "define_table m fs = make_table (map (\<lambda>(name, func). export_entry m name func) fs)"

section \<open>The table in the lookup's terms\<close>

lemma define_table_count:
  "length fs \<le> 2 ^ 30 \<Longrightarrow> unat (tb_count (define_table m fs)) = length fs"
  by (simp add: define_table_def make_table_def unat_of_nat_small)

lemma define_table_ok:
  assumes "length fs \<le> 2 ^ 30"
  shows "table_ok (define_table m fs)"
proof -
  have "unat (of_nat (length fs) :: u32) = length fs" using assms by (simp add: unat_of_nat_small)
  then show ?thesis
    by (auto simp: table_ok_def define_table_def make_table_def export_entry_def entry_cc_def entry_full_def)
qed

lemma define_table_entry:
  "i < length fs \<Longrightarrow> entry_of (define_table m fs) i = export_entry m (fst (fs ! i)) (snd (fs ! i))"
  by (simp add: entry_of_def define_table_def make_table_def case_prod_beta)

lemma define_table_first:
  assumes "length fs \<le> 2 ^ 30" "\<And>j. j < i \<Longrightarrow> c_str (fst (fs ! j)) \<noteq> c_str (fst (fs ! i))" "i < length fs"
  shows "find (entry_matches (define_table m fs) (fst (fs ! i)) (name_hash (cstr64 m) (fnv1a_offset_base m) (Some (fst (fs ! i)))))
    [0..<unat (tb_count (define_table m fs))] = Some i"
  using assms unfolding find_upt_Some
  by (simp add: define_table_count entry_matches_def define_table_entry strcmp_eq_def export_entry_def entry_cc_def entry_full_def)

text \<open>The signature does not see top-level qualifiers, nor whether the type was written as function or pointer.\<close>

lemma FnSig_agrees:
  assumes "map bare_type (r # as) = map bare_type (r' # as')"
  shows "FnSig m (F_type r as) c = FnSig m (F_pointer r' as') c"
proof -
  have "map (type_sig m) (r # as) = map (type_sig_impl m) (map bare_type (r # as))"
    "map (type_sig m) (r' # as') = map (type_sig_impl m) (map bare_type (r' # as'))"
    by (simp_all add: type_sig_def)
  then have "map (type_sig m) (r # as) = map (type_sig m) (r' # as')" using assms by (simp only:)
  then show ?thesis by (simp add: FnSig_def fn_sig_impl_def Let_def)
qed

section \<open>Loading, resolving, calling\<close>

text \<open>The first load of an object: no image is retired. The image it publishes holds the module's table and an
  index that serves it, or none.\<close>

definition serving :: "Image \<Rightarrow> Table \<Rightarrow> bool" where
  "serving img tab \<longleftrightarrow> im_export_table img = Some tab \<and> table_ok tab \<and> (index_valid (im_index img) \<longrightarrow> serves tab (im_index img))"

definition loadable :: "dll_env \<Rightarrow> string \<Rightarrow> Table \<Rightarrow> bool" where
  "loadable env path tab \<longleftrightarrow> de_load env path \<noteq> 0 \<and> de_symbol env (de_load env path) SKL_ABIX_TABLE_GETTER \<noteq> 0 \<and>
     de_getter env (de_symbol env (de_load env path) SKL_ABIX_TABLE_GETTER) = Some tab \<and> de_alloc_image env"

lemma image_index:
  assumes "table_ok tab" "unat (tb_count tab) \<le> 2 ^ 30" "pool_ok p"
  shows "\<exists>idx p'. (if tb_count tab \<ge> SKL_ABIX_HASH_THRESHOLD then index_build memory tab empty_index p
      else Some (empty_index, p)) = Some (idx, p') \<and> (index_valid idx \<longrightarrow> serves tab idx)"
proof (cases "tb_count tab \<ge> SKL_ABIX_HASH_THRESHOLD")
  case True
  have "index_ok empty_index" by (simp add: index_ok_def empty_index_def)
  then obtain idx p' where b: "index_build memory tab empty_index p = Some (idx, p')"
    "if hi_slots idx = None then memory = None \<and> idx = empty_index else serves tab idx"
    using index_build_total[OF assms, of empty_index memory] by blast
  have "index_valid idx \<longrightarrow> serves tab idx" using b(2) by (auto simp: index_valid_def)
  with True b(1) show ?thesis by simp
next
  case False
  then show ?thesis by (simp add: index_valid_def empty_index_def)
qed

lemma load_image_serving:
  assumes "loadable env path tab" "table_ok tab" "tb_format_version tab = SKL_ABIX_TABLE_FORMAT_VERSION"
    "unat (tb_count tab) \<le> 2 ^ 30" "pool_ok (w_pool w)"
  obtains a w' img where "load_image env path w = Some (Some a, w')" "w_images w' a = Some img" "serving img tab"
    "w_control w' = w_control w"
proof -
  let ?m = "de_load env path"
  let ?w = "w\<lparr>w_refs := (w_refs w)(?m := w_refs w ?m + 1)\<rparr>"
  have magic: "tb_magic tab = SKL_ABIX_TABLE_MAGIC" using assms(2) by (simp add: table_ok_def)
  have L: "load_module env path w = (?m, ?w)" "resolve_symbol env ?m SKL_ABIX_TABLE_GETTER \<noteq> 0"
    "de_getter env (resolve_symbol env ?m SKL_ABIX_TABLE_GETTER) = Some tab" "de_alloc_image env" "?m \<noteq> 0"
    using assms(1) by (simp_all add: loadable_def load_module_def resolve_symbol_def Let_def)
  obtain idx p where idx: "(if tb_count tab \<ge> SKL_ABIX_HASH_THRESHOLD
      then index_build (de_alloc_slots env) tab empty_index (w_pool w) else Some (empty_index, w_pool w)) = Some (idx, p)"
    "index_valid idx \<longrightarrow> serves tab idx"
    using image_index[OF assms(2,4,5)] by blast
  let ?img = "\<lparr>im_module = ?m, im_export_table = Some tab, im_index = idx\<rparr>"
  have "load_image env path w = Some (Some (w_next w), ?w\<lparr>w_images := (w_images w)(w_next w := Some ?img),
      w_next := Suc (w_next w), w_pool := p\<rparr>)"
    using L idx(1) assms(3) magic by (simp add: load_image_def Let_def split: if_splits)
  then show thesis by (rule that[of _ _ ?img]) (use assms(2) idx(2) in \<open>simp_all add: serving_def\<close>)
qed

lemma first_load:
  assumes "loadable env path tab" "table_ok tab" "tb_format_version tab = SKL_ABIX_TABLE_FORMAT_VERSION"
    "unat (tb_count tab) \<le> 2 ^ 30" "pool_ok (w_pool w)"
    and w: "w_control w = Some c" "ct_image c = None" and lock: "lock_writer env True w = Some True"
  obtains w' a img where "object_load env path w = Some (ce_none, w')"
    "w_control w' = Some (c\<lparr>ct_image := Some a, ct_state := rs_active\<rparr>)" "w_images w' a = Some img" "serving img tab"
proof -
  obtain a w1 img where l: "load_image env path w = Some (Some a, w1)" "w_images w1 a = Some img" "serving img tab"
    "w_control w1 = w_control w"
    using load_image_serving[OF assms(1-5)] by metis
  have "lock_writer env True w1 = Some True" using lock l(4) by (simp add: lock_writer_def)
  then have "publish_image env (Some a) rs_active w1 =
      Some (True, w1\<lparr>w_control := Some (c\<lparr>ct_image := Some a, ct_state := rs_active\<rparr>)\<rparr>)"
    using l(4) w by (simp add: publish_image_def swap_image_def)
  then have "object_load env path w =
      Some (ce_none, w1\<lparr>w_control := Some (c\<lparr>ct_image := Some a, ct_state := rs_active\<rparr>), w_path := path\<rparr>)"
    using l(1) w by (simp add: object_load_def)
  then show thesis by (rule that[of _ a img]) (use l in simp_all)
qed

text \<open>Resolving a name in a served image.\<close>

lemma resolve_served:
  assumes w: "w_control w = Some c" "ct_image c = Some a" "w_images w a = Some img" "serving img tab"
    and first: "find (entry_matches tab name (name_hash hash base (Some name))) [0..<unat (tb_count tab)] = Some i"
    and sig: "en_sig (entry_of tab i) = sig"
  shows "try_resolve hash base t sig (Some name) 0 empty_function w =
    Some (ce_none, \<lparr>fh_control = True, fh_name = Some name, fh_name_hash = name_hash hash base (Some name),
        fh_index = of_nat i, fh_valid = True, fh_verified_image = None\<rparr>,
      w\<lparr>w_handles := Suc (w_handles w), w_domain := rcu_exit t (rcu_enter t (w_domain w))\<rparr>)"
proof -
  have tab: "im_export_table img = Some tab" "table_ok tab \<and> (index_valid (im_index img) \<longrightarrow> serves tab (im_index img))"
    using w(4) by (simp_all add: serving_def)
  have "find_index tab (im_index img) (Some name) (name_hash hash base (Some name)) sig 0 = Some (lr_ok, of_nat i)"
    using auto.unversioned[OF tab(2)] first sig by simp
  then show ?thesis
    using w(1-3) tab(1) by (simp add: try_resolve_def release_lib_def take_control_def empty_function_def current_image_def
        resolve_verdict_def Let_def)
qed

text \<open>A call while the image stays the same: the first takes the slow path and remembers the image, the next ones the fast path.\<close>

definition steady :: "image_addr \<Rightarrow> call_obs" where
  "steady a = \<lparr>co_fast_image = Some a, co_state = rs_active, co_validated = Some a, co_read_image = Some a\<rparr>"

lemma call_served:
  assumes "images a = Some img" "im_export_table img = Some tab" "table_ok tab" "i < unat (tb_count tab)"
    and h: "fh_control h" "fh_index h = of_nat i" "fh_name h = Some name" "fh_name_hash h = en_name_hash (entry_of tab i)"
      "fh_verified_image h = None \<or> fh_verified_image h = Some a"
    and e: "en_name (entry_of tab i) = Some name" "en_sig (entry_of tab i) = sig" "en_fnptr (entry_of tab i) \<noteq> 0"
  shows "\<exists>d'. function_call invoke images t sig (steady a) args h d =
    Some (Some ce_none, Some (invoke (en_fnptr (entry_of tab i)) args), h\<lparr>fh_verified_image := Some a\<rparr>, d')"
proof -
  have "i < 2 ^ 32" using less_trans[OF assms(4) unat_less_size32] by simp
  then have i: "unat (fh_index h) = i" using h(2) by (simp add: unat_of_nat_small)
  have lt: "\<not> tb_count tab \<le> fh_index h" using assms(4) i by (simp add: word_le_nat_alt)
  have en: "entry_at tab i = Some (entry_of tab i)" using table_ok_entry(1)[OF assms(3,4)] .
  have slow: "slow_entry sig tab h = Some (Inr (entry_of tab i))"
    using lt i en h(3,4) e by (simp add: slow_entry_def)
  show ?thesis
  proof (cases "fh_verified_image h = Some a")
    case True
    then have "fast_entry images sig (Some a) h = Some (Some (entry_of tab i))"
      using assms(1,2) lt i en h(4) e by (simp add: fast_entry_def)
    then show ?thesis using True h(1) by (simp add: function_call_def steady_def)
  next
    case False
    then have "fast_entry images sig (Some a) h = Some None" by (simp add: fast_entry_def)
    then show ?thesis using h(1) slow assms(1,2) by (simp add: function_call_def steady_def)
  qed
qed

lemma calls_served:
  assumes img: "images a = Some img" "im_export_table img = Some tab" "table_ok tab" "i < unat (tb_count tab)"
    and h: "fh_control h" "fh_index h = of_nat i" "fh_name h = Some name" "fh_name_hash h = en_name_hash (entry_of tab i)"
      "fh_verified_image h = None"
    and e: "en_name (entry_of tab i) = Some name" "en_sig (entry_of tab i) = sig" "en_fnptr (entry_of tab i) = fn" "fn \<noteq> 0"
  shows "\<forall>args d. \<exists>h' d'. function_call invoke images t sig (steady a) args h d =
        Some (Some ce_none, Some (invoke fn args), h', d') \<and>
      (\<forall>args d. \<exists>d'. function_call invoke images t sig (steady a) args h' d =
        Some (Some ce_none, Some (invoke fn args), h', d'))"
proof (intro allI)
  fix args d
  let ?h = "h\<lparr>fh_verified_image := Some a\<rparr>"
  have fn: "en_fnptr (entry_of tab i) \<noteq> 0" using e(3,4) by simp
  obtain d' where first: "function_call invoke images t sig (steady a) args h d = Some (Some ce_none, Some (invoke fn args), ?h, d')"
    using call_served[of images a img tab i h name sig invoke t args d] img h e(1-3) fn by auto
  have "\<forall>args d. \<exists>d'. function_call invoke images t sig (steady a) args ?h d = Some (Some ce_none, Some (invoke fn args), ?h, d')"
    using call_served[of images a img tab i ?h name sig invoke t] img h(1-4) e(1-3) fn by simp
  with first show "\<exists>h' d'. function_call invoke images t sig (steady a) args h d = Some (Some ce_none, Some (invoke fn args), h', d') \<and>
      (\<forall>args d. \<exists>d'. function_call invoke images t sig (steady a) args h' d = Some (Some ce_none, Some (invoke fn args), h', d'))"
    by (intro exI[of _ ?h] exI[of _ d'] conjI)
qed

section \<open>Property\<close>

text \<open>C3. What a module exports can be called. A provider lists at most 2^30 functions with \<open>SKL_ABIX_ENTRY\<close> in
  \<open>SKL_ABIX_DEFINE_TABLE\<close>; take one whose name no earlier entry has. A program loads the module into a fresh
  object, the platform finding the module and its table getter and memory for the image, and names the function
  in a handle of the same type, up to top-level qualifiers. It gets a valid handle, with or
  without a hash index over the table, and while the module stays loaded every call of the handle runs
  exactly that function with the given arguments and reports no error.\<close>

theorem exported_function_callable:
  assumes fs: "length fs \<le> 2 ^ 30" "\<And>j. j < i \<Longrightarrow> c_str (fst (fs ! j)) \<noteq> c_str name" "i < length fs" "fs ! i = (name, func)" "cf_addr func \<noteq> 0"
    and env: "loadable env path (define_table m fs)" "lock_writer env True w = Some True"
    and w: "w_control w = Some c" "ct_image c = None" "pool_ok (w_pool w)"
    and same: "map bare_type (r # as) = map bare_type (cf_return func # cf_params func)"
  shows "\<exists>w1 a h w2. object_load env path w = Some (ce_none, w1) \<and>
    try_resolve (cstr64 m) (fnv1a_offset_base m) t (FnSig m (F_type r as) Cdecl) (Some name) 0 empty_function w1 = Some (ce_none, h, w2) \<and>
    function_valid h w2 \<and> current_image w2 = Some a \<and>
    (\<forall>args d. \<exists>h' d'. function_call invoke (w_images w2) t (FnSig m (F_type r as) Cdecl) (steady a) args h d =
        Some (Some ce_none, Some (invoke (cf_addr func) args), h', d') \<and>
      (\<forall>args d. \<exists>d'. function_call invoke (w_images w2) t (FnSig m (F_type r as) Cdecl) (steady a) args h' d =
        Some (Some ce_none, Some (invoke (cf_addr func) args), h', d')))"
proof -
  let ?tab = "define_table m fs" and ?sig = "FnSig m (F_type r as) Cdecl"
  have tab: "table_ok ?tab" "unat (tb_count ?tab) \<le> 2 ^ 30" "tb_format_version ?tab = SKL_ABIX_TABLE_FORMAT_VERSION"
    "i < unat (tb_count ?tab)"
    using define_table_ok[OF fs(1)] define_table_count[OF fs(1)] fs(1,3) by (simp_all add: define_table_def make_table_def)
  obtain w1 a img where l: "object_load env path w = Some (ce_none, w1)"
    "w_control w1 = Some (c\<lparr>ct_image := Some a, ct_state := rs_active\<rparr>)" "w_images w1 a = Some img" "serving img ?tab"
    using first_load[OF env(1) tab(1,3,2) w(3,1,2) env(2)] by metis
  have e: "entry_of ?tab i = export_entry m name func" using define_table_entry[OF fs(3)] fs(4) by simp
  then have sig: "en_sig (entry_of ?tab i) = ?sig"
    using FnSig_agrees[OF same] by (simp add: export_entry_def entry_cc_def entry_full_def)
  note R = resolve_served[OF l(2) _ l(3,4) _ sig, where hash = "cstr64 m" and base = "fnv1a_offset_base m" and name = name and t = t]
  let ?h = "\<lparr>fh_control = True, fh_name = Some name, fh_name_hash = name_hash (cstr64 m) (fnv1a_offset_base m) (Some name),
        fh_index = of_nat i, fh_valid = True, fh_verified_image = None\<rparr>"
  let ?w2 = "w1\<lparr>w_handles := Suc (w_handles w1), w_domain := rcu_exit t (rcu_enter t (w_domain w1))\<rparr>"
  have res: "try_resolve (cstr64 m) (fnv1a_offset_base m) t ?sig (Some name) 0 empty_function w1 = Some (ce_none, ?h, ?w2)"
    using R define_table_first[OF fs(1) _ fs(3), of m] fs(2,4) by simp
  have img: "w_images ?w2 a = Some img" "im_export_table img = Some ?tab" using l(3,4) by (simp_all add: serving_def)
  note calls = calls_served[of "w_images ?w2" a img ?tab i ?h name ?sig "cf_addr func" invoke t, OF img tab(1,4)]
  have valid: "function_valid ?h ?w2" "current_image ?w2 = Some a"
    using l(2) by (simp_all add: function_valid_def is_loaded_def current_image_def)
  show ?thesis
    by (rule exI[of _ w1], rule exI[of _ a], rule exI[of _ ?h], rule exI[of _ ?w2], intro conjI l(1) res valid, rule calls)
       (use sig fs(5) in \<open>simp_all add: e export_entry_def entry_cc_def entry_full_def\<close>)
qed

definition demo_mics :: mics where
  "demo_mics = \<lparr>mix = (\<lambda>a b. a * 31 + b), cstr64 = (\<lambda>s. of_nat (length s)), fnv1a_offset_base = 7,
     type_hash = (\<lambda>t. of_nat (size t)), compute_fn_hash = foldl (\<lambda>h s. h * 33 + s) 5,
     cc_num = (\<lambda>c. case c of Cdecl \<Rightarrow> 1 | Stdcall \<Rightarrow> 2)\<rparr>"

definition int_type :: cxx_type where
  "int_type = T_named ''int''"

definition demo_exports :: "(string \<times> cxx_function) list" where
  "demo_exports = [(''inc'', \<lparr>cf_return = int_type, cf_params = [int_type], cf_addr = 70\<rparr>),
     (''dec'', \<lparr>cf_return = int_type, cf_params = [int_type], cf_addr = 80\<rparr>)]"

definition export_env :: dll_env where
  "export_env = quiet_env\<lparr>de_getter := (\<lambda>_. Some (define_table demo_mics demo_exports))\<rparr>"

definition fresh_world :: dll_world where
  "fresh_world = \<lparr>w_control = Some new_dll_control, w_path = [], w_handles = 0, w_images = (\<lambda>_. None), w_next = 0,
     w_refs = (\<lambda>_. 0), w_pool = demo_pool, w_domain = initial_domain\<rparr>"

theorem exported_function_callable_witness:
  "\<exists>w1 a h w2 h' d'. object_load export_env ''plugin'' fresh_world = Some (ce_none, w1) \<and>
    try_resolve (cstr64 demo_mics) (fnv1a_offset_base demo_mics) 0 (FnSig demo_mics (F_type int_type [T_const int_type]) Cdecl)
      (Some ''dec'') 0 empty_function w1 = Some (ce_none, h, w2) \<and>
    function_call (\<lambda>fn x. (fn, x)) (w_images w2) 0 (FnSig demo_mics (F_type int_type [T_const int_type]) Cdecl) (steady a) (5 :: int) h
      initial_domain = Some (Some ce_none, Some (80, 5), h', d')"
proof -
  have fs: "length demo_exports \<le> 2 ^ 30" "\<And>j. j < 1 \<Longrightarrow> c_str (fst (demo_exports ! j)) \<noteq> c_str ''dec''" "1 < length demo_exports"
    "demo_exports ! 1 = (''dec'', \<lparr>cf_return = int_type, cf_params = [int_type], cf_addr = 80\<rparr>)"
    by (simp_all add: demo_exports_def c_str_def)
  have env: "loadable export_env ''plugin'' (define_table demo_mics demo_exports)"
    "lock_writer export_env True fresh_world = Some True" "w_control fresh_world = Some new_dll_control"
    "ct_image new_dll_control = None" "pool_ok (w_pool fresh_world)"
    by (simp_all add: loadable_def export_env_def quiet_env_def fresh_world_def lock_writer_def new_dll_control_def
        pool_ok_def demo_pool_def)
  have same: "map bare_type (int_type # [T_const int_type]) = map bare_type (int_type # [int_type])"
    by (simp add: bare_type_def int_type_def)
  obtain w1 a h w2 where "object_load export_env ''plugin'' fresh_world = Some (ce_none, w1)"
    "try_resolve (cstr64 demo_mics) (fnv1a_offset_base demo_mics) 0 (FnSig demo_mics (F_type int_type [T_const int_type]) Cdecl)
      (Some ''dec'') 0 empty_function w1 = Some (ce_none, h, w2)"
    and c: "\<forall>args d. \<exists>h' d'. function_call (\<lambda>fn (x :: int). (fn, x)) (w_images w2) 0
      (FnSig demo_mics (F_type int_type [T_const int_type]) Cdecl) (steady a) args h d =
        Some (Some ce_none, Some (80, args), h', d')"
    using exported_function_callable[OF fs _ env, of int_type "[T_const int_type]" 0 "\<lambda>fn (x :: int). (fn, x)"] same by force
  moreover obtain h' d' where "function_call (\<lambda>fn (x :: int). (fn, x)) (w_images w2) 0
      (FnSig demo_mics (F_type int_type [T_const int_type]) Cdecl) (steady a) 5 h initial_domain =
        Some (Some ce_none, Some (80, 5), h', d')" using c by metis
  ultimately show ?thesis by blast
qed

end
