(* ===== verification/Bridge_Reflection.thy ===== *)
theory Bridge_Reflection
  imports Module_Export Model_ABI
begin

text \<open>
  The bridge to the MICS reflection library: \<open>Bridge/Adapter.h\<close>, \<open>Bridge/MICS.h\<close> and \<open>Bridge/Refl.h\<close>. MICS is not part of
  the repository: its registry, its \<open>Any\<close> type, its type identifiers of C++ types and the metaprogram
  \<open>fp::count\<close> are parameters. Type lists of entry tags are lists; the recursive templates over them are
  recursive functions.
\<close>

section \<open>Typed adapters and type identifiers\<close>

text \<open>The primary template, taken for every pair of types without a generated specialisation.\<close>

definition adapter_apply :: "'m \<Rightarrow> bool \<times> 'm" where
  "adapter_apply memory = (False, memory)"

record mics_TypeId =
  mt_lo :: u64
  mt_hi :: u64

definition to_mics_type_id :: "TypeId \<Rightarrow> mics_TypeId" where
  "to_mics_type_id t = \<lparr>mt_lo = lo t, mt_hi = hi t\<rparr>"

definition to_abix_type_id :: "mics_TypeId \<Rightarrow> TypeId" where
  "to_abix_type_id t = \<lparr>lo = mt_lo t, hi = mt_hi t\<rparr>"

lemma type_id_roundtrip: "to_abix_type_id (to_mics_type_id t) = t" "to_mics_type_id (to_abix_type_id u) = u"
  by (simp_all add: to_abix_type_id_def to_mics_type_id_def)

section \<open>Compile-time function tables\<close>

record FnEntryTag =
  tag_sig :: u64
  tag_name_hash :: u32

fun HasUniqueSigs :: "(FnEntryTag list \<Rightarrow> (FnEntryTag \<Rightarrow> bool) \<Rightarrow> nat) \<Rightarrow> FnEntryTag list \<Rightarrow> bool" where
  "HasUniqueSigs count_of [] = True"
| "HasUniqueSigs count_of [t] = True"
| "HasUniqueSigs count_of (t # u # rest) =
     (count_of (u # rest) (\<lambda>v. tag_sig v = tag_sig t) = 0 \<and> HasUniqueSigs count_of (u # rest))"

fun FindBySig :: "FnEntryTag list \<Rightarrow> u64 \<Rightarrow> int" where
  "FindBySig [] target = - 1"
| "FindBySig (t # rest) target =
     (if tag_sig t = target then 0
      else if FindBySig rest target = - 1 then - 1 else 1 + FindBySig rest target)"

lemma FindBySig_spec:
  "FindBySig ts s = (case find (\<lambda>i. tag_sig (ts ! i) = s) [0..<length ts] of None \<Rightarrow> - 1 | Some i \<Rightarrow> int i)"
proof (induction ts)
  case (Cons t ts)
  have "[0..<length (t # ts)] = 0 # map Suc [0..<length ts]" by (simp add: upt_conv_Cons map_Suc_upt del: upt_Suc)
  moreover have "find P (map Suc xs) = map_option Suc (find (P \<circ> Suc) xs)" for P xs by (induction xs) simp_all
  ultimately show ?case using Cons by (auto simp: comp_def split: option.splits simp del: upt_Suc)
qed simp

lemma HasUniqueSigs_distinct:
  assumes "\<And>xs P. count_of xs P = length (filter P xs)"
  shows "HasUniqueSigs count_of ts \<longleftrightarrow> distinct (map tag_sig ts)"
proof (induction ts)
  case (Cons t ts)
  have "count_of ts (\<lambda>v. tag_sig v = tag_sig t) = 0 \<longleftrightarrow> tag_sig t \<notin> tag_sig ` set ts"
    unfolding assms by (auto simp: filter_empty_conv) (metis rev_image_eqI)
  with Cons show ?case by (cases ts) simp_all
qed simp

lemma FindBySig_unique:
  assumes "\<And>xs P. count_of xs P = length (filter P xs)" "HasUniqueSigs count_of ts" "i < length ts"
  shows "FindBySig ts (tag_sig (ts ! i)) = int i"
proof -
  have "distinct (map tag_sig ts)" using assms(1,2) by (simp add: HasUniqueSigs_distinct)
  then have "tag_sig (ts ! j) \<noteq> tag_sig (ts ! i)" if "j < i" for j
    using nth_eq_iff_index_eq[of "map tag_sig ts" j i] that assms(3) by simp
  then have "find (\<lambda>k. tag_sig (ts ! k) = tag_sig (ts ! i)) [0..<length ts] = Some i"
    using assms(3) by (simp add: find_upt_Some)
  then show ?thesis by (simp add: FindBySig_spec)
qed

lemma FindBySig_absent: "FindBySig ts s = - 1 \<longleftrightarrow> s \<notin> tag_sig ` set ts"
proof -
  have "FindBySig ts s = - 1 \<longleftrightarrow> find (\<lambda>i. tag_sig (ts ! i) = s) [0..<length ts] = None"
    by (auto simp: FindBySig_spec split: option.splits)
  then show ?thesis by (force simp: find_None_iff in_set_conv_nth)
qed

section \<open>Calls through Any\<close>

text \<open>\<open>operator()\<close> of a handle returns a default value when it runs nothing, so the \<open>Any\<close> holds that value then.\<close>

definition dll_func_call_any :: "bool \<Rightarrow> ('r \<Rightarrow> 'any) \<Rightarrow> 'any \<Rightarrow> 'r \<Rightarrow> 'r call_result \<Rightarrow> 'any" where
  "dll_func_call_any is_void any_of any_empty default_ret result =
     (case result of (err, r, h, d) \<Rightarrow>
        if is_void then any_empty else any_of (case r of None \<Rightarrow> default_ret | Some v \<Rightarrow> v))"

definition any_cast_val :: "('any \<Rightarrow> 'r option) \<Rightarrow> 'r \<Rightarrow> 'any \<Rightarrow> 'r" where
  "any_cast_val try_cast default_val a = (case try_cast a of Some v \<Rightarrow> v | None \<Rightarrow> default_val)"

lemma any_roundtrip:
  assumes "\<And>v. try_cast (any_of v) = Some v"
  shows "any_cast_val try_cast z (dll_func_call_any False any_of e z (err, Some v, h, d)) = v"
    and "any_cast_val try_cast z (dll_func_call_any False any_of e z (err, None, h, d)) = z"
  using assms by (simp_all add: any_cast_val_def dll_func_call_any_def)

section \<open>Registration\<close>

text \<open>The loop fills a local \<open>FnInfo\<close> and registers a null type for each named entry; \<open>dll_name\<close> is only tested.\<close>

fun register_entries :: "('t option \<Rightarrow> 'reg \<Rightarrow> 'reg) \<Rightarrow> Entry list \<Rightarrow> 'reg \<Rightarrow> 'reg" where
  "register_entries register_type [] reg = reg"
| "register_entries register_type (e # es) reg =
     register_entries register_type es (if en_name e = None then reg else register_type None reg)"

definition register_dll_table :: "('t option \<Rightarrow> 'reg \<Rightarrow> 'reg) \<Rightarrow> Table ptr \<Rightarrow> string ptr \<Rightarrow> 'reg \<Rightarrow> 'reg" where
  "register_dll_table register_type t dll_name reg =
     (case (t, dll_name) of
        (Some t, Some _) \<Rightarrow> register_entries register_type (arr_elems (tb_entries t) (tb_count t)) reg
      | _ \<Rightarrow> reg)"

lemma register_entries_null:
  "register_entries register_type es reg = (register_type None ^^ length (filter (\<lambda>e. en_name e \<noteq> None) es)) reg"
  by (induction es arbitrary: reg) (simp_all add: funpow_swap1)

text \<open>Nothing of the table reaches the registry: two tables with as many named entries leave the same one.\<close>

lemma register_dll_table_forgets:
  assumes "length (filter (\<lambda>e. en_name e \<noteq> None) es) = length (filter (\<lambda>e. en_name e \<noteq> None) es')"
    and "length es < 2 ^ 32" "length es' < 2 ^ 32"
  shows "register_dll_table register_type (Some (make_table es)) (Some n) reg =
    register_dll_table register_type (Some (make_table es')) (Some n') reg"
  using assms by (simp add: register_dll_table_def make_table_def arr_elems_def unat_of_nat_small register_entries_null)

section \<open>Type descriptions\<close>

record 'id pod_type_info =
  pi_name :: "string ptr"
  pi_type_id :: 'id
  pi_size :: size_t

definition make_pod_type_info :: "(cxx_type \<Rightarrow> 'id) \<Rightarrow> (cxx_type \<Rightarrow> size_t) \<Rightarrow> cxx_type \<Rightarrow> string ptr \<Rightarrow> 'id pod_type_info" where
  "make_pod_type_info type_id_of size_of t name = \<lparr>pi_name = name, pi_type_id = type_id_of t, pi_size = size_of t\<rparr>"

record ('id, 'v) field_accessor =
  fa_name :: "string ptr"
  fa_type_id :: 'id
  fa_offset :: u32
  fa_getter :: "uintptr_t \<Rightarrow> uintptr_t"
  fa_setter :: "uintptr_t \<Rightarrow> 'v \<Rightarrow> (uintptr_t \<Rightarrow> 'v) \<Rightarrow> (uintptr_t \<Rightarrow> 'v)"

definition make_offset_field :: "(cxx_type \<Rightarrow> 'id) \<Rightarrow> cxx_type \<Rightarrow> size_t \<Rightarrow> string ptr \<Rightarrow> ('id, 'v) field_accessor" where
  "make_offset_field type_id_of t offset name =
     \<lparr>fa_name = name, fa_type_id = type_id_of t, fa_offset = ucast offset, fa_getter = (\<lambda>obj. obj + offset),
      fa_setter = (\<lambda>obj v memory. memory(obj + offset := v))\<rparr>"

lemma field_roundtrip:
  fixes acc :: "('id, 'v) field_accessor"
  assumes "acc = make_offset_field type_id_of t offset name"
  shows "fa_setter acc obj v memory (fa_getter acc obj) = v"
  using assms by (simp add: make_offset_field_def)

end
