(* ===== verification/Binary_Image.thy ===== *)
theory Binary_Image
  imports Abix_Prelude "HOL-Library.Monad_Syntax"
begin

text \<open>
  The format-neutral model of a native binary container (\<open>Binary/BinaryImage.h\<close>): sections, exports
  and target of a parsed image, the little-endian readers the adapters share, the translation of
  canonical region names and the region lookup.

  The bytes of an image are a \<^typ>\<open>8 word list option\<close>: the pointer \<open>data\<close> (\<open>None\<close> for \<open>nullptr\<close>) to a
  buffer. Every access of the source goes through \<open>byte_at\<close> or \<open>copy_range\<close>, which return \<open>None\<close> when
  an index lies outside the buffer; offsets are 64-bit words and wrap as \<open>size_t\<close> does. An operation of
  the model returning \<open>None\<close> is therefore an operation of the source with an out-of-bounds access (or,
  for the one loop without a bound of its own, one that never ends); reported failures are \<open>Inl\<close> the
  error text.
\<close>

section \<open>Data model\<close>

datatype Format = format_unknown | format_elf | format_macho | format_pe

datatype OperatingSystem = os_unknown | os_linux | os_windows | os_macos | os_freebsd | os_android

datatype Architecture = arch_unknown | arch_x86 | arch_x86_64 | arch_arm32 | arch_arm64 | arch_riscv32 | arch_riscv64

datatype Endianness = endian_little | endian_big

record Section =
  sec_name :: string
  sec_segment :: string
  sec_file_offset :: u64
  sec_file_size :: u64
  sec_address :: u64
  sec_size :: u64
  sec_alignment :: u64
  sec_type :: u32
  sec_flags :: u64

record Export =
  exp_name :: string
  exp_address :: u64
  exp_ordinal :: u32

record Target =
  tgt_format :: Format
  tgt_os :: OperatingSystem
  tgt_architecture :: Architecture
  tgt_endian :: Endianness
  tgt_pointer_size :: u8
  tgt_image_base :: u64

record ParseResult =
  res_target :: Target
  res_sections :: "Section list"
  res_exports :: "Export list"

record BinaryImage =
  img_data :: "u8 arr"
  img_size :: size_t
  img_result :: ParseResult

text \<open>The default member initialisers of \<open>Section\<close> and \<open>Target\<close>.\<close>

definition empty_section :: Section where
  "empty_section = \<lparr>sec_name = [], sec_segment = [], sec_file_offset = 0, sec_file_size = 0, sec_address = 0,
     sec_size = 0, sec_alignment = 0, sec_type = 0, sec_flags = 0\<rparr>"

definition empty_target :: Target where
  "empty_target = \<lparr>tgt_format = format_unknown, tgt_os = os_unknown, tgt_architecture = arch_unknown,
     tgt_endian = endian_little, tgt_pointer_size = 0, tgt_image_base = 0\<rparr>"

section \<open>Reading the buffer\<close>

definition byte_at :: "u8 arr \<Rightarrow> size_t \<Rightarrow> u8 option" where
  "byte_at data off = (case data of None \<Rightarrow> None
     | Some d \<Rightarrow> if unat off < length d then Some (d ! unat off) else None)"

definition copy_range :: "u8 arr \<Rightarrow> size_t \<Rightarrow> u64 \<Rightarrow> u8 list option" where
  "copy_range data off len = (case data of None \<Rightarrow> if len = 0 then Some [] else None
     | Some d \<Rightarrow> if unat off + unat len \<le> length d then Some (take (unat len) (drop (unat off) d)) else None)"

definition in_bounds :: "u64 \<Rightarrow> u64 \<Rightarrow> size_t \<Rightarrow> bool" where
  "in_bounds off len sz \<longleftrightarrow> off \<le> sz \<and> len \<le> sz - off"

definition read_u16 :: "u8 arr \<Rightarrow> size_t \<Rightarrow> u16 option" where
  "read_u16 data off = do {
     a \<leftarrow> byte_at data off;
     b \<leftarrow> byte_at data (off + 1);
     Some (ucast a OR push_bit 8 (ucast b)) }"

text \<open>The byte loop of the two wider readers: \<open>k\<close> iterations are left, \<open>i\<close> are done.\<close>

primrec read_bytes :: "nat \<Rightarrow> u8 arr \<Rightarrow> size_t \<Rightarrow> nat \<Rightarrow> 'a::len word \<Rightarrow> 'a word option" where
  "read_bytes 0 data off i acc = Some acc"
| "read_bytes (Suc k) data off i acc = do {
     b \<leftarrow> byte_at data (off + of_nat i);
     read_bytes k data off (Suc i) (acc OR push_bit (i * 8) (ucast b)) }"

definition read_u32 :: "u8 arr \<Rightarrow> size_t \<Rightarrow> u32 option" where
  "read_u32 data off = read_bytes 4 data off 0 0"

definition read_u64 :: "u8 arr \<Rightarrow> size_t \<Rightarrow> u64 option" where
  "read_u64 data off = read_bytes 8 data off 0 0"

text \<open>The scan all adapters use for a NUL-terminated name between \<open>cursor\<close> and \<open>end\<close>.\<close>

function scan_name :: "u8 arr \<Rightarrow> size_t \<Rightarrow> size_t \<Rightarrow> string option" where
  "scan_name data cursor stop =
     (if cursor < stop
      then do {
        (b :: u8) \<leftarrow> byte_at data cursor;
        if b = 0 then Some []
        else do {
          (rest :: string) \<leftarrow> scan_name data (cursor + 1) stop;
          Some (char_of (unat b) # rest) } }
      else Some [])"
  by pat_completeness auto
termination
proof (relation "measure (\<lambda>(data, cursor, stop). unat stop - unat cursor)")
  fix data :: "u8 arr" and cursor stop :: size_t
  assume less: "cursor < stop"
  then have "unat cursor + unat (1 :: size_t) < 2 ^ LENGTH(64)"
    using unat_less_size64[of stop] by (simp add: word_less_nat_alt del: unat_less_size64)
  then have "unat (cursor + 1) = unat cursor + 1" using unat_add_small[of cursor 1] by simp
  with less show "((data, cursor + 1, stop), data, cursor, stop) \<in> measure (\<lambda>(data, cursor, stop). unat stop - unat cursor)"
    by (simp add: word_less_nat_alt)
qed simp

declare scan_name.simps [simp del]

text \<open>A fixed-capacity name (Mach-O 16 bytes, PE 8 bytes).\<close>

primrec fixed_name :: "nat \<Rightarrow> u8 arr \<Rightarrow> size_t \<Rightarrow> string option" where
  "fixed_name 0 data off = Some []"
| "fixed_name (Suc k) data off = do {
     (b :: u8) \<leftarrow> byte_at data off;
     if b = 0 then Some []
     else do {
       (rest :: string) \<leftarrow> fixed_name k data (off + 1);
       Some (char_of (unat b) # rest) } }"

section \<open>Names and regions\<close>

definition native_section_name :: "Format \<Rightarrow> string \<Rightarrow> string" where
  "native_section_name fmt canonical =
     (if fmt = format_macho then
        (case canonical of [] \<Rightarrow> canonical
         | c # cs \<Rightarrow> if c \<noteq> CHR ''.'' then canonical
             else map (\<lambda>c. if c = CHR ''.'' then CHR ''_'' else c) (CHR ''_'' # CHR ''_'' # cs))
      else if fmt = format_pe \<and> canonical = ''.abix.metadata'' then ''.abix''
      else if fmt = format_pe \<and> canonical = ''.abix.names'' then ''.abix.n''
      else canonical)"

definition find_section :: "BinaryImage \<Rightarrow> string \<Rightarrow> Section ptr" where
  "find_section img name = find (\<lambda>s. sec_name s = name) (res_sections (img_result img))"

definition find_export :: "BinaryImage \<Rightarrow> string \<Rightarrow> Export ptr" where
  "find_export img name = find (\<lambda>e. exp_name e = name) (res_exports (img_result img))"

definition find_region :: "BinaryImage \<Rightarrow> string \<Rightarrow> Section ptr" where
  "find_region img canonical =
     find_section img (native_section_name (tgt_format (res_target (img_result img))) canonical)"

text \<open>The private header in front of the Metadata Region of a PE image: the offset and length of the
  region, or those of the whole section when the header is absent or inconsistent.\<close>

definition skip_pe_header :: "u8 arr \<Rightarrow> u64 \<Rightarrow> u64 \<Rightarrow> (u64 \<times> u64) option" where
  "skip_pe_header data off len = do {
     b0 \<leftarrow> byte_at data off;
     b1 \<leftarrow> byte_at data (off + 1);
     b2 \<leftarrow> byte_at data (off + 2);
     b3 \<leftarrow> byte_at data (off + 3);
     if [b0, b1, b2, b3] = bytes_of ''ABIX'' then do {
       version \<leftarrow> read_u16 data (off + 4);
       header_size \<leftarrow> read_u16 data (off + 6);
       region_offset \<leftarrow> read_u32 data (off + 12);
       region_size \<leftarrow> read_u32 data (off + 16);
       if version = 1 \<and> 24 \<le> header_size \<and> ucast header_size \<le> region_offset
          \<and> (ucast region_offset + ucast region_size :: u64) \<le> len
       then Some (off + ucast region_offset, ucast region_size)
       else Some (off, len) }
     else Some (off, len) }"

text \<open>\<open>"section '" + canonical + "'" + what\<close>, the texts of the three failures.\<close>

definition region_error :: "string \<Rightarrow> string \<Rightarrow> string" where
  "region_error canonical what = ''section '' @ [CHR 0x27] @ canonical @ [CHR 0x27] @ what"

definition read_region :: "BinaryImage \<Rightarrow> string \<Rightarrow> (string + u8 list) option" where
  "read_region img canonical =
     (case find_region img canonical of
        None \<Rightarrow> Some (Inl (region_error canonical '' not found''))
      | Some s \<Rightarrow>
          if sec_file_size s = 0 \<and> 0 < sec_size s then Some (Inl (region_error canonical '' has no file content''))
          else if \<not> in_bounds (sec_file_offset s) (sec_file_size s) (img_size img)
          then Some (Inl (region_error canonical '' is out of bounds''))
          else do {
            range \<leftarrow> (if tgt_format (res_target (img_result img)) = format_pe \<and> 24 \<le> sec_file_size s
                      then skip_pe_header (img_data img) (sec_file_offset s) (sec_file_size s)
                      else Some (sec_file_offset s, sec_file_size s));
            content \<leftarrow> copy_range (img_data img) (fst range) (snd range);
            Some (Inr content) })"

section \<open>Accesses inside the buffer\<close>

text \<open>\<open>returns m\<close>: the computation ends without leaving the buffer. Its rules, collected in
  \<open>returns_intros\<close>, walk through the \<open>do\<close> blocks of the adapters.\<close>

named_theorems returns_intros \<open>computations that stay inside the buffer\<close>

definition returns :: "'a option \<Rightarrow> bool" where
  "returns m \<longleftrightarrow> m \<noteq> None"

lemma returns_Some [returns_intros, simp]: "returns (Some x)"
  by (simp add: returns_def)

lemma returns_bind [returns_intros]:
  "returns m \<Longrightarrow> (\<And>x. m = Some x \<Longrightarrow> returns (f x)) \<Longrightarrow> returns (Option.bind m f)"
  by (cases m) (simp_all add: returns_def)

lemma returns_if [returns_intros]:
  "(c \<Longrightarrow> returns a) \<Longrightarrow> (\<not> c \<Longrightarrow> returns b) \<Longrightarrow> returns (if c then a else b)"
  by simp

lemma returnsE:
  assumes "returns m"
  obtains x where "m = Some x"
  using assms by (auto simp: returns_def)

text \<open>The \<open>n\<close> bytes from \<open>off\<close> on are inside the buffer.\<close>

definition readable :: "u8 arr \<Rightarrow> size_t \<Rightarrow> nat \<Rightarrow> bool" where
  "readable data off n \<longleftrightarrow> (\<exists>d. data = Some d \<and> unat off + n \<le> length d \<and> length d < 2 ^ 64)"

definition buffer_ok :: "u8 arr \<Rightarrow> size_t \<Rightarrow> bool" where
  "buffer_ok data sz \<longleftrightarrow> (case data of None \<Rightarrow> True | Some d \<Rightarrow> length d = unat sz)"

lemma in_bounds_iff: "in_bounds off len sz \<longleftrightarrow> unat off + unat len \<le> unat sz"
proof (cases "off \<le> sz")
  case True
  then have "unat (sz - off) = unat sz - unat off" by (rule unat_sub)
  with True show ?thesis by (auto simp: in_bounds_def word_le_nat_alt)
next
  case False
  then show ?thesis by (auto simp: in_bounds_def word_le_nat_alt)
qed

lemma readable_iff:
  "buffer_ok (Some d) sz \<Longrightarrow> readable (Some d) off n \<longleftrightarrow> unat off + n \<le> unat sz"
  using unsigned_less[of sz] by (auto simp: buffer_ok_def readable_def)

lemma readable_shift:
  assumes "readable data off n" "unat k + m \<le> n" "0 < m"
  shows "readable data (off + k) m"
proof -
  obtain d where d: "data = Some d" "unat off + n \<le> length d" "length d < 2 ^ 64"
    using assms(1) by (auto simp: readable_def)
  with assms(2,3) have "unat (off + k) = unat off + unat k" by (intro unat_add_small) simp
  with d assms(2) show ?thesis by (simp add: readable_def)
qed

lemma readable_mono: "readable data off n \<Longrightarrow> m \<le> n \<Longrightarrow> readable data off m"
  by (auto simp: readable_def)

lemma byte_at_returns: "readable data off n \<Longrightarrow> 0 < n \<Longrightarrow> returns (byte_at data off)"
  by (auto simp: readable_def byte_at_def returns_def)

lemma read_bytes_returns:
  assumes "readable data off n" "i + k \<le> n" "n < 2 ^ 64"
  shows "returns (read_bytes k data off i acc)"
  using assms(2)
proof (induction k arbitrary: i acc)
  case (Suc k)
  have "unat (of_nat i :: size_t) = i" using Suc.prems assms(3) by (intro unat_of_nat_small) simp
  then have "readable data (off + of_nat i) 1" using Suc.prems by (intro readable_shift[OF assms(1)]) simp_all
  then show ?case using Suc by (auto intro!: returns_intros intro: byte_at_returns)
qed simp

lemma read_u16_returns: "readable data off 2 \<Longrightarrow> returns (read_u16 data off)"
  unfolding read_u16_def
  by (intro returns_intros byte_at_returns[of _ _ 2] byte_at_returns[of _ _ 1] readable_shift[of _ _ 2]) simp_all

lemma read_u32_returns: "readable data off 4 \<Longrightarrow> returns (read_u32 data off)"
  unfolding read_u32_def by (rule read_bytes_returns[of _ _ 4]) simp_all

lemma read_u64_returns: "readable data off 8 \<Longrightarrow> returns (read_u64 data off)"
  unfolding read_u64_def by (rule read_bytes_returns[of _ _ 8]) simp_all

text \<open>The same at a displacement inside a readable structure of \<open>n\<close> bytes.\<close>

lemma field_byte: "readable data off n \<Longrightarrow> unat k + 1 \<le> n \<Longrightarrow> returns (byte_at data (off + k))"
  by (rule byte_at_returns[OF readable_shift[where m = 1]]) simp_all

lemma field_u16: "readable data off n \<Longrightarrow> unat k + 2 \<le> n \<Longrightarrow> returns (read_u16 data (off + k))"
  by (rule read_u16_returns[OF readable_shift]) simp_all

lemma field_u32: "readable data off n \<Longrightarrow> unat k + 4 \<le> n \<Longrightarrow> returns (read_u32 data (off + k))"
  by (rule read_u32_returns[OF readable_shift]) simp_all

lemma field_u64: "readable data off n \<Longrightarrow> unat k + 8 \<le> n \<Longrightarrow> returns (read_u64 data (off + k))"
  by (rule read_u64_returns[OF readable_shift]) simp_all

lemmas field_reads = field_byte field_u16 field_u32 field_u64

lemma scan_name_returns:
  assumes "data = Some d" "unat stop \<le> length d"
  shows "returns (scan_name data cursor stop)"
  using assms
proof (induction data cursor stop rule: scan_name.induct)
  case (1 data cursor stop)
  show ?case
  proof (cases "cursor < stop")
    case True
    then have "returns (byte_at data cursor)" using 1 by (simp add: byte_at_def returns_def word_less_nat_alt)
    moreover have "returns (scan_name data (cursor + 1) stop)" if "byte_at data cursor = Some b" "b \<noteq> 0" for b
      using True that 1 by blast
    ultimately show ?thesis
      using True by (subst scan_name.simps) (auto intro!: returns_bind)
  qed (simp add: scan_name.simps)
qed

lemma fixed_name_returns: "readable data off k \<Longrightarrow> returns (fixed_name k data off)"
proof (induction k arbitrary: off)
  case (Suc k)
  have "returns (byte_at data off)" using Suc.prems by (rule byte_at_returns) simp
  moreover have "returns (fixed_name k data (off + 1))"
  proof (cases k)
    case (Suc j)
    then show ?thesis using Suc.prems by (intro Suc.IH readable_shift[OF Suc.prems]) simp_all
  qed simp
  ultimately show ?case by (auto intro!: returns_intros)
qed simp

end
