(* ===== verification/Binary_Formats.thy ===== *)
theory Binary_Formats
  imports Binary_Image
begin

text \<open>
  The format adapters \<open>Binary/ELF.h\<close>, \<open>Binary/MachO.h\<close>, \<open>Binary/PE.h\<close> and the entry point
  \<open>parse_binary_image\<close>. A counted loop that pushes into a vector is \<open>for_count\<close>; a loop with a running
  state is a recursion on the number of iterations left; the symbol loop of the ELF adapter, whose
  64-bit offset can wrap, is a \<open>partial_function\<close>.

  The properties of these definitions are in \<open>Binary_Bounds\<close>.
\<close>

definition for_count :: "nat \<Rightarrow> (nat \<Rightarrow> 'a option) \<Rightarrow> 'a list option" where
  "for_count n body = those (map body [0..<n])"

section \<open>ELF\<close>

definition is_elf :: "u8 arr \<Rightarrow> size_t \<Rightarrow> bool option" where
  "is_elf data sz =
     (if data = None \<or> sz < 4 then Some False
      else do {
        b0 \<leftarrow> byte_at data 0;
        b1 \<leftarrow> byte_at data 1;
        b2 \<leftarrow> byte_at data 2;
        b3 \<leftarrow> byte_at data 3;
        Some (b0 = 0x7f \<and> [b1, b2, b3] = bytes_of ''ELF'') })"

definition header_at :: "u64 \<Rightarrow> u16 \<Rightarrow> size_t" where
  "header_at shoff i = shoff + ucast i * 64"

definition name_of :: "u8 arr \<Rightarrow> u64 \<Rightarrow> u64 \<Rightarrow> u32 \<Rightarrow> string option" where
  "name_of data names_offset names_size name_offset =
     (if names_size \<le> ucast name_offset then Some []
      else scan_name data (names_offset + ucast name_offset) (names_offset + names_size))"

definition elf_target :: "u8 \<Rightarrow> u16 \<Rightarrow> Target" where
  "elf_target osabi machine = \<lparr>tgt_format = format_elf, tgt_os = (if osabi = 9 then os_freebsd else os_linux),
     tgt_architecture = (if machine = 3 then arch_x86 else if machine = 62 then arch_x86_64
       else if machine = 40 then arch_arm32 else if machine = 183 then arch_arm64
       else if machine = 243 then arch_riscv64 else arch_unknown),
     tgt_endian = endian_little, tgt_pointer_size = 8, tgt_image_base = 0\<rparr>"

definition elf_section :: "u8 arr \<Rightarrow> u64 \<Rightarrow> u64 \<Rightarrow> size_t \<Rightarrow> Section option" where
  "elf_section data names_offset names_size header = do {
     type \<leftarrow> read_u32 data (header + 4);
     flags \<leftarrow> read_u64 data (header + 8);
     address \<leftarrow> read_u64 data (header + 16);
     file_offset \<leftarrow> read_u64 data (header + 24);
     sz \<leftarrow> read_u64 data (header + 32);
     alignment \<leftarrow> read_u64 data (header + 48);
     name_offset \<leftarrow> read_u32 data (header + 0);
     name \<leftarrow> name_of data names_offset names_size name_offset;
     Some (empty_section\<lparr>sec_type := type, sec_flags := flags, sec_address := address,
       sec_file_offset := file_offset, sec_size := sz, sec_file_size := (if type = 8 then 0 else sz),
       sec_alignment := alignment, sec_name := name\<rparr>) }"

text \<open>One entry of \<open>.dynsym\<close>; \<open>Some None\<close> where the loop continues without an export.\<close>

definition elf_symbol :: "u8 arr \<Rightarrow> u64 \<Rightarrow> u64 \<Rightarrow> size_t \<Rightarrow> Export option option" where
  "elf_symbol data str_offset str_size entry = do {
     st_name \<leftarrow> read_u32 data (entry + 0);
     st_info \<leftarrow> byte_at data (entry + 4);
     st_shndx \<leftarrow> read_u16 data (entry + 6);
     st_value \<leftarrow> read_u64 data (entry + 8);
     let binding = drop_bit 4 st_info;
     if st_shndx = 0 \<or> st_name = 0 then Some None
     else if binding \<noteq> 1 \<and> binding \<noteq> 2 then Some None
     else do {
       name \<leftarrow> scan_name data (str_offset + ucast st_name) (str_offset + str_size);
       Some (if name = [] then None
             else Some \<lparr>exp_name = name, exp_address = st_value, exp_ordinal = 0\<rparr>) } }"

partial_function (option) elf_export_loop ::
  "(size_t \<Rightarrow> Export option option) \<Rightarrow> u64 \<Rightarrow> u64 \<Rightarrow> u64 \<Rightarrow> u64 \<Rightarrow> Export list option" where
  "elf_export_loop symbol dynsym_offset dynsym_size step off =
     (if off + 24 \<le> dynsym_size then
        Option.bind (symbol (dynsym_offset + off)) (\<lambda>e.
        Option.bind (elf_export_loop symbol dynsym_offset dynsym_size step (off + step)) (\<lambda>rest.
        Some ((case e of None \<Rightarrow> [] | Some x \<Rightarrow> [x]) @ rest)))
      else Some [])"

definition dynsym_index :: "Section list \<Rightarrow> nat" where
  "dynsym_index sections = length (takeWhile (\<lambda>s. sec_name s \<noteq> ''.dynsym'') sections)"

definition elf_exports :: "u8 arr \<Rightarrow> size_t \<Rightarrow> u64 \<Rightarrow> u16 \<Rightarrow> Section list \<Rightarrow> Export list option" where
  "elf_exports data sz shoff shnum sections =
     (let i = dynsym_index sections in
      if length sections \<le> i then Some []
      else do {
        let header = header_at shoff (of_nat i);
        link \<leftarrow> read_u32 data (header + 40);
        entsize \<leftarrow> read_u64 data (header + 56);
        let step = (if entsize \<noteq> 0 then entsize else 24);
        let dynsym = sections ! i;
        if ucast link < (ucast shnum :: u64) \<and> in_bounds (sec_file_offset dynsym) (sec_file_size dynsym) sz
        then do {
          let link_header = header_at shoff (ucast link);
          str_offset \<leftarrow> read_u64 data (link_header + 24);
          str_size \<leftarrow> read_u64 data (link_header + 32);
          if in_bounds str_offset str_size sz
          then elf_export_loop (elf_symbol data str_offset str_size)
                 (sec_file_offset dynsym) (sec_file_size dynsym) step 0
          else Some [] }
        else Some [] })"

text \<open>The part of \<open>parse_elf\<close> after the section header table has been found in bounds.\<close>

definition elf_body :: "u8 arr \<Rightarrow> size_t \<Rightarrow> u64 \<Rightarrow> u16 \<Rightarrow> u16 \<Rightarrow> (string + ParseResult) option" where
  "elf_body data sz shoff shnum shstrndx = do {
     let names_header = header_at shoff shstrndx;
     names_offset \<leftarrow> read_u64 data (names_header + 24);
     names_size \<leftarrow> read_u64 data (names_header + 32);
     if \<not> in_bounds names_offset names_size sz then Some (Inl ''ELF section name table is out of bounds'')
     else do {
       osabi \<leftarrow> byte_at data 7;
       machine \<leftarrow> read_u16 data 0x12;
       sections \<leftarrow> for_count (unat shnum) (\<lambda>i. elf_section data names_offset names_size (header_at shoff (of_nat i)));
       exports \<leftarrow> elf_exports data sz shoff shnum sections;
       Some (Inr \<lparr>res_target = elf_target osabi machine, res_sections = sections, res_exports = exports\<rparr>) } }"

definition parse_elf :: "u8 arr \<Rightarrow> size_t \<Rightarrow> (string + ParseResult) option" where
  "parse_elf data sz = do {
     elf \<leftarrow> is_elf data sz;
     if \<not> elf then Some (Inl ''not an ELF file'')
     else if sz < 16 then Some (Inl ''truncated ELF identification'')
     else do {
       ei_class \<leftarrow> byte_at data 4;
       ei_data \<leftarrow> byte_at data 5;
       if ei_class \<noteq> 2 then Some (Inl ''unsupported ELF class (only ELF64 is supported)'')
       else if ei_data \<noteq> 1 then Some (Inl ''unsupported ELF endianness (only little-endian is supported)'')
       else if sz < 0x40 then Some (Inl ''truncated ELF header'')
       else do {
         shoff \<leftarrow> read_u64 data 0x28;
         shentsize \<leftarrow> read_u16 data 0x3A;
         shnum \<leftarrow> read_u16 data 0x3C;
         shstrndx \<leftarrow> read_u16 data 0x3E;
         if shentsize \<noteq> 64 then Some (Inl ''unexpected ELF64 section header size'')
         else if shnum = 0 then Some (Inl ''ELF has no section headers'')
         else if \<not> in_bounds shoff (ucast shentsize * ucast shnum) sz
         then Some (Inl ''ELF section header table is out of bounds'')
         else if shnum \<le> shstrndx then Some (Inl ''ELF section name table index is out of range'')
         else elf_body data sz shoff shnum shstrndx } } }"

section \<open>Mach-O\<close>

definition is_macho :: "u8 arr \<Rightarrow> size_t \<Rightarrow> bool option" where
  "is_macho data sz =
     (if data = None \<or> sz < 4 then Some False
      else do {
        magic \<leftarrow> read_u32 data 0;
        Some (magic = 0xFEEDFACF \<or> magic = 0xFEEDFACE) })"

definition read_fixed_name :: "u8 arr \<Rightarrow> size_t \<Rightarrow> nat \<Rightarrow> string option" where
  "read_fixed_name data off capacity = fixed_name capacity data off"

definition macho_target :: "bool \<Rightarrow> u32 \<Rightarrow> Target" where
  "macho_target is64 cputype = \<lparr>tgt_format = format_macho, tgt_os = os_macos,
     tgt_architecture = (if cputype = 7 then arch_x86 else if cputype = 0x01000007 then arch_x86_64
       else if cputype = 12 then arch_arm32 else if cputype = 0x0100000C then arch_arm64 else arch_unknown),
     tgt_endian = endian_little, tgt_pointer_size = (if is64 then 8 else 4), tgt_image_base = 0\<rparr>"

text \<open>The locals of the load command walk: the cursor, the image base with its flag, the location of
  \<open>LC_SYMTAB\<close> (\<open>None\<close> while \<open>has_symtab\<close> is false) and the sections pushed so far.\<close>

record macho_walk =
  mw_cursor :: size_t
  mw_image_base :: u64
  mw_saw_text_base :: bool
  mw_symtab :: "(u32 \<times> u32 \<times> u32 \<times> u32) option"
  mw_sections :: "Section list"

definition macho_symtab :: "u8 arr \<Rightarrow> u32 \<Rightarrow> u32 \<Rightarrow> macho_walk \<Rightarrow> macho_walk option" where
  "macho_symtab data cmd cmdsize w =
     (if cmd = 2 \<and> 24 \<le> cmdsize then do {
        symoff \<leftarrow> read_u32 data (mw_cursor w + 8);
        nsyms \<leftarrow> read_u32 data (mw_cursor w + 12);
        stroff \<leftarrow> read_u32 data (mw_cursor w + 16);
        strsize \<leftarrow> read_u32 data (mw_cursor w + 20);
        Some (w\<lparr>mw_symtab := Some (symoff, nsyms, stroff, strsize)\<rparr>) }
      else Some w)"

text \<open>\<open>static_cast<uint64_t>\<close> of a 32-bit field.\<close>

definition read_u32_wide :: "u8 arr \<Rightarrow> size_t \<Rightarrow> u64 option" where
  "read_u32_wide data off = do { v \<leftarrow> read_u32 data off; Some (ucast v) }"

definition macho_section :: "u8 arr \<Rightarrow> bool \<Rightarrow> size_t \<Rightarrow> Section option" where
  "macho_section data segment64 header = do {
     name \<leftarrow> read_fixed_name data header 16;
     segment \<leftarrow> read_fixed_name data (header + 16) 16;
     address \<leftarrow> (if segment64 then read_u64 data (header + 32) else read_u32_wide data (header + 32));
     sz \<leftarrow> (if segment64 then read_u64 data (header + 40) else read_u32_wide data (header + 36));
     file_offset \<leftarrow> read_u32_wide data (header + (if segment64 then 48 else 40));
     alignment \<leftarrow> read_u32_wide data (header + (if segment64 then 52 else 44));
     flags \<leftarrow> read_u32_wide data (header + (if segment64 then 64 else 56));
     Some (empty_section\<lparr>sec_name := name, sec_segment := segment, sec_address := address, sec_size := sz,
       sec_file_offset := file_offset, sec_alignment := alignment, sec_flags := flags,
       sec_file_size := (if file_offset = 0 \<and> 0 < sz then 0 else sz)\<rparr>) }"

definition macho_segment :: "u8 arr \<Rightarrow> bool \<Rightarrow> u32 \<Rightarrow> macho_walk \<Rightarrow> (string + macho_walk) option" where
  "macho_segment data segment64 cmdsize w = do {
     segment_name \<leftarrow> read_fixed_name data (mw_cursor w + 8) 16;
     let nsects_offset = (if segment64 then 64 else 48 :: size_t);
     let section_start = (if segment64 then 72 else 56 :: size_t);
     let section_size = (if segment64 then 80 else 68 :: size_t);
     if ucast cmdsize < section_start then Some (Inl ''malformed Mach-O segment command'')
     else do {
       base \<leftarrow> (if mw_saw_text_base w then Some (mw_image_base w)
               else if segment64 then read_u64 data (mw_cursor w + 24)
               else read_u32_wide data (mw_cursor w + 24));
       section_count \<leftarrow> read_u32 data (mw_cursor w + nsects_offset);
       if ucast cmdsize < section_start + ucast section_count * section_size
       then Some (Inl ''Mach-O segment section count exceeds command size'')
       else do {
         sections \<leftarrow> for_count (unat section_count)
           (\<lambda>s. macho_section data segment64 (mw_cursor w + section_start + of_nat s * section_size));
         Some (Inr (w\<lparr>mw_image_base := base, mw_saw_text_base := True,
           mw_sections := mw_sections w @ sections\<rparr>)) } } }"

definition macho_command :: "u8 arr \<Rightarrow> bool \<Rightarrow> size_t \<Rightarrow> macho_walk \<Rightarrow> (string + macho_walk) option" where
  "macho_command data is64 commands_end w =
     (if commands_end < mw_cursor w + 8 then Some (Inl ''truncated Mach-O load command'')
      else do {
        cmd \<leftarrow> read_u32 data (mw_cursor w);
        cmdsize \<leftarrow> read_u32 data (mw_cursor w + 4);
        if cmdsize < 8 \<or> commands_end < mw_cursor w + ucast cmdsize
        then Some (Inl ''malformed Mach-O load command'')
        else do {
          w1 \<leftarrow> macho_symtab data cmd cmdsize w;
          r \<leftarrow> (if is64 \<and> cmd = 0x19 \<or> \<not> is64 \<and> cmd = 1 then macho_segment data is64 cmdsize w1
               else Some (Inr w1));
          Some (case r of Inl e \<Rightarrow> Inl e
                | Inr w2 \<Rightarrow> Inr (w2\<lparr>mw_cursor := mw_cursor w2 + ucast cmdsize\<rparr>)) } })"

primrec macho_commands :: "nat \<Rightarrow> u8 arr \<Rightarrow> bool \<Rightarrow> size_t \<Rightarrow> macho_walk \<Rightarrow> (string + macho_walk) option" where
  "macho_commands 0 data is64 commands_end w = Some (Inr w)"
| "macho_commands (Suc k) data is64 commands_end w =
     Option.bind (macho_command data is64 commands_end w) (\<lambda>r.
       case r of Inl e \<Rightarrow> Some (Inl e) | Inr w1 \<Rightarrow> macho_commands k data is64 commands_end w1)"

definition macho_symbol :: "u8 arr \<Rightarrow> bool \<Rightarrow> u32 \<Rightarrow> u32 \<Rightarrow> size_t \<Rightarrow> Export option option" where
  "macho_symbol data is64 stroff strsize entry = do {
     n_strx \<leftarrow> read_u32 data (entry + 0);
     n_type \<leftarrow> byte_at data (entry + 4);
     n_value \<leftarrow> (if is64 then read_u64 data (entry + 8) else read_u32_wide data (entry + 8));
     if n_type AND 1 = 0 \<or> n_type AND 0x0e \<noteq> 0x0e then Some None
     else if n_strx = 0 then Some None
     else do {
       name \<leftarrow> scan_name data (ucast stroff + ucast n_strx) (ucast stroff + ucast strsize);
       Some (if name = [] then None
             else Some \<lparr>exp_name = name, exp_address = n_value, exp_ordinal = 0\<rparr>) } }"

definition macho_exports :: "u8 arr \<Rightarrow> size_t \<Rightarrow> bool \<Rightarrow> (u32 \<times> u32 \<times> u32 \<times> u32) option \<Rightarrow> Export list option" where
  "macho_exports data sz is64 symtab =
     (case symtab of None \<Rightarrow> Some []
      | Some (symoff, nsyms, stroff, strsize) \<Rightarrow>
          let entry_size = (if is64 then 16 else 12) in
          if in_bounds (ucast symoff) (ucast nsyms * entry_size) sz \<and> in_bounds (ucast stroff) (ucast strsize) sz
          then do {
            es \<leftarrow> for_count (unat nsyms)
              (\<lambda>i. macho_symbol data is64 stroff strsize (ucast symoff + of_nat i * entry_size));
            Some (map the (filter (\<lambda>e. e \<noteq> None) es)) }
          else Some [])"

definition parse_macho :: "u8 arr \<Rightarrow> size_t \<Rightarrow> (string + ParseResult) option" where
  "parse_macho data sz = do {
     macho \<leftarrow> is_macho data sz;
     if \<not> macho then Some (Inl ''not a Mach-O file'')
     else do {
       magic \<leftarrow> read_u32 data 0;
       let is64 = (magic = 0xFEEDFACF);
       let header_size = (if is64 then 32 else 28 :: size_t);
       if sz < header_size then Some (Inl ''truncated Mach-O header'')
       else do {
         command_count \<leftarrow> read_u32 data 16;
         commands_size \<leftarrow> read_u32 data 20;
         if \<not> in_bounds header_size (ucast commands_size) sz
         then Some (Inl ''Mach-O load commands are out of bounds'')
         else do {
           cputype \<leftarrow> read_u32 data 4;
           walked \<leftarrow> macho_commands (unat command_count) data is64 (header_size + ucast commands_size)
             \<lparr>mw_cursor = header_size, mw_image_base = 0, mw_saw_text_base = False, mw_symtab = None,
              mw_sections = []\<rparr>;
           (case walked of Inl e \<Rightarrow> Some (Inl e)
            | Inr w \<Rightarrow> do {
                exports \<leftarrow> macho_exports data sz is64 (mw_symtab w);
                Some (Inr \<lparr>res_target = (macho_target is64 cputype)\<lparr>tgt_image_base := mw_image_base w\<rparr>,
                  res_sections = mw_sections w, res_exports = exports\<rparr>) }) } } } }"

section \<open>PE\<close>

definition is_pe :: "u8 arr \<Rightarrow> size_t \<Rightarrow> bool option" where
  "is_pe data sz =
     (if data = None \<or> sz < 0x40 then Some False
      else do {
        m \<leftarrow> byte_at data 0;
        z \<leftarrow> byte_at data 1;
        if [m, z] \<noteq> bytes_of ''MZ'' then Some False
        else do {
          (nt :: u32) \<leftarrow> read_u32 data 0x3C;
          if \<not> in_bounds (ucast nt) 4 sz then Some False
          else do {
            p0 \<leftarrow> byte_at data (ucast nt);
            p1 \<leftarrow> byte_at data (ucast nt + 1);
            p2 \<leftarrow> byte_at data (ucast nt + 2);
            p3 \<leftarrow> byte_at data (ucast nt + 3);
            Some ([p0, p1] = bytes_of ''PE'' \<and> p2 = 0 \<and> p3 = 0) } } })"

definition read_pe_name :: "u8 arr \<Rightarrow> size_t \<Rightarrow> string option" where
  "read_pe_name data off = fixed_name 8 data off"

text \<open>\<open>ImageBase\<close> and the offset of the data directory, for the two optional header layouts.\<close>

definition pe_optional :: "u8 arr \<Rightarrow> size_t \<Rightarrow> u16 \<Rightarrow> (string + bool \<times> u64 \<times> size_t) option" where
  "pe_optional data optional optional_size = do {
     magic \<leftarrow> read_u16 data optional;
     if magic = 0x20B then
       (if optional_size < 112 + 8 then Some (Inl ''PE32+ optional header is too small'')
        else do {
          base \<leftarrow> read_u64 data (optional + 24);
          Some (Inr (True, base, optional + 112)) })
     else if magic = 0x10B then
       (if optional_size < 96 + 8 then Some (Inl ''PE32 optional header is too small'')
        else do {
          base \<leftarrow> read_u32_wide data (optional + 28);
          Some (Inr (False, base, optional + 96)) })
     else Some (Inl ''unsupported PE optional header magic'') }"

definition pe_target :: "bool \<Rightarrow> u64 \<Rightarrow> u16 \<Rightarrow> Target" where
  "pe_target pe32plus base machine = \<lparr>tgt_format = format_pe, tgt_os = os_windows,
     tgt_architecture = (if machine = 0x014c then arch_x86 else if machine = 0x8664 then arch_x86_64
       else if machine = 0x01c0 \<or> machine = 0x01c4 then arch_arm32 else if machine = 0xaa64 then arch_arm64
       else arch_unknown),
     tgt_endian = endian_little, tgt_pointer_size = (if pe32plus then 8 else 4), tgt_image_base = base\<rparr>"

record SectionRange =
  sr_rva :: u32
  sr_virtual_size :: u32
  sr_raw_size :: u32
  sr_raw_offset :: u32

definition pe_section :: "u8 arr \<Rightarrow> u64 \<Rightarrow> size_t \<Rightarrow> (Section \<times> SectionRange) option" where
  "pe_section data base header = do {
     virtual_size \<leftarrow> read_u32 data (header + 8);
     virtual_address \<leftarrow> read_u32 data (header + 12);
     raw_size \<leftarrow> read_u32 data (header + 16);
     raw_offset \<leftarrow> read_u32 data (header + 20);
     name \<leftarrow> read_pe_name data header;
     flags \<leftarrow> read_u32_wide data (header + 36);
     Some (empty_section\<lparr>sec_name := name, sec_address := base + ucast virtual_address,
             sec_size := ucast virtual_size, sec_file_offset := ucast raw_offset,
             sec_file_size := ucast raw_size, sec_flags := flags\<rparr>,
           \<lparr>sr_rva = virtual_address, sr_virtual_size = virtual_size, sr_raw_size = raw_size,
            sr_raw_offset = raw_offset\<rparr>) }"

text \<open>The end of a range is computed in 32 bits and may wrap.\<close>

fun rva_to_offset :: "SectionRange list \<Rightarrow> size_t \<Rightarrow> u32 \<Rightarrow> size_t option" where
  "rva_to_offset [] sz rva = None"
| "rva_to_offset (r # rs) sz rva =
     (let span = (if sr_raw_size r < sr_virtual_size r then sr_virtual_size r else sr_raw_size r) in
      if rva < sr_rva r \<or> sr_rva r + span \<le> rva then rva_to_offset rs sz rva
      else
        let delta = rva - sr_rva r; off = ucast (sr_raw_offset r) + ucast delta in
        if sr_raw_size r \<le> delta then None
        else if in_bounds off 1 sz then Some off else None)"

text \<open>The export names: \<open>k\<close> names are left, \<open>i\<close> is the next index. Every failed check breaks the loop.\<close>

primrec pe_names :: "nat \<Rightarrow> u8 arr \<Rightarrow> size_t \<Rightarrow> SectionRange list \<Rightarrow> u64 \<Rightarrow> u32 \<Rightarrow> size_t \<Rightarrow> size_t \<Rightarrow> size_t
    \<Rightarrow> u32 \<Rightarrow> Export list option" where
  "pe_names 0 data sz ranges base ordinal_base names_offset functions_offset ordinals_offset i = Some []"
| "pe_names (Suc k) data sz ranges base ordinal_base names_offset functions_offset ordinals_offset i =
     (if \<not> in_bounds (names_offset + ucast i * 4) 4 sz then Some []
      else if \<not> in_bounds (ordinals_offset + ucast i * 2) 2 sz then Some []
      else do {
        (name_rva :: u32) \<leftarrow> read_u32 data (names_offset + ucast i * 4);
        (case rva_to_offset ranges sz name_rva of None \<Rightarrow> Some []
         | Some name_offset \<Rightarrow> do {
             (ordinal :: u16) \<leftarrow> read_u16 data (ordinals_offset + ucast i * 2);
             if \<not> in_bounds (functions_offset + ucast ordinal * 4) 4 sz then Some []
             else do {
               (function_rva :: u32) \<leftarrow> read_u32 data (functions_offset + ucast ordinal * 4);
               (name :: string) \<leftarrow> scan_name data name_offset sz;
               (rest :: Export list) \<leftarrow> pe_names k data sz ranges base ordinal_base
                 names_offset functions_offset ordinals_offset (i + 1);
               Some (if name = [] then rest
                     else \<lparr>exp_name = name, exp_address = base + ucast function_rva,
                           exp_ordinal = ordinal_base + ucast ordinal\<rparr> # rest) } }) })"

definition pe_directory :: "u8 arr \<Rightarrow> size_t \<Rightarrow> SectionRange list \<Rightarrow> u64 \<Rightarrow> size_t \<Rightarrow> Export list option" where
  "pe_directory data sz ranges base export_offset = do {
     ordinal_base \<leftarrow> read_u32 data (export_offset + 16);
     name_count \<leftarrow> read_u32 data (export_offset + 24);
     functions_rva \<leftarrow> read_u32 data (export_offset + 28);
     names_rva \<leftarrow> read_u32 data (export_offset + 32);
     ordinals_rva \<leftarrow> read_u32 data (export_offset + 36);
     if name_count = 0 then Some []
     else (case (rva_to_offset ranges sz names_rva, rva_to_offset ranges sz functions_rva,
                 rva_to_offset ranges sz ordinals_rva) of
             (Some names_offset, Some functions_offset, Some ordinals_offset) \<Rightarrow>
               pe_names (unat name_count) data sz ranges base ordinal_base
                 names_offset functions_offset ordinals_offset 0
           | _ \<Rightarrow> Some []) }"

definition pe_exports :: "u8 arr \<Rightarrow> size_t \<Rightarrow> SectionRange list \<Rightarrow> u64 \<Rightarrow> size_t \<Rightarrow> Export list option" where
  "pe_exports data sz ranges base data_directory = do {
     export_rva \<leftarrow> read_u32 data (data_directory + 0);
     export_size \<leftarrow> read_u32 data (data_directory + 4);
     if export_rva = 0 \<or> export_size < 40 then Some []
     else (case rva_to_offset ranges sz export_rva of None \<Rightarrow> Some []
           | Some export_offset \<Rightarrow>
               if in_bounds export_offset 40 sz then pe_directory data sz ranges base export_offset
               else Some []) }"

definition parse_pe :: "u8 arr \<Rightarrow> size_t \<Rightarrow> (string + ParseResult) option" where
  "parse_pe data sz = do {
     pe \<leftarrow> is_pe data sz;
     if \<not> pe then Some (Inl ''not a PE image'')
     else do {
       nt \<leftarrow> read_u32 data 0x3C;
       let coff = ucast nt + 4;
       if \<not> in_bounds coff 20 sz then Some (Inl ''truncated PE header'')
       else do {
         machine \<leftarrow> read_u16 data (coff + 0);
         section_count \<leftarrow> read_u16 data (coff + 2);
         optional_size \<leftarrow> read_u16 data (coff + 16);
         let optional = coff + 20;
         if \<not> in_bounds optional (ucast optional_size) sz then Some (Inl ''PE optional header is out of bounds'')
         else if optional_size < 2 then Some (Inl ''truncated PE optional header'')
         else do {
           opt \<leftarrow> pe_optional data optional optional_size;
           (case opt of Inl e \<Rightarrow> Some (Inl e)
            | Inr (pe32plus, base, data_directory) \<Rightarrow>
                let section_table = optional + ucast optional_size in
                if \<not> in_bounds section_table (ucast section_count * 40) sz
                then Some (Inl ''PE section table is out of bounds'')
                else do {
                  rows \<leftarrow> for_count (unat section_count) (\<lambda>i. pe_section data base (section_table + of_nat i * 40));
                  exports \<leftarrow> pe_exports data sz (map snd rows) base data_directory;
                  Some (Inr \<lparr>res_target = pe_target pe32plus base machine, res_sections = map fst rows,
                    res_exports = exports\<rparr>) }) } } } }"

section \<open>The entry point\<close>

definition detect_format :: "u8 arr \<Rightarrow> size_t \<Rightarrow> Format option" where
  "detect_format data sz = do {
     elf \<leftarrow> is_elf data sz;
     if elf then Some format_elf
     else do {
       macho \<leftarrow> is_macho data sz;
       if macho then Some format_macho
       else do {
         pe \<leftarrow> is_pe data sz;
         Some (if pe then format_pe else format_unknown) } } }"

definition parse_binary_image :: "u8 arr \<Rightarrow> size_t \<Rightarrow> (string + BinaryImage) option" where
  "parse_binary_image data sz = do {
     fmt \<leftarrow> detect_format data sz;
     parsed \<leftarrow> (case fmt of
        format_elf \<Rightarrow> parse_elf data sz
      | format_macho \<Rightarrow> parse_macho data sz
      | format_pe \<Rightarrow> parse_pe data sz
      | format_unknown \<Rightarrow> Some (Inl ''not a supported binary (expected ELF, Mach-O or PE)''));
     Some (case parsed of Inl e \<Rightarrow> Inl e
           | Inr result \<Rightarrow> Inr \<lparr>img_data = data, img_size = sz, img_result = result\<rparr>) }"

end
