(* ===== verification/Binary_Bounds.thy ===== *)
theory Binary_Bounds
  imports Binary_Formats
begin

text \<open>
  Memory safety of the binary adapters. One \<open>_returns\<close> lemma per function of \<open>Binary_Formats\<close> shows that it
  never reads outside the buffer, from the bounds its caller has checked; the rules of \<open>returns_intros\<close>
  and the field lemmas of \<open>Binary_Image\<close> carry the proofs. The last section holds concrete images, the
  properties and the two malformed images on which the bounds do not hold.
\<close>

section \<open>Loops and structures inside the buffer\<close>

lemma those_eq_Some: "those ms = Some xs \<longleftrightarrow> ms = map Some xs"
proof (induction ms arbitrary: xs)
  case (Cons m ms)
  then show ?case by (cases xs; cases m) auto
qed auto

lemma for_count_Some:
  "for_count n body = Some xs \<longleftrightarrow> length xs = n \<and> (\<forall>i < n. body i = Some (xs ! i))"
  by (auto simp: for_count_def those_eq_Some list_eq_iff_nth_eq)

lemma for_count_returns: "(\<And>i. i < n \<Longrightarrow> returns (body i)) \<Longrightarrow> returns (for_count n body)"
proof -
  assume r: "\<And>i. i < n \<Longrightarrow> returns (body i)"
  have "for_count n body = Some (map (\<lambda>i. the (body i)) [0..<n])"
    unfolding for_count_Some using r by (auto simp: returns_def)
  then show ?thesis by simp
qed

lemma header_at_unat:
  assumes "unat shoff + 64 * unat shnum \<le> unat (sz :: size_t)" "i < unat (shnum :: u16)"
  shows "unat (header_at shoff (of_nat i)) = unat shoff + 64 * i"
proof -
  have b: "i < 65536" using assms(2) unat_less_size16[of shnum] by linarith
  have "unat (of_nat i :: u16) = i" using b by (intro unat_of_nat_small) simp
  then have "unat (ucast (of_nat i :: u16) :: u64) = i" by (simp add: unat_ucast_up)
  then have "unat (ucast (of_nat i :: u16) * 64 :: u64) = i * 64"
    using b by (subst unat_mult_lem[THEN iffD1]) simp_all
  moreover have "unat shoff + i * 64 < 18446744073709551616" using assms unat_less_size64[of sz] by linarith
  ultimately show ?thesis unfolding header_at_def by (subst unat_add_small) simp_all
qed

lemma header_readable:
  assumes "length d = unat (sz :: size_t)" "unat shoff + 64 * unat shnum \<le> unat sz" "i < unat (shnum :: u16)"
  shows "readable (Some d) (header_at shoff (of_nat i)) 64"
  using assms header_at_unat[OF assms(2,3)] by (simp add: readable_def)

section \<open>The ELF adapter\<close>

lemma stop_inside:
  "length d = unat sz \<Longrightarrow> in_bounds off len sz \<Longrightarrow> unat (off + len) \<le> length d"
  using unat_less_size64[of sz] by (subst unat_add_small) (simp_all add: in_bounds_iff del: unat_less_size64)

lemma name_of_returns:
  "length d = unat sz \<Longrightarrow> in_bounds names_offset names_size sz \<Longrightarrow>
   returns (name_of (Some d) names_offset names_size name_offset)"
  unfolding name_of_def by (intro returns_intros scan_name_returns stop_inside) simp_all

lemma elf_section_returns:
  assumes "readable (Some d) header 64" "length d = unat sz" "in_bounds names_offset names_size sz"
  shows "returns (elf_section (Some d) names_offset names_size header)"
  unfolding elf_section_def
  by (intro returns_intros field_reads[OF assms(1)] name_of_returns[OF assms(2,3)]) simp_all

lemma elf_symbol_returns:
  assumes "readable (Some d) entry 24" "length d = unat sz" "in_bounds str_offset str_size sz"
  shows "returns (elf_symbol (Some d) str_offset str_size entry)"
  unfolding elf_symbol_def Let_def
  by (intro returns_intros field_reads[OF assms(1)] scan_name_returns[OF refl stop_inside[OF assms(2,3)]]) simp_all

lemma elf_export_loop_returns:
  assumes symbol: "\<And>off. unat off + 24 \<le> unat dynsym_size \<Longrightarrow> returns (symbol (dynsym_offset + off))"
    and "unat dynsym_size < 2 ^ 63" "unat step < 2 ^ 63" "step \<noteq> 0"
    and "unat off + 24 < 2 ^ 64"
  shows "returns (elf_export_loop symbol dynsym_offset dynsym_size step off)"
  using assms(5)
proof (induction "unat dynsym_size - unat off" arbitrary: off rule: less_induct)
  case less
  have sum: "unat (off + 24) = unat off + 24" using less.prems by (subst unat_add_small) simp_all
  show ?case
  proof (cases "off + 24 \<le> dynsym_size")
    case True
    then have le: "unat off + 24 \<le> unat dynsym_size" by (simp add: word_le_nat_alt sum)
    have "unat (off + step) = unat off + unat step" using le assms(2,3) by (intro unat_add_small) simp
    moreover have "0 < unat step" using assms(4) by (simp add: unat_gt_0)
    ultimately have "returns (elf_export_loop symbol dynsym_offset dynsym_size step (off + step))"
      using le assms(2,3) by (intro less.hyps) simp_all
    with True symbol[OF le] show ?thesis
      by (subst elf_export_loop.simps) (auto intro!: returns_intros)
  next
    case False
    then show ?thesis by (subst elf_export_loop.simps) simp
  qed
qed

text \<open>No section header of a table inside the file announces entries of \<open>2^63\<close> bytes or more.\<close>

definition elf_steps_ok :: "u8 arr \<Rightarrow> size_t \<Rightarrow> bool" where
  "elf_steps_ok data sz = (case (read_u64 data 0x28, read_u16 data 0x3C) of
     (Some shoff, Some shnum) \<Rightarrow> in_bounds shoff (ucast (64 :: u16) * ucast shnum) sz \<longrightarrow>
       list_all (\<lambda>i. case read_u64 data (header_at shoff (of_nat i) + 56) of
                       Some entsize \<Rightarrow> entsize < 2 ^ 63 | None \<Rightarrow> True) [0..<unat shnum]
   | _ \<Rightarrow> True)"

lemma elf_steps_okD:
  "elf_steps_ok data sz \<Longrightarrow> read_u64 data 0x28 = Some shoff \<Longrightarrow> read_u16 data 0x3C = Some shnum \<Longrightarrow>
   in_bounds shoff (ucast (64 :: u16) * ucast shnum) sz \<Longrightarrow> i < unat shnum \<Longrightarrow> read_u64 data (header_at shoff (of_nat i) + 56) = Some entsize \<Longrightarrow> unat entsize < 2 ^ 63"
  by (auto simp: elf_steps_ok_def list_all_iff word_less_nat_alt dest!: bspec[of _ _ i])

lemma dynsym_entry_readable:
  assumes "length d = unat (sz :: size_t)" "in_bounds dynsym_offset dynsym_size sz"
    and "unat off + 24 \<le> unat dynsym_size"
  shows "readable (Some d) (dynsym_offset + off) 24"
proof (rule readable_shift)
  show "readable (Some d) dynsym_offset (unat dynsym_size)"
    using assms(1,2) by (simp add: readable_def in_bounds_iff)
qed (use assms(3) in simp_all)

lemma elf_exports_returns:
  assumes len: "length d = unat (sz :: size_t)" "sz < 2 ^ 63"
    and table: "unat shoff + 64 * unat shnum \<le> unat sz" "length sections = unat shnum"
    and steps: "\<And>i entsize. i < unat shnum \<Longrightarrow> read_u64 (Some d) (header_at shoff (of_nat i) + 56) = Some entsize \<Longrightarrow>
      unat entsize < 2 ^ 63"
  shows "returns (elf_exports (Some d) sz shoff shnum sections)"
proof -
  let ?i = "dynsym_index sections"
  have loop: "returns (elf_export_loop (elf_symbol (Some d) str_offset str_size) off size step 0)"
    if "in_bounds off size sz" "in_bounds str_offset str_size sz" "unat step < 2 ^ 63" "step \<noteq> 0"
    for off size step str_offset str_size
  proof (rule elf_export_loop_returns)
    show "unat size < 2 ^ 63" using that(1) len(2) by (simp add: in_bounds_iff word_less_nat_alt)
    show "returns (elf_symbol (Some d) str_offset str_size (off + o'))" if "unat o' + 24 \<le> unat size" for o'
      using dynsym_entry_readable[OF len(1) \<open>in_bounds off size sz\<close> that] len(1) \<open>in_bounds str_offset str_size sz\<close>
      by (rule elf_symbol_returns)
  qed (use that in simp_all)
  have headers: "readable (Some d) (header_at shoff (of_nat i)) 64" if "i < unat shnum" for i
    using header_readable[OF len(1) table(1) that] .
  have linked: "readable (Some d) (header_at shoff (ucast link)) 64" if "ucast link < (ucast shnum :: u64)" for link :: u32
  proof -
    have "unat link < unat shnum" using that by (simp add: word_less_nat_alt unat_ucast_up)
    from headers[OF this] show ?thesis by simp
  qed
  show ?thesis
  proof (cases "?i < unat shnum")
    case True
    note fields = field_reads[OF headers[OF True]]
    show ?thesis
      unfolding elf_exports_def Let_def
      by (intro returns_intros fields field_reads[OF linked] loop)
        (use steps[OF True] in \<open>auto simp: table(2)\<close>)
  qed (simp add: elf_exports_def table(2))
qed

lemma elf_body_returns:
  assumes len: "length d = unat (sz :: size_t)" "sz < 2 ^ 63" "64 \<le> unat sz"
    and table: "unat shoff + 64 * unat shnum \<le> unat sz" "shstrndx < shnum"
    and steps: "\<And>i entsize. i < unat shnum \<Longrightarrow> read_u64 (Some d) (header_at shoff (of_nat i) + 56) = Some entsize \<Longrightarrow>
      unat entsize < 2 ^ 63"
  shows "returns (elf_body (Some d) sz shoff shnum shstrndx)"
proof -
  have front: "readable (Some d) 0 64" using len(1,3) by (simp add: readable_def)
  have names: "readable (Some d) (header_at shoff shstrndx) 64"
    using header_readable[OF len(1) table(1), of "unat shstrndx"] table(2) by (simp add: word_less_nat_alt)
  show ?thesis
    unfolding elf_body_def Let_def
    by (intro returns_intros field_reads[OF names] field_byte[OF front, of 7, simplified]
          field_u16[OF front, of 18, simplified] for_count_returns
          elf_section_returns[OF header_readable[OF len(1) table(1)] len(1)]
          elf_exports_returns[OF len(1,2) table(1) _ steps])
      (simp_all add: for_count_Some)
qed

lemma is_elf_returns:
  "length d = unat (sz :: size_t) \<Longrightarrow> returns (is_elf (Some d) sz)"
proof (cases "sz < 4")
  case False
  assume "length d = unat sz"
  with False have "readable (Some d) 0 4" by (simp add: readable_def word_less_nat_alt)
  from field_byte[OF this, of 0] field_byte[OF this, of 1] field_byte[OF this, of 2] field_byte[OF this, of 3]
  show ?thesis unfolding is_elf_def by (intro returns_intros) simp_all
qed (simp add: is_elf_def)

lemma parse_elf_returns:
  assumes len: "length d = unat (sz :: size_t)" "sz < 2 ^ 63" and steps: "elf_steps_ok (Some d) sz"
  shows "returns (parse_elf (Some d) sz)"
proof -
  have ident: "readable (Some d) 0 16" if "\<not> sz < 16"
    using that len by (simp add: readable_def word_less_nat_alt)
  have front: "readable (Some d) 0 64" if "\<not> sz < 64"
    using that len by (simp add: readable_def word_less_nat_alt)
  have body: "returns (elf_body (Some d) sz shoff shnum shstrndx)"
    if "read_u64 (Some d) 40 = Some shoff" "read_u16 (Some d) 60 = Some shnum"
      "in_bounds shoff (ucast (64 :: u16) * ucast shnum) sz" "\<not> shnum \<le> shstrndx" "\<not> sz < 64"
    for shoff shnum shstrndx
  proof (rule elf_body_returns[OF len])
    have "unat (ucast (64 :: u16) * ucast shnum :: u64) = 64 * unat shnum"
      using unat_less_size16[of shnum]
      by (subst unat_mult_lem[THEN iffD1]) (simp_all add: unat_ucast_up del: unat_less_size16)
    with that(3) show "unat shoff + 64 * unat shnum \<le> unat sz" by (simp add: in_bounds_iff)
    show "unat entsize < 2 ^ 63"
      if "i < unat shnum" "read_u64 (Some d) (header_at shoff (of_nat i) + 56) = Some entsize" for i entsize
      using elf_steps_okD[OF steps \<open>read_u64 (Some d) 40 = Some shoff\<close> \<open>read_u16 (Some d) 60 = Some shnum\<close>
        \<open>in_bounds shoff (ucast (64 :: u16) * ucast shnum) sz\<close> that] .
  qed (use that in \<open>simp_all add: word_less_nat_alt word_le_nat_alt\<close>)
  note at = field_byte[OF ident, of 4, simplified] field_byte[OF ident, of 5, simplified]
    field_u64[OF front, of 40, simplified] field_u16[OF front, of 58, simplified]
    field_u16[OF front, of 60, simplified] field_u16[OF front, of 62, simplified]
  show ?thesis
    unfolding parse_elf_def
    by (intro returns_intros is_elf_returns[OF len(1)] at body) simp_all
qed

section \<open>The Mach-O adapter\<close>

text \<open>At least 16 bytes follow load commands that lie inside the file.\<close>

definition macho_slack :: "u8 arr \<Rightarrow> size_t \<Rightarrow> bool" where
  "macho_slack data sz = (case (read_u32 data 0, read_u32 data 20) of
     (Some magic, Some commands_size) \<Rightarrow>
       in_bounds (if magic = 0xFEEDFACF then 32 else 28) (ucast commands_size) sz \<longrightarrow>
       (if magic = 0xFEEDFACF then 32 else 28) + unat commands_size + 16 \<le> unat sz
   | _ \<Rightarrow> True)"

lemma read_u32_wide_returns: "returns (read_u32 data off) \<Longrightarrow> returns (read_u32_wide data off)"
  unfolding read_u32_wide_def by (intro returns_intros)

lemma macho_section_returns:
  assumes "readable data header (if segment64 then 80 else 68)"
  shows "returns (macho_section data segment64 header)"
proof -
  note fields = field_reads[OF assms] read_u32_wide_returns[OF field_u32[OF assms]]
  have "readable data header 16" "readable data (header + 16) 16"
    using assms by (auto intro: readable_mono readable_shift split: if_splits)
  then show ?thesis
    unfolding macho_section_def read_fixed_name_def
    by (intro returns_intros fixed_name_returns fields) simp_all
qed

lemma macho_symtab_returns:
  assumes "readable data (mw_cursor w) (unat cmdsize)"
  shows "returns (macho_symtab data cmd cmdsize w)"
  unfolding macho_symtab_def
  by (intro returns_intros field_reads[OF assms]) (simp_all add: word_le_nat_alt)

lemma macho_symtab_frame: "macho_symtab data cmd cmdsize w = Some w1 \<Longrightarrow> mw_cursor w1 = mw_cursor w"
  by (auto simp: macho_symtab_def split: if_splits bind_splits)

lemma macho_segment_returns:
  assumes room: "readable data (mw_cursor w) 24" and body: "readable data (mw_cursor w) (unat cmdsize)"
  shows "returns (macho_segment data segment64 cmdsize w)"
proof -
  let ?start = "if segment64 then 72 else 56 :: size_t" and ?step = "if segment64 then 80 else 68 :: size_t"
  have sections: "returns (macho_section data segment64 (mw_cursor w + ?start + of_nat s * ?step))"
    if "\<not> ucast cmdsize < ?start + ucast section_count * ?step" "s < unat section_count" for s and section_count :: u32
  proof -
    have c: "unat section_count < 4294967296" "s < 4294967296" using that(2) unat_less_size32[of section_count] by linarith+
    have k: "unat (of_nat n * ?step :: u64) = n * unat ?step" if "n < 4294967296" for n
      using that by (subst unat_mult_lem[THEN iffD1]) (auto simp: unat_of_nat)
    have "unat (?start + ucast section_count * ?step) = unat ?start + unat section_count * unat ?step"
      using k[OF c(1)] c(1) by (subst unat_add_small) (auto simp del: unat_less_size32)
    with that(1) have fits: "unat ?start + unat section_count * unat ?step \<le> unat cmdsize"
      by (simp add: word_less_nat_alt unat_ucast_up)
    have "unat (?start + of_nat s * ?step) = unat ?start + s * unat ?step"
      using k[OF c(2)] c(2) by (subst unat_add_small) auto
    moreover have "Suc s * unat ?step \<le> unat section_count * unat ?step"
      using that(2) by (intro mult_right_mono) simp_all
    ultimately have "unat (?start + of_nat s * ?step) + unat ?step \<le> unat cmdsize" using fits by simp
    then have "readable data (mw_cursor w + (?start + of_nat s * ?step)) (unat ?step)"
      by (intro readable_shift[OF body]) simp_all
    then show ?thesis by (intro macho_section_returns) (auto simp: add.assoc)
  qed
  have name: "returns (fixed_name 16 data (mw_cursor w + 8))"
    by (intro fixed_name_returns readable_shift[OF room]) simp_all
  show ?thesis
    unfolding macho_segment_def Let_def read_fixed_name_def
    by (intro returns_intros name for_count_returns sections field_reads[OF body]
          read_u32_wide_returns[OF field_u32[OF body]])
      (auto simp: word_less_nat_alt unat_ucast_up split: if_splits)
qed

lemma macho_segment_frame:
  "macho_segment data segment64 cmdsize w = Some (Inr w1) \<Longrightarrow> mw_cursor w1 = mw_cursor w"
  by (auto simp: macho_segment_def Let_def split: if_splits bind_splits)

definition macho_cursor_ok :: "size_t \<Rightarrow> macho_walk \<Rightarrow> bool" where
  "macho_cursor_ok commands_end w \<longleftrightarrow> mw_cursor w \<le> commands_end"

lemma macho_command_returns:
  assumes len: "length d = unat (sz :: size_t)" "sz < 2 ^ 63" and slack: "unat commands_end + 16 \<le> unat sz"
    and cursor: "macho_cursor_ok commands_end w"
  shows "returns (macho_command (Some d) is64 commands_end w)"
    and "macho_command (Some d) is64 commands_end w = Some (Inr w1) \<Longrightarrow> macho_cursor_ok commands_end w1"
proof -
  have c: "unat (mw_cursor w) \<le> unat commands_end" "unat commands_end < 2 ^ 63"
    using cursor len(2) slack by (simp_all add: macho_cursor_ok_def word_le_nat_alt word_less_nat_alt)
  have room: "readable (Some d) (mw_cursor w) 24" if "\<not> commands_end < mw_cursor w + 8"
  proof -
    have "unat (mw_cursor w + 8) = unat (mw_cursor w) + 8" using c by (subst unat_add_small) simp_all
    with that len(1) slack show ?thesis by (simp add: readable_def word_less_nat_alt)
  qed
  have nxt: "unat (mw_cursor w + ucast cmdsize) = unat (mw_cursor w) + unat cmdsize" for cmdsize :: u32
    using c unat_less_size32[of cmdsize] by (subst unat_add_small) (simp_all add: unat_ucast_up del: unat_less_size32)
  have body: "readable (Some d) (mw_cursor w) (unat cmdsize)"
    if "\<not> (cmdsize < 8 \<or> commands_end < mw_cursor w + ucast cmdsize)" for cmdsize :: u32
    using that len(1) slack nxt[of cmdsize] by (simp add: readable_def word_less_nat_alt)
  show "returns (macho_command (Some d) is64 commands_end w)"
    unfolding macho_command_def
    by (intro returns_intros macho_symtab_returns macho_segment_returns field_u32[OF room]
          field_u32[OF room, of 0, simplified])
      (use room body in \<open>auto dest: macho_symtab_frame\<close>)
  show "macho_cursor_ok commands_end w1" if "macho_command (Some d) is64 commands_end w = Some (Inr w1)"
    using that unfolding macho_command_def macho_cursor_ok_def
    by (auto split: if_splits bind_splits sum.splits dest!: macho_symtab_frame macho_segment_frame)
qed

lemma macho_commands_returns:
  assumes len: "length d = unat (sz :: size_t)" "sz < 2 ^ 63" and slack: "unat commands_end + 16 \<le> unat sz"
  shows "macho_cursor_ok commands_end w \<Longrightarrow> returns (macho_commands k (Some d) is64 commands_end w)"
proof (induction k arbitrary: w)
  case (Suc k)
  from macho_command_returns(1)[OF len slack Suc.prems]
  obtain r where r: "macho_command (Some d) is64 commands_end w = Some r" by (rule returnsE)
  then show ?case
    using Suc.IH macho_command_returns(2)[OF len slack Suc.prems] by (cases r) auto
qed simp

lemma macho_symbol_returns:
  assumes "readable (Some d) entry (if is64 then 16 else 12)" "length d = unat (sz :: size_t)"
    and "in_bounds (ucast stroff) (ucast strsize) sz"
  shows "returns (macho_symbol (Some d) is64 stroff strsize entry)"
  unfolding macho_symbol_def
  by (intro returns_intros field_reads[OF assms(1)] read_u32_wide_returns[OF field_u32[OF assms(1)]]
        scan_name_returns[OF refl stop_inside[OF assms(2,3)]]) simp_all

lemma macho_exports_returns:
  assumes len: "length d = unat (sz :: size_t)"
  shows "returns (macho_exports (Some d) sz is64 symtab)"
proof (cases symtab)
  case (Some t)
  obtain symoff nsyms stroff strsize where t: "t = (symoff, nsyms, stroff, strsize)" by (cases t)
  let ?step = "if is64 then 16 else 12 :: size_t"
  have entry: "readable (Some d) (ucast symoff + of_nat i * ?step) (unat ?step)"
    if b: "in_bounds (ucast symoff) (ucast nsyms * ?step) sz" and i: "i < unat nsyms" for i
  proof (rule readable_shift)
    have c: "unat nsyms < 4294967296" "i < 4294967296" using i unat_less_size32[of nsyms] by linarith+
    have k: "unat (of_nat n * ?step :: u64) = n * unat ?step" if "n < 4294967296" for n
      using that by (subst unat_mult_lem[THEN iffD1]) (auto simp: unat_of_nat)
    show "readable (Some d) (ucast symoff) (unat nsyms * unat ?step)"
      using b k[OF c(1)] len by (auto simp: in_bounds_iff readable_def unat_ucast_up)
    have "Suc i * unat ?step \<le> unat nsyms * unat ?step" using i by (intro mult_right_mono) simp_all
    with k[OF c(2)] show "unat (of_nat i * ?step) + unat ?step \<le> unat nsyms * unat ?step" by simp
  qed auto
  show ?thesis
    unfolding macho_exports_def Some t Let_def option.case prod.case
    by (intro returns_intros for_count_returns macho_symbol_returns[OF _ len])
      (use entry in auto)
qed (simp add: macho_exports_def)

lemma is_macho_returns:
  assumes "length d = unat (sz :: size_t)"
  shows "returns (is_macho (Some d) sz)"
  unfolding is_macho_def
  by (intro returns_intros read_u32_returns) (use assms in \<open>auto simp: readable_def word_less_nat_alt\<close>)

lemma is_macho_size: "is_macho data sz = Some True \<Longrightarrow> 4 \<le> sz"
  by (auto simp: is_macho_def split: if_splits)

lemma parse_macho_returns:
  assumes len: "length d = unat (sz :: size_t)" "sz < 2 ^ 63" and slack: "macho_slack (Some d) sz"
  shows "returns (parse_macho (Some d) sz)"
proof -
  have magic: "returns (read_u32 (Some d) 0)" if "is_macho (Some d) sz = Some True"
    using is_macho_size[OF that] len(1) by (intro read_u32_returns) (simp add: readable_def word_le_nat_alt)
  have front: "readable (Some d) 0 28" if "\<not> sz < (if b then 32 else 28)" for b
    using that len(1) by (auto simp: readable_def word_less_nat_alt split: if_splits)
  note at = field_u32[OF front, of _ 4, simplified] field_u32[OF front, of _ 16, simplified]
    field_u32[OF front, of _ 20, simplified]
  have walk: "returns (macho_commands k (Some d) (magic = 0xFEEDFACF)
      ((if magic = 0xFEEDFACF then 32 else 28) + ucast commands_size)
      \<lparr>mw_cursor = (if magic = 0xFEEDFACF then 32 else 28), mw_image_base = 0, mw_saw_text_base = False,
       mw_symtab = None, mw_sections = []\<rparr>)"
    if "read_u32 (Some d) 0 = Some magic" "read_u32 (Some d) 20 = Some commands_size"
      "in_bounds (if magic = 0xFEEDFACF then 32 else 28) (ucast commands_size) sz" for k magic commands_size
  proof (rule macho_commands_returns[OF len])
    have e: "unat ((if magic = 0xFEEDFACF then 32 else 28) + ucast commands_size :: u64) =
        (if magic = 0xFEEDFACF then 32 else 28) + unat commands_size"
      using unat_less_size32[of commands_size]
      by (subst unat_add_small) (simp_all add: unat_ucast_up del: unat_less_size32)
    with that slack show "unat ((if magic = 0xFEEDFACF then 32 else 28) + ucast commands_size :: u64) + 16 \<le> unat sz"
      by (simp add: macho_slack_def)
    show "macho_cursor_ok ((if magic = 0xFEEDFACF then 32 else 28) + ucast commands_size)
      \<lparr>mw_cursor = (if magic = 0xFEEDFACF then 32 else 28), mw_image_base = 0, mw_saw_text_base = False,
       mw_symtab = None, mw_sections = []\<rparr>"
      using e by (simp add: macho_cursor_ok_def word_le_nat_alt)
  qed
  show ?thesis
    unfolding parse_macho_def Let_def
    by (intro returns_intros is_macho_returns[OF len(1)] magic at walk)
      (auto split: sum.split intro!: returns_bind macho_exports_returns[OF len(1)])
qed

section \<open>The PE adapter\<close>

lemma is_pe_returns:
  assumes "length d = unat (sz :: size_t)"
  shows "returns (is_pe (Some d) sz)"
proof -
  have front: "readable (Some d) 0 64" if "\<not> (Some d = None \<or> sz < 64)"
    using that assms by (simp add: readable_def word_less_nat_alt)
  have sig: "readable (Some d) (ucast nt) 4" if "in_bounds (ucast nt) 4 sz" for nt :: u32
    using that assms by (simp add: readable_def in_bounds_iff)
  note at = field_byte[OF front, of 0, simplified] field_byte[OF front, of 1, simplified]
    field_u32[OF front, of 60, simplified] field_byte[OF sig, of _ 0, simplified] field_byte[OF sig]
  show ?thesis
    unfolding is_pe_def by (intro returns_intros at) simp_all
qed

lemma pe_section_returns:
  assumes "readable data header 40"
  shows "returns (pe_section data base header)"
  unfolding pe_section_def read_pe_name_def
  by (intro returns_intros field_reads[OF assms] read_u32_wide_returns[OF field_u32[OF assms]]
        fixed_name_returns readable_mono[OF assms]) simp_all

lemma pe_names_returns:
  assumes len: "length d = unat (sz :: size_t)"
  shows "returns (pe_names k (Some d) sz ranges base ordinal_base names_offset functions_offset ordinals_offset i)"
proof (induction k arbitrary: i)
  case (Suc k)
  have u32: "returns (read_u32 (Some d) off)" if "in_bounds off 4 sz" for off
    using that len by (intro read_u32_returns) (simp add: readable_def in_bounds_iff)
  have u16: "returns (read_u16 (Some d) off)" if "in_bounds off 2 sz" for off
    using that len by (intro read_u16_returns) (simp add: readable_def in_bounds_iff)
  have nm: "returns (scan_name (Some d) off sz)" for off
    using len scan_name_returns[OF refl, of sz d off] by simp
  show ?case
    by (auto intro!: returns_bind u32 u16 nm Suc split: option.split)
qed simp

lemma pe_exports_returns:
  assumes len: "length d = unat (sz :: size_t)" and dir: "readable (Some d) data_directory 8"
  shows "returns (pe_exports (Some d) sz ranges base data_directory)"
proof -
  have body: "returns (pe_directory (Some d) sz ranges base off)" if "in_bounds off 40 sz" for off
  proof -
    have r: "readable (Some d) off 40" using that len by (simp add: readable_def in_bounds_iff)
    show ?thesis
      unfolding pe_directory_def
      by (intro returns_intros field_reads[OF r]) (auto split: option.split intro: pe_names_returns[OF len])
  qed
  show ?thesis
    unfolding pe_exports_def
    by (intro returns_intros field_reads[OF dir]) (auto split: option.split intro: body)
qed

lemma pe_optional_spec:
  assumes r: "readable data optional (unat optional_size)" "2 \<le> optional_size"
  shows "returns (pe_optional data optional optional_size)"
    and "pe_optional data optional optional_size = Some (Inr (pe32plus, base, data_directory)) \<Longrightarrow>
      readable data data_directory 8"
proof -
  note at = field_u16[OF r(1), of 0, simplified] field_u64[OF r(1)] read_u32_wide_returns[OF field_u32[OF r(1)]]
  show "returns (pe_optional data optional optional_size)"
    unfolding pe_optional_def
    by (intro returns_intros at) (use r(2) in \<open>simp_all add: word_less_nat_alt word_le_nat_alt\<close>)
  assume "pe_optional data optional optional_size = Some (Inr (pe32plus, base, data_directory))"
  then show "readable data data_directory 8"
    by (auto simp: pe_optional_def word_less_nat_alt intro!: readable_shift[OF r(1)] split: if_splits bind_splits)
qed

lemma parse_pe_returns:
  assumes len: "length d = unat (sz :: size_t)"
  shows "returns (parse_pe (Some d) sz)"
proof -
  have nt: "returns (read_u32 (Some d) 60)" if "is_pe (Some d) sz = Some True"
    using that len by (intro read_u32_returns)
      (auto simp: is_pe_def readable_def word_less_nat_alt split: if_splits)
  have coff: "readable (Some d) off 20" if "in_bounds off 20 sz" for off
    using that len by (simp add: readable_def in_bounds_iff)
  have opt: "readable (Some d) off (unat optional_size)" if "in_bounds off (ucast optional_size) sz"
    for off and optional_size :: u16
    using that len by (simp add: readable_def in_bounds_iff unat_ucast_up)
  have header: "readable (Some d) (table + of_nat i * 40) 40"
    if b: "in_bounds table (ucast section_count * 40) sz" and i: "i < unat section_count"
    for table i and section_count :: u16
  proof (rule readable_shift)
    have c: "unat section_count < 65536" "i < 65536" using i unat_less_size16[of section_count] by linarith+
    have k: "unat (of_nat n * 40 :: u64) = n * 40" if "n < 65536" for n
      using that by (subst unat_mult_lem[THEN iffD1]) (auto simp: unat_of_nat)
    show "readable (Some d) table (unat section_count * 40)"
      using b k[OF c(1)] len by (simp add: in_bounds_iff readable_def)
    show "unat (of_nat i * 40 :: u64) + 40 \<le> unat section_count * 40" using i k[OF c(2)] by simp
  qed simp
  show ?thesis
    unfolding parse_pe_def Let_def
    by (intro returns_intros is_pe_returns[OF len] nt field_reads[OF coff] pe_optional_spec(1)[OF opt])
      (auto simp: word_less_nat_alt word_le_nat_alt split: sum.split
        intro!: returns_intros for_count_returns pe_section_returns header pe_exports_returns[OF len]
        intro: pe_optional_spec(2)[OF opt])
qed

section \<open>Parsing and reading regions\<close>

lemma parse_elf_format: "parse_elf data sz = Some (Inr r) \<Longrightarrow> tgt_format (res_target r) = format_elf"
  by (auto simp: parse_elf_def elf_body_def Let_def elf_target_def split: if_splits bind_splits)

lemma parse_macho_format: "parse_macho data sz = Some (Inr r) \<Longrightarrow> tgt_format (res_target r) = format_macho"
  by (auto simp: parse_macho_def Let_def macho_target_def split: if_splits bind_splits sum.splits)

lemma parse_pe_format: "parse_pe data sz = Some (Inr r) \<Longrightarrow> tgt_format (res_target r) = format_pe"
  by (auto simp: parse_pe_def Let_def pe_target_def split: if_splits bind_splits sum.splits)

lemma parse_binary_image_Inr:
  assumes "parse_binary_image data sz = Some (Inr img)"
  shows "img_data img = data" "img_size img = sz"
    "detect_format data sz = Some (tgt_format (res_target (img_result img)))"
proof -
  obtain fmt where fmt: "detect_format data sz = Some fmt"
    using assms by (auto simp: parse_binary_image_def split: bind_splits)
  note parsed = assms[unfolded parse_binary_image_def fmt Option.bind.bind_lunit]
  show "img_data img = data" "img_size img = sz" using parsed by (auto split: bind_splits sum.splits)
  show "detect_format data sz = Some (tgt_format (res_target (img_result img)))"
    using parsed fmt parse_elf_format parse_macho_format parse_pe_format
    by (cases fmt) (auto split: bind_splits sum.splits)
qed

lemma skip_pe_header_inside:
  assumes "readable data off (unat len)" "24 \<le> len" "unat off + unat len < 2 ^ 64"
  shows "\<exists>off' len'. skip_pe_header data off len = Some (off', len') \<and> unat off \<le> unat off' \<and>
    unat off' + unat len' \<le> unat off + unat len"
proof -
  have r: "returns (skip_pe_header data off len)"
    unfolding skip_pe_header_def
    by (intro returns_intros field_reads[OF assms(1)] field_byte[OF assms(1), of 0, simplified])
      (use assms(2) in \<open>simp_all add: word_le_nat_alt\<close>)
  then obtain p where p: "skip_pe_header data off len = Some p" by (rule returnsE)
  have inner: "unat (off + ucast a) + unat (ucast b :: u64) \<le> unat off + unat len \<and> unat off \<le> unat (off + ucast a)"
    if "(ucast a + ucast b :: u64) \<le> len" for a b :: u32
  proof -
    have "unat (ucast a + ucast b :: u64) = unat a + unat b"
      using unat_less_size32[of a] unat_less_size32[of b]
      by (subst unat_add_small) (simp_all add: unat_ucast_up del: unat_less_size32)
    with that have le: "unat a + unat b \<le> unat len" by (simp add: word_le_nat_alt)
    then have "unat (off + ucast a) = unat off + unat a"
      using assms(3) by (subst unat_add_small) (simp_all add: unat_ucast_up)
    with le show ?thesis by (simp add: unat_ucast_up)
  qed
  show ?thesis
    using p inner by (auto simp: skip_pe_header_def split: if_splits bind_splits)
qed

section \<open>Concrete images\<close>

text \<open>A Mach-O image that ends with an \<open>LC_SEGMENT_64\<close> command of 8 bytes, and an ELF image of one
  section \<open>.dynsym\<close> (its own name and string table) whose \<open>sh_entsize\<close> is the argument.\<close>

definition short_segment_image :: "u8 list" where
  "short_segment_image = [0xCF, 0xFA, 0xED, 0xFE, 7, 0, 0, 1, 3, 0, 0, 0, 6, 0, 0, 0, 1, 0, 0, 0, 8, 0, 0, 0]
     @ replicate 8 0 @ [0x19, 0, 0, 0, 8, 0, 0, 0]"

definition dynsym_image :: "u8 list \<Rightarrow> u8 list" where
  "dynsym_image entsize =
     bytes_of (CHR 0x7f # ''ELF'') @ [2, 1, 1, 0] @ replicate 8 0 @ [3, 0, 62, 0, 1, 0, 0, 0]
     @ replicate 16 0 @ [64, 0, 0, 0, 0, 0, 0, 0] @ replicate 4 0 @ [64, 0, 0, 0, 0, 0, 64, 0, 1, 0, 0, 0]
     @ [128, 0, 0, 0, 11, 0, 0, 0] @ replicate 24 0 @ [136, 0, 0, 0, 0, 0, 0, 0] @ replicate 16 0 @ entsize
     @ bytes_of ''.dynsym'' @ [0]"

text \<open>An entry size of \<open>2^64 - 8\<close>: the second step of the symbol loop goes 8 bytes back.\<close>

definition wrapping_image :: "u8 list" where
  "wrapping_image = dynsym_image [0xF8, 0xFF, 0xFF, 0xFF, 0xFF, 0xFF, 0xFF, 0xFF]"

text \<open>A PE image whose metadata section is a private header of 24 bytes and a region of four.\<close>

definition pe_region_image :: BinaryImage where
  "pe_region_image = \<lparr>
     img_data = Some (bytes_of ''ABIX'' @ [1, 0, 24, 0, 0, 0, 0, 0, 24, 0, 0, 0, 4, 0, 0, 0, 0, 0, 0, 0, 5, 6, 7, 8]),
     img_size = 28,
     img_result = \<lparr>res_target = pe_target True 0 0x8664,
       res_sections = [empty_section\<lparr>sec_name := ''.abix'', sec_size := 28, sec_file_size := 28\<rparr>],
       res_exports = []\<rparr>\<rparr>"

lemma byte_at_outside: "length d \<le> unat off \<Longrightarrow> byte_at (Some d) off = None"
  by (simp add: byte_at_def)

lemma read_u32_outside: "byte_at data off = None \<Longrightarrow> read_u32 data off = None"
  by (simp add: read_u32_def eval_nat_numeral)

lemma length_wrapping_image: "length wrapping_image = 136"
  by code_simp

lemma wrapping_symbols:
  "elf_symbol (Some wrapping_image) 0 136 0 = Some None"
  "elf_symbol (Some wrapping_image) 0 136 18446744073709551608 = None"
  subgoal by code_simp
  by (simp add: elf_symbol_def read_u32_outside byte_at_outside length_wrapping_image)

lemma wrapping_loop:
  "elf_export_loop (elf_symbol (Some wrapping_image) 0 136) 0 136 18446744073709551608 0 = None"
  by (subst elf_export_loop.simps, subst elf_export_loop.simps) (simp add: wrapping_symbols)

lemma wrapping_fields:
  "byte_at (Some wrapping_image) 4 = Some 2" "byte_at (Some wrapping_image) 5 = Some 1"
  "byte_at (Some wrapping_image) 7 = Some 0" "read_u16 (Some wrapping_image) 18 = Some 62"
  "read_u64 (Some wrapping_image) 40 = Some 64" "read_u16 (Some wrapping_image) 58 = Some 64"
  "read_u16 (Some wrapping_image) 60 = Some 1" "read_u16 (Some wrapping_image) 62 = Some 0"
  "read_u64 (Some wrapping_image) 88 = Some 0" "read_u64 (Some wrapping_image) 96 = Some 136"
  "read_u32 (Some wrapping_image) 104 = Some 0" "read_u64 (Some wrapping_image) 120 = Some 18446744073709551608"
  "is_elf (Some wrapping_image) 136 = Some True"
  "elf_section (Some wrapping_image) 0 136 64 = Some (empty_section\<lparr>sec_name := ''.dynsym'', sec_type := 11,
     sec_size := 136, sec_file_size := 136\<rparr>)"
  by code_simp+

lemma wrapping_exports:
  "elf_exports (Some wrapping_image) 136 64 1
     [empty_section\<lparr>sec_name := ''.dynsym'', sec_type := 11, sec_size := 136, sec_file_size := 136\<rparr>] = None"
  by (simp add: elf_exports_def dynsym_index_def empty_section_def header_at_def wrapping_fields
      in_bounds_def wrapping_loop)

lemma wrapping_parse: "parse_elf (Some wrapping_image) 136 = None"
  by (simp add: parse_elf_def elf_body_def header_at_def wrapping_fields in_bounds_def for_count_def
      wrapping_exports)

section \<open>Properties\<close>

text \<open>C10. Bytes of any format, or of none, in a buffer of less than \<open>2^63\<close> bytes are parsed without an access outside
  the buffer, and the parse ends: it reports an error, or an image over the very buffer it was given, in the
  format detected. Two kinds of files are excepted (see \<open>malformed_images_leave_buffer\<close>): an ELF file one of whose
  section headers announces entries of \<open>2^63\<close> bytes or more, and a Mach-O file whose load commands end less than
  16 bytes before its end.\<close>

theorem parse_binary_image_in_bounds:
  assumes "buffer_ok data sz" "sz < 2 ^ 63"
    and "detect_format data sz = Some format_elf \<Longrightarrow> elf_steps_ok data sz"
    and "detect_format data sz = Some format_macho \<Longrightarrow> macho_slack data sz"
  shows "(\<exists>e. parse_binary_image data sz = Some (Inl e)) \<or>
    (\<exists>img. parse_binary_image data sz = Some (Inr img) \<and> img_data img = data \<and> img_size img = sz \<and>
      detect_format data sz = Some (tgt_format (res_target (img_result img))))"
proof (cases data)
  case (Some d)
  then have len: "length d = unat sz" using assms(1) by (simp add: buffer_ok_def)
  have "returns (detect_format (Some d) sz)"
    unfolding detect_format_def
    by (intro returns_intros is_elf_returns[OF len] is_macho_returns[OF len] is_pe_returns[OF len])
  then obtain fmt where f: "detect_format (Some d) sz = Some fmt" by (rule returnsE)
  have "returns (case fmt of format_elf \<Rightarrow> parse_elf (Some d) sz | format_macho \<Rightarrow> parse_macho (Some d) sz
      | format_pe \<Rightarrow> parse_pe (Some d) sz
      | format_unknown \<Rightarrow> Some (Inl ''not a supported binary (expected ELF, Mach-O or PE)''))"
    using assms(2-4) f len Some
    by (cases fmt) (simp_all add: parse_elf_returns parse_macho_returns parse_pe_returns)
  then have "returns (parse_binary_image data sz)"
    unfolding parse_binary_image_def Some f by (auto elim!: returnsE)
  then obtain r where "parse_binary_image data sz = Some r" by (rule returnsE)
  then show ?thesis using parse_binary_image_Inr by (cases r) auto
qed (simp add: parse_binary_image_def detect_format_def is_elf_def is_macho_def is_pe_def)

theorem parse_binary_image_in_bounds_witness:
  "\<exists>r. parse_binary_image (Some (dynsym_image [24, 0, 0, 0, 0, 0, 0, 0])) 136 = Some r"
proof -
  have "buffer_ok (Some (dynsym_image [24, 0, 0, 0, 0, 0, 0, 0])) 136"
    "elf_steps_ok (Some (dynsym_image [24, 0, 0, 0, 0, 0, 0, 0])) 136"
    "macho_slack (Some (dynsym_image [24, 0, 0, 0, 0, 0, 0, 0])) 136" by code_simp+
  then show ?thesis
    using parse_binary_image_in_bounds[of "Some (dynsym_image [24, 0, 0, 0, 0, 0, 0, 0])" 136] by auto
qed

text \<open>C30. Reading a region of an image never leaves the buffer, whatever sections the image lists: the
  read reports an error, or the bytes are a slice of the section that carries the region, and the whole
  section unless the image is a PE container.\<close>

theorem read_region_slice:
  assumes "img_data img = Some d" "length d = unat (img_size img)"
  shows "(\<exists>e. read_region img canonical = Some (Inl e)) \<or>
    (\<exists>s off n. find_region img canonical = Some s \<and>
      read_region img canonical = Some (Inr (take n (drop off d))) \<and>
      unat (sec_file_offset s) \<le> off \<and> off + n \<le> unat (sec_file_offset s) + unat (sec_file_size s) \<and>
      off + n \<le> length d \<and>
      (tgt_format (res_target (img_result img)) \<noteq> format_pe \<longrightarrow>
         off = unat (sec_file_offset s) \<and> n = unat (sec_file_size s)))"
proof (cases "\<exists>e. read_region img canonical = Some (Inl e)")
  case False
  then obtain s where s: "find_region img canonical = Some s"
    and b: "in_bounds (sec_file_offset s) (sec_file_size s) (img_size img)"
    by (auto simp: read_region_def split: option.splits if_splits)
  have nogap: "\<not> (sec_file_size s = 0 \<and> 0 < sec_size s)"
    using False s by (auto simp: read_region_def)
  have inside: "unat (sec_file_offset s) + unat (sec_file_size s) \<le> length d" "length d < 2 ^ 64"
    using b assms(2) by (simp_all add: in_bounds_iff)
  define pe where "pe \<longleftrightarrow> tgt_format (res_target (img_result img)) = format_pe \<and> 24 \<le> sec_file_size s"
  obtain off n where range: "(if pe then skip_pe_header (img_data img) (sec_file_offset s) (sec_file_size s)
        else Some (sec_file_offset s, sec_file_size s)) = Some (off, n)"
    and sub: "unat (sec_file_offset s) \<le> unat off" "unat off + unat n \<le> unat (sec_file_offset s) + unat (sec_file_size s)"
    and exact: "\<not> pe \<Longrightarrow> off = sec_file_offset s \<and> n = sec_file_size s"
  proof (cases pe)
    case True
    have "readable (img_data img) (sec_file_offset s) (unat (sec_file_size s))"
      using inside assms(1) by (simp add: readable_def)
    from skip_pe_header_inside[OF this] True inside that show thesis by (auto simp: pe_def)
  qed (use that in simp)
  have "read_region img canonical = Some (Inr (take (unat n) (drop (unat off) d)))"
    using range sub(2) inside assms(1) s b nogap
    by (simp add: read_region_def pe_def[symmetric] copy_range_def)
  with s sub inside(1) exact show ?thesis
    by (intro disjI2 exI[of _ s] exI[of _ "unat off"] exI[of _ "unat n"]) (auto simp: pe_def)
qed simp

theorem read_region_slice_witness:
  "read_region pe_region_image ''.abix.metadata'' = Some (Inr [5, 6, 7, 8]) \<and>
   (\<exists>s off n d. find_region pe_region_image ''.abix.metadata'' = Some s \<and> img_data pe_region_image = Some d \<and>
      [5, 6, 7, 8] = take n (drop off d) \<and> unat (sec_file_offset s) \<le> off \<and> off + n \<le> length d)"
proof -
  have d: "img_data pe_region_image = Some (bytes_of ''ABIX'' @
      [1, 0, 24, 0, 0, 0, 0, 0, 24, 0, 0, 0, 4, 0, 0, 0, 0, 0, 0, 0, 5, 6, 7, 8])"
    by (simp add: pe_region_image_def)
  have r: "read_region pe_region_image ''.abix.metadata'' = Some (Inr [5, 6, 7, 8])" by code_simp
  show ?thesis
    using read_region_slice[OF d, of "''.abix.metadata''"] r d
    by (auto simp: bytes_of_def pe_region_image_def)
qed

text \<open>C40. Two adapters leave the buffer on malformed images. The Mach-O walk reads the segment name before
  it checks that the command holds one, so a segment command of 8 bytes at the end of the file is
  over-read. The ELF symbol loop advances by an unchecked \<open>sh_entsize\<close>: with \<open>2^64 - 8\<close> the sum
  \<open>off + 24\<close> wraps, the bound holds, and the second entry lies before the buffer.\<close>

theorem malformed_images_leave_buffer:
  "buffer_ok (Some short_segment_image) 40 \<and> parse_binary_image (Some short_segment_image) 40 = None \<and>
   buffer_ok (Some wrapping_image) 136 \<and> parse_binary_image (Some wrapping_image) 136 = None \<and>
   read_u64 (Some wrapping_image) 120 = Some (2 ^ 64 - 8) \<and> (0 + (2 ^ 64 - 8) + 24 :: u64) \<le> 136 \<and>
   byte_at (Some wrapping_image) (0 + (2 ^ 64 - 8)) = None"
proof -
  have m: "buffer_ok (Some short_segment_image) 40" "parse_binary_image (Some short_segment_image) 40 = None"
    by code_simp+
  have "parse_binary_image (Some wrapping_image) 136 = None"
    by (simp add: parse_binary_image_def detect_format_def wrapping_fields wrapping_parse)
  then show ?thesis
    using m by (simp add: wrapping_fields buffer_ok_def length_wrapping_image byte_at_outside)
qed

end
