(* ===== verification/Smart_Pointers.thy ===== *)
theory Smart_Pointers
  imports Abix_Prelude
begin

text \<open>
  The owning pointers of the loader: \<open>DLL/SharedPtr.h\<close> with \<open>DLL/WeakPtr.h\<close>, their single-threaded twins
  \<open>DLL/RefPtr.h\<close> with \<open>DLL/ViewPtr.h\<close>, and \<open>DLL/UniquePtr.h\<close>.

  A program is a sequence of operations on numbered pointer variables: \<open>strong\<close> and \<open>weak\<close> give the control
  block each variable points to. Blocks live in a heap; touching a freed block sets \<open>fault\<close>. Counters are
  32-bit words. The deleter is a parameter \<open>run\<close>, given the block it is called for; \<open>run_log\<close> is a deleter
  that leaves the pointers alone and is recorded in \<open>log\<close>, and the handles \<open>release\<close> gives away are
  recorded in \<open>handed\<close>. The counters of \<open>SharedPtr\<close> are atomic in the source; the model is sequential, and
  \<open>Pointer_Race\<close> treats several threads.
\<close>

section \<open>Control blocks and pointer variables\<close>

type_synonym obj = nat
type_synonym deleter = nat
type_synonym block_addr = nat

definition SKL_ABIX_MAGIC64 :: u64 where
  "SKL_ABIX_MAGIC64 = 0xFDFDFDFDFDFDFDFD"

record SharedControlBlock =
  cb_ptr :: "obj option"
  cb_destroy :: "deleter option"
  cb_strongs :: u32
  cb_weaks :: u32
  cb_magic :: u64

record RefControlBlock =
  rb_ptr :: "obj option"
  rb_destroy :: "deleter option"
  rb_refs :: u32
  rb_views :: u32
  rb_magic :: u64

type_synonym fate = "block_addr \<times> obj option \<times> deleter option"

record 'b pointers =
  blocks :: "block_addr \<Rightarrow> 'b option"
  made :: "(obj \<times> deleter option) list"
  strong :: "nat \<Rightarrow> block_addr option"
  weak :: "nat \<Rightarrow> block_addr option"
  log :: "fate list"
  handed :: "fate list"
  fault :: bool

definition no_pointers :: "'b pointers" where
  "no_pointers = \<lparr>blocks = (\<lambda>_. None), made = [], strong = (\<lambda>_. None), weak = (\<lambda>_. None), log = [], handed = [],
     fault = False\<rparr>"

definition put_block :: "block_addr \<Rightarrow> 'b \<Rightarrow> 'b pointers \<Rightarrow> 'b pointers" where
  "put_block c b s = s\<lparr>blocks := (blocks s)(c \<mapsto> b)\<rparr>"

definition dealloc :: "block_addr \<Rightarrow> 'b pointers \<Rightarrow> 'b pointers" where
  "dealloc c s = s\<lparr>blocks := (blocks s)(c := None)\<rparr>"

definition with_block :: "block_addr \<Rightarrow> ('b \<Rightarrow> 'b pointers \<Rightarrow> 'b pointers) \<Rightarrow> 'b pointers \<Rightarrow> 'b pointers" where
  "with_block c f s = (case blocks s c of None \<Rightarrow> s\<lparr>fault := True\<rparr> | Some b \<Rightarrow> f b s)"

type_synonym 'b deleter_run = "block_addr \<Rightarrow> deleter \<Rightarrow> obj option \<Rightarrow> 'b pointers \<Rightarrow> 'b pointers"

definition run_log :: "'b deleter_run" where
  "run_log c d p s = s\<lparr>log := log s @ [(c, p, Some d)]\<rparr>"

definition set_strong :: "nat \<Rightarrow> block_addr option \<Rightarrow> 'b pointers \<Rightarrow> 'b pointers" where
  "set_strong i c s = s\<lparr>strong := (strong s)(i := c)\<rparr>"

definition set_weak :: "nat \<Rightarrow> block_addr option \<Rightarrow> 'b pointers \<Rightarrow> 'b pointers" where
  "set_weak w c s = s\<lparr>weak := (weak s)(w := c)\<rparr>"

section \<open>SharedPtr and WeakPtr\<close>

type_synonym shared_state = "SharedControlBlock pointers"

text \<open>\<open>ok\<close>: the allocation of the control block succeeds.\<close>

definition shared_construct :: "nat \<Rightarrow> obj option \<Rightarrow> deleter option \<Rightarrow> bool \<Rightarrow> shared_state \<Rightarrow> shared_state" where
  "shared_construct i p d ok s =
     (case p of None \<Rightarrow> set_strong i None s
      | Some x \<Rightarrow>
          if \<not> ok then set_strong i None s
          else set_strong i (Some (length (made s)))
            (put_block (length (made s))
               \<lparr>cb_ptr = Some x, cb_destroy = d, cb_strongs = 1, cb_weaks = 0, cb_magic = SKL_ABIX_MAGIC64\<rparr>
               (s\<lparr>made := made s @ [(x, d)]\<rparr>)))"

definition shared_attach :: "nat \<Rightarrow> block_addr option \<Rightarrow> shared_state \<Rightarrow> shared_state" where
  "shared_attach i cb s = set_strong i cb
     (case cb of None \<Rightarrow> s
      | Some c \<Rightarrow> with_block c (\<lambda>b. put_block c (b\<lparr>cb_strongs := cb_strongs b + 1\<rparr>)) s)"

definition shared_reset :: "SharedControlBlock deleter_run \<Rightarrow> nat \<Rightarrow> shared_state \<Rightarrow> shared_state" where
  "shared_reset run i s = (case strong s i of None \<Rightarrow> s
     | Some c \<Rightarrow> set_strong i None
         (with_block c (\<lambda>b s.
            let b1 = b\<lparr>cb_strongs := cb_strongs b - 1\<rparr>; s1 = put_block c b1 s in
            if cb_strongs b1 = 0 then
              let s2 = (case cb_destroy b1 of None \<Rightarrow> s1 | Some d \<Rightarrow> run c d (cb_ptr b1) s1);
                  s3 = with_block c (\<lambda>b. put_block c (b\<lparr>cb_ptr := None\<rparr>)) s2
              in with_block c (\<lambda>b s. if cb_weaks b = 0 then dealloc c s else s) s3
            else s1) s))"

definition shared_copy :: "nat \<Rightarrow> nat \<Rightarrow> shared_state \<Rightarrow> shared_state" where
  "shared_copy i j s = shared_attach i (strong s j) s"

definition shared_move :: "nat \<Rightarrow> nat \<Rightarrow> shared_state \<Rightarrow> shared_state" where
  "shared_move i j s = set_strong j None (set_strong i (strong s j) s)"

definition shared_assign :: "SharedControlBlock deleter_run \<Rightarrow> nat \<Rightarrow> nat \<Rightarrow> shared_state \<Rightarrow> shared_state" where
  "shared_assign run i j s = (if i = j then s else shared_copy i j (shared_reset run i s))"

definition shared_move_assign :: "SharedControlBlock deleter_run \<Rightarrow> nat \<Rightarrow> nat \<Rightarrow> shared_state \<Rightarrow> shared_state" where
  "shared_move_assign run i j s = (if i = j then s else shared_move i j (shared_reset run i s))"

definition shared_release :: "SharedControlBlock deleter_run \<Rightarrow> nat \<Rightarrow> shared_state \<Rightarrow> shared_state" where
  "shared_release run i s = (case strong s i of None \<Rightarrow> s
     | Some c \<Rightarrow> with_block c (\<lambda>b s.
         if cb_strongs b \<noteq> 1 then s
         else shared_reset run i
           (put_block c (b\<lparr>cb_ptr := None, cb_destroy := None\<rparr>)
              (s\<lparr>handed := handed s @ [(c, cb_ptr b, cb_destroy b)]\<rparr>))) s)"

definition shared_get :: "shared_state \<Rightarrow> nat \<Rightarrow> obj option" where
  "shared_get s i = (case strong s i of None \<Rightarrow> None | Some c \<Rightarrow> Option.bind (blocks s c) cb_ptr)"

definition shared_use_count :: "shared_state \<Rightarrow> nat \<Rightarrow> u32" where
  "shared_use_count s i = (case strong s i of None \<Rightarrow> 0
     | Some c \<Rightarrow> case blocks s c of None \<Rightarrow> 0 | Some b \<Rightarrow> cb_strongs b)"

definition shared_weak_count :: "shared_state \<Rightarrow> nat \<Rightarrow> u32" where
  "shared_weak_count s i = (case strong s i of None \<Rightarrow> 0
     | Some c \<Rightarrow> case blocks s c of None \<Rightarrow> 0 | Some b \<Rightarrow> cb_weaks b)"

definition shared_try_unique :: "shared_state \<Rightarrow> nat \<Rightarrow> bool" where
  "shared_try_unique s i \<longleftrightarrow> shared_use_count s i = 1"

definition weak_attach :: "nat \<Rightarrow> block_addr option \<Rightarrow> shared_state \<Rightarrow> shared_state" where
  "weak_attach w cb s = set_weak w cb
     (case cb of None \<Rightarrow> s
      | Some c \<Rightarrow> with_block c (\<lambda>b. put_block c (b\<lparr>cb_weaks := cb_weaks b + 1\<rparr>)) s)"

definition weak_of_shared :: "nat \<Rightarrow> nat \<Rightarrow> shared_state \<Rightarrow> shared_state" where
  "weak_of_shared w i s = weak_attach w (strong s i) s"

definition weak_copy :: "nat \<Rightarrow> nat \<Rightarrow> shared_state \<Rightarrow> shared_state" where
  "weak_copy w v s = weak_attach w (weak s v) s"

definition weak_move :: "nat \<Rightarrow> nat \<Rightarrow> shared_state \<Rightarrow> shared_state" where
  "weak_move w v s = set_weak v None (set_weak w (weak s v) s)"

definition weak_release :: "nat \<Rightarrow> shared_state \<Rightarrow> shared_state" where
  "weak_release w s = (case weak s w of None \<Rightarrow> s
     | Some c \<Rightarrow> set_weak w None
         (with_block c (\<lambda>b s.
            let b1 = b\<lparr>cb_weaks := cb_weaks b - 1\<rparr>; s1 = put_block c b1 s in
            if cb_weaks b1 = 0 \<and> cb_strongs b1 = 0 then dealloc c s1 else s1) s))"

definition weak_assign_shared :: "nat \<Rightarrow> nat \<Rightarrow> shared_state \<Rightarrow> shared_state" where
  "weak_assign_shared w i s = weak_of_shared w i (weak_release w s)"

definition weak_assign :: "nat \<Rightarrow> nat \<Rightarrow> shared_state \<Rightarrow> shared_state" where
  "weak_assign w v s = (if w = v then s else weak_copy w v (weak_release w s))"

definition weak_move_assign :: "nat \<Rightarrow> nat \<Rightarrow> shared_state \<Rightarrow> shared_state" where
  "weak_move_assign w v s = (if w = v then s else weak_move w v (weak_release w s))"

definition weak_alive :: "shared_state \<Rightarrow> nat \<Rightarrow> bool" where
  "weak_alive s w = (case weak s w of None \<Rightarrow> False
     | Some c \<Rightarrow> case blocks s c of None \<Rightarrow> False | Some b \<Rightarrow> 0 < cb_strongs b)"

definition weak_lock :: "nat \<Rightarrow> nat \<Rightarrow> shared_state \<Rightarrow> shared_state" where
  "weak_lock i w s = (if \<not> weak_alive s w then set_strong i None s else shared_attach i (weak s w) s)"

text \<open>One statement of a program. A constructor statement starts the lifetime of a variable, which is then
  null; on a variable that is still alive it is not a statement of any program and is skipped.\<close>

datatype ptr_op =
    Construct nat "obj option" "deleter option" bool
  | Copy nat nat | Move nat nat | Assign nat nat | Move_assign nat nat | Drop nat | Release nat
  | Weak_of nat nat | Weak_copy nat nat | Weak_move nat nat | Weak_assign_shared nat nat
  | Weak_assign nat nat | Weak_move_assign nat nat | Weak_drop nat | Lock nat nat

fun shared_step :: "SharedControlBlock deleter_run \<Rightarrow> ptr_op \<Rightarrow> shared_state \<Rightarrow> shared_state" where
  "shared_step run (Construct i p d ok) s = (if strong s i = None then shared_construct i p d ok s else s)"
| "shared_step run (Copy i j) s = (if strong s i = None then shared_copy i j s else s)"
| "shared_step run (Move i j) s = (if strong s i = None then shared_move i j s else s)"
| "shared_step run (Assign i j) s = shared_assign run i j s"
| "shared_step run (Move_assign i j) s = shared_move_assign run i j s"
| "shared_step run (Drop i) s = shared_reset run i s"
| "shared_step run (Release i) s = shared_release run i s"
| "shared_step run (Weak_of w i) s = (if weak s w = None then weak_of_shared w i s else s)"
| "shared_step run (Weak_copy w v) s = (if weak s w = None then weak_copy w v s else s)"
| "shared_step run (Weak_move w v) s = (if weak s w = None then weak_move w v s else s)"
| "shared_step run (Weak_assign_shared w i) s = weak_assign_shared w i s"
| "shared_step run (Weak_assign w v) s = weak_assign w v s"
| "shared_step run (Weak_move_assign w v) s = weak_move_assign w v s"
| "shared_step run (Weak_drop w) s = weak_release w s"
| "shared_step run (Lock i w) s = (if strong s i = None then weak_lock i w s else s)"

definition shared_run :: "SharedControlBlock deleter_run \<Rightarrow> ptr_op list \<Rightarrow> shared_state" where
  "shared_run run ops = fold (shared_step run) ops no_pointers"

section \<open>RefPtr and ViewPtr\<close>

text \<open>The pointers for one thread: plain counters, the same operations except \<open>ViewPtr::lock\<close>. \<open>RefPtr\<close> declares
  \<open>view_ptr\<close>, not \<open>ViewPtr\<close>, its friend, so \<open>lock\<close> cannot reach the private constructor it calls and does not compile
  when used; it is not modelled.\<close>

type_synonym rptr_state = "RefControlBlock pointers"

definition rptr_construct :: "nat \<Rightarrow> obj option \<Rightarrow> deleter option \<Rightarrow> bool \<Rightarrow> rptr_state \<Rightarrow> rptr_state" where
  "rptr_construct i p d ok s =
     (case p of None \<Rightarrow> set_strong i None s
      | Some x \<Rightarrow>
          if \<not> ok then set_strong i None s
          else set_strong i (Some (length (made s)))
            (put_block (length (made s))
               \<lparr>rb_ptr = Some x, rb_destroy = d, rb_refs = 1, rb_views = 0, rb_magic = SKL_ABIX_MAGIC64\<rparr>
               (s\<lparr>made := made s @ [(x, d)]\<rparr>)))"

definition rptr_attach :: "nat \<Rightarrow> block_addr option \<Rightarrow> rptr_state \<Rightarrow> rptr_state" where
  "rptr_attach i cb s = set_strong i cb
     (case cb of None \<Rightarrow> s
      | Some c \<Rightarrow> with_block c (\<lambda>b. put_block c (b\<lparr>rb_refs := rb_refs b + 1\<rparr>)) s)"

definition rptr_reset :: "RefControlBlock deleter_run \<Rightarrow> nat \<Rightarrow> rptr_state \<Rightarrow> rptr_state" where
  "rptr_reset run i s = (case strong s i of None \<Rightarrow> s
     | Some c \<Rightarrow> set_strong i None
         (with_block c (\<lambda>b s.
            let b1 = b\<lparr>rb_refs := rb_refs b - 1\<rparr>; s1 = put_block c b1 s in
            if rb_refs b1 = 0 then
              let s2 = (case rb_destroy b1 of None \<Rightarrow> s1 | Some d \<Rightarrow> run c d (rb_ptr b1) s1);
                  s3 = with_block c (\<lambda>b. put_block c (b\<lparr>rb_ptr := None\<rparr>)) s2
              in with_block c (\<lambda>b s. if rb_views b = 0 then dealloc c s else s) s3
            else s1) s))"

definition rptr_copy :: "nat \<Rightarrow> nat \<Rightarrow> rptr_state \<Rightarrow> rptr_state" where
  "rptr_copy i j s = rptr_attach i (strong s j) s"

definition rptr_move :: "nat \<Rightarrow> nat \<Rightarrow> rptr_state \<Rightarrow> rptr_state" where
  "rptr_move i j s = set_strong j None (set_strong i (strong s j) s)"

definition rptr_assign :: "RefControlBlock deleter_run \<Rightarrow> nat \<Rightarrow> nat \<Rightarrow> rptr_state \<Rightarrow> rptr_state" where
  "rptr_assign run i j s = (if i = j then s else rptr_copy i j (rptr_reset run i s))"

definition rptr_move_assign :: "RefControlBlock deleter_run \<Rightarrow> nat \<Rightarrow> nat \<Rightarrow> rptr_state \<Rightarrow> rptr_state" where
  "rptr_move_assign run i j s = (if i = j then s else rptr_move i j (rptr_reset run i s))"

definition rptr_release :: "RefControlBlock deleter_run \<Rightarrow> nat \<Rightarrow> rptr_state \<Rightarrow> rptr_state" where
  "rptr_release run i s = (case strong s i of None \<Rightarrow> s
     | Some c \<Rightarrow> with_block c (\<lambda>b s.
         if rb_refs b \<noteq> 1 then s
         else rptr_reset run i
           (put_block c (b\<lparr>rb_ptr := None, rb_destroy := None\<rparr>)
              (s\<lparr>handed := handed s @ [(c, rb_ptr b, rb_destroy b)]\<rparr>))) s)"

definition rptr_get :: "rptr_state \<Rightarrow> nat \<Rightarrow> obj option" where
  "rptr_get s i = (case strong s i of None \<Rightarrow> None | Some c \<Rightarrow> Option.bind (blocks s c) rb_ptr)"

definition rptr_use_count :: "rptr_state \<Rightarrow> nat \<Rightarrow> u32" where
  "rptr_use_count s i = (case strong s i of None \<Rightarrow> 0
     | Some c \<Rightarrow> case blocks s c of None \<Rightarrow> 0 | Some b \<Rightarrow> rb_refs b)"

definition rptr_view_count :: "rptr_state \<Rightarrow> nat \<Rightarrow> u32" where
  "rptr_view_count s i = (case strong s i of None \<Rightarrow> 0
     | Some c \<Rightarrow> case blocks s c of None \<Rightarrow> 0 | Some b \<Rightarrow> rb_views b)"

definition rptr_try_unique :: "rptr_state \<Rightarrow> nat \<Rightarrow> bool" where
  "rptr_try_unique s i \<longleftrightarrow> rptr_use_count s i = 1"

definition view_attach :: "nat \<Rightarrow> block_addr option \<Rightarrow> rptr_state \<Rightarrow> rptr_state" where
  "view_attach w cb s = set_weak w cb
     (case cb of None \<Rightarrow> s
      | Some c \<Rightarrow> with_block c (\<lambda>b. put_block c (b\<lparr>rb_views := rb_views b + 1\<rparr>)) s)"

definition view_of_ref :: "nat \<Rightarrow> nat \<Rightarrow> rptr_state \<Rightarrow> rptr_state" where
  "view_of_ref w i s = view_attach w (strong s i) s"

definition view_copy :: "nat \<Rightarrow> nat \<Rightarrow> rptr_state \<Rightarrow> rptr_state" where
  "view_copy w v s = view_attach w (weak s v) s"

definition view_move :: "nat \<Rightarrow> nat \<Rightarrow> rptr_state \<Rightarrow> rptr_state" where
  "view_move w v s = set_weak v None (set_weak w (weak s v) s)"

definition view_release :: "nat \<Rightarrow> rptr_state \<Rightarrow> rptr_state" where
  "view_release w s = (case weak s w of None \<Rightarrow> s
     | Some c \<Rightarrow> set_weak w None
         (with_block c (\<lambda>b s.
            let b1 = b\<lparr>rb_views := rb_views b - 1\<rparr>; s1 = put_block c b1 s in
            if rb_views b1 = 0 \<and> rb_refs b1 = 0 then dealloc c s1 else s1) s))"

definition view_assign_ref :: "nat \<Rightarrow> nat \<Rightarrow> rptr_state \<Rightarrow> rptr_state" where
  "view_assign_ref w i s = view_of_ref w i (view_release w s)"

definition view_assign :: "nat \<Rightarrow> nat \<Rightarrow> rptr_state \<Rightarrow> rptr_state" where
  "view_assign w v s = (if w = v then s else view_copy w v (view_release w s))"

definition view_move_assign :: "nat \<Rightarrow> nat \<Rightarrow> rptr_state \<Rightarrow> rptr_state" where
  "view_move_assign w v s = (if w = v then s else view_move w v (view_release w s))"

definition view_alive :: "rptr_state \<Rightarrow> nat \<Rightarrow> bool" where
  "view_alive s w = (case weak s w of None \<Rightarrow> False
     | Some c \<Rightarrow> case blocks s c of None \<Rightarrow> False | Some b \<Rightarrow> 0 < rb_refs b)"

text \<open>A program that locks a view does not compile; the statement is skipped.\<close>

fun rptr_step :: "RefControlBlock deleter_run \<Rightarrow> ptr_op \<Rightarrow> rptr_state \<Rightarrow> rptr_state" where
  "rptr_step run (Construct i p d ok) s = (if strong s i = None then rptr_construct i p d ok s else s)"
| "rptr_step run (Copy i j) s = (if strong s i = None then rptr_copy i j s else s)"
| "rptr_step run (Move i j) s = (if strong s i = None then rptr_move i j s else s)"
| "rptr_step run (Assign i j) s = rptr_assign run i j s"
| "rptr_step run (Move_assign i j) s = rptr_move_assign run i j s"
| "rptr_step run (Drop i) s = rptr_reset run i s"
| "rptr_step run (Release i) s = rptr_release run i s"
| "rptr_step run (Weak_of w i) s = (if weak s w = None then view_of_ref w i s else s)"
| "rptr_step run (Weak_copy w v) s = (if weak s w = None then view_copy w v s else s)"
| "rptr_step run (Weak_move w v) s = (if weak s w = None then view_move w v s else s)"
| "rptr_step run (Weak_assign_shared w i) s = view_assign_ref w i s"
| "rptr_step run (Weak_assign w v) s = view_assign w v s"
| "rptr_step run (Weak_move_assign w v) s = view_move_assign w v s"
| "rptr_step run (Weak_drop w) s = view_release w s"
| "rptr_step run (Lock i w) s = s"

definition rptr_run :: "RefControlBlock deleter_run \<Rightarrow> ptr_op list \<Rightarrow> rptr_state" where
  "rptr_run run ops = fold (rptr_step run) ops no_pointers"

section \<open>UniquePtr\<close>

record UniqueHandle =
  uh_ptr :: "obj option"
  uh_destroy :: "deleter option"

type_synonym unique_state = "(nat \<Rightarrow> UniqueHandle) \<times> (obj \<times> deleter) list"

definition null_handle :: UniqueHandle where
  "null_handle = \<lparr>uh_ptr = None, uh_destroy = None\<rparr>"

definition unique_reset :: "nat \<Rightarrow> obj option \<Rightarrow> deleter option \<Rightarrow> unique_state \<Rightarrow> unique_state" where
  "unique_reset i p d s = (let h = fst s i in
     ((fst s)(i := \<lparr>uh_ptr = p, uh_destroy = d\<rparr>),
      (case (uh_ptr h, uh_destroy h) of (Some x, Some del) \<Rightarrow> snd s @ [(x, del)] | _ \<Rightarrow> snd s)))"

definition unique_move :: "nat \<Rightarrow> nat \<Rightarrow> unique_state \<Rightarrow> unique_state" where
  "unique_move i j s = ((fst s)(i := fst s j, j := null_handle), snd s)"

definition unique_move_assign :: "nat \<Rightarrow> nat \<Rightarrow> unique_state \<Rightarrow> unique_state" where
  "unique_move_assign i j s = (if i = j then s else unique_move i j (unique_reset i None None s))"

definition fn_deleter :: "deleter option \<Rightarrow> obj option \<Rightarrow> (obj \<times> deleter) list \<Rightarrow> (obj \<times> deleter) list" where
  "fn_deleter d p l = (case (p, d) of (Some x, Some del) \<Rightarrow> l @ [(x, del)] | _ \<Rightarrow> l)"

end
