(* ===== verification/Pointer_Lifetime.thy ===== *)
theory Pointer_Lifetime
  imports Smart_Pointers
begin

text \<open>
  Lifetimes under the owning pointers of \<open>Smart_Pointers\<close>. The invariant \<open>pointers_ok\<close> ties the two counters
  of every control block to the number of variables that point to it and says what has happened to its
  object. Each operation touches one block, so \<open>pointers_ok_frame\<close> reduces its preservation to that
  block. \<open>as_shared\<close> renames the fields of \<open>RefControlBlock\<close>; every \<open>RefPtr\<close> and \<open>ViewPtr\<close> operation of the model
  commutes with it, so the results carry over.
\<close>

section \<open>Counting the pointers to a block\<close>

definition count_at :: "(nat \<Rightarrow> block_addr option) \<Rightarrow> block_addr \<Rightarrow> nat" where
  "count_at f c = card {i. f i = Some c}"

definition slots_below :: "nat \<Rightarrow> (nat \<Rightarrow> block_addr option) \<Rightarrow> bool" where
  "slots_below n f \<longleftrightarrow> (\<forall>i \<ge> n. f i = None)"

lemma slots_below_Some: "slots_below n f \<Longrightarrow> f i = Some c \<Longrightarrow> i < n"
  by (rule ccontr) (simp add: slots_below_def)

lemma slots_below_slots: "slots_below n f \<Longrightarrow> {i. f i = Some c} \<subseteq> {..<n}"
  using slots_below_Some by auto

lemma finite_slots: "slots_below n f \<Longrightarrow> finite {i. f i = Some c}"
  by (rule finite_subset[OF slots_below_slots]) simp_all

lemma count_at_le: "slots_below n f \<Longrightarrow> count_at f c \<le> n"
  unfolding count_at_def using card_mono[OF _ slots_below_slots[of n f c]] by simp

lemma slots_below_upd [simp]: "slots_below n f \<Longrightarrow> i < n \<Longrightarrow> slots_below n (f(i := x))"
  by (auto simp: slots_below_def)

lemma slots_below_clear [simp]: "slots_below n f \<Longrightarrow> slots_below n (f(i := None))"
  by (auto simp: slots_below_def)

lemma count_at_set:
  assumes "slots_below n f" "f i = None"
  shows "count_at (f(i := Some c)) c' = count_at f c' + (if c' = c then 1 else 0)"
proof -
  have "{k. (f(i := Some c)) k = Some c'} = (if c' = c then insert i {k. f k = Some c} else {k. f k = Some c'})"
    using assms(2) by auto
  then show ?thesis using finite_slots[OF assms(1)] assms(2) by (simp add: count_at_def)
qed

lemma count_at_clear:
  assumes "slots_below n f" "f i = Some c"
  shows "count_at f c' = count_at (f(i := None)) c' + (if c' = c then 1 else 0)"
  using count_at_set[of n "f(i := None)" i c c'] assms by (simp add: fun_upd_idem)

lemma count_at_None: "f i = None \<Longrightarrow> f(i := None) = f"
  by (simp add: fun_upd_idem)

lemma count_at_move:
  assumes "slots_below n f" "f i = None" "i \<noteq> j"
  shows "count_at (f(i := f j, j := None)) c = count_at f c"
proof (cases "f j")
  case None
  with assms show ?thesis by (simp add: count_at_None)
next
  case (Some c0)
  have "count_at ((f(j := None))(i := Some c0)) c = count_at (f(j := None)) c + (if c = c0 then 1 else 0)"
    using assms by (intro count_at_set[of n]) simp_all
  with Some count_at_clear[OF assms(1) Some, of c] show ?thesis
    by (simp add: fun_upd_twist[OF assms(3)])
qed

lemma count_at_pos: "slots_below n f \<Longrightarrow> 0 < count_at f c \<longleftrightarrow> (\<exists>i. f i = Some c)"
  using finite_slots[of n f c] by (auto simp: count_at_def card_gt_0_iff)

section \<open>The invariant\<close>

definition fates :: "'b pointers \<Rightarrow> block_addr \<Rightarrow> fate list" where
  "fates s c = filter (\<lambda>e. fst e = c) (log s @ handed s)"

definition block_ok :: "SharedControlBlock option \<Rightarrow> nat \<Rightarrow> nat \<Rightarrow> bool" where
  "block_ok bo k m \<longleftrightarrow> (case bo of None \<Rightarrow> k = 0 \<and> m = 0
     | Some b \<Rightarrow> unat (cb_strongs b) = k \<and> unat (cb_weaks b) = m \<and> 0 < k + m)"

definition object_ok :: "block_addr \<Rightarrow> nat \<Rightarrow> fate list \<Rightarrow> SharedControlBlock option \<Rightarrow> obj \<times> deleter option \<Rightarrow> bool" where
  "object_ok c k fs bo m \<longleftrightarrow>
     (if 0 < k then fs = [] \<and> (\<exists>b. bo = Some b \<and> cb_ptr b = Some (fst m) \<and> cb_destroy b = snd m)
      else fs = [(c, Some (fst m), snd m)] \<or> snd m = None \<and> fs = [])"

definition cell_ok :: "shared_state \<Rightarrow> block_addr \<Rightarrow> bool" where
  "cell_ok s c \<longleftrightarrow> block_ok (blocks s c) (count_at (strong s) c) (count_at (weak s) c) \<and>
     (if c < length (made s) then object_ok c (count_at (strong s) c) (fates s c) (blocks s c) (made s ! c)
      else blocks s c = None \<and> fates s c = [])"

definition pointers_ok :: "nat \<Rightarrow> shared_state \<Rightarrow> bool" where
  "pointers_ok n s \<longleftrightarrow> \<not> fault s \<and> slots_below n (strong s) \<and> slots_below n (weak s) \<and> (\<forall>c. cell_ok s c)"

lemmas pointer_defs = set_strong_def set_weak_def put_block_def dealloc_def

lemma pointers_okD:
  assumes "pointers_ok n s"
  shows "\<not> fault s" and "slots_below n (strong s)" and "slots_below n (weak s)" and "cell_ok s c"
  using assms by (auto simp: pointers_ok_def)

lemma fates_frame [simp]:
  "fates (set_strong i cb s) = fates s" "fates (set_weak i cb s) = fates s"
  "fates (put_block c b s) = fates s" "fates (dealloc c s) = fates s"
  by (simp_all add: fun_eq_iff fates_def pointer_defs)

text \<open>Every operation touches one block only.\<close>

lemma pointers_ok_frame:
  assumes "pointers_ok n s" "\<not> fault s'" "slots_below n (strong s')" "slots_below n (weak s')" "cell_ok s' c0"
    and "\<And>c. c \<noteq> c0 \<Longrightarrow> blocks s' c = blocks s c"
    and "\<And>c. c \<noteq> c0 \<Longrightarrow> count_at (strong s') c = count_at (strong s) c"
    and "\<And>c. c \<noteq> c0 \<Longrightarrow> count_at (weak s') c = count_at (weak s) c"
    and "\<And>c. c \<noteq> c0 \<Longrightarrow> fates s' c = fates s c"
    and "made s' = made s \<or> c0 = length (made s) \<and> (\<exists>m. made s' = made s @ [m])"
  shows "pointers_ok n s'"
proof -
  have "cell_ok s' c" if "c \<noteq> c0" for c
    using pointers_okD(4)[OF assms(1), of c] assms(6-9)[OF that] assms(10) that
    by (auto simp: cell_ok_def nth_append)
  then have "cell_ok s' c" for c using assms(5) by (cases "c = c0") simp_all
  with assms(2-4) show ?thesis by (simp add: pointers_ok_def)
qed

lemma strong_cell:
  assumes "pointers_ok n s" "strong s i = Some c"
  obtains b where "blocks s c = Some b" "0 < count_at (strong s) c" "c < length (made s)"
    "unat (cb_strongs b) = count_at (strong s) c" "unat (cb_weaks b) = count_at (weak s) c"
    "cb_ptr b = Some (fst (made s ! c))" "cb_destroy b = snd (made s ! c)" "fates s c = []"
proof -
  have "0 < count_at (strong s) c" using count_at_pos[OF pointers_okD(2)[OF assms(1)]] assms(2) by blast
  with pointers_okD(4)[OF assms(1), of c] that show thesis
    by (auto simp: cell_ok_def block_ok_def object_ok_def split: if_splits option.splits)
qed

lemma weak_cell:
  assumes "pointers_ok n s" "weak s w = Some c"
  obtains b where "blocks s c = Some b" "0 < count_at (weak s) c" "c < length (made s)"
    "unat (cb_strongs b) = count_at (strong s) c" "unat (cb_weaks b) = count_at (weak s) c"
    "object_ok c (count_at (strong s) c) (fates s c) (Some b) (made s ! c)"
proof -
  have "0 < count_at (weak s) c" using count_at_pos[OF pointers_okD(3)[OF assms(1)]] assms(2) by blast
  with pointers_okD(4)[OF assms(1), of c] that show thesis
    by (auto simp: cell_ok_def block_ok_def split: if_splits option.splits)
qed

lemma unat_incr: "unat (x :: u32) < n \<Longrightarrow> n < 2 ^ 32 \<Longrightarrow> unat (x + 1) = unat x + 1"
  by (subst unat_add_small) simp_all

lemma unat_decr: "0 < unat (x :: u32) \<Longrightarrow> unat (x - 1) = unat x - 1"
  by (subst unat_sub) (simp_all add: word_le_nat_alt Suc_le_eq)

lemma no_pointers_ok: "pointers_ok n no_pointers"
  by (simp add: pointers_ok_def no_pointers_def slots_below_def cell_ok_def block_ok_def count_at_def fates_def)

lemma construct_ok:
  assumes "pointers_ok n s" "strong s i = None" "i < n"
  shows "pointers_ok n (shared_construct i p d ok s)"
proof (cases "p = None \<or> \<not> ok")
  case True
  then have "shared_construct i p d ok s = s"
    using assms(2) by (auto simp: shared_construct_def set_strong_def count_at_None split: option.splits)
  with assms(1) show ?thesis by simp
next
  case False
  then obtain x where x: "p = Some x" "ok" by auto
  have cell: "cell_ok s (length (made s))" by (rule pointers_okD(4)[OF assms(1)])
  note D = pointers_okD(1-3)[OF assms(1)]
  show ?thesis
  proof (rule pointers_ok_frame[OF assms(1), of _ "length (made s)"])
    show "cell_ok (shared_construct i p d ok s) (length (made s))"
      using cell D assms(2,3) x
      by (auto simp: cell_ok_def shared_construct_def pointer_defs count_at_set[OF D(2)] object_ok_def fates_def block_ok_def)
  qed (use D assms(2,3) x in \<open>simp_all add: shared_construct_def pointer_defs count_at_set[OF D(2)] fates_def\<close>)
qed

lemma attach_ok:
  assumes ok: "pointers_ok n s" and i: "strong s i = None" "i < n" "n < 2 ^ 32"
    and held: "\<And>c. cb = Some c \<Longrightarrow> 0 < count_at (strong s) c"
  shows "pointers_ok n (shared_attach i cb s)"
proof (cases cb)
  case None
  then show ?thesis using ok i by (simp add: shared_attach_def set_strong_def count_at_None)
next
  case (Some c)
  note D = pointers_okD(1-3)[OF ok]
  obtain j where "strong s j = Some c" using held[OF Some] count_at_pos[OF D(2)] by blast
  with ok obtain b where b: "blocks s c = Some b" "0 < count_at (strong s) c" "c < length (made s)"
    "unat (cb_strongs b) = count_at (strong s) c" "unat (cb_weaks b) = count_at (weak s) c"
    "cb_ptr b = Some (fst (made s ! c))" "cb_destroy b = snd (made s ! c)" "fates s c = []"
    by (rule strong_cell)
  have "count_at ((strong s)(i := Some c)) c \<le> n" using D(2) i by (intro count_at_le) simp
  then have inc: "unat (cb_strongs b + 1) = count_at (strong s) c + 1"
    using b(4) i by (subst unat_incr[of _ n]) (simp_all add: count_at_set[OF D(2)])
  show ?thesis
  proof (rule pointers_ok_frame[OF ok, of _ c])
    show "cell_ok (shared_attach i cb s) c"
      using b inc i Some
      by (simp add: cell_ok_def shared_attach_def pointer_defs with_block_def count_at_set[OF D(2)] object_ok_def
          fates_def block_ok_def)
  qed (use D i Some b in \<open>simp_all add: shared_attach_def pointer_defs with_block_def count_at_set[OF D(2)] fates_def\<close>)
qed

lemma move_ok:
  assumes "pointers_ok n s" "strong s i = None" "i < n"
  shows "pointers_ok n (shared_move i j s)"
proof (cases "i = j")
  case True
  then show ?thesis using assms by (simp add: shared_move_def set_strong_def count_at_None)
next
  case False
  note D = pointers_okD(1-3)[OF assms(1)]
  have "cell_ok (shared_move i j s) c" for c
    using pointers_okD(4)[OF assms(1), of c] count_at_move[OF D(2) assms(2) False, of c]
    by (auto simp: cell_ok_def shared_move_def) (auto simp: set_strong_def)
  with D assms(3) show ?thesis by (simp add: pointers_ok_def shared_move_def set_strong_def)
qed

lemma reset_ok:
  assumes ok: "pointers_ok n s"
  shows "pointers_ok n (shared_reset run_log i s)" and "strong (shared_reset run_log i s) = (strong s)(i := None)"
    and "weak (shared_reset run_log i s) = weak s"
proof -
  note D = pointers_okD(1-3)[OF ok]
  show "strong (shared_reset run_log i s) = (strong s)(i := None)" "weak (shared_reset run_log i s) = weak s"
    by (auto simp: shared_reset_def with_block_def pointer_defs run_log_def Let_def count_at_None split: option.splits)
  show "pointers_ok n (shared_reset run_log i s)"
  proof (cases "strong s i")
    case None
    with ok show ?thesis by (simp add: shared_reset_def)
  next
    case (Some c)
    with ok obtain b where b: "blocks s c = Some b" "0 < count_at (strong s) c" "c < length (made s)"
      "unat (cb_strongs b) = count_at (strong s) c" "unat (cb_weaks b) = count_at (weak s) c"
      "cb_ptr b = Some (fst (made s ! c))" "cb_destroy b = snd (made s ! c)" "fates s c = []"
      by (rule strong_cell)
    note cl = count_at_clear[OF D(2) Some]
    have dec: "unat (cb_strongs b - 1) = count_at ((strong s)(i := None)) c"
      using b(2,4) cl[of c] by (subst unat_decr) simp_all
    then have z: "cb_strongs b - 1 = 0 \<longleftrightarrow> count_at ((strong s)(i := None)) c = 0"
      "cb_weaks b = 0 \<longleftrightarrow> count_at (weak s) c = 0"
      using b(5) unat_eq_zero by metis+
    have eq: "shared_reset run_log i s = set_strong i None
        (if count_at ((strong s)(i := None)) c = 0
         then (let s2 = (case snd (made s ! c) of None \<Rightarrow> s
                         | Some d \<Rightarrow> s\<lparr>log := log s @ [(c, Some (fst (made s ! c)), Some d)]\<rparr>) in
               if count_at (weak s) c = 0 then dealloc c s2
               else put_block c (b\<lparr>cb_strongs := cb_strongs b - 1, cb_ptr := None\<rparr>) s2)
         else put_block c (b\<lparr>cb_strongs := cb_strongs b - 1\<rparr>) s)"
      using b Some z
      by (cases "snd (made s ! c)")
        (simp_all add: shared_reset_def with_block_def run_log_def Let_def pointer_defs fun_upd_idem_iff)
    show ?thesis
    proof (rule pointers_ok_frame[OF ok, of _ c])
      show "cell_ok (shared_reset run_log i s) c"
        unfolding eq using b dec z Some
        by (cases "snd (made s ! c)")
          (simp_all add: cell_ok_def pointer_defs Let_def object_ok_def fates_def block_ok_def)
      show "count_at (strong (shared_reset run_log i s)) c' = count_at (strong s) c'" if "c' \<noteq> c" for c'
        unfolding eq using that cl[of c'] by (cases "snd (made s ! c)") (simp_all add: pointer_defs Let_def)
    qed (use D in \<open>simp_all add: eq pointer_defs Let_def fates_def split: option.split\<close>)
  qed
qed

lemma release_ok:
  assumes ok: "pointers_ok n s"
  shows "pointers_ok n (shared_release run_log i s)"
proof (cases "strong s i")
  case None
  with ok show ?thesis by (simp add: shared_release_def)
next
  case (Some c)
  note D = pointers_okD(1-3)[OF ok]
  from ok Some obtain b where b: "blocks s c = Some b" "0 < count_at (strong s) c" "c < length (made s)"
    "unat (cb_strongs b) = count_at (strong s) c" "unat (cb_weaks b) = count_at (weak s) c"
    "cb_ptr b = Some (fst (made s ! c))" "cb_destroy b = snd (made s ! c)" "fates s c = []"
    by (rule strong_cell)
  show ?thesis
  proof (cases "cb_strongs b = 1")
    case False
    with ok Some b(1) show ?thesis by (simp add: shared_release_def with_block_def)
  next
    case True
    note cl = count_at_clear[OF D(2) Some]
    have one: "count_at (strong s) c = 1" using b(4) True by simp
    then have z: "count_at ((strong s)(i := None)) c = 0" using cl[of c] by simp
    have w: "cb_weaks b = 0 \<longleftrightarrow> count_at (weak s) c = 0" using b(5) unat_eq_zero by metis
    let ?s = "s\<lparr>handed := handed s @ [(c, Some (fst (made s ! c)), snd (made s ! c))]\<rparr>"
    have eq: "shared_release run_log i s = set_strong i None
        (if count_at (weak s) c = 0 then dealloc c ?s
         else put_block c (b\<lparr>cb_destroy := None, cb_strongs := 0, cb_ptr := None\<rparr>) ?s)"
      using b Some True w
      by (simp add: shared_release_def shared_reset_def with_block_def Let_def pointer_defs)
    show ?thesis
    proof (rule pointers_ok_frame[OF ok, of _ c])
      show "cell_ok (shared_release run_log i s) c"
        unfolding eq using b z
        by (simp add: cell_ok_def pointer_defs object_ok_def fates_def block_ok_def)
      show "count_at (strong (shared_release run_log i s)) c' = count_at (strong s) c'" if "c' \<noteq> c" for c'
        unfolding eq using that cl[of c'] by (simp add: pointer_defs)
    qed (use D in \<open>simp_all add: eq pointer_defs fates_def\<close>)
  qed
qed

lemma weak_attach_ok:
  assumes ok: "pointers_ok n s" and w: "weak s w = None" "w < n" "n < 2 ^ 32"
    and held: "\<And>c. cb = Some c \<Longrightarrow> \<exists>b. blocks s c = Some b"
  shows "pointers_ok n (weak_attach w cb s)"
proof (cases cb)
  case None
  then show ?thesis using ok w by (simp add: weak_attach_def set_weak_def count_at_None)
next
  case (Some c)
  note D = pointers_okD(1-3)[OF ok]
  obtain b where b: "blocks s c = Some b" using held[OF Some] by blast
  have cell: "cell_ok s c" by (rule pointers_okD(4)[OF ok])
  have "count_at ((weak s)(w := Some c)) c \<le> n" using D(3) w by (intro count_at_le) simp
  then have inc: "unat (cb_weaks b + 1) = count_at (weak s) c + 1"
    using b cell w by (subst unat_incr[of _ n]) (simp_all add: count_at_set[OF D(3)] cell_ok_def block_ok_def)
  show ?thesis
  proof (rule pointers_ok_frame[OF ok, of _ c])
    show "cell_ok (weak_attach w cb s) c"
      using b inc w Some cell
      by (auto simp: cell_ok_def weak_attach_def pointer_defs with_block_def count_at_set[OF D(3)] object_ok_def
          fates_def block_ok_def split: if_splits)
  qed (use D w Some b in \<open>simp_all add: weak_attach_def pointer_defs with_block_def count_at_set[OF D(3)] fates_def\<close>)
qed

lemma weak_move_ok:
  assumes "pointers_ok n s" "weak s w = None" "w < n"
  shows "pointers_ok n (weak_move w v s)"
proof (cases "w = v")
  case True
  then show ?thesis using assms by (simp add: weak_move_def set_weak_def count_at_None)
next
  case False
  note D = pointers_okD(1-3)[OF assms(1)]
  have "cell_ok (weak_move w v s) c" for c
    using pointers_okD(4)[OF assms(1), of c] count_at_move[OF D(3) assms(2) False, of c]
    by (auto simp: cell_ok_def weak_move_def) (auto simp: set_weak_def)
  with D assms(3) show ?thesis by (simp add: pointers_ok_def weak_move_def set_weak_def)
qed

lemma weak_release_ok:
  assumes ok: "pointers_ok n s"
  shows "pointers_ok n (weak_release w s)" and "weak (weak_release w s) = (weak s)(w := None)"
    and "strong (weak_release w s) = strong s"
proof -
  note D = pointers_okD(1-3)[OF ok]
  show "weak (weak_release w s) = (weak s)(w := None)" "strong (weak_release w s) = strong s"
    by (auto simp: weak_release_def with_block_def pointer_defs Let_def count_at_None split: option.splits)
  show "pointers_ok n (weak_release w s)"
  proof (cases "weak s w")
    case None
    with ok show ?thesis by (simp add: weak_release_def)
  next
    case (Some c)
    with ok obtain b where b: "blocks s c = Some b" "0 < count_at (weak s) c" "c < length (made s)"
      "unat (cb_strongs b) = count_at (strong s) c" "unat (cb_weaks b) = count_at (weak s) c"
      "object_ok c (count_at (strong s) c) (fates s c) (Some b) (made s ! c)"
      by (rule weak_cell)
    note cl = count_at_clear[OF D(3) Some]
    have dec: "unat (cb_weaks b - 1) = count_at ((weak s)(w := None)) c"
      using b(2,5) cl[of c] by (subst unat_decr) simp_all
    then have z: "cb_weaks b - 1 = 0 \<longleftrightarrow> count_at ((weak s)(w := None)) c = 0"
      "cb_strongs b = 0 \<longleftrightarrow> count_at (strong s) c = 0"
      using b(4) unat_eq_zero by metis+
    have eq: "weak_release w s = set_weak w None
        (if count_at ((weak s)(w := None)) c = 0 \<and> count_at (strong s) c = 0 then dealloc c s
         else put_block c (b\<lparr>cb_weaks := cb_weaks b - 1\<rparr>) s)"
      using b(1) Some z by (simp add: weak_release_def with_block_def Let_def pointer_defs)
    show ?thesis
    proof (rule pointers_ok_frame[OF ok, of _ c])
      show "cell_ok (weak_release w s) c"
        unfolding eq using b dec by (auto simp: cell_ok_def pointer_defs object_ok_def fates_def block_ok_def)
      show "count_at (weak (weak_release w s)) c' = count_at (weak s) c'" if "c' \<noteq> c" for c'
        unfolding eq using that cl[of c'] by (simp add: pointer_defs)
    qed (use D in \<open>simp_all add: eq pointer_defs fates_def\<close>)
  qed
qed

text \<open>The variables a statement assigns.\<close>

fun op_target :: "ptr_op \<Rightarrow> nat" where
  "op_target (Construct i p d ok) = i"
| "op_target (Copy i j) = i"
| "op_target (Move i j) = i"
| "op_target (Assign i j) = i"
| "op_target (Move_assign i j) = i"
| "op_target (Drop i) = i"
| "op_target (Release i) = i"
| "op_target (Weak_of w i) = w"
| "op_target (Weak_copy w v) = w"
| "op_target (Weak_move w v) = w"
| "op_target (Weak_assign_shared w i) = w"
| "op_target (Weak_assign w v) = w"
| "op_target (Weak_move_assign w v) = w"
| "op_target (Weak_drop w) = w"
| "op_target (Lock i w) = i"

lemma strong_held: "pointers_ok n s \<Longrightarrow> strong s j = Some c \<Longrightarrow> 0 < count_at (strong s) c"
  by (erule (1) strong_cell)

lemma strong_has_block: "pointers_ok n s \<Longrightarrow> strong s j = Some c \<Longrightarrow> \<exists>b. blocks s c = Some b"
  by (erule (1) strong_cell) blast

lemma weak_has_block: "pointers_ok n s \<Longrightarrow> weak s v = Some c \<Longrightarrow> \<exists>b. blocks s c = Some b"
  by (erule (1) weak_cell) blast

lemma alive_held:
  assumes "pointers_ok n s" "weak_alive s w" "weak s w = Some c"
  shows "0 < count_at (strong s) c"
  using assms(1,3)
proof (rule weak_cell)
  fix b
  assume "blocks s c = Some b" "unat (cb_strongs b) = count_at (strong s) c"
  with assms(2,3) show ?thesis by (simp add: weak_alive_def word_less_nat_alt)
qed

lemma shared_step_ok:
  assumes ok: "pointers_ok n s" and n: "op_target op < n" "n < 2 ^ 32"
  shows "pointers_ok n (shared_step run_log op s)"
proof -
  note R = reset_ok[OF ok] and W = weak_release_ok[OF ok]
  show ?thesis
  proof (cases op)
    case (Copy i j)
    then show ?thesis
      using ok n by (auto simp: shared_copy_def intro!: attach_ok strong_held)
  next
    case (Assign i j)
    then show ?thesis
      using ok n R[of i] by (auto simp: shared_assign_def shared_copy_def intro!: attach_ok strong_held[OF R(1)])
  next
    case (Move_assign i j)
    then show ?thesis using ok n R[of i] by (auto simp: shared_move_assign_def intro!: move_ok)
  next
    case (Weak_of w i)
    then show ?thesis using ok n by (auto simp: weak_of_shared_def intro!: weak_attach_ok strong_has_block)
  next
    case (Weak_copy w v)
    then show ?thesis using ok n by (auto simp: weak_copy_def intro!: weak_attach_ok weak_has_block)
  next
    case (Weak_assign_shared w i)
    then show ?thesis
      using n W[of w] by (auto simp: weak_assign_shared_def weak_of_shared_def intro!: weak_attach_ok strong_has_block[OF W(1)])
  next
    case (Weak_assign w v)
    then show ?thesis
      using ok n W[of w] by (auto simp: weak_assign_def weak_copy_def intro!: weak_attach_ok weak_has_block[OF W(1)])
  next
    case (Weak_move_assign w v)
    then show ?thesis using ok n W[of w] by (auto simp: weak_move_assign_def intro!: weak_move_ok)
  next
    case (Lock i w)
    then show ?thesis
      using ok n by (auto simp: weak_lock_def set_strong_def count_at_None intro!: attach_ok alive_held)
  qed (use ok n R W in \<open>auto intro!: construct_ok move_ok release_ok weak_move_ok\<close>)
qed

lemma shared_run_ok:
  assumes "n < 2 ^ 32" "list_all (\<lambda>op. op_target op < n) ops"
  shows "pointers_ok n (shared_run run_log ops)"
proof -
  have "pointers_ok n s \<Longrightarrow> pointers_ok n (fold (shared_step run_log) ops s)" for s
    using assms(2) by (induction ops arbitrary: s) (simp_all add: shared_step_ok[OF _ _ assms(1)])
  then show ?thesis by (simp add: shared_run_def no_pointers_ok)
qed

section \<open>RefPtr is SharedPtr with other field names\<close>

definition as_shared_block :: "RefControlBlock \<Rightarrow> SharedControlBlock" where
  "as_shared_block b = \<lparr>cb_ptr = rb_ptr b, cb_destroy = rb_destroy b, cb_strongs = rb_refs b, cb_weaks = rb_views b,
     cb_magic = rb_magic b\<rparr>"

definition as_shared :: "rptr_state \<Rightarrow> shared_state" where
  "as_shared s = \<lparr>blocks = (\<lambda>c. map_option as_shared_block (blocks s c)), made = made s, strong = strong s,
     weak = weak s, log = log s, handed = handed s, fault = fault s\<rparr>"

lemma as_shared_sel [simp]:
  "strong (as_shared s) = strong s" "weak (as_shared s) = weak s" "made (as_shared s) = made s"
  "blocks (as_shared s) c = map_option as_shared_block (blocks s c)"
  by (simp_all add: as_shared_def)

lemma as_shared_upd [simp]:
  "as_shared (set_strong i cb s) = set_strong i cb (as_shared s)"
  "as_shared (set_weak i cb s) = set_weak i cb (as_shared s)"
  "as_shared (put_block c b s) = put_block c (as_shared_block b) (as_shared s)"
  "as_shared (dealloc c s) = dealloc c (as_shared s)"
  "as_shared (s\<lparr>made := m\<rparr>) = (as_shared s)\<lparr>made := m\<rparr>"
  "as_shared (s\<lparr>handed := h @ [x]\<rparr>) = (as_shared s)\<lparr>handed := h @ [x]\<rparr>"
  "as_shared (s\<lparr>fault := f\<rparr>) = (as_shared s)\<lparr>fault := f\<rparr>"
  "as_shared (run_log c d p s) = run_log c d p (as_shared s)"
  by (auto simp: as_shared_def pointer_defs run_log_def fun_eq_iff)

lemma as_shared_block_upd [simp]:
  "as_shared_block (b\<lparr>rb_refs := x\<rparr>) = (as_shared_block b)\<lparr>cb_strongs := x\<rparr>"
  "as_shared_block (b\<lparr>rb_views := x\<rparr>) = (as_shared_block b)\<lparr>cb_weaks := x\<rparr>"
  "as_shared_block (b\<lparr>rb_ptr := p\<rparr>) = (as_shared_block b)\<lparr>cb_ptr := p\<rparr>"
  "as_shared_block (b\<lparr>rb_destroy := d\<rparr>) = (as_shared_block b)\<lparr>cb_destroy := d\<rparr>"
  "cb_strongs (as_shared_block b) = rb_refs b" "cb_weaks (as_shared_block b) = rb_views b"
  "cb_ptr (as_shared_block b) = rb_ptr b" "cb_destroy (as_shared_block b) = rb_destroy b"
  by (simp_all add: as_shared_block_def)

lemma block_sel [simp]:
  "blocks (put_block c b s) c = Some b" "blocks (run_log c d p s) = blocks s"
  by (simp_all add: put_block_def run_log_def)

lemma as_shared_fields [simp]: "handed (as_shared s) = handed s"
  by (simp add: as_shared_def)

lemma as_shared_no_pointers [simp]: "as_shared no_pointers = no_pointers"
  by (simp add: as_shared_def no_pointers_def)

lemma as_shared_construct: "as_shared (rptr_construct i p d ok s) = shared_construct i p d ok (as_shared s)"
  by (simp add: rptr_construct_def shared_construct_def as_shared_block_def split: option.split)

lemma as_shared_attach: "as_shared (rptr_attach i cb s) = shared_attach i cb (as_shared s)"
  by (simp add: rptr_attach_def shared_attach_def with_block_def split: option.split)

lemma as_shared_view_attach: "as_shared (view_attach i cb s) = weak_attach i cb (as_shared s)"
  by (simp add: view_attach_def weak_attach_def with_block_def split: option.split)

lemma as_shared_reset: "as_shared (rptr_reset run_log i s) = shared_reset run_log i (as_shared s)"
  by (simp add: rptr_reset_def shared_reset_def with_block_def Let_def split: option.split)

lemma as_shared_release: "as_shared (rptr_release run_log i s) = shared_release run_log i (as_shared s)"
  by (simp add: rptr_release_def shared_release_def with_block_def as_shared_reset split: option.split)

lemma as_shared_view_release: "as_shared (view_release w s) = weak_release w (as_shared s)"
  by (simp add: view_release_def weak_release_def with_block_def Let_def split: option.split)

lemma as_shared_variables:
  "strong (rptr_reset run_log i s) = strong (shared_reset run_log i (as_shared s))"
  "strong (view_release w s) = strong (weak_release w (as_shared s))"
  "weak (view_release w s) = weak (weak_release w (as_shared s))"
  by (simp_all flip: as_shared_reset as_shared_view_release)

lemma as_shared_alive [simp]: "weak_alive (as_shared s) w = view_alive s w"
  by (simp add: weak_alive_def view_alive_def split: option.split)

lemmas as_shared_ops = as_shared_construct as_shared_attach as_shared_view_attach as_shared_reset
  as_shared_release as_shared_view_release as_shared_variables

definition locks :: "ptr_op \<Rightarrow> bool" where
  "locks op = (case op of Lock i w \<Rightarrow> True | _ \<Rightarrow> False)"

lemma as_shared_step: "\<not> locks op \<Longrightarrow> as_shared (rptr_step run_log op s) = shared_step run_log op (as_shared s)"
  by (cases op)
    (simp_all add: as_shared_ops rptr_copy_def shared_copy_def rptr_move_def shared_move_def rptr_assign_def shared_assign_def
      rptr_move_assign_def shared_move_assign_def view_of_ref_def weak_of_shared_def view_copy_def weak_copy_def
      view_move_def weak_move_def view_assign_ref_def weak_assign_shared_def view_assign_def weak_assign_def
      view_move_assign_def weak_move_assign_def locks_def)

lemma as_shared_run:
  assumes "\<not> list_ex locks ops" shows "as_shared (rptr_run run_log ops) = shared_run run_log ops"
proof -
  have "as_shared (fold (rptr_step run_log) ops s) = fold (shared_step run_log) ops (as_shared s)" for s
    using assms by (induction ops arbitrary: s) (simp_all add: as_shared_step)
  then show ?thesis by (simp add: rptr_run_def shared_run_def)
qed

section \<open>Properties\<close>

lemma unique_move_assign_spec:
  assumes "i \<noteq> j"
  shows "unique_move_assign i j s =
    ((fst s)(i := fst s j, j := null_handle), fn_deleter (uh_destroy (fst s i)) (uh_ptr (fst s i)) (snd s))"
  using assms
  by (auto simp: unique_move_assign_def unique_move_def unique_reset_def fn_deleter_def Let_def split: option.splits)

text \<open>A deleter that drops the last weak pointer to the block it is called for frees the block under \<open>reset\<close>.\<close>

lemma deleter_drops_own_weak_pointer:
  "fault (shared_run (\<lambda>c d p s. weak_release 0 (run_log c d p s))
     [Construct 0 (Some 7) (Some 1) True, Weak_of 0 0, Drop 0])"
  by code_simp

text \<open>C11. Over every program on fewer than \<open>2^32\<close> pointer variables, in one thread, whose deleters do not use
  the pointers (\<open>deleter_drops_own_weak_pointer\<close> shows what one that does can cause): no freed control block is touched;
  while a strong pointer to an object exists the object is
  neither destroyed nor handed out, every such pointer gives it and the use count is exact; once none
  exists, an object with a deleter has been destroyed by it or handed out, exactly once, and one without has been
  handed out once or is left alone; and a control block is freed exactly when no strong or weak pointer refers to it.
  \<open>RefPtr\<close> and \<open>ViewPtr\<close> go through the same states in every program that does not call \<open>ViewPtr::lock\<close>, which does
  not compile.\<close>

theorem shared_pointers_exactly_once:
  assumes "n < 2 ^ 32" "list_all (\<lambda>op. op_target op < n) ops"
  shows "let s = shared_run run_log ops in
    \<not> fault s \<and> (\<not> list_ex locks ops \<longrightarrow> as_shared (rptr_run run_log ops) = s) \<and>
    (\<forall>c < length (made s).
      (if \<exists>i. strong s i = Some c
       then fates s c = [] \<and> (\<forall>i. strong s i = Some c \<longrightarrow>
         shared_get s i = Some (fst (made s ! c)) \<and> unat (shared_use_count s i) = card {k. strong s k = Some c})
       else fates s c = [(c, Some (fst (made s ! c)), snd (made s ! c))] \<or>
         snd (made s ! c) = None \<and> fates s c = []) \<and>
      (blocks s c = None \<longleftrightarrow> (\<forall>i. strong s i \<noteq> Some c \<and> weak s i \<noteq> Some c)))"
proof -
  let ?s = "shared_run run_log ops"
  have ok: "pointers_ok n ?s" using assms by (rule shared_run_ok)
  note D = pointers_okD(1-3)[OF ok]
  note pos = count_at_pos[OF D(2)] count_at_pos[OF D(3)]
  have held: "fates ?s c = [] \<and> (\<forall>i. strong ?s i = Some c \<longrightarrow>
      shared_get ?s i = Some (fst (made ?s ! c)) \<and> unat (shared_use_count ?s i) = card {k. strong ?s k = Some c})"
    if "strong ?s j = Some c" for j c
    using ok that by (rule strong_cell) (simp add: shared_get_def shared_use_count_def count_at_def)
  have gone: "fates ?s c = [(c, Some (fst (made ?s ! c)), snd (made ?s ! c))] \<or>
      snd (made ?s ! c) = None \<and> fates ?s c = []"
    if "c < length (made ?s)" "\<not> (\<exists>i. strong ?s i = Some c)" for c
    using pointers_okD(4)[OF ok, of c] that pos(1)[of c] by (simp add: cell_ok_def object_ok_def)
  have freed: "blocks ?s c = None \<longleftrightarrow> (\<forall>i. strong ?s i \<noteq> Some c \<and> weak ?s i \<noteq> Some c)" for c
    using pointers_okD(4)[OF ok, of c] pos(1)[of c] pos(2)[of c]
    by (cases "blocks ?s c") (auto simp: cell_ok_def block_ok_def)
  show ?thesis
    unfolding Let_def
  proof (intro conjI allI impI)
    fix c
    assume c: "c < length (made ?s)"
    show "if \<exists>i. strong ?s i = Some c
       then fates ?s c = [] \<and> (\<forall>i. strong ?s i = Some c \<longrightarrow>
         shared_get ?s i = Some (fst (made ?s ! c)) \<and> unat (shared_use_count ?s i) = card {k. strong ?s k = Some c})
       else fates ?s c = [(c, Some (fst (made ?s ! c)), snd (made ?s ! c))] \<or>
         snd (made ?s ! c) = None \<and> fates ?s c = []"
      using held gone[OF c] by (cases "\<exists>i. strong ?s i = Some c") (simp only: if_True if_False, blast)+
  qed (use D(1) as_shared_run freed in blast)+
qed

theorem shared_pointers_exactly_once_witness:
  "fates (shared_run run_log [Construct 0 (Some 7) (Some 1) True, Weak_of 1 0, Copy 2 0, Drop 0, Drop 2]) 0 =
     [(0, Some 7, Some 1)] \<and>
   blocks (shared_run run_log [Construct 0 (Some 7) (Some 1) True, Weak_of 1 0, Copy 2 0, Drop 0, Drop 2]) 0 \<noteq> None"
proof -
  let ?ops = "[Construct 0 (Some 7) (Some 1) True, Weak_of 1 0, Copy 2 0, Drop 0, Drop 2]"
  have e: "made (shared_run run_log ?ops) = [(7, Some 1)]" "strong (shared_run run_log ?ops) = (\<lambda>_. None)"
    "weak (shared_run run_log ?ops) 1 = Some 0"
    by (simp_all add: shared_run_def no_pointers_def shared_construct_def shared_copy_def shared_attach_def
        shared_reset_def weak_of_shared_def weak_attach_def with_block_def pointer_defs run_log_def fun_eq_iff)
  show ?thesis
    using shared_pointers_exactly_once[of 3 ?ops] e by (auto simp: Let_def)
qed

end
