(* ===== verification/Pointer_Race.thy ===== *)
theory Pointer_Race
  imports Pointer_Lifetime
begin

text \<open>
  \<open>SharedPtr\<close> and \<open>WeakPtr\<close> used by several threads at once. A pointer variable belongs to one thread (two
  threads on one variable would race on \<open>_cb\<close> itself), the control block is shared. Each operation is cut
  at its accesses to the block: a step is one atomic counter access, one use of \<open>ptr\<close> and \<open>destroy\<close>, or the
  deallocation, and between two steps every other variable may step. \<open>strong_pc\<close> and \<open>weak_pc\<close> say how far
  the operation in progress on a variable has come; a step that reads or writes a freed block, or frees it
  again, sets \<open>race_fault\<close>. The deleter is an opaque call recorded in \<open>race_log\<close>.
\<close>

section \<open>One control block and the operations in progress on it\<close>

datatype strong_pc = S_null | S_hold | S_handout | S_reset | S_destroy | S_clear | S_weaks | S_free

datatype weak_pc = W_null | W_hold | W_check | W_free | W_lock nat

record race =
  race_block :: SharedControlBlock
  race_live :: bool
  race_strong :: "nat \<Rightarrow> strong_pc"
  race_weak :: "nat \<Rightarrow> weak_pc"
  race_log :: "(obj option \<times> deleter) list"
  race_handed :: "(obj option \<times> deleter option) list"
  race_frees :: nat
  race_fault :: bool

text \<open>The state after \<open>SharedPtr(p, d)\<close> initialised variable 0.\<close>

definition race_init :: "obj \<Rightarrow> deleter option \<Rightarrow> race" where
  "race_init p d = \<lparr>race_block = \<lparr>cb_ptr = Some p, cb_destroy = d, cb_strongs = 1, cb_weaks = 0, cb_magic = SKL_ABIX_MAGIC64\<rparr>,
     race_live = True, race_strong = (\<lambda>_. S_null)(0 := S_hold), race_weak = (\<lambda>_. W_null), race_log = [],
     race_handed = [], race_frees = 0, race_fault = False\<rparr>"

definition strong_at :: "nat \<Rightarrow> strong_pc \<Rightarrow> race \<Rightarrow> race" where
  "strong_at i q s = s\<lparr>race_strong := (race_strong s)(i := q)\<rparr>"

definition weak_at :: "nat \<Rightarrow> weak_pc \<Rightarrow> race \<Rightarrow> race" where
  "weak_at w q s = s\<lparr>race_weak := (race_weak s)(w := q)\<rparr>"

text \<open>An access to the block: the block may already be gone.\<close>

definition race_touch :: "race \<Rightarrow> race" where
  "race_touch s = s\<lparr>race_fault := race_fault s \<or> \<not> race_live s\<rparr>"

definition race_put :: "(SharedControlBlock \<Rightarrow> SharedControlBlock) \<Rightarrow> race \<Rightarrow> race" where
  "race_put f s = (race_touch s)\<lparr>race_block := f (race_block s)\<rparr>"

definition race_dealloc :: "race \<Rightarrow> race" where
  "race_dealloc s = (race_touch s)\<lparr>race_live := False, race_frees := race_frees s + 1\<rparr>"

section \<open>The steps of SharedPtr\<close>

text \<open>\<open>++_cb->strongs\<close> of the copy constructor: the source variable stays what it is.\<close>

definition race_copy :: "nat \<Rightarrow> nat \<Rightarrow> race \<Rightarrow> race option" where
  "race_copy i j s = (if race_strong s i = S_null \<and> race_strong s j = S_hold
     then Some (strong_at i S_hold (race_put (cb_strongs_update (\<lambda>k. k + 1)) s)) else None)"

definition race_move :: "nat \<Rightarrow> nat \<Rightarrow> race \<Rightarrow> race option" where
  "race_move i j s = (if race_strong s i = S_null \<and> race_strong s j = S_hold
     then Some (strong_at j S_null (strong_at i S_hold s)) else None)"

text \<open>\<open>reset\<close>: the decrement, the deleter, the clearing of \<open>ptr\<close>, the load of \<open>weaks\<close>, the deallocation.\<close>

definition race_dec :: "nat \<Rightarrow> race \<Rightarrow> race option" where
  "race_dec i s = (if race_strong s i = S_hold \<or> race_strong s i = S_reset
     then (let k = cb_strongs (race_block s) - 1
       in Some (strong_at i (if k = 0 then S_destroy else S_null) (race_put (cb_strongs_update (\<lambda>_. k)) s)))
     else None)"

definition race_destroy :: "nat \<Rightarrow> race \<Rightarrow> race option" where
  "race_destroy i s = (if race_strong s i = S_destroy
     then (let t = strong_at i S_clear (race_touch s); b = race_block s
       in Some (case cb_destroy b of None \<Rightarrow> t | Some d \<Rightarrow> t\<lparr>race_log := race_log t @ [(cb_ptr b, d)]\<rparr>))
     else None)"

definition race_clear :: "nat \<Rightarrow> race \<Rightarrow> race option" where
  "race_clear i s = (if race_strong s i = S_clear
     then Some (strong_at i S_weaks (race_put (cb_ptr_update (\<lambda>_. None)) s)) else None)"

definition race_load_weaks :: "nat \<Rightarrow> race \<Rightarrow> race option" where
  "race_load_weaks i s = (if race_strong s i = S_weaks
     then Some (strong_at i (if cb_weaks (race_block s) = 0 then S_free else S_null) (race_touch s)) else None)"

definition race_free :: "nat \<Rightarrow> race \<Rightarrow> race option" where
  "race_free i s = (if race_strong s i = S_free then Some (strong_at i S_null (race_dealloc s)) else None)"

text \<open>\<open>release\<close>: the load of \<open>strongs\<close>, the transfer of the object, then \<open>reset\<close> from its decrement on.\<close>

definition race_release_load :: "nat \<Rightarrow> race \<Rightarrow> race option" where
  "race_release_load i s = (if race_strong s i = S_hold
     then Some (strong_at i (if cb_strongs (race_block s) \<noteq> 1 then S_hold else S_handout) (race_touch s)) else None)"

definition race_handout :: "nat \<Rightarrow> race \<Rightarrow> race option" where
  "race_handout i s = (if race_strong s i = S_handout
     then (let b = race_block s; t = race_put (\<lambda>b. b\<lparr>cb_ptr := None, cb_destroy := None\<rparr>) s
       in Some (strong_at i S_reset (t\<lparr>race_handed := race_handed t @ [(cb_ptr b, cb_destroy b)]\<rparr>)))
     else None)"

section \<open>The steps of WeakPtr\<close>

definition race_weak_of :: "nat \<Rightarrow> nat \<Rightarrow> race \<Rightarrow> race option" where
  "race_weak_of w j s = (if race_weak s w = W_null \<and> race_strong s j = S_hold
     then Some (weak_at w W_hold (race_put (cb_weaks_update (\<lambda>k. k + 1)) s)) else None)"

definition race_weak_copy :: "nat \<Rightarrow> nat \<Rightarrow> race \<Rightarrow> race option" where
  "race_weak_copy w v s = (if race_weak s w = W_null \<and> race_weak s v = W_hold
     then Some (weak_at w W_hold (race_put (cb_weaks_update (\<lambda>k. k + 1)) s)) else None)"

definition race_weak_move :: "nat \<Rightarrow> nat \<Rightarrow> race \<Rightarrow> race option" where
  "race_weak_move w v s = (if race_weak s w = W_null \<and> race_weak s v = W_hold
     then Some (weak_at v W_null (weak_at w W_hold s)) else None)"

text \<open>\<open>release\<close>: the decrement, the read of \<open>strongs\<close> when it gave zero, the deallocation.\<close>

definition race_weak_dec :: "nat \<Rightarrow> race \<Rightarrow> race option" where
  "race_weak_dec w s = (if race_weak s w = W_hold
     then (let k = cb_weaks (race_block s) - 1
       in Some (weak_at w (if k = 0 then W_check else W_null) (race_put (cb_weaks_update (\<lambda>_. k)) s)))
     else None)"

definition race_weak_check :: "nat \<Rightarrow> race \<Rightarrow> race option" where
  "race_weak_check w s = (if race_weak s w = W_check
     then Some (weak_at w (if cb_strongs (race_block s) = 0 then W_free else W_null) (race_touch s)) else None)"

definition race_weak_free :: "nat \<Rightarrow> race \<Rightarrow> race option" where
  "race_weak_free w s = (if race_weak s w = W_free then Some (weak_at w W_null (race_dealloc s)) else None)"

text \<open>\<open>lock\<close>: the read of \<open>strongs\<close> in \<open>alive\<close>, then the increment in the constructor of the result.\<close>

definition race_lock_check :: "nat \<Rightarrow> nat \<Rightarrow> race \<Rightarrow> race option" where
  "race_lock_check w i s = (if race_weak s w = W_hold \<and> race_strong s i = S_null
     then Some (weak_at w (if 0 < cb_strongs (race_block s) then W_lock i else W_hold) (race_touch s)) else None)"

definition race_lock_inc :: "nat \<Rightarrow> race \<Rightarrow> race option" where
  "race_lock_inc w s = (case race_weak s w of
     W_lock i \<Rightarrow> if race_strong s i = S_null
       then Some (weak_at w W_hold (strong_at i S_hold (race_put (cb_strongs_update (\<lambda>k. k + 1)) s))) else None
   | _ \<Rightarrow> None)"

section \<open>Interleavings\<close>

datatype race_op =
    R_copy nat nat | R_move nat nat | R_dec nat | R_destroy nat | R_clear nat | R_load_weaks nat | R_free nat
  | R_release_load nat | R_handout nat | R_weak_of nat nat | R_weak_copy nat nat | R_weak_move nat nat
  | R_weak_dec nat | R_weak_check nat | R_weak_free nat | R_lock_check nat nat | R_lock_inc nat

fun race_step :: "race_op \<Rightarrow> race \<Rightarrow> race option" where
  "race_step (R_copy i j) s = race_copy i j s"
| "race_step (R_move i j) s = race_move i j s"
| "race_step (R_dec i) s = race_dec i s"
| "race_step (R_destroy i) s = race_destroy i s"
| "race_step (R_clear i) s = race_clear i s"
| "race_step (R_load_weaks i) s = race_load_weaks i s"
| "race_step (R_free i) s = race_free i s"
| "race_step (R_release_load i) s = race_release_load i s"
| "race_step (R_handout i) s = race_handout i s"
| "race_step (R_weak_of w j) s = race_weak_of w j s"
| "race_step (R_weak_copy w v) s = race_weak_copy w v s"
| "race_step (R_weak_move w v) s = race_weak_move w v s"
| "race_step (R_weak_dec w) s = race_weak_dec w s"
| "race_step (R_weak_check w) s = race_weak_check w s"
| "race_step (R_weak_free w) s = race_weak_free w s"
| "race_step (R_lock_check w i) s = race_lock_check w i s"
| "race_step (R_lock_inc w) s = race_lock_inc w s"

fun race_run :: "race_op list \<Rightarrow> race \<Rightarrow> race option" where
  "race_run [] s = Some s"
| "race_run (op # ops) s = (case race_step op s of None \<Rightarrow> None | Some s' \<Rightarrow> race_run ops s')"

text \<open>The variable a step may start to use, and the steps of programs that neither drop nor lock a weak
  pointer: those in which the weak pointers only keep the block.\<close>

fun race_target :: "race_op \<Rightarrow> nat" where
  "race_target (R_copy i j) = i"
| "race_target (R_move i j) = i"
| "race_target (R_weak_of w j) = w"
| "race_target (R_weak_copy w v) = w"
| "race_target (R_weak_move w v) = w"
| "race_target (R_lock_check w i) = i"
| "race_target _ = 0"

fun keeps_weaks :: "race_op \<Rightarrow> bool" where
  "keeps_weaks (R_weak_dec w) = False"
| "keeps_weaks (R_weak_check w) = False"
| "keeps_weaks (R_weak_free w) = False"
| "keeps_weaks (R_lock_check w i) = False"
| "keeps_weaks (R_lock_inc w) = False"
| "keeps_weaks _ = True"

lemmas race_defs = race_copy_def race_move_def race_dec_def race_destroy_def race_clear_def race_load_weaks_def
  race_free_def race_release_load_def race_handout_def race_weak_of_def race_weak_copy_def race_weak_move_def
  race_weak_dec_def race_weak_check_def race_weak_free_def race_lock_check_def race_lock_inc_def

lemmas race_prims = strong_at_def weak_at_def race_touch_def race_put_def race_dealloc_def

section \<open>Programs that keep their weak pointers\<close>

text \<open>The states of such a program. \<open>race_shared\<close>: some variables hold the object. \<open>race_solo\<close>: one variable is
  the last and is inside \<open>release\<close> or \<open>reset\<close>. \<open>race_gone\<close>: no variable is left.\<close>

definition race_whole :: "obj \<Rightarrow> deleter option \<Rightarrow> race \<Rightarrow> bool" where
  "race_whole p d s \<longleftrightarrow> cb_ptr (race_block s) = Some p \<and> cb_destroy (race_block s) = d \<and> race_log s = [] \<and> race_handed s = []"

definition race_given :: "obj \<Rightarrow> deleter option \<Rightarrow> race \<Rightarrow> bool" where
  "race_given p d s \<longleftrightarrow> cb_ptr (race_block s) = None \<and> cb_destroy (race_block s) = None \<and> race_log s = [] \<and>
     race_handed s = [(Some p, d)]"

definition race_settled :: "obj \<Rightarrow> deleter option \<Rightarrow> race \<Rightarrow> bool" where
  "race_settled p d s \<longleftrightarrow> race_log s = [] \<and> race_handed s = [(Some p, d)] \<or>
     race_log s = (case d of None \<Rightarrow> [] | Some d' \<Rightarrow> [(Some p, d')]) \<and> race_handed s = []"

definition race_shared :: "obj \<Rightarrow> deleter option \<Rightarrow> race \<Rightarrow> bool" where
  "race_shared p d s \<longleftrightarrow> (\<forall>i. race_strong s i \<in> {S_null, S_hold}) \<and> (\<exists>i. race_strong s i = S_hold) \<and>
     unat (cb_strongs (race_block s)) = card {i. race_strong s i = S_hold} \<and> race_live s \<and> race_frees s = 0 \<and> race_whole p d s"

fun race_solo :: "strong_pc \<Rightarrow> obj \<Rightarrow> deleter option \<Rightarrow> race \<Rightarrow> bool" where
  "race_solo S_handout p d s \<longleftrightarrow> cb_strongs (race_block s) = 1 \<and> race_whole p d s"
| "race_solo S_reset p d s \<longleftrightarrow> cb_strongs (race_block s) = 1 \<and> race_given p d s"
| "race_solo S_destroy p d s \<longleftrightarrow> cb_strongs (race_block s) = 0 \<and> (race_whole p d s \<or> race_given p d s)"
| "race_solo S_clear p d s \<longleftrightarrow> cb_strongs (race_block s) = 0 \<and> race_settled p d s"
| "race_solo S_weaks p d s \<longleftrightarrow> cb_strongs (race_block s) = 0 \<and> race_settled p d s"
| "race_solo S_free p d s \<longleftrightarrow> cb_strongs (race_block s) = 0 \<and> race_settled p d s \<and> cb_weaks (race_block s) = 0"
| "race_solo _ p d s \<longleftrightarrow> False"

definition race_gone :: "obj \<Rightarrow> deleter option \<Rightarrow> race \<Rightarrow> bool" where
  "race_gone p d s \<longleftrightarrow> race_strong s = (\<lambda>_. S_null) \<and> race_settled p d s \<and>
     (if cb_weaks (race_block s) = 0 then \<not> race_live s \<and> race_frees s = 1 else race_live s \<and> race_frees s = 0)"

definition race_base :: "nat \<Rightarrow> race \<Rightarrow> bool" where
  "race_base n s \<longleftrightarrow> \<not> race_fault s \<and> (\<forall>i \<ge> n. race_strong s i = S_null \<and> race_weak s i = W_null) \<and>
     (\<forall>w. race_weak s w \<in> {W_null, W_hold}) \<and> unat (cb_weaks (race_block s)) = card {w. race_weak s w = W_hold}"

definition race_ok :: "nat \<Rightarrow> obj \<Rightarrow> deleter option \<Rightarrow> race \<Rightarrow> bool" where
  "race_ok n p d s \<longleftrightarrow> race_base n s \<and> (race_shared p d s \<or>
     (\<exists>i q. race_strong s = (\<lambda>_. S_null)(i := q) \<and> race_live s \<and> race_frees s = 0 \<and> race_solo q p d s) \<or>
     race_gone p d s)"

lemma race_okE:
  assumes "race_ok n p d s"
  obtains (shared) "race_base n s" "race_shared p d s"
  | (solo) i q where "race_base n s" "race_strong s = (\<lambda>_. S_null)(i := q)" "race_live s" "race_frees s = 0" "race_solo q p d s"
  | (gone) "race_base n s" "race_gone p d s"
  using assms by (auto simp: race_ok_def)

lemma race_init_ok: "0 < n \<Longrightarrow> race_ok n p d (race_init p d)"
proof -
  assume n: "0 < n"
  have "{i. ((\<lambda>_. S_null)(0 := S_hold)) i = S_hold} = {0 :: nat}" by auto
  with n show ?thesis
    by (auto simp: race_ok_def race_base_def race_shared_def race_whole_def race_init_def)
qed

text \<open>Counting the variables in a state.\<close>

lemma card_set:
  assumes "\<And>i. n \<le> i \<Longrightarrow> f i \<noteq> q" "f i \<noteq> q" "i < (n :: nat)"
  shows "card {k. (f(i := q)) k = q} = card {k. f k = q} + 1" and "card {k. (f(i := q)) k = q} \<le> n"
proof -
  have fin: "{k. (f(i := q)) k = q} \<subseteq> {..<n}" "{k. f k = q} \<subseteq> {..<n}"
    using assms(3) not_le assms(1) by (auto split: if_splits)
  have "{k. (f(i := q)) k = q} = insert i {k. f k = q}" by auto
  with fin assms(2) show "card {k. (f(i := q)) k = q} = card {k. f k = q} + 1"
    using finite_subset[OF fin(2)] by simp
  show "card {k. (f(i := q)) k = q} \<le> n" using card_mono[OF _ fin(1)] by simp
qed

lemma card_unset:
  assumes "\<And>i. n \<le> i \<Longrightarrow> f i \<noteq> q" "f i = q" "r \<noteq> q" "i < (n :: nat)"
  shows "card {k. f k = q} = card {k. (f(i := r)) k = q} + 1"
proof -
  have "(f(i := r))(i := q) = f" using assms(2) by (simp add: fun_upd_idem)
  then show ?thesis using card_set(1)[of n "f(i := r)" q i] assms by auto
qed

lemma card_swap:
  assumes "\<And>i. n \<le> i \<Longrightarrow> f i \<noteq> q" "f i = r" "f j = q" "r \<noteq> q" "i < (n :: nat)"
  shows "card {k. (f(i := q, j := r)) k = q} = card {k. f k = q}"
proof -
  have "card {k. (f(i := q)) k = q} = card {k. (f(i := q, j := r)) k = q} + 1"
    using assms assms(1)[of j] by (intro card_unset[of n]) (auto simp: not_le[symmetric])
  with card_set(1)[of n f q i] assms show ?thesis by simp
qed

lemma race_live_sel [simp]:
  "race_live (strong_at i q s) = race_live s" "race_live (weak_at i r s) = race_live s"
  "race_live (race_touch s) = race_live s" "race_live (race_put f s) = race_live s"
  by (simp_all add: race_prims)

lemma race_base_strong:
  assumes "race_base n s" "i < n" "race_live s"
  shows "race_base n (strong_at i q s)" "race_base n (race_touch s)"
    "race_base n (race_put (cb_strongs_update f) s)" "race_base n (race_put (cb_ptr_update g) s)"
    "race_base n (s\<lparr>race_log := l\<rparr>)" "race_base n (s\<lparr>race_handed := h\<rparr>)" "race_base n (race_dealloc s)"
    "race_base n (race_put (\<lambda>b. b\<lparr>cb_ptr := u, cb_destroy := v\<rparr>) s)"
  using assms by (auto simp: race_base_def race_prims)

lemma race_base_below: "race_base n s \<Longrightarrow> race_strong s i \<noteq> S_null \<Longrightarrow> i < n"
  by (rule ccontr) (simp add: race_base_def)

lemma race_base_weak_below: "race_base n s \<Longrightarrow> race_weak s i \<noteq> W_null \<Longrightarrow> i < n"
  by (rule ccontr) (simp add: race_base_def)

lemma race_copy_ok:
  assumes "race_ok n p d s" "race_copy i j s = Some s'" "i < n" "n < 2 ^ 32"
  shows "race_ok n p d s'"
  using assms(1)
proof (cases rule: race_okE)
  case shared
  have ij: "race_strong s i = S_null" "race_strong s j = S_hold"
    and s': "s' = strong_at i S_hold (race_put (cb_strongs_update (\<lambda>k. k + 1)) s)"
    using assms(2) by (auto simp: race_copy_def split: if_splits)
  have live: "race_live s" using shared by (simp add: race_shared_def)
  have c: "card {k. ((race_strong s)(i := S_hold)) k = S_hold} = card {k. race_strong s k = S_hold} + 1"
    "card {k. ((race_strong s)(i := S_hold)) k = S_hold} \<le> n"
    using card_set[of n "race_strong s" S_hold i] shared(1) ij assms(3) by (auto simp: race_base_def)
  have "unat (cb_strongs (race_block s) + 1) = unat (cb_strongs (race_block s)) + 1"
    using c shared(2) assms(4) by (intro unat_incr[of _ n]) (simp_all add: race_shared_def)
  then have "race_shared p d s'"
    using shared(2) c ij by (auto simp: s' race_shared_def race_prims race_whole_def)
  moreover have "race_base n s'"
    using shared live assms(3) by (simp add: s' race_base_strong)
  ultimately show ?thesis by (simp add: race_ok_def)
qed (use assms(2) in \<open>auto simp: race_copy_def race_gone_def split: if_splits\<close>)

lemma race_move_ok:
  assumes "race_ok n p d s" "race_move i j s = Some s'" "i < n"
  shows "race_ok n p d s'"
  using assms(1)
proof (cases rule: race_okE)
  case shared
  have ij: "race_strong s i = S_null" "race_strong s j = S_hold" and s': "s' = strong_at j S_null (strong_at i S_hold s)"
    using assms(2) by (auto simp: race_move_def split: if_splits)
  have "card {k. ((race_strong s)(i := S_hold, j := S_null)) k = S_hold} = card {k. race_strong s k = S_hold}"
    using shared(1) ij assms(3) by (intro card_swap[of n]) (auto simp: race_base_def)
  moreover have "((race_strong s)(i := S_hold, j := S_null)) i = S_hold" using ij by auto
  then have "\<exists>k. ((race_strong s)(i := S_hold, j := S_null)) k = S_hold" by blast
  ultimately have "race_shared p d s'"
    using shared(2) ij by (simp add: s' race_shared_def race_prims race_whole_def)
  moreover have "race_base n s'"
    using shared race_base_below[OF shared(1), of j] ij(2) assms(3) by (simp add: s' race_base_strong race_shared_def)
  ultimately show ?thesis by (simp add: race_ok_def)
qed (use assms(2) in \<open>auto simp: race_move_def race_gone_def split: if_splits\<close>)

text \<open>The last of the variables that hold the object.\<close>

lemma race_shared_last:
  assumes "race_base n s" "race_shared p d s" "race_strong s i = S_hold"
  shows "cb_strongs (race_block s) = 1 \<longleftrightarrow> race_strong s = (\<lambda>_. S_null)(i := S_hold)"
proof -
  let ?H = "{k. race_strong s k = S_hold}"
  have "?H = {i}" if c: "card ?H = 1"
  proof -
    obtain x where x: "?H = {x}" using c by (rule card_1_singletonE)
    moreover have "i \<in> ?H" using assms(3) by simp
    ultimately show ?thesis by simp
  qed
  then have "card ?H = 1 \<longleftrightarrow> ?H = {i}" by auto
  then have "unat (cb_strongs (race_block s)) = 1 \<longleftrightarrow> ?H = {i}"
    using assms(2) by (simp add: race_shared_def)
  moreover have "?H = {i} \<longleftrightarrow> race_strong s = (\<lambda>_. S_null)(i := S_hold)"
  proof
    assume H: "?H = {i}"
    show "race_strong s = (\<lambda>_. S_null)(i := S_hold)"
    proof
      fix k
      show "race_strong s k = ((\<lambda>_. S_null)(i := S_hold)) k"
        using H assms(2) by (cases "k = i") (auto simp: race_shared_def)
    qed
  qed (auto split: if_splits)
  ultimately show ?thesis by (metis unat_1 word_unat_eq_iff)
qed

lemma race_solo_okI:
  assumes "race_base n s" "race_strong s = (\<lambda>_. S_null)(i := q)" "race_live s" "race_frees s = 0" "race_solo q p d s"
  shows "race_ok n p d s"
  using assms by (auto simp: race_ok_def)

lemma race_dec_ok:
  assumes "race_ok n p d s" "race_dec i s = Some s'"
  shows "race_ok n p d s'"
  using assms(1)
proof (cases rule: race_okE)
  case shared
  have "race_strong s i \<in> {S_null, S_hold}" using shared(2) by (simp add: race_shared_def)
  then have i: "race_strong s i = S_hold" using assms(2) by (auto simp: race_dec_def split: if_splits)
  let ?k = "cb_strongs (race_block s) - 1"
  have s': "s' = strong_at i (if ?k = 0 then S_destroy else S_null) (race_put (cb_strongs_update (\<lambda>_. ?k)) s)"
    using assms(2) i by (simp add: race_dec_def Let_def)
  have live: "race_live s" "i < n" using shared race_base_below[OF shared(1), of i] i by (simp_all add: race_shared_def)
  have base: "race_base n s'" using shared(1) live by (simp add: s' race_base_strong)
  show ?thesis
  proof (cases "?k = 0")
    case True
    then have "race_strong s = (\<lambda>_. S_null)(i := S_hold)" using race_shared_last[OF shared i] by simp
    with True shared(2) base show ?thesis
      by (intro race_solo_okI[of _ _ i S_destroy]) (simp_all add: s' race_prims race_shared_def race_whole_def)
  next
    case False
    have c: "card {k. race_strong s k = S_hold} = card {k. ((race_strong s)(i := S_null)) k = S_hold} + 1"
      using shared(1) i live by (intro card_unset[of n]) (auto simp: race_base_def)
    have u: "unat ?k = card {k. ((race_strong s)(i := S_null)) k = S_hold}"
      using c shared(2) by (subst unat_decr) (simp_all add: race_shared_def)
    have "0 < unat ?k" using False by (simp add: unat_gt_0)
    then have "0 < card {k. ((race_strong s)(i := S_null)) k = S_hold}" by (simp only: u)
    then have ex: "\<exists>k. ((race_strong s)(i := S_null)) k = S_hold"
      by (metis (mono_tags) Collect_empty_eq card.empty less_irrefl)
    have s'_sel: "race_strong s' = (race_strong s)(i := S_null)" "cb_strongs (race_block s') = ?k"
      "race_live s'" "race_frees s' = 0" "race_whole p d s'"
      using shared(2) False by (simp_all add: s' race_prims race_shared_def race_whole_def)
    have "\<forall>k. ((race_strong s)(i := S_null)) k \<in> {S_null, S_hold}"
      using shared(2) by (simp add: race_shared_def)
    then have "race_shared p d s'"
      unfolding race_shared_def s'_sel(1,2) using u ex s'_sel(3-5) by (intro conjI)
    with base show ?thesis by (simp add: race_ok_def)
  qed
next
  case (solo j q)
  then have j: "i = j" "q = S_reset" using assms(2) by (auto simp: race_dec_def split: if_splits)
  then have "s' = strong_at i S_destroy (race_put (cb_strongs_update (\<lambda>_. 0)) s)"
    using assms(2) solo by (simp add: race_dec_def)
  with solo j race_base_below[OF solo(1), of i] show ?thesis
    by (intro race_solo_okI[of _ _ i S_destroy]) (simp_all add: race_base_strong, simp_all add: race_prims race_given_def)
qed (use assms(2) in \<open>auto simp: race_dec_def race_gone_def split: if_splits\<close>)

text \<open>The steps only the last variable takes: what each leaves is the next state of \<open>race_solo\<close>.\<close>

lemma race_solo_at:
  assumes "race_ok n p d s" "race_strong s i = q" "q \<noteq> S_null" "q \<noteq> S_hold"
  shows "race_base n s" "i < n" "race_strong s = (\<lambda>_. S_null)(i := q)" "race_live s" "race_frees s = 0" "race_solo q p d s"
proof -
  have "race_base n s \<and> race_strong s = (\<lambda>_. S_null)(i := q) \<and> race_live s \<and> race_frees s = 0 \<and> race_solo q p d s"
    using assms(1)
  proof (cases rule: race_okE)
    case shared
    then have "race_strong s i \<in> {S_null, S_hold}" by (simp add: race_shared_def)
    with assms show ?thesis by simp
  next
    case (solo j r)
    with assms(2,3) have "j = i" "r = q" by (auto split: if_splits)
    with solo show ?thesis by simp
  next
    case gone
    with assms(2,3) show ?thesis by (simp add: race_gone_def)
  qed
  then show "race_base n s" "race_strong s = (\<lambda>_. S_null)(i := q)" "race_live s" "race_frees s = 0" "race_solo q p d s"
    by simp_all
  with assms(2,3) show "i < n" using race_base_below[of n s i] by simp
qed

lemma race_destroy_ok:
  assumes "race_ok n p d s" "race_destroy i s = Some s'"
  shows "race_ok n p d s'"
proof -
  have i: "race_strong s i = S_destroy" using assms(2) by (simp add: race_destroy_def split: if_splits)
  note A = race_solo_at[OF assms(1) i, simplified]
  have s': "s' = (strong_at i S_clear (race_touch s))\<lparr>race_log := race_log s @
      (case cb_destroy (race_block s) of None \<Rightarrow> [] | Some d \<Rightarrow> [(cb_ptr (race_block s), d)])\<rparr>"
    using assms(2) i by (auto simp: race_destroy_def race_prims Let_def split: option.splits)
  show ?thesis
  proof (rule race_solo_okI[of _ _ i S_clear])
    show "race_base n s'" using A by (simp add: s' race_base_strong)
    show "race_solo S_clear p d s'"
      using A(6) by (auto simp: s' race_prims race_settled_def race_whole_def race_given_def split: option.splits)
  qed (use A in \<open>simp_all add: s' race_prims\<close>)
qed

lemma race_clear_ok:
  assumes "race_ok n p d s" "race_clear i s = Some s'"
  shows "race_ok n p d s'"
proof -
  have i: "race_strong s i = S_clear" using assms(2) by (simp add: race_clear_def split: if_splits)
  note A = race_solo_at[OF assms(1) i, simplified]
  have s': "s' = strong_at i S_weaks (race_put (cb_ptr_update (\<lambda>_. None)) s)"
    using assms(2) i by (simp add: race_clear_def)
  show ?thesis
  proof (rule race_solo_okI[of _ _ i S_weaks])
    show "race_base n s'" using A by (simp add: s' race_base_strong)
  qed (use A in \<open>simp_all add: s' race_prims race_settled_def\<close>)
qed

lemma race_load_weaks_ok:
  assumes "race_ok n p d s" "race_load_weaks i s = Some s'"
  shows "race_ok n p d s'"
proof -
  have i: "race_strong s i = S_weaks" using assms(2) by (simp add: race_load_weaks_def split: if_splits)
  note A = race_solo_at[OF assms(1) i, simplified]
  have s': "s' = strong_at i (if cb_weaks (race_block s) = 0 then S_free else S_null) (race_touch s)"
    using assms(2) i by (simp add: race_load_weaks_def)
  have base: "race_base n s'" using A by (simp add: s' race_base_strong)
  show ?thesis
  proof (cases "cb_weaks (race_block s) = 0")
    case True
    with base A show ?thesis
      by (intro race_solo_okI[of _ _ i S_free]) (simp_all add: s' race_prims race_settled_def)
  next
    case False
    with A have "race_gone p d s'" by (simp add: s' race_gone_def race_prims race_settled_def fun_eq_iff)
    with base show ?thesis by (simp add: race_ok_def)
  qed
qed

lemma race_free_ok:
  assumes "race_ok n p d s" "race_free i s = Some s'"
  shows "race_ok n p d s'"
proof -
  have i: "race_strong s i = S_free" using assms(2) by (simp add: race_free_def split: if_splits)
  note A = race_solo_at[OF assms(1) i, simplified]
  have s': "s' = strong_at i S_null (race_dealloc s)" using assms(2) i by (simp add: race_free_def)
  have "race_gone p d s'" using A by (simp add: s' race_gone_def race_prims race_settled_def fun_eq_iff)
  moreover have "race_base n s'" using A by (simp add: s' race_prims race_base_def)
  ultimately show ?thesis by (simp add: race_ok_def)
qed

lemma race_handout_ok:
  assumes "race_ok n p d s" "race_handout i s = Some s'"
  shows "race_ok n p d s'"
proof -
  have i: "race_strong s i = S_handout" using assms(2) by (simp add: race_handout_def split: if_splits)
  note A = race_solo_at[OF assms(1) i, simplified]
  have s': "s' = strong_at i S_reset ((race_put (\<lambda>b. b\<lparr>cb_ptr := None, cb_destroy := None\<rparr>) s)
      \<lparr>race_handed := race_handed s @ [(cb_ptr (race_block s), cb_destroy (race_block s))]\<rparr>)"
    using assms(2) i by (simp add: race_handout_def race_prims Let_def)
  show ?thesis
  proof (rule race_solo_okI[of _ _ i S_reset])
    show "race_base n s'" using A by (simp add: s' race_base_strong)
  qed (use A in \<open>simp_all add: s' race_prims race_whole_def race_given_def\<close>)
qed

lemma race_release_load_ok:
  assumes "race_ok n p d s" "race_release_load i s = Some s'"
  shows "race_ok n p d s'"
  using assms(1)
proof (cases rule: race_okE)
  case shared
  have i: "race_strong s i = S_hold" using assms(2) by (simp add: race_release_load_def split: if_splits)
  then have s': "s' = strong_at i (if cb_strongs (race_block s) \<noteq> 1 then S_hold else S_handout) (race_touch s)"
    using assms(2) by (simp add: race_release_load_def)
  have live: "race_live s" "i < n" using shared race_base_below[OF shared(1), of i] i by (simp_all add: race_shared_def)
  have base: "race_base n s'" using shared(1) live by (simp add: s' race_base_strong)
  show ?thesis
  proof (cases "cb_strongs (race_block s) = 1")
    case True
    then have "race_strong s = (\<lambda>_. S_null)(i := S_hold)" using race_shared_last[OF shared i] by simp
    with True shared(2) base show ?thesis
      by (intro race_solo_okI[of _ _ i S_handout]) (simp_all add: s' race_prims race_shared_def race_whole_def)
  next
    case False
    then have "race_shared p d s'"
      using shared(2) i by (simp add: s' race_shared_def race_prims race_whole_def fun_upd_idem)
    with base show ?thesis by (simp add: race_ok_def)
  qed
qed (use assms(2) in \<open>auto simp: race_release_load_def race_gone_def split: if_splits\<close>)

text \<open>New weak pointers: the states differ in \<open>weaks\<close> only.\<close>

lemma race_weak_held:
  assumes "race_base n s" "race_weak s v = W_hold"
  shows "cb_weaks (race_block s) \<noteq> 0"
proof -
  have "{w. race_weak s w = W_hold} \<subseteq> {..<n}" using race_base_weak_below[OF assms(1)] by auto
  then have "finite {w. race_weak s w = W_hold}" by (rule finite_subset) simp
  with assms(2) have "card {w. race_weak s w = W_hold} \<noteq> 0" by auto
  then show ?thesis using assms(1) by (auto simp: race_base_def)
qed

lemma race_held_live:
  assumes "race_ok n p d s" "race_strong s j = S_hold \<or> race_weak s v = W_hold"
  shows "race_live s"
  using assms(1)
proof (cases rule: race_okE)
  case gone
  then have "race_weak s v = W_hold" using assms(2) by (simp add: race_gone_def)
  with gone race_weak_held[OF gone(1)] show ?thesis by (simp add: race_gone_def)
qed (simp_all add: race_shared_def)

lemma race_solo_weaks:
  assumes "race_solo q p d s" "q = S_free \<Longrightarrow> cb_weaks (race_block s) \<noteq> 0"
  shows "race_solo q p d (weak_at w r (race_put (cb_weaks_update f) s))"
  using assms by (cases q) (simp_all add: race_prims race_whole_def race_given_def race_settled_def)

lemma race_weak_inc_ok:
  assumes "race_ok n p d s" "race_weak s w = W_null" "w < n" "n < 2 ^ 32"
    and held: "race_strong s j = S_hold \<or> race_weak s v = W_hold"
  shows "race_ok n p d (weak_at w W_hold (race_put (cb_weaks_update (\<lambda>k. k + 1)) s))" (is "race_ok n p d ?s")
proof -
  have b: "race_base n s" using assms(1) by (simp add: race_ok_def)
  then have c: "card {k. ((race_weak s)(w := W_hold)) k = W_hold} = card {k. race_weak s k = W_hold} + 1"
    "card {k. ((race_weak s)(w := W_hold)) k = W_hold} \<le> n"
    using card_set[of n "race_weak s" W_hold w] assms(2,3) by (auto simp: race_base_def)
  have u: "unat (cb_weaks (race_block s) + 1) = unat (cb_weaks (race_block s)) + 1"
    using c b assms(4) by (intro unat_incr[of _ n]) (simp_all add: race_base_def)
  then have nz: "cb_weaks (race_block s) + 1 \<noteq> 0" by (metis add_is_0 one_neq_zero unat_0)
  have live: "race_live s" using assms(1) held by (rule race_held_live)
  have base: "race_base n ?s"
    using b c u assms(3) live by (simp add: race_base_def race_prims)
  show ?thesis
    using assms(1)
  proof (cases rule: race_okE)
    case shared
    then have "race_shared p d ?s" by (simp add: race_shared_def race_prims race_whole_def)
    with base show ?thesis by (simp add: race_ok_def)
  next
    case (solo i q)
    have "race_weak s v = W_hold" using held solo by (cases q) (auto split: if_splits)
    then have "race_solo q p d ?s" using race_solo_weaks[OF solo(5)] race_weak_held[OF b] by blast
    with base solo show ?thesis by (intro race_solo_okI[of _ _ i q]) (simp_all add: race_prims)
  next
    case gone
    with live nz have "race_gone p d ?s" by (simp add: race_gone_def race_prims race_settled_def split: if_splits)
    with base show ?thesis by (simp add: race_ok_def)
  qed
qed

lemma race_weak_move_ok:
  assumes "race_ok n p d s" "race_weak_move w v s = Some s'" "w < n"
  shows "race_ok n p d s'"
proof -
  have wv: "race_weak s w = W_null" "race_weak s v = W_hold" and s': "s' = weak_at v W_null (weak_at w W_hold s)"
    using assms(2) by (auto simp: race_weak_move_def split: if_splits)
  have b: "race_base n s" using assms(1) by (simp add: race_ok_def)
  have "card {k. ((race_weak s)(w := W_hold, v := W_null)) k = W_hold} = card {k. race_weak s k = W_hold}"
    using b wv assms(3) by (intro card_swap[of n]) (auto simp: race_base_def)
  then have "race_base n s'"
    using b assms(3) by (simp add: s' race_base_def race_prims)
  moreover have "race_solo q p d s' = race_solo q p d s" for q
    by (cases q) (simp_all add: s' race_prims race_whole_def race_given_def race_settled_def)
  moreover have "race_shared p d s' = race_shared p d s" "race_gone p d s' = race_gone p d s"
    by (simp_all add: s' race_prims race_shared_def race_gone_def race_whole_def race_settled_def)
  ultimately show ?thesis
    using assms(1) by (simp add: race_ok_def) (simp add: s' race_prims)
qed

lemma race_step_ok:
  assumes "race_ok n p d s" "race_step op s = Some s'" "race_target op < n" "n < 2 ^ 32" "keeps_weaks op"
  shows "race_ok n p d s'"
proof (cases op)
  case (R_weak_of w j)
  then have "race_weak s w = W_null" "race_strong s j = S_hold"
    "s' = weak_at w W_hold (race_put (cb_weaks_update (\<lambda>k. k + 1)) s)"
    using assms(2) by (auto simp: race_weak_of_def split: if_splits)
  then show ?thesis using race_weak_inc_ok[OF assms(1), of w j] assms(3,4) R_weak_of by simp
next
  case (R_weak_copy w v)
  then have "race_weak s w = W_null" "race_weak s v = W_hold"
    "s' = weak_at w W_hold (race_put (cb_weaks_update (\<lambda>k. k + 1)) s)"
    using assms(2) by (auto simp: race_weak_copy_def split: if_splits)
  then show ?thesis using race_weak_inc_ok[OF assms(1), of w _ v] assms(3,4) R_weak_copy by simp
qed (use assms in \<open>auto intro: race_copy_ok race_move_ok race_dec_ok race_destroy_ok race_clear_ok
    race_load_weaks_ok race_free_ok race_release_load_ok race_handout_ok race_weak_move_ok\<close>)

lemma race_run_ok:
  assumes "race_ok n p d s" "race_run ops s = Some s'" "n < 2 ^ 32"
    "list_all (\<lambda>op. race_target op < n \<and> keeps_weaks op) ops"
  shows "race_ok n p d s'"
  using assms
proof (induction ops arbitrary: s)
  case (Cons op ops)
  then obtain t where "race_step op s = Some t" "race_run ops t = Some s'" by (auto split: option.splits)
  with Cons show ?case using race_step_ok[of n p d s op t] by simp
qed simp

lemma race_ok_safe: "race_ok n p d s \<Longrightarrow> \<not> race_fault s \<and> race_frees s \<le> 1"
  by (auto simp: race_ok_def race_base_def race_shared_def race_gone_def split: if_splits)

lemma race_ok_held:
  assumes "race_ok n p d s" "race_strong s i = S_hold"
  shows "race_live s \<and> race_whole p d s \<and> unat (cb_strongs (race_block s)) = card {k. race_strong s k = S_hold}"
  using assms(1)
proof (cases rule: race_okE)
  case (solo j q)
  with assms(2) show ?thesis by (cases q) (auto split: if_splits)
qed (use assms(2) in \<open>simp_all add: race_shared_def race_gone_def\<close>)

lemma race_ok_gone:
  assumes "race_ok n p d s" "\<forall>i. race_strong s i = S_null"
  shows "race_settled p d s \<and> race_frees s = (if \<forall>w. race_weak s w = W_null then 1 else 0)"
  using assms(1)
proof (cases rule: race_okE)
  case (solo j q)
  with assms(2) have "q = S_null" by (auto split: if_splits)
  with solo show ?thesis by simp
next
  case gone
  have "cb_weaks (race_block s) = 0 \<longleftrightarrow> (\<forall>w. race_weak s w = W_null)"
  proof
    assume "cb_weaks (race_block s) = 0"
    then have "race_weak s w \<noteq> W_hold" for w using race_weak_held[OF gone(1)] by blast
    then show "\<forall>w. race_weak s w = W_null" using gone(1) by (auto simp: race_base_def)
  qed (use gone(1) in \<open>simp add: race_base_def unat_eq_zero\<close>)
  with gone(2) show ?thesis by (simp add: race_gone_def)
qed (use assms(2) in \<open>simp add: race_shared_def\<close>)

section \<open>What holds between threads and what does not\<close>

text \<open>C12. Let several threads copy, move, reset and release \<open>SharedPtr\<close> variables of one block and create, copy
  and move \<open>WeakPtr\<close> variables, interleaved in any way at the accesses to the block. As long as no weak
  pointer is dropped or locked meanwhile: the freed block is never touched and it is freed at most once; a
  variable that holds the object finds it undestroyed and the count exact; and once no strong variable is
  left the object was destroyed or handed out exactly once, and the block was freed if and only if no weak
  pointer refers to it.\<close>

theorem shared_pointers_interleaved:
  assumes "0 < n" "n < 2 ^ 32" "list_all (\<lambda>op. race_target op < n \<and> keeps_weaks op) ops"
    and "race_run ops (race_init p d) = Some s"
  shows "\<not> race_fault s \<and> race_frees s \<le> 1 \<and>
    (\<forall>i. race_strong s i = S_hold \<longrightarrow> race_live s \<and> race_whole p d s \<and>
       unat (cb_strongs (race_block s)) = card {k. race_strong s k = S_hold}) \<and>
    ((\<forall>i. race_strong s i = S_null) \<longrightarrow> race_settled p d s \<and>
       race_frees s = (if \<forall>w. race_weak s w = W_null then 1 else 0))"
proof -
  have "race_ok n p d s" using race_init_ok[OF assms(1)] assms(4,2,3) by (rule race_run_ok)
  then show ?thesis using race_ok_safe race_ok_held race_ok_gone by blast
qed

theorem shared_pointers_interleaved_witness:
  "let ops = [R_copy 1 0, R_dec 0, R_dec 1, R_destroy 1, R_clear 1, R_load_weaks 1, R_free 1]
   in \<exists>s. race_run ops (race_init 7 (Some 2)) = Some s \<and> race_log s = [(Some 7, 2)] \<and> race_settled 7 (Some 2) s \<and> race_frees s = 1"
proof -
  let ?ops = "[R_copy 1 0, R_dec 0, R_dec 1, R_destroy 1, R_clear 1, R_load_weaks 1, R_free 1]"
  obtain s where s: "race_run ?ops (race_init 7 (Some 2)) = Some s" "race_log s = [(Some 7, 2)]"
    "\<forall>i. race_strong s i = S_null" "\<forall>w. race_weak s w = W_null"
    by (simp add: race_init_def race_defs race_prims)
  have "race_settled 7 (Some 2) s \<and> race_frees s = 1"
    using shared_pointers_interleaved[of 2 ?ops 7 "Some 2" s] s by simp
  with s show ?thesis by (simp add: Let_def)
qed

text \<open>A state in which one variable is the last to hold the object and weak pointers still refer to the block.\<close>

lemma race_last_strong:
  assumes "race_ok n p d s" "race_strong s i = S_hold" "\<forall>j. j \<noteq> i \<longrightarrow> race_strong s j = S_null"
  shows "race_live s" "cb_strongs (race_block s) = 1" "race_whole p d s" "race_frees s = 0" "\<not> race_fault s"
proof -
  have "race_strong s k = S_hold \<longleftrightarrow> k = i" for k using assms(2,3) by (cases "k = i") simp_all
  then have "card {k. race_strong s k = S_hold} = 1" by simp
  with race_ok_held[OF assms(1,2)] have h: "race_live s" "race_whole p d s" "unat (cb_strongs (race_block s)) = 1" by simp_all
  then show "race_live s" "race_whole p d s" by blast+
  show "cb_strongs (race_block s) = 1" using h(3) by (metis unat_1 word_unat_eq_iff)
  show "race_frees s = 0"
    using assms(1)
  proof (cases rule: race_okE)
    case gone
    then show ?thesis using assms(2) by (simp add: race_gone_def)
  qed (simp_all add: race_shared_def)
  show "\<not> race_fault s" using race_ok_safe[OF assms(1)] by simp
qed

lemma race_last_weak:
  assumes "race_ok n p d s" "race_weak s w = W_hold" "\<forall>v. v \<noteq> w \<longrightarrow> race_weak s v = W_null"
  shows "cb_weaks (race_block s) = 1"
proof -
  have "race_weak s k = W_hold \<longleftrightarrow> k = w" for k using assms(2,3) by (cases "k = w") simp_all
  then have "unat (cb_weaks (race_block s)) = 1" using assms(1) by (simp add: race_ok_def race_base_def)
  then show ?thesis by (metis unat_1 word_unat_eq_iff)
qed

text \<open>C39. Dropping or locking a weak pointer while another thread resets the last strong pointer is not safe,
  whatever the program did before, as long as it kept its weak pointers. When one strong variable and one weak pointer
  are left, dropping the weak pointer and then resetting the variable, one after the other, frees the block once
  and touches it no more. But \<open>WeakPtr::release\<close> reads \<open>strongs\<close> after its decrement and \<open>SharedPtr::reset\<close> reads
  \<open>weaks\<close> after its own, so interleaved both find the other count zero and the block is freed twice. And when one
  strong variable is left and a weak pointer is locked meanwhile, into any other variable, \<open>lock\<close> increments the count it
  has read in an earlier step: it returns a strong pointer to an object that has been destroyed, whose reset calls the
  deleter a second time, on null.\<close>

theorem weak_pointers_race_with_reset:
  assumes "0 < n" "n < 2 ^ 32" "list_all (\<lambda>op. race_target op < n \<and> keeps_weaks op) ops"
    and "race_run ops (race_init p d) = Some s"
    and "race_strong s i = S_hold" "\<forall>j. j \<noteq> i \<longrightarrow> race_strong s j = S_null" "race_weak s w = W_hold"
  shows "((\<forall>v. v \<noteq> w \<longrightarrow> race_weak s v = W_null) \<longrightarrow>
      (\<exists>t. race_run [R_weak_dec w, R_weak_check w, R_dec i, R_destroy i, R_clear i, R_load_weaks i, R_free i] s = Some t
        \<and> race_frees t = 1 \<and> \<not> race_fault t)
      \<and> (\<exists>t. race_run [R_weak_dec w, R_dec i, R_weak_check w, R_destroy i, R_clear i, R_load_weaks i, R_free i, R_weak_free w] s = Some t
        \<and> race_frees t = 2 \<and> race_fault t))
    \<and> (\<forall>k e. k \<noteq> i \<and> d = Some e \<longrightarrow>
      (\<exists>t u. race_run [R_lock_check w k, R_dec i, R_destroy i, R_lock_inc w] s = Some t
        \<and> race_strong t k = S_hold \<and> race_log t = [(Some p, e)]
        \<and> race_run [R_clear i, R_load_weaks i, R_dec k, R_destroy k] t = Some u \<and> race_log u = [(Some p, e), (None, e)]))"
proof -
  have ok: "race_ok n p d s" using race_init_ok[OF assms(1)] assms(4,2,3) by (rule race_run_ok)
  note last = race_last_strong[OF ok assms(5,6)]
  have weaks: "cb_weaks (race_block s) \<noteq> 0" using ok assms(7) race_weak_held by (auto simp: race_ok_def)
  note defs = race_defs race_prims Let_def
  show ?thesis
  proof (intro conjI impI allI)
    assume "\<forall>v. v \<noteq> w \<longrightarrow> race_weak s v = W_null"
    then have one: "cb_weaks (race_block s) = 1" using race_last_weak[OF ok assms(7)] by blast
    show "\<exists>t. race_run [R_weak_dec w, R_weak_check w, R_dec i, R_destroy i, R_clear i, R_load_weaks i, R_free i] s = Some t
        \<and> race_frees t = 1 \<and> \<not> race_fault t"
      using last one assms(5,7) by (cases d) (simp_all add: defs race_whole_def)
    show "\<exists>t. race_run [R_weak_dec w, R_dec i, R_weak_check w, R_destroy i, R_clear i, R_load_weaks i, R_free i, R_weak_free w] s = Some t
        \<and> race_frees t = 2 \<and> race_fault t"
      using last one assms(5,7) by (cases d) (simp_all add: defs race_whole_def)
  next
    fix k e
    assume k: "k \<noteq> i \<and> d = Some e"
    then have "race_strong s k = S_null" using assms(6) by blast
    then show "\<exists>t u. race_run [R_lock_check w k, R_dec i, R_destroy i, R_lock_inc w] s = Some t
        \<and> race_strong t k = S_hold \<and> race_log t = [(Some p, e)]
        \<and> race_run [R_clear i, R_load_weaks i, R_dec k, R_destroy k] t = Some u \<and> race_log u = [(Some p, e), (None, e)]"
      using last weaks assms(5,7) k by (simp add: defs race_whole_def)
  qed
qed

theorem weak_pointers_race_with_reset_witness:
  "\<exists>s t u. race_run [R_copy 1 0, R_weak_of 0 1, R_dec 1] (race_init 7 (Some 2)) = Some s
    \<and> race_run [R_weak_dec 0, R_dec 0, R_weak_check 0, R_destroy 0, R_clear 0, R_load_weaks 0, R_free 0, R_weak_free 0] s = Some t
    \<and> race_frees t = 2
    \<and> race_run [R_lock_check 0 1, R_dec 0, R_destroy 0, R_lock_inc 0] s = Some u \<and> race_log u = [(Some 7, 2)]"
proof -
  let ?ops = "[R_copy 1 0, R_weak_of 0 1, R_dec 1]"
  obtain s where s: "race_run ?ops (race_init 7 (Some 2)) = Some s" "race_strong s 0 = S_hold"
    "\<forall>j. j \<noteq> 0 \<longrightarrow> race_strong s j = S_null" "race_weak s 0 = W_hold" "\<forall>v. v \<noteq> 0 \<longrightarrow> race_weak s v = W_null"
    by (simp add: race_init_def race_defs race_prims)
  have "list_all (\<lambda>op. race_target op < 2 \<and> keeps_weaks op) ?ops" by simp
  from weak_pointers_race_with_reset[of 2 ?ops 7 "Some 2" s 0 0, OF _ _ this s(1-4)]
  have "(\<exists>t. race_run [R_weak_dec 0, R_dec 0, R_weak_check 0, R_destroy 0, R_clear 0, R_load_weaks 0, R_free 0, R_weak_free 0] s = Some t
      \<and> race_frees t = 2)
    \<and> (\<exists>u. race_run [R_lock_check 0 1, R_dec 0, R_destroy 0, R_lock_inc 0] s = Some u \<and> race_log u = [(Some 7, 2)])"
    using s(5) by (simp del: race_run.simps) blast
  with s(1) show ?thesis by blast
qed

end
