(* ===== verification/Util_Log.thy ===== *)
theory Util_Log
  imports Abix_Prelude
begin

text \<open>
  The diagnostic side channel (\<open>Util/Log.h\<close>): the level threshold, the two kinds of callback and the
  dispatch of one message. A level is the byte the enumeration is stored in, so that values outside the
  enumeration, which a cast can produce, are covered. \<open>vsnprintf\<close> is a parameter: the number it returns
  and the full text it would print. Both storage policies have the same sequential behaviour.
\<close>

type_synonym LogLevel = u8

definition level_Debug :: LogLevel where "level_Debug = 0"

definition level_Info :: LogLevel where "level_Info = 1"

definition level_Warning :: LogLevel where "level_Warning = 2"

definition level_Error :: LogLevel where "level_Error = 3"

definition level_Off :: LogLevel where "level_Off = 4"

definition log_buffer_size :: nat where "log_buffer_size = 1024"

record LogRecord =
  lr_level :: LogLevel
  lr_message :: string
  lr_length :: u32
  lr_truncated :: bool

type_synonym sink_fn = nat

record LogState =
  lg_sink :: "sink_fn option"
  lg_record_sink :: "sink_fn option"
  lg_level :: LogLevel

definition new_log_state :: LogState where
  "new_log_state = \<lparr>lg_sink = None, lg_record_sink = None, lg_level = level_Warning\<rparr>"

definition normalize_log_level :: "LogLevel \<Rightarrow> LogLevel" where
  "normalize_log_level l = (if l \<le> level_Off then l else level_Off)"

definition set_log_sink :: "sink_fn option \<Rightarrow> LogState \<Rightarrow> LogState" where
  "set_log_sink f s = s\<lparr>lg_record_sink := None, lg_sink := f\<rparr>"

definition set_log_record_sink :: "sink_fn option \<Rightarrow> LogState \<Rightarrow> LogState" where
  "set_log_record_sink f s = s\<lparr>lg_sink := None, lg_record_sink := f\<rparr>"

definition set_log_level :: "LogLevel \<Rightarrow> LogState \<Rightarrow> LogState" where
  "set_log_level l s = s\<lparr>lg_level := normalize_log_level l\<rparr>"

definition log_level_enabled :: "LogState \<Rightarrow> LogLevel \<Rightarrow> bool" where
  "log_level_enabled s l \<longleftrightarrow> l \<le> level_Error \<and> lg_level s \<noteq> level_Off \<and> lg_level s \<le> l"

text \<open>What reaches a callback.\<close>

datatype log_event = To_record_sink sink_fn LogRecord | To_sink sink_fn LogLevel string

definition log_v :: "(string \<Rightarrow> int \<times> string) \<Rightarrow> LogState \<Rightarrow> LogLevel \<Rightarrow> string ptr \<Rightarrow> log_event option" where
  "log_v vsnprintf s l fmt =
     (case fmt of None \<Rightarrow> None
      | Some f \<Rightarrow>
          if \<not> log_level_enabled s l then None
          else let sink = (if lg_record_sink s \<noteq> None then None else lg_sink s) in
            if lg_record_sink s = None \<and> sink = None then None
            else case vsnprintf f of (written, full) \<Rightarrow>
              if written < 0 then None
              else let buf = take (log_buffer_size - 1) full;
                       truncated = (int log_buffer_size \<le> written);
                       len = (if truncated then of_nat (log_buffer_size - 1) else of_int written)
                   in case lg_record_sink s of
                        Some r \<Rightarrow> Some (To_record_sink r \<lparr>lr_level = l, lr_message = buf, lr_length = len, lr_truncated = truncated\<rparr>)
                      | None \<Rightarrow> map_option (\<lambda>f. To_sink f l buf) sink)"

section \<open>Facts\<close>

text \<open>The configuration the setters can produce: at most one callback kind, a level of the enumeration.\<close>

inductive log_reachable :: "LogState \<Rightarrow> bool" where
  log_new: "log_reachable new_log_state"
| log_sink: "log_reachable s \<Longrightarrow> log_reachable (set_log_sink f s)"
| log_record_sink: "log_reachable s \<Longrightarrow> log_reachable (set_log_record_sink f s)"
| log_level: "log_reachable s \<Longrightarrow> log_reachable (set_log_level l s)"

lemma log_reachable_ok:
  "log_reachable s \<Longrightarrow> (lg_sink s = None \<or> lg_record_sink s = None) \<and> lg_level s \<le> level_Off"
  by (induction rule: log_reachable.induct)
    (auto simp: new_log_state_def level_Warning_def level_Off_def set_log_sink_def set_log_record_sink_def
      set_log_level_def normalize_log_level_def)

text \<open>The parameter behaves as the C standard says: a non-negative result is the length of the full text.\<close>

definition vsnprintf_ok :: "(string \<Rightarrow> int \<times> string) \<Rightarrow> bool" where
  "vsnprintf_ok v \<longleftrightarrow> (\<forall>f. fst (v f) < 2 ^ 31 \<and> (0 \<le> fst (v f) \<longrightarrow> fst (v f) = int (length (snd (v f)))))"

lemma log_v_record:
  assumes "vsnprintf_ok v" "log_v v s l fmt = Some (To_record_sink r rec)"
  shows "unat (lr_length rec) = length (lr_message rec) \<and> length (lr_message rec) < log_buffer_size \<and>
    (\<exists>f. fmt = Some f \<and> lr_truncated rec = (lr_message rec \<noteq> snd (v f))) \<and> log_level_enabled s (lr_level rec)"
proof -
  obtain f where f: "fmt = Some f" using assms(2) by (cases fmt) (simp_all add: log_v_def)
  obtain w t where wt: "v f = (w, t)" by (cases "v f")
  have w: "0 \<le> w" "log_level_enabled s l" using assms(2) f wt by (auto simp: log_v_def Let_def split: if_splits)
  have len: "w = int (length t)" "w < 2 ^ 31" using assms(1) w(1) wt by (auto simp: vsnprintf_ok_def dest!: spec[of _ f])
  have "unat (of_nat (length t) :: u32) = length t" using len by (intro unat_of_nat_small) simp
  moreover have "rec = \<lparr>lr_level = l, lr_message = take 1023 t,
      lr_length = (if 1024 \<le> w then 1023 else of_int w), lr_truncated = (1024 \<le> w)\<rparr>"
    using assms(2) f wt w by (auto simp: log_v_def Let_def log_buffer_size_def split: if_splits option.splits)
  ultimately show ?thesis using f wt w(2) len(1) by (auto simp: log_buffer_size_def)
qed

lemma log_v_silent:
  "(\<exists>e. log_v v s l (Some f) = Some e) \<longleftrightarrow>
     log_level_enabled s l \<and> (lg_sink s \<noteq> None \<or> lg_record_sink s \<noteq> None) \<and> 0 \<le> fst (v f)"
  by (auto simp: log_v_def Let_def split: option.splits prod.splits)

end
