(* ===== verification/Util_Atomic.thy ===== *)
theory Util_Atomic
  imports Abix_Prelude
begin

text \<open>
  The atomic primitives of \<open>Util/Atomic.h\<close> with their two implementations, \<open>AtomicGCCClang.h\<close> and
  \<open>AtomicMSVC.h\<close>. One primitive is one atomic step on a cell, which holds the bits of the object; values of
  an integral or pointer type are the integers it represents. Conversions, promotions and the undefined
  signed overflow of C++ are written out. The compiler's \<open>__atomic\<close> builtins and \<open>_Interlocked\<close> intrinsics are
  modelled by their documented effect. Memory orders have no meaning within a single step.
\<close>

section \<open>Types and values\<close>

datatype atype = A_int nat bool | A_ptr | A_bool | A_float nat

definition is_atomic_scalar :: "atype \<Rightarrow> bool" where
  "is_atomic_scalar t = (case t of A_int _ _ \<Rightarrow> True | A_ptr \<Rightarrow> True | _ \<Rightarrow> False)"

definition is_atomic_integer :: "atype \<Rightarrow> bool" where
  "is_atomic_integer t = (case t of A_int _ _ \<Rightarrow> True | _ \<Rightarrow> False)"

definition is_atomic_cas :: "atype \<Rightarrow> bool" where
  "is_atomic_cas t = is_atomic_scalar t"

text \<open>\<open>value_of t\<close> reads bits as a value of the type; applied to a value it is the conversion to the type.\<close>

fun bit_width :: "atype \<Rightarrow> nat" where
  "bit_width (A_int n s) = 8 * n"
| "bit_width A_ptr = 64"
| "bit_width A_bool = 8"
| "bit_width (A_float n) = 8 * n"

fun value_of :: "atype \<Rightarrow> int \<Rightarrow> int" where
  "value_of (A_int n True) x = signed_take_bit (8 * n - 1) x"
| "value_of t x = take_bit (bit_width t) x"

definition bits_of_value :: "atype \<Rightarrow> int \<Rightarrow> int" where
  "bits_of_value t x = take_bit (bit_width t) x"

datatype atomic_error = Not_compiled | Undefined_behaviour

type_synonym 'a atomic = "atomic_error + 'a"

text \<open>The functions of namespace \<open>atomic_detail\<close>, which the compiler selects.\<close>

record backend =
  be_load_acquire :: "atype \<Rightarrow> int \<Rightarrow> (int \<times> int) atomic"
  be_load_relaxed :: "atype \<Rightarrow> int \<Rightarrow> (int \<times> int) atomic"
  be_store_release :: "atype \<Rightarrow> int \<Rightarrow> int \<Rightarrow> int atomic"
  be_store_relaxed :: "atype \<Rightarrow> int \<Rightarrow> int \<Rightarrow> int atomic"
  be_inc_relaxed :: "atype \<Rightarrow> int \<Rightarrow> (int \<times> int) atomic"
  be_dec_relaxed :: "atype \<Rightarrow> int \<Rightarrow> (int \<times> int) atomic"
  be_inc_acq_rel :: "atype \<Rightarrow> int \<Rightarrow> (int \<times> int) atomic"
  be_exchange_acq_rel :: "atype \<Rightarrow> int \<Rightarrow> int \<Rightarrow> (int \<times> int) atomic"
  be_compare_exchange :: "atype \<Rightarrow> int \<Rightarrow> int \<Rightarrow> int \<Rightarrow> (bool \<times> int \<times> int) atomic"

section \<open>GCC and Clang\<close>

definition gcc_load :: "atype \<Rightarrow> int \<Rightarrow> (int \<times> int) atomic" where
  "gcc_load t c = Inr (value_of t c, c)"

definition gcc_store :: "atype \<Rightarrow> int \<Rightarrow> int \<Rightarrow> int atomic" where
  "gcc_store t v c = Inr (bits_of_value t (value_of t v))"

definition gcc_inc :: "atype \<Rightarrow> int \<Rightarrow> (int \<times> int) atomic" where
  "gcc_inc t c = Inr (value_of t (value_of t c + 1), bits_of_value t (value_of t c + 1))"

definition gcc_dec :: "atype \<Rightarrow> int \<Rightarrow> (int \<times> int) atomic" where
  "gcc_dec t c = Inr (value_of t (value_of t c - 1), bits_of_value t (value_of t c - 1))"

definition gcc_exchange :: "atype \<Rightarrow> int \<Rightarrow> int \<Rightarrow> (int \<times> int) atomic" where
  "gcc_exchange t v c = Inr (value_of t c, bits_of_value t (value_of t v))"

definition gcc_compare_exchange :: "atype \<Rightarrow> int \<Rightarrow> int \<Rightarrow> int \<Rightarrow> (bool \<times> int \<times> int) atomic" where
  "gcc_compare_exchange t expected desired c =
     (if value_of t c = expected then Inr (True, expected, bits_of_value t desired)
      else Inr (False, value_of t c, c))"

definition gcc_backend :: backend where
  "gcc_backend = \<lparr>be_load_acquire = gcc_load, be_load_relaxed = gcc_load, be_store_release = gcc_store,
     be_store_relaxed = gcc_store, be_inc_relaxed = gcc_inc, be_dec_relaxed = gcc_dec, be_inc_acq_rel = gcc_inc,
     be_exchange_acq_rel = gcc_exchange, be_compare_exchange = gcc_compare_exchange\<rparr>"

section \<open>MSVC\<close>

text \<open>The \<open>_Interlocked\<close> intrinsics return the previous value of the cell, read as the type they are for.\<close>

definition interlocked_compare_exchange :: "atype \<Rightarrow> int \<Rightarrow> int \<Rightarrow> int \<Rightarrow> int \<times> int" where
  "interlocked_compare_exchange s exchange comparand c =
     (value_of s c, if value_of s c = comparand then bits_of_value s exchange else c)"

definition interlocked_exchange :: "atype \<Rightarrow> int \<Rightarrow> int \<Rightarrow> int \<times> int" where
  "interlocked_exchange s v c = (value_of s c, bits_of_value s v)"

definition interlocked_exchange_add :: "atype \<Rightarrow> int \<Rightarrow> int \<Rightarrow> int \<times> int" where
  "interlocked_exchange_add s v c = (value_of s c, bits_of_value s (value_of s c + v))"

text \<open>The intrinsic for a width takes \<open>char\<close>, \<open>short\<close>, \<open>long\<close> or \<open>long long\<close>, all signed; pointers have their own.\<close>

definition intrinsic_type :: "atype \<Rightarrow> atype option" where
  "intrinsic_type t = (case t of
     A_ptr \<Rightarrow> Some A_ptr
   | _ \<Rightarrow> let n = bit_width t div 8 in if n \<in> {1, 2, 4, 8} then Some (A_int n True) else None)"

definition compare_exchange_value :: "atype \<Rightarrow> int \<Rightarrow> int \<Rightarrow> int \<Rightarrow> (int \<times> int) atomic" where
  "compare_exchange_value t exchange comparand c = (case intrinsic_type t of
     None \<Rightarrow> Inl Not_compiled
   | Some s \<Rightarrow> (case interlocked_compare_exchange s (value_of s exchange) (value_of s comparand) c of
       (previous, c') \<Rightarrow> Inr (value_of t previous, c')))"

definition exchange_value :: "atype \<Rightarrow> int \<Rightarrow> int \<Rightarrow> (int \<times> int) atomic" where
  "exchange_value t v c = (case intrinsic_type t of
     None \<Rightarrow> Inl Not_compiled
   | Some s \<Rightarrow> (case interlocked_exchange s (value_of s v) c of (previous, c') \<Rightarrow> Inr (value_of t previous, c')))"

text \<open>\<open>previous + delta\<close>: operands narrower than \<open>int\<close> are promoted, an unsigned operand makes the addition
  unsigned, and the addition of two signed operands must not overflow.\<close>

definition plus_promoted :: "nat \<Rightarrow> bool \<Rightarrow> int \<Rightarrow> int \<Rightarrow> int atomic" where
  "plus_promoted n signd previous delta =
     (if n < 4 then Inr (previous + delta)
      else if \<not> signd then Inr (take_bit (8 * n) (take_bit (8 * n) previous + delta))
      else if - (2 ^ (8 * n - 1)) \<le> previous + delta \<and> previous + delta < 2 ^ (8 * n - 1) then Inr (previous + delta)
      else Inl Undefined_behaviour)"

definition add_fetch :: "atype \<Rightarrow> int \<Rightarrow> int \<Rightarrow> (int \<times> int) atomic" where
  "add_fetch t delta c = (case t of
     A_int n signd \<Rightarrow> if n \<in> {1, 2, 4, 8}
       then (case interlocked_exchange_add (A_int n True) (value_of (A_int n True) delta) c of (previous, c') \<Rightarrow>
         (case plus_promoted n signd previous delta of Inl e \<Rightarrow> Inl e | Inr r \<Rightarrow> Inr (value_of t r, c')))
       else Inl Not_compiled
   | _ \<Rightarrow> Inl Not_compiled)"

definition msvc_load :: "atype \<Rightarrow> int \<Rightarrow> (int \<times> int) atomic" where
  "msvc_load t c = compare_exchange_value t 0 0 c"

definition msvc_store :: "atype \<Rightarrow> int \<Rightarrow> int \<Rightarrow> int atomic" where
  "msvc_store t v c = map_sum (\<lambda>e. e) snd (exchange_value t (value_of t v) c)"

definition msvc_inc :: "atype \<Rightarrow> int \<Rightarrow> (int \<times> int) atomic" where
  "msvc_inc t c = add_fetch t 1 c"

definition msvc_dec :: "atype \<Rightarrow> int \<Rightarrow> (int \<times> int) atomic" where
  "msvc_dec t c = add_fetch t (value_of t (- 1)) c"

definition msvc_exchange :: "atype \<Rightarrow> int \<Rightarrow> int \<Rightarrow> (int \<times> int) atomic" where
  "msvc_exchange t v c = exchange_value t (value_of t v) c"

definition msvc_compare_exchange :: "atype \<Rightarrow> int \<Rightarrow> int \<Rightarrow> int \<Rightarrow> (bool \<times> int \<times> int) atomic" where
  "msvc_compare_exchange t expected desired c =
     (case compare_exchange_value t desired expected c of
        Inl e \<Rightarrow> Inl e
      | Inr (previous, c') \<Rightarrow> if previous = expected then Inr (True, expected, c') else Inr (False, previous, c'))"

definition msvc_backend :: backend where
  "msvc_backend = \<lparr>be_load_acquire = msvc_load, be_load_relaxed = msvc_load, be_store_release = msvc_store,
     be_store_relaxed = msvc_store, be_inc_relaxed = msvc_inc, be_dec_relaxed = msvc_dec, be_inc_acq_rel = msvc_inc,
     be_exchange_acq_rel = msvc_exchange, be_compare_exchange = msvc_compare_exchange\<rparr>"

definition msvc_always_lock_free :: "atype \<Rightarrow> bool" where
  "msvc_always_lock_free t \<longleftrightarrow> t = A_ptr \<or> ((case t of A_int _ _ \<Rightarrow> True | A_bool \<Rightarrow> True | _ \<Rightarrow> False) \<and>
     bit_width t div 8 \<in> {1, 2, 4, 8})"

section \<open>The public functions\<close>

definition load_acquire :: "backend \<Rightarrow> atype \<Rightarrow> int \<Rightarrow> (int \<times> int) atomic" where
  "load_acquire b t c = (if is_atomic_scalar t then be_load_acquire b t c else Inl Not_compiled)"

definition load_relaxed :: "backend \<Rightarrow> atype \<Rightarrow> int \<Rightarrow> (int \<times> int) atomic" where
  "load_relaxed b t c = (if is_atomic_scalar t then be_load_relaxed b t c else Inl Not_compiled)"

definition store_release :: "backend \<Rightarrow> atype \<Rightarrow> int \<Rightarrow> int \<Rightarrow> int atomic" where
  "store_release b t v c = (if is_atomic_scalar t then be_store_release b t v c else Inl Not_compiled)"

definition store_relaxed :: "backend \<Rightarrow> atype \<Rightarrow> int \<Rightarrow> int \<Rightarrow> int atomic" where
  "store_relaxed b t v c = (if is_atomic_scalar t then be_store_relaxed b t v c else Inl Not_compiled)"

definition inc_relaxed :: "backend \<Rightarrow> atype \<Rightarrow> int \<Rightarrow> (int \<times> int) atomic" where
  "inc_relaxed b t c = (if is_atomic_integer t then be_inc_relaxed b t c else Inl Not_compiled)"

definition dec_relaxed :: "backend \<Rightarrow> atype \<Rightarrow> int \<Rightarrow> (int \<times> int) atomic" where
  "dec_relaxed b t c = (if is_atomic_integer t then be_dec_relaxed b t c else Inl Not_compiled)"

definition inc_acq_rel :: "backend \<Rightarrow> atype \<Rightarrow> int \<Rightarrow> (int \<times> int) atomic" where
  "inc_acq_rel b t c = (if is_atomic_integer t then be_inc_acq_rel b t c else Inl Not_compiled)"

definition exchange_acq_rel :: "backend \<Rightarrow> atype \<Rightarrow> int \<Rightarrow> int \<Rightarrow> (int \<times> int) atomic" where
  "exchange_acq_rel b t v c = (if is_atomic_scalar t then be_exchange_acq_rel b t v c else Inl Not_compiled)"

definition compare_exchange :: "backend \<Rightarrow> atype \<Rightarrow> int \<Rightarrow> int \<Rightarrow> int \<Rightarrow> (bool \<times> int \<times> int) atomic" where
  "compare_exchange b t expected desired c =
     (if is_atomic_cas t then be_compare_exchange b t expected desired c else Inl Not_compiled)"

text \<open>\<open>cas_relaxed\<close> takes \<open>expected\<close> by value: the observed value is lost.\<close>

definition cas_relaxed :: "backend \<Rightarrow> atype \<Rightarrow> int \<Rightarrow> int \<Rightarrow> int \<Rightarrow> (bool \<times> int) atomic" where
  "cas_relaxed b t expected desired c =
     (if is_atomic_cas t then map_sum (\<lambda>e. e) (\<lambda>(ok, _, c'). (ok, c')) (be_compare_exchange b t expected desired c)
      else Inl Not_compiled)"

section \<open>Conversions between types of one width\<close>

text \<open>The types both backends implement, and the bits and values of such a type.\<close>

definition supported :: "atype \<Rightarrow> bool" where
  "supported t \<longleftrightarrow> (case t of A_int n _ \<Rightarrow> n \<in> {1, 2, 4, 8} | A_ptr \<Rightarrow> True | _ \<Rightarrow> False)"

definition cell_of :: "atype \<Rightarrow> int \<Rightarrow> bool" where
  "cell_of t c \<longleftrightarrow> take_bit (bit_width t) c = c"

definition is_value :: "atype \<Rightarrow> int \<Rightarrow> bool" where
  "is_value t v \<longleftrightarrow> value_of t v = v"

lemma take_bit_value_of:
  assumes "supported t"
  shows "take_bit (bit_width t) (value_of t x) = take_bit (bit_width t) x"
proof (cases t)
  case (A_int n s)
  with assms have "0 < n" by (auto simp: supported_def)
  then show ?thesis by (cases s) (simp_all add: A_int take_bit_signed_take_bit)
qed simp_all

lemma value_of_take_bit:
  assumes "supported t"
  shows "value_of t (take_bit (bit_width t) x) = value_of t x"
proof (cases t)
  case (A_int n s)
  with assms have "0 < n" by (auto simp: supported_def)
  then show ?thesis by (cases s) (auto simp: A_int signed_take_bit_take_bit)
qed simp_all

lemma value_of_eq_iff:
  assumes "supported t"
  shows "value_of t x = value_of t y \<longleftrightarrow> take_bit (bit_width t) x = take_bit (bit_width t) y"
  using take_bit_value_of[OF assms] value_of_take_bit[OF assms] by metis

text \<open>A conversion through the type of the intrinsic loses nothing.\<close>

lemma value_of_through:
  assumes "supported t" "supported s" "bit_width s = bit_width t"
  shows "value_of t (value_of s x) = value_of t x"
  using assms value_of_eq_iff[OF assms(1)] take_bit_value_of[OF assms(2)] by simp

lemma intrinsic_supported:
  assumes "supported t"
  obtains s where "intrinsic_type t = Some s" "supported s" "bit_width s = bit_width t"
  using assms that by (cases t) (auto simp: supported_def intrinsic_type_def)

lemma compare_exchange_value_eq:
  assumes "supported t" "is_value t comparand"
  shows "compare_exchange_value t exchange comparand c =
    Inr (value_of t c, if value_of t c = comparand then bits_of_value t exchange else c)"
proof -
  obtain s where s: "intrinsic_type t = Some s" "supported s" "bit_width s = bit_width t"
    using assms(1) by (rule intrinsic_supported)
  have "value_of s c = value_of s comparand \<longleftrightarrow> value_of t c = comparand"
    using value_of_eq_iff[OF s(2)] value_of_eq_iff[OF assms(1)] s(3) assms(2) unfolding is_value_def by metis
  then show ?thesis
    using s take_bit_value_of[OF s(2)] value_of_through[OF assms(1) s(2,3)]
    by (simp add: compare_exchange_value_def interlocked_compare_exchange_def bits_of_value_def)
qed

lemma exchange_value_eq:
  assumes "supported t"
  shows "exchange_value t v c = Inr (value_of t c, bits_of_value t v)"
proof -
  obtain s where s: "intrinsic_type t = Some s" "supported s" "bit_width s = bit_width t"
    using assms by (rule intrinsic_supported)
  then show ?thesis
    using take_bit_value_of[OF s(2)] value_of_through[OF assms s(2,3)]
    by (simp add: exchange_value_def interlocked_exchange_def bits_of_value_def)
qed

text \<open>Adding in any of the arithmetics above is adding modulo the width.\<close>

lemma plus_promoted_mod:
  assumes "n \<in> {1, 2, 4, 8}" "plus_promoted n signd previous delta = Inr r"
  shows "take_bit (8 * n) r = take_bit (8 * n) (previous + delta)"
proof -
  have "r = previous + delta \<or> r = take_bit (8 * n) (take_bit (8 * n) previous + delta)"
    using assms(2) by (auto simp: plus_promoted_def split: if_splits)
  moreover have "take_bit (8 * n) (take_bit (8 * n) previous + delta) = take_bit (8 * n) (previous + delta)"
    by (metis take_bit_add take_bit_take_bit min.idem)
  ultimately show ?thesis by auto
qed

lemma value_of_cong: "supported t \<Longrightarrow> take_bit (bit_width t) x = take_bit (bit_width t) y \<Longrightarrow> value_of t x = value_of t y"
  by (simp add: value_of_eq_iff)

lemma take_bit_cong_add:
  "take_bit n x = take_bit n x' \<Longrightarrow> take_bit n y = take_bit n y' \<Longrightarrow> take_bit n (x + y) = take_bit n (x' + y' :: int)"
  by (metis take_bit_add)

lemma add_fetch_eq:
  assumes "n \<in> {1, 2, 4, 8}" "take_bit (8 * n) delta = take_bit (8 * n) d"
  shows "add_fetch (A_int n signd) delta c =
    (if signd \<and> 4 \<le> n \<and> \<not> (- (2 ^ (8 * n - 1)) \<le> value_of (A_int n True) c + delta \<and>
         value_of (A_int n True) c + delta < 2 ^ (8 * n - 1))
     then Inl Undefined_behaviour
     else Inr (value_of (A_int n signd) (value_of (A_int n signd) c + d),
               bits_of_value (A_int n signd) (value_of (A_int n signd) c + d)))"
proof (cases "plus_promoted n signd (value_of (A_int n True) c) delta")
  case (Inl e)
  then have "e = Undefined_behaviour" "signd \<and> 4 \<le> n \<and> \<not> (- (2 ^ (8 * n - 1)) \<le> value_of (A_int n True) c + delta \<and>
         value_of (A_int n True) c + delta < 2 ^ (8 * n - 1))"
    by (auto simp: plus_promoted_def split: if_splits)
  with assms(1) Inl show ?thesis by (simp add: add_fetch_def interlocked_exchange_add_def)
next
  case (Inr r)
  let ?s = "A_int n True" and ?t = "A_int n signd"
  have sup: "supported ?s" "supported ?t" using assms(1) by (simp_all add: supported_def)
  have w: "take_bit (8 * n) (value_of ?s x) = take_bit (8 * n) x" "take_bit (8 * n) (value_of ?t x) = take_bit (8 * n) x" for x
    using take_bit_value_of[OF sup(1), of x] take_bit_value_of[OF sup(2), of x] by (simp_all only: bit_width.simps)
  have r: "take_bit (8 * n) r = take_bit (8 * n) (value_of ?t c + d)"
    using plus_promoted_mod[OF assms(1) Inr] w assms(2) take_bit_cong_add by metis
  have c: "take_bit (8 * n) (value_of ?s c + value_of ?s delta) = take_bit (8 * n) (value_of ?t c + d)"
    using w assms(2) take_bit_cong_add by metis
  have "value_of ?t r = value_of ?t (value_of ?t c + d)" using r by (intro value_of_cong[OF sup(2)]) simp
  moreover have "\<not> (signd \<and> 4 \<le> n \<and> \<not> (- (2 ^ (8 * n - 1)) \<le> value_of ?s c + delta \<and> value_of ?s c + delta < 2 ^ (8 * n - 1)))"
    using Inr by (auto simp: plus_promoted_def split: if_splits)
  moreover have "add_fetch ?t delta c = Inr (value_of ?t r, bits_of_value ?s (value_of ?s c + value_of ?s delta))"
    using Inr assms(1) by (simp add: add_fetch_def interlocked_exchange_add_def)
  ultimately show ?thesis using c by (simp only: bits_of_value_def bit_width.simps if_False)
qed

section \<open>The backends agree\<close>

text \<open>\<open>signed_overflow t v\<close>: an \<open>int\<close> or wider signed type cannot represent \<open>v\<close>.\<close>

definition signed_overflow :: "atype \<Rightarrow> int \<Rightarrow> bool" where
  "signed_overflow t v \<longleftrightarrow> (case t of
     A_int n True \<Rightarrow> 4 \<le> n \<and> \<not> (- (2 ^ (8 * n - 1)) \<le> v \<and> v < 2 ^ (8 * n - 1)) | _ \<Rightarrow> False)"

lemma load_agrees:
  assumes "supported t" "cell_of t c"
  shows "msvc_load t c = gcc_load t c"
proof -
  have z: "value_of t 0 = 0" by (cases "(t, 0 :: int)" rule: value_of.cases) simp_all
  then have "value_of t c = 0 \<Longrightarrow> c = 0"
    using value_of_eq_iff[OF assms(1), of c 0] assms(2) by (simp add: cell_of_def)
  then show ?thesis
    using compare_exchange_value_eq[OF assms(1), of 0 0 c] z
    by (auto simp: msvc_load_def gcc_load_def is_value_def bits_of_value_def)
qed

lemma inc_agrees:
  assumes "supported t"
  shows "inc_relaxed msvc_backend t c =
    (if signed_overflow t (value_of t c + 1) then Inl Undefined_behaviour else inc_relaxed gcc_backend t c)"
proof (cases t)
  case (A_int n s)
  with assms have "n \<in> {1, 2, 4, 8}" by (simp add: supported_def)
  from add_fetch_eq[of n 1 1 s c, OF this refl] show ?thesis
    by (cases s) (simp_all add: A_int inc_relaxed_def is_atomic_integer_def msvc_backend_def gcc_backend_def msvc_inc_def
        gcc_inc_def signed_overflow_def)
qed (simp_all add: inc_relaxed_def is_atomic_integer_def signed_overflow_def)

lemma inc_acq_rel_agrees:
  assumes "supported t"
  shows "inc_acq_rel msvc_backend t c =
    (if signed_overflow t (value_of t c + 1) then Inl Undefined_behaviour else inc_acq_rel gcc_backend t c)"
  using inc_agrees[OF assms, of c]
  by (simp add: inc_acq_rel_def inc_relaxed_def msvc_backend_def gcc_backend_def cong: if_cong)

lemma dec_agrees:
  assumes "supported t"
  shows "dec_relaxed msvc_backend t c =
    (if signed_overflow t (value_of t c - 1) then Inl Undefined_behaviour else dec_relaxed gcc_backend t c)"
proof (cases t)
  case (A_int n s)
  with assms have n: "n \<in> {1, 2, 4, 8}" by (simp add: supported_def)
  have "take_bit (8 * n) (value_of (A_int n s) (- 1)) = take_bit (8 * n) (- 1)"
    using take_bit_value_of[OF assms, of "- 1"] by (simp add: A_int)
  from add_fetch_eq[OF n this, of s c] show ?thesis
    by (cases s) (simp_all add: A_int dec_relaxed_def is_atomic_integer_def msvc_backend_def gcc_backend_def msvc_dec_def
        gcc_dec_def signed_overflow_def)
qed (simp_all add: dec_relaxed_def is_atomic_integer_def signed_overflow_def)

text \<open>C24. The two backends implement the same primitives: on every accepted type of one, two, four or eight
  bytes and every content of the cell, each load, store, exchange and compare-exchange gives the same
  value and leaves the same bits, although \<open>AtomicMSVC.h\<close> goes through signed intrinsics of the same width and
  loads by a compare-exchange. The two increments and the decrement agree too, except where a signed type of
  at least four bytes wraps around: there the addition in \<open>AtomicMSVC.h\<close> is undefined.\<close>

theorem atomic_backends_agree:
  assumes "supported t" "cell_of t c" "is_value t expected"
  shows "load_acquire msvc_backend t c = load_acquire gcc_backend t c \<and>
    load_relaxed msvc_backend t c = load_relaxed gcc_backend t c \<and>
    store_release msvc_backend t v c = store_release gcc_backend t v c \<and>
    store_relaxed msvc_backend t v c = store_relaxed gcc_backend t v c \<and>
    exchange_acq_rel msvc_backend t v c = exchange_acq_rel gcc_backend t v c \<and>
    compare_exchange msvc_backend t expected desired c = compare_exchange gcc_backend t expected desired c \<and>
    cas_relaxed msvc_backend t expected desired c = cas_relaxed gcc_backend t expected desired c \<and>
    inc_relaxed msvc_backend t c =
      (if signed_overflow t (value_of t c + 1) then Inl Undefined_behaviour else inc_relaxed gcc_backend t c) \<and>
    inc_acq_rel msvc_backend t c =
      (if signed_overflow t (value_of t c + 1) then Inl Undefined_behaviour else inc_acq_rel gcc_backend t c) \<and>
    dec_relaxed msvc_backend t c =
      (if signed_overflow t (value_of t c - 1) then Inl Undefined_behaviour else dec_relaxed gcc_backend t c)"
proof -
  have cas: "msvc_compare_exchange t expected desired c = gcc_compare_exchange t expected desired c"
    using compare_exchange_value_eq[OF assms(1,3)] by (simp add: msvc_compare_exchange_def gcc_compare_exchange_def)
  show ?thesis
    using load_agrees[OF assms(1,2)] cas inc_agrees[OF assms(1)] inc_acq_rel_agrees[OF assms(1)] dec_agrees[OF assms(1)] exchange_value_eq[OF assms(1)]
    by (simp add: load_acquire_def load_relaxed_def store_release_def store_relaxed_def exchange_acq_rel_def
        compare_exchange_def cas_relaxed_def msvc_store_def gcc_store_def msvc_exchange_def gcc_exchange_def
        msvc_backend_def gcc_backend_def)
qed

theorem atomic_backends_agree_witness:
  "dec_relaxed msvc_backend (A_int 1 False) 0 = Inr (255, 255) \<and>
   inc_relaxed msvc_backend (A_int 4 True) (2 ^ 31 - 1) = Inl Undefined_behaviour \<and>
   inc_relaxed gcc_backend (A_int 4 True) (2 ^ 31 - 1) = Inr (- (2 ^ 31), 2 ^ 31)"
proof -
  have "dec_relaxed msvc_backend (A_int 1 False) 0 = dec_relaxed gcc_backend (A_int 1 False) 0"
    using atomic_backends_agree[of "A_int 1 False" 0 0] by (simp add: supported_def cell_of_def is_value_def signed_overflow_def)
  moreover have "dec_relaxed gcc_backend (A_int 1 False) 0 = Inr (255, 255)" by code_simp
  moreover have "inc_relaxed msvc_backend (A_int 4 True) (2 ^ 31 - 1) = Inl Undefined_behaviour"
    using atomic_backends_agree[of "A_int 4 True" "2 ^ 31 - 1" 0]
    by (simp add: supported_def cell_of_def is_value_def signed_overflow_def take_bit_eq_mod signed_take_bit_eq_take_bit_shift)
  moreover have "inc_relaxed gcc_backend (A_int 4 True) (2 ^ 31 - 1) = Inr (- (2 ^ 31), 2 ^ 31)" by code_simp
  ultimately show ?thesis by simp
qed

end
