(* ===== verification/Util_Mem.thy ===== *)
theory Util_Mem
  imports Abix_Prelude
begin

text \<open>
  The allocation helpers of \<open>Util/Mem.h\<close>. Which platform function serves a helper depends on \<open>windows\<close>; the
  heap remembers for every live block which family of functions it came from and its size, and giving a
  block to a deallocator of another family, or giving it back twice, sets \<open>mem_fault\<close>. Whether the platform
  finds memory is the argument \<open>ok\<close>.

  Shown: an array block is never smaller than its elements, and which deallocators fit which allocators.
\<close>

datatype mem_family = Process_heap | C_heap | Aligned_heap

record mem_heap =
  mem_blocks :: "nat \<Rightarrow> (mem_family \<times> size_t) option"
  mem_next :: nat
  mem_fault :: bool

definition platform_alloc :: "mem_family \<Rightarrow> size_t \<Rightarrow> bool \<Rightarrow> mem_heap \<Rightarrow> nat ptr \<times> mem_heap" where
  "platform_alloc f n ok s = (if \<not> ok then (None, s)
     else (Some (mem_next s), s\<lparr>mem_blocks := (mem_blocks s)(mem_next s \<mapsto> (f, n)), mem_next := Suc (mem_next s)\<rparr>))"

definition platform_free :: "mem_family \<Rightarrow> nat \<Rightarrow> mem_heap \<Rightarrow> mem_heap" where
  "platform_free f p s = (if map_option fst (mem_blocks s p) = Some f
     then s\<lparr>mem_blocks := (mem_blocks s)(p := None)\<rparr> else s\<lparr>mem_fault := True\<rparr>)"

definition mem_alloc :: "bool \<Rightarrow> size_t \<Rightarrow> bool \<Rightarrow> mem_heap \<Rightarrow> nat ptr \<times> mem_heap" where
  "mem_alloc windows n ok s = platform_alloc (if windows then Process_heap else C_heap) n ok s"

definition mem_zalloc :: "size_t \<Rightarrow> bool \<Rightarrow> mem_heap \<Rightarrow> nat ptr \<times> mem_heap" where
  "mem_zalloc n ok s = platform_alloc C_heap n ok s"

definition mem_alloc_array :: "bool \<Rightarrow> size_t \<Rightarrow> size_t \<Rightarrow> bool \<Rightarrow> mem_heap \<Rightarrow> nat ptr \<times> mem_heap" where
  "mem_alloc_array windows n elem ok s =
     (if elem \<noteq> 0 \<and> n > (- 1) div elem then (None, s) else mem_alloc windows (n * elem) ok s)"

definition mem_alloc_aligned :: "bool \<Rightarrow> size_t \<Rightarrow> bool \<Rightarrow> mem_heap \<Rightarrow> nat ptr \<times> mem_heap" where
  "mem_alloc_aligned windows n ok s = platform_alloc (if windows then Aligned_heap else C_heap) n ok s"

definition mem_dealloc :: "bool \<Rightarrow> nat ptr \<Rightarrow> mem_heap \<Rightarrow> mem_heap" where
  "mem_dealloc windows p s = (case p of None \<Rightarrow> s
     | Some a \<Rightarrow> platform_free (if windows then Process_heap else C_heap) a s)"

definition mem_dealloc_aligned :: "bool \<Rightarrow> nat ptr \<Rightarrow> mem_heap \<Rightarrow> mem_heap" where
  "mem_dealloc_aligned windows p s = (case p of None \<Rightarrow> s
     | Some a \<Rightarrow> platform_free (if windows then Aligned_heap else C_heap) a s)"

section \<open>Sizes\<close>

lemma no_overflow:
  fixes n elem :: size_t
  assumes "elem = 0 \<or> n \<le> (- 1) div elem"
  shows "unat (n * elem) = unat n * unat elem"
proof (cases "elem = 0")
  case False
  then have "unat n \<le> unat (- 1 :: size_t) div unat elem" using assms by (simp add: word_le_nat_alt unat_div)
  then have "unat n * unat elem \<le> unat (- 1 :: size_t)"
    by (metis div_times_less_eq_dividend le_trans mult_le_mono1)
  from le_less_trans[OF this unat_less_size64] have "unat n * unat elem < 2 ^ 64" by simp
  then show ?thesis by (simp add: unat_mult_lem[THEN iffD1])
qed simp

lemma alloc_array_exact:
  assumes "mem_alloc_array windows n elem ok s = (Some p, s')"
  shows "\<exists>f sz. mem_blocks s' p = Some (f, sz) \<and> unat sz = unat n * unat elem"
  using assms no_overflow[of elem n]
  by (auto simp: mem_alloc_array_def mem_alloc_def platform_alloc_def not_less split: if_splits)

section \<open>Pairs\<close>

text \<open>Each helper with its deallocator gives the memory back; away from Windows any deallocator does.\<close>

lemma alloc_dealloc:
  assumes "mem_alloc windows n ok s = (p, s')" "mem_blocks s (mem_next s) = None"
  shows "mem_blocks (mem_dealloc windows p s') = mem_blocks s \<and> mem_fault (mem_dealloc windows p s') = mem_fault s"
  using assms by (auto simp: mem_alloc_def platform_alloc_def mem_dealloc_def platform_free_def fun_upd_idem split: if_splits)

lemma alloc_aligned_dealloc:
  assumes "mem_alloc_aligned windows n ok s = (p, s')" "mem_blocks s (mem_next s) = None"
  shows "mem_blocks (mem_dealloc_aligned windows p s') = mem_blocks s \<and>
    mem_fault (mem_dealloc_aligned windows p s') = mem_fault s"
  using assms by (auto simp: mem_alloc_aligned_def platform_alloc_def mem_dealloc_aligned_def platform_free_def fun_upd_idem
      split: if_splits)

text \<open>\<open>zalloc\<close> has no deallocator of its own. Its block goes back with \<open>dealloc\<close>, except on Windows, where
  \<open>zalloc\<close> takes it from the C runtime and both deallocators hand it to another allocator.\<close>

lemma zalloc_dealloc:
  assumes "mem_zalloc n True s = (p, s')" "mem_blocks s (mem_next s) = None" "\<not> mem_fault s"
  shows "mem_fault (mem_dealloc windows p s') = windows \<and> mem_fault (mem_dealloc_aligned windows p s') = windows \<and>
    (\<not> windows \<longrightarrow> mem_blocks (mem_dealloc windows p s') = mem_blocks s)"
  using assms by (auto simp: mem_zalloc_def platform_alloc_def mem_dealloc_def mem_dealloc_aligned_def platform_free_def fun_upd_idem)

end
