(* ===== verification/Runtime_Function.thy ===== *)
theory Runtime_Function
  imports Error_Model
begin

text \<open>
  Type-erased callables (\<open>Runtime/Function.h\<close>). A \<open>Function\<close> variable holds a handle, the address of a heap
  closure or 0; closures live in \<open>fw_closures\<close> and using one that is not there sets \<open>fw_fault\<close>. Whether an
  allocation succeeds is an argument. The stored callable is a number; calling it is reported as the result.
  Shown: at every point of every program each closure belongs to exactly one variable, so it is destroyed
  exactly once, and every call of a variable that holds a closure reaches its callable.
\<close>

definition SKL_ABIX_CLOSURE_MAGIC :: u64 where
  "SKL_ABIX_CLOSURE_MAGIC = 0xF2A0B1C2D3E4F5A6"

record Closure =
  cl_fn :: nat
  cl_magic :: u64

record function_world =
  fw_closures :: "nat \<Rightarrow> Closure option"
  fw_next :: nat
  fw_vars :: "nat \<Rightarrow> nat option"
  fw_destroyed :: "nat list"
  fw_fault :: bool

definition no_functions :: function_world where
  "no_functions = \<lparr>fw_closures = (\<lambda>_. None), fw_next = 0, fw_vars = (\<lambda>_. None), fw_destroyed = [], fw_fault = False\<rparr>"

definition set_var :: "nat \<Rightarrow> nat option \<Rightarrow> function_world \<Rightarrow> function_world" where
  "set_var i h w = w\<lparr>fw_vars := (fw_vars w)(i := h)\<rparr>"

definition new_closure :: "Closure \<Rightarrow> function_world \<Rightarrow> nat \<times> function_world" where
  "new_closure c w = (fw_next w, w\<lparr>fw_closures := (fw_closures w)(fw_next w \<mapsto> c), fw_next := Suc (fw_next w)\<rparr>)"

definition function_construct :: "nat \<Rightarrow> nat \<Rightarrow> bool \<Rightarrow> function_world \<Rightarrow> function_world" where
  "function_construct i f ok w =
     (if \<not> ok then set_var i None w
      else case new_closure \<lparr>cl_fn = f, cl_magic = SKL_ABIX_CLOSURE_MAGIC\<rparr> w of (h, w) \<Rightarrow> set_var i (Some h) w)"

definition clone_impl :: "nat \<Rightarrow> bool \<Rightarrow> function_world \<Rightarrow> nat option \<times> function_world" where
  "clone_impl h ok w = (case fw_closures w h of None \<Rightarrow> (None, w\<lparr>fw_fault := True\<rparr>)
     | Some c \<Rightarrow> if \<not> ok then (None, w) else (case new_closure c w of (h, w) \<Rightarrow> (Some h, w)))"

definition destroy_impl :: "nat \<Rightarrow> function_world \<Rightarrow> function_world" where
  "destroy_impl h w = (case fw_closures w h of None \<Rightarrow> w\<lparr>fw_fault := True\<rparr>
     | Some c \<Rightarrow> w\<lparr>fw_closures := (fw_closures w)(h := None), fw_destroyed := fw_destroyed w @ [h]\<rparr>)"

definition destroy_closure :: "nat \<Rightarrow> function_world \<Rightarrow> function_world" where
  "destroy_closure i w = set_var i None (case fw_vars w i of None \<Rightarrow> w | Some h \<Rightarrow> destroy_impl h w)"

definition function_copy :: "nat \<Rightarrow> nat \<Rightarrow> bool \<Rightarrow> function_world \<Rightarrow> function_world" where
  "function_copy i j ok w = (case fw_vars w j of None \<Rightarrow> set_var i None w
     | Some h \<Rightarrow> (case clone_impl h ok w of (c, w) \<Rightarrow> set_var i c w))"

definition rt_function_move :: "nat \<Rightarrow> nat \<Rightarrow> function_world \<Rightarrow> function_world" where
  "rt_function_move i j w = set_var j None (set_var i (fw_vars w j) w)"

definition function_swap :: "nat \<Rightarrow> nat \<Rightarrow> function_world \<Rightarrow> function_world" where
  "function_swap i j w = set_var j (fw_vars w i) (set_var i (fw_vars w j) w)"

text \<open>Assignment takes its argument by value: the parameter variable \<open>t\<close> is copied or moved from \<open>j\<close>, swapped
  with the target and destroyed.\<close>

definition function_assign :: "nat \<Rightarrow> nat \<Rightarrow> nat \<Rightarrow> bool \<Rightarrow> function_world \<Rightarrow> function_world" where
  "function_assign t i j ok w = destroy_closure t (function_swap i t (function_copy t j ok w))"

definition rt_function_move_assign :: "nat \<Rightarrow> nat \<Rightarrow> nat \<Rightarrow> function_world \<Rightarrow> function_world" where
  "rt_function_move_assign t i j w = destroy_closure t (function_swap i t (rt_function_move t j w))"

text \<open>The callable that runs (\<open>None\<close>: the default value is returned) and the error that is recorded.\<close>

definition rt_function_call :: "nat \<Rightarrow> function_world \<Rightarrow> (nat option \<times> CallError) option" where
  "rt_function_call i w = (case fw_vars w i of None \<Rightarrow> Some (None, ce_invalid)
     | Some h \<Rightarrow> (case fw_closures w h of None \<Rightarrow> None
        | Some c \<Rightarrow> if cl_magic c \<noteq> SKL_ABIX_CLOSURE_MAGIC then Some (None, ce_invalid)
            else Some (Some (cl_fn c), ce_none)))"

datatype function_op = F_construct nat nat bool | F_copy nat nat bool | F_move nat nat
  | F_assign nat nat nat bool | F_move_assign nat nat nat | F_swap nat nat | F_destroy nat

text \<open>A constructor, and the parameter of an assignment, start a new lifetime: the variable is null before.\<close>

fun function_step :: "function_op \<Rightarrow> function_world \<Rightarrow> function_world" where
  "function_step (F_construct i f ok) w = (if fw_vars w i = None then function_construct i f ok w else w)"
| "function_step (F_copy i j ok) w = (if fw_vars w i = None then function_copy i j ok w else w)"
| "function_step (F_move i j) w = (if fw_vars w i = None then rt_function_move i j w else w)"
| "function_step (F_assign t i j ok) w =
     (if fw_vars w t = None \<and> t \<noteq> i \<and> t \<noteq> j then function_assign t i j ok w else w)"
| "function_step (F_move_assign t i j) w =
     (if fw_vars w t = None \<and> t \<noteq> i \<and> t \<noteq> j then rt_function_move_assign t i j w else w)"
| "function_step (F_swap i j) w = function_swap i j w"
| "function_step (F_destroy i) w = destroy_closure i w"

section \<open>Ownership\<close>

text \<open>The live closures are exactly those a variable holds, no two variables hold the same one, all carry the
  magic number, and each address handed out is live or was destroyed once.\<close>

definition functions_ok :: "function_world \<Rightarrow> bool" where
  "functions_ok w \<longleftrightarrow> \<not> fw_fault w \<and>
     (\<forall>i j h. fw_vars w i = Some h \<and> fw_vars w j = Some h \<longrightarrow> i = j) \<and>
     (\<forall>i h. fw_vars w i = Some h \<longrightarrow> (\<exists>c. fw_closures w h = Some c)) \<and>
     (\<forall>h c. fw_closures w h = Some c \<longrightarrow> h < fw_next w \<and> cl_magic c = SKL_ABIX_CLOSURE_MAGIC \<and>
        (\<exists>i. fw_vars w i = Some h)) \<and>
     distinct (fw_destroyed w) \<and>
     set (fw_destroyed w) = {h. h < fw_next w \<and> fw_closures w h = None}"

lemma functions_okD:
  assumes "functions_ok w"
  shows "\<not> fw_fault w"
    and "fw_vars w i = Some h \<Longrightarrow> fw_vars w j = Some h \<Longrightarrow> i = j"
    and "fw_vars w i = Some h \<Longrightarrow> \<exists>c. fw_closures w h = Some c"
    and "fw_closures w h = Some c \<Longrightarrow> h < fw_next w"
    and "fw_closures w h = Some c \<Longrightarrow> cl_magic c = SKL_ABIX_CLOSURE_MAGIC"
    and "fw_closures w h = Some c \<Longrightarrow> \<exists>i. fw_vars w i = Some h"
    and "distinct (fw_destroyed w)"
    and "set (fw_destroyed w) = {h. h < fw_next w \<and> fw_closures w h = None}"
  using assms unfolding functions_ok_def by blast+

lemma functions_okI:
  assumes "\<not> fw_fault w"
    and "\<And>i j h. fw_vars w i = Some h \<Longrightarrow> fw_vars w j = Some h \<Longrightarrow> i = j"
    and "\<And>i h. fw_vars w i = Some h \<Longrightarrow> fw_closures w h \<noteq> None"
    and "\<And>h c. fw_closures w h = Some c \<Longrightarrow>
      h < fw_next w \<and> cl_magic c = SKL_ABIX_CLOSURE_MAGIC \<and> (\<exists>i. fw_vars w i = Some h)"
    and "distinct (fw_destroyed w)"
    and "set (fw_destroyed w) = {h. h < fw_next w \<and> fw_closures w h = None}"
  shows "functions_ok w"
  unfolding functions_ok_def using assms by blast

lemma no_functions_ok: "functions_ok no_functions"
  by (simp add: functions_ok_def no_functions_def)

lemma set_var_null: "fw_vars w i = None \<Longrightarrow> set_var i None w = w"
  by (simp add: set_var_def fun_upd_idem)

lemma new_closure_ok:
  assumes ok: "functions_ok w" and null: "fw_vars w i = None" and magic: "cl_magic c = SKL_ABIX_CLOSURE_MAGIC"
  shows "functions_ok (set_var i (Some (fst (new_closure c w))) (snd (new_closure c w)))"
proof -
  note D = functions_okD[OF ok]
  have fresh: "fw_vars w j \<noteq> Some (fw_next w)" for j using D(3,4) by blast
  have free: "fw_closures w (fw_next w) = None" using D(4)[of "fw_next w"] by (cases "fw_closures w (fw_next w)") auto
  show ?thesis
  proof (rule functions_okI, goal_cases)
    case (2 k j h)
    then show ?case using D(2)[of k h j] fresh by (auto simp: set_var_def new_closure_def split: if_splits)
  next
    case (3 k h)
    then show ?case using D(3)[of k h] by (auto simp: set_var_def new_closure_def split: if_splits)
  next
    case (4 h c')
    show ?case
    proof (cases "h = fw_next w")
      case True
      with 4 magic show ?thesis by (auto simp: set_var_def new_closure_def)
    next
      case False
      with 4 have c': "fw_closures w h = Some c'" by (simp add: set_var_def new_closure_def)
      then obtain k where "fw_vars w k = Some h" using D(6) by blast
      moreover have "k \<noteq> i" using null calculation by auto
      ultimately show ?thesis using D(4,5)[OF c'] by (auto simp: set_var_def new_closure_def intro!: exI[of _ k])
    qed
  next
    case 6
    then show ?case using D(8) free by (auto simp: set_var_def new_closure_def less_Suc_eq)
  qed (use D(1,7) in \<open>simp_all add: set_var_def new_closure_def\<close>)
qed

lemma construct_functions_ok:
  "functions_ok w \<Longrightarrow> fw_vars w i = None \<Longrightarrow> functions_ok (function_construct i f ok w)"
  using new_closure_ok[of w i "\<lparr>cl_fn = f, cl_magic = SKL_ABIX_CLOSURE_MAGIC\<rparr>"]
  by (simp add: function_construct_def set_var_null case_prod_beta)

lemma copy_functions_ok:
  assumes ok: "functions_ok w" and null: "fw_vars w i = None"
  shows "functions_ok (function_copy i j a w)"
proof (cases "fw_vars w j")
  case (Some h)
  then obtain c where c: "fw_closures w h = Some c" using functions_okD(3)[OF ok] by blast
  show ?thesis
    using new_closure_ok[OF ok null functions_okD(5)[OF ok c]] ok null Some c
    by (simp add: function_copy_def clone_impl_def set_var_null case_prod_beta)
qed (simp add: function_copy_def ok null set_var_null)

lemma swap_functions_ok:
  assumes ok: "functions_ok w"
  shows "functions_ok (function_swap i j w)"
proof -
  note D = functions_okD[OF ok]
  define p where "p k = (if k = i then j else if k = j then i else k)" for k
  have p: "p (p k) = k" for k by (simp add: p_def)
  have vars: "fw_vars (function_swap i j w) k = fw_vars w (p k)" for k
    by (simp add: function_swap_def set_var_def p_def)
  have rest: "fw_fault (function_swap i j w) = fw_fault w" "fw_closures (function_swap i j w) = fw_closures w"
    "fw_next (function_swap i j w) = fw_next w" "fw_destroyed (function_swap i j w) = fw_destroyed w"
    by (simp_all add: function_swap_def set_var_def)
  show ?thesis
  proof (rule functions_okI, goal_cases)
    case (2 k l h)
    then have "p k = p l" using D(2) by (simp add: vars)
    then show ?case using p by metis
  next
    case (4 h c)
    then obtain k where "fw_vars w k = Some h" using D(6) by (auto simp: rest)
    then have "fw_vars (function_swap i j w) (p k) = Some h" by (simp add: vars p)
    with 4 D(4,5) show ?case by (auto simp: rest)
  qed (use D in \<open>auto simp: vars rest\<close>)
qed

lemma move_as_swap: "fw_vars w i = None \<Longrightarrow> rt_function_move i j w = function_swap i j w"
  by (auto simp: rt_function_move_def function_swap_def set_var_def fun_eq_iff)

lemma destroy_functions_ok:
  assumes ok: "functions_ok w"
  shows "functions_ok (destroy_closure i w)"
proof (cases "fw_vars w i")
  case None
  with ok show ?thesis by (simp add: destroy_closure_def set_var_null)
next
  case (Some h)
  note D = functions_okD[OF ok]
  obtain c where c: "fw_closures w h = Some c" using D(3)[OF Some] by blast
  have eq: "destroy_closure i w = w\<lparr>fw_closures := (fw_closures w)(h := None),
      fw_destroyed := fw_destroyed w @ [h], fw_vars := (fw_vars w)(i := None)\<rparr>"
    using Some c by (simp add: destroy_closure_def destroy_impl_def set_var_def)
  show ?thesis
    unfolding eq
  proof (rule functions_okI, goal_cases)
    case (2 k l h')
    then show ?case using D(2)[of k h' l] by (auto split: if_splits)
  next
    case (3 k h')
    then have "h' \<noteq> h" using D(2)[OF Some, of k] by (auto split: if_splits)
    with 3 show ?case using D(3)[of k h'] by (auto split: if_splits)
  next
    case (4 h' c')
    then have c': "h' \<noteq> h" "fw_closures w h' = Some c'" by (auto split: if_splits)
    then obtain k where "fw_vars w k = Some h'" using D(6) by blast
    moreover have "k \<noteq> i" using calculation Some c'(1) by auto
    ultimately show ?case using D(4,5)[OF c'(2)] by (auto intro!: exI[of _ k])
  next
    case 6
    then show ?case using D(8) D(4)[OF c] by auto
  qed (use D(1,7,8) c in auto)
qed

lemma functions_owned_once:
  "functions_ok w \<Longrightarrow> functions_ok (function_step op w)"
proof (cases op)
  case (F_assign t i j a)
  assume "functions_ok w"
  with F_assign show ?thesis
    by (auto simp: function_assign_def intro!: destroy_functions_ok swap_functions_ok copy_functions_ok)
next
  case (F_move_assign t i j)
  assume "functions_ok w"
  with F_move_assign show ?thesis
    by (auto simp: rt_function_move_assign_def move_as_swap intro!: destroy_functions_ok swap_functions_ok)
qed (auto simp: move_as_swap intro: construct_functions_ok copy_functions_ok swap_functions_ok destroy_functions_ok)

text \<open>Calling any variable of a program touches no destroyed closure and reaches the callable it holds.\<close>

lemma call_reaches_callable:
  assumes "functions_ok w"
  shows "rt_function_call i w = Some (case fw_vars w i of None \<Rightarrow> (None, ce_invalid)
    | Some h \<Rightarrow> (Some (cl_fn (the (fw_closures w h))), ce_none))"
  using functions_okD(3,5)[OF assms] by (fastforce simp: rt_function_call_def split: option.splits)

end
