(* ===== verification/Pool_Lock.thy ===== *)
theory Pool_Lock
  imports Runtime_Search
begin

text \<open>
  The lock of the slot pool (\<open>Runtime/Search.h\<close>, \<open>SlotPool::lock_acquire\<close> and \<open>unlock\<close>) and the memory
  orders it is built from. \<open>Runtime_Search\<close> takes \<open>take\<close> and the exchange in \<open>offer\<close> as atomic; here the
  three accesses of a call are steps of interleaved threads, and what a thread can read depends on what
  the orders make visible to it.

  The contents of the pool are a history of writes. A thread has a view, the newest write it must see;
  inside the lock it may read any write from its view on. Writing moves its view to the new write; the
  release store of \<open>unlock\<close> publishes the view with the lock word; taking the lock adopts the published
  view only when the compare-and-swap has acquire order. The lock word itself is only changed by
  compare-and-swap and by the holder, so it is always current.

  Shown: with acquire order every interleaving computes what the calls compute one after the other, in the
  order they got the lock; with the relaxed order the code uses, two threads can be handed the same buffer.
\<close>

section \<open>Calls\<close>

datatype pool_call =
    pc_take u32
  | pc_offer "SlotBuf ptr" u32

text \<open>The buffer \<open>take\<close> returns; \<open>offer\<close> returns nothing.\<close>

fun pool_call_do :: "pool_call \<Rightarrow> SlotPool \<Rightarrow> SlotBuf ptr \<times> SlotPool" where
  "pool_call_do (pc_take want) p = pool_take p want"
| "pool_call_do (pc_offer buf cap) p = (None, pool_offer p buf cap)"

fun pool_sequence :: "pool_call list \<Rightarrow> SlotPool \<Rightarrow> SlotBuf ptr list \<times> SlotPool" where
  "pool_sequence [] p = ([], p)"
| "pool_sequence (c # cs) p =
     (case pool_call_do c p of (r, p1) \<Rightarrow> case pool_sequence cs p1 of (rs, p2) \<Rightarrow> (r # rs, p2))"

section \<open>Interleaved calls\<close>

text \<open>\<open>pk_history\<close> holds what \<open>slots\<close> and \<open>capacity\<close> were after each write, oldest first; \<open>pk_pool\<close> the state
  after the newest, with the allocator's own history, which is synchronized elsewhere. \<open>pk_holder\<close> is the
  thread whose compare-and-swap succeeded last and whether it has done its call.\<close>

record pool_memory =
  pk_pool :: SlotPool
  pk_history :: "(SlotBuf ptr \<times> u32) list"
  pk_view :: "nat \<Rightarrow> nat"
  pk_published :: nat
  pk_holder :: "(nat \<times> bool) option"
  pk_calls :: "pool_call list"
  pk_results :: "(nat \<times> SlotBuf ptr) list"

datatype pool_action =
    pa_lock nat
  | pa_call nat pool_call nat
  | pa_unlock nat

definition pool_start :: "SlotPool \<Rightarrow> pool_memory" where
  "pool_start p = \<lparr>pk_pool = p, pk_history = [(sp_slots p, sp_capacity p)], pk_view = (\<lambda>_. 0), pk_published = 0,
     pk_holder = None, pk_calls = [], pk_results = []\<rparr>"

definition newest :: "pool_memory \<Rightarrow> nat" where
  "newest s = length (pk_history s) - 1"

definition read_pool :: "nat \<Rightarrow> pool_memory \<Rightarrow> SlotPool" where
  "read_pool i s = (pk_pool s)\<lparr>sp_slots := fst (pk_history s ! i), sp_capacity := snd (pk_history s ! i)\<rparr>"

definition write_pool :: "nat \<Rightarrow> pool_call \<Rightarrow> SlotBuf ptr \<Rightarrow> SlotPool \<Rightarrow> pool_memory \<Rightarrow> pool_memory" where
  "write_pool t c r p s = s\<lparr>pk_pool := p, pk_history := pk_history s @ [(sp_slots p, sp_capacity p)],
     pk_view := (pk_view s)(t := length (pk_history s)), pk_holder := Some (t, True),
     pk_calls := pk_calls s @ [c], pk_results := pk_results s @ [(t, r)]\<rparr>"

text \<open>\<open>pa_call t c i\<close> is the body of the call, reading write i of the history.\<close>

fun pool_step :: "bool \<Rightarrow> pool_action \<Rightarrow> pool_memory \<Rightarrow> pool_memory option" where
  "pool_step acquire (pa_lock t) s =
     (if pk_holder s = None
      then Some (s\<lparr>pk_holder := Some (t, False),
             pk_view := (if acquire then (pk_view s)(t := max (pk_view s t) (pk_published s)) else pk_view s)\<rparr>)
      else None)"
| "pool_step acquire (pa_call t c i) s =
     (if pk_holder s = Some (t, False) \<and> pk_view s t \<le> i \<and> i < length (pk_history s)
      then case pool_call_do c (read_pool i s) of (r, p) \<Rightarrow> Some (write_pool t c r p s)
      else None)"
| "pool_step acquire (pa_unlock t) s =
     (if pk_holder s = Some (t, True)
      then Some (s\<lparr>pk_holder := None, pk_published := pk_view s t\<rparr>) else None)"

inductive pool_reachable :: "bool \<Rightarrow> SlotPool \<Rightarrow> pool_memory \<Rightarrow> bool" for acquire p where
  start: "pool_reachable acquire p (pool_start p)"
| step: "pool_reachable acquire p s \<Longrightarrow> pool_step acquire a s = Some s' \<Longrightarrow> pool_reachable acquire p s'"

fun pool_run :: "bool \<Rightarrow> pool_action list \<Rightarrow> pool_memory \<Rightarrow> pool_memory option" where
  "pool_run acquire [] s = Some s"
| "pool_run acquire (a # as) s = Option.bind (pool_step acquire a s) (pool_run acquire as)"

section \<open>With acquire order\<close>

definition pool_current :: "pool_memory \<Rightarrow> bool" where
  "pool_current s \<longleftrightarrow>
     pk_history s \<noteq> [] \<and> last (pk_history s) = (sp_slots (pk_pool s), sp_capacity (pk_pool s))
     \<and> (\<forall>t. pk_view s t \<le> newest s)
     \<and> (case pk_holder s of None \<Rightarrow> pk_published s = newest s | Some (t, _) \<Rightarrow> pk_view s t = newest s)"

lemma read_newest:
  assumes "pool_current s"
  shows "read_pool (newest s) s = pk_pool s"
proof -
  have "pk_history s ! newest s = (sp_slots (pk_pool s), sp_capacity (pk_pool s))"
    using assms last_conv_nth[of "pk_history s"] by (simp add: pool_current_def newest_def)
  then show ?thesis by (simp add: read_pool_def)
qed

lemma pool_sequence_append:
  "pool_sequence (cs @ [c]) p =
     (case pool_sequence cs p of (rs, q) \<Rightarrow> case pool_call_do c q of (r, q') \<Rightarrow> (rs @ [r], q'))"
  by (induction cs arbitrary: p) (auto split: prod.splits)

text \<open>The holder can only read the newest contents.\<close>

lemma holder_reads_newest:
  assumes "pool_current s" "pool_step acquire (pa_call t c i) s = Some s'"
  shows "i = newest s"
  using assms by (auto simp: pool_current_def newest_def split: if_splits)

lemma pool_step_current:
  assumes "pool_current s" "pool_step True a s = Some s'"
  shows "pool_current s'"
proof (cases a)
  case (pa_lock t)
  then show ?thesis using assms by (auto simp: pool_current_def newest_def max_def split: if_splits)
next
  case (pa_call t c i)
  obtain r p where r: "pool_call_do c (read_pool i s) = (r, p)" by fastforce
  then have s': "s' = write_pool t c r p s" using assms(2) pa_call by (auto split: if_splits)
  have "pk_view s u \<le> length (pk_history s)" for u
    using assms(1) by (auto simp: pool_current_def newest_def intro: le_trans)
  then show ?thesis by (auto simp: s' write_pool_def pool_current_def newest_def)
next
  case (pa_unlock t)
  then show ?thesis using assms by (auto simp: pool_current_def newest_def split: if_splits)
qed

lemma pool_start_current: "pool_current (pool_start p)"
  by (simp add: pool_current_def pool_start_def newest_def)

text \<open>Every interleaving is a sequential run of its calls in the order they held the lock: same results,
  same pool, same buffers freed.\<close>

lemma acquire_lock_linearizes:
  assumes "pool_reachable True p s"
  shows "pool_current s \<and> pool_sequence (pk_calls s) p = (map snd (pk_results s), pk_pool s)"
  using assms
proof induction
  case start
  show ?case by (simp add: pool_start_current) (simp add: pool_start_def)
next
  case (step s a s')
  then have cur: "pool_current s'" using pool_step_current by blast
  show ?case
  proof (cases a)
    case (pa_call t c i)
    have i: "i = newest s" using step pa_call holder_reads_newest by blast
    obtain r q where r: "pool_call_do c (pk_pool s) = (r, q)" by fastforce
    then have "s' = write_pool t c r q s"
      using step pa_call read_newest[of s] i by (auto split: if_splits)
    then show ?thesis using cur step.IH r by (simp add: write_pool_def pool_sequence_append)
  qed (use step cur in \<open>auto split: if_splits\<close>)
qed

section \<open>As written\<close>

lemma pool_run_reachable:
  "pool_reachable acquire p s \<Longrightarrow> pool_run acquire as s = Some s' \<Longrightarrow> pool_reachable acquire p s'"
  by (induction as arbitrary: s) (auto simp: bind_eq_Some_conv intro: pool_reachable.step)

text \<open>Thread 0 takes the parked buffer. Thread 1 then gets the lock without acquiring what thread 0
  published, still sees the buffer parked, and takes it too.\<close>

definition parked_pool :: SlotPool where
  "parked_pool = \<lparr>sp_slots = Some \<lparr>sb_id = 7, sb_data = []\<rparr>, sp_capacity = 4096, sp_next_id = 8, sp_deleted = []\<rparr>"

definition stale_take :: "pool_action list" where
  "stale_take = [pa_lock 0, pa_call 0 (pc_take 4096) 0, pa_unlock 0, pa_lock 1, pa_call 1 (pc_take 4096) 0, pa_unlock 1]"

lemma relaxed_lock_hands_out_twice:
  "\<exists>s. pool_reachable False parked_pool s \<and>
     pk_results s = [(0, Some \<lparr>sb_id = 7, sb_data = []\<rparr>), (1, Some \<lparr>sb_id = 7, sb_data = []\<rparr>)]"
proof -
  define s where "s = the (pool_run False stale_take (pool_start parked_pool))"
  have run: "pool_run False stale_take (pool_start parked_pool) = Some s
      \<and> pk_results s = [(0, Some \<lparr>sb_id = 7, sb_data = []\<rparr>), (1, Some \<lparr>sb_id = 7, sb_data = []\<rparr>)]"
    unfolding s_def stale_take_def
    by (simp add: pool_start_def parked_pool_def read_pool_def write_pool_def pool_take_def)
  have "pool_reachable False parked_pool s"
    by (rule pool_run_reachable[OF pool_reachable.start]) (rule conjunct1[OF run])
  then show ?thesis by (intro exI[of _ s] conjI) (simp_all only: run)
qed

text \<open>The same schedule is impossible when the lock acquires.\<close>

lemma acquire_lock_refuses_stale_take: "pool_run True stale_take (pool_start parked_pool) = None"
  by (simp add: stale_take_def pool_start_def parked_pool_def read_pool_def write_pool_def pool_take_def)

end
