(* ===== verification/RCU_Clock.thy ===== *)
theory RCU_Clock
  imports RCU_Domain
begin

text \<open>
  The clock behind the deadlines (\<open>RCU/Deadline.h\<close>). \<open>RCU_Domain\<close> takes the reading of the clock as an
  argument and counts in the nanoseconds of the POSIX branch; here are that reading itself and the
  branch for Windows, where the unit is the tick of the performance counter. What the system calls
  return is a parameter: the fields of \<open>timespec\<close>, the counter and its frequency.

  Shown: the POSIX reading is the time in nanoseconds and never decreases with it; the split division
  on Windows is the exact conversion, rounded down, of ticks to nanoseconds wherever that fits 64 bits
  and the frequency is below 2\<open>^\<close>34; a deadline on Windows never lies after the requested instant, and
  lies exactly there only when the frequency is a multiple of 1000.
\<close>

section \<open>Readings\<close>

text \<open>A signed 64-bit value is the word that holds it; \<open>sint\<close> reads it, and the cast to \<open>uint64_t\<close> keeps
  its bits.\<close>

type_synonym i64 = "64 word"

definition ns_per_second :: u64 where
  "ns_per_second = 1000000000"

text \<open>\<open>clock_gettime(CLOCK_MONOTONIC, &ts)\<close>: the two fields are signed and cast to \<open>uint64_t\<close>.\<close>

definition monotonic_now_posix :: "i64 \<Rightarrow> i64 \<Rightarrow> u64" where
  "monotonic_now_posix tv_sec tv_nsec = tv_sec * ns_per_second + tv_nsec"

text \<open>\<open>QuadPart\<close> of \<open>QueryPerformanceFrequency\<close> and \<open>QueryPerformanceCounter\<close>.\<close>

definition qpc_frequency :: "i64 \<Rightarrow> u64" where
  "qpc_frequency quad_part = (if 0 <s quad_part then quad_part else 1)"

definition monotonic_now_windows :: "i64 \<Rightarrow> u64" where
  "monotonic_now_windows quad_part = quad_part"

definition monotonic_now_ns_posix :: "i64 \<Rightarrow> i64 \<Rightarrow> u64" where
  "monotonic_now_ns_posix tv_sec tv_nsec = monotonic_now_posix tv_sec tv_nsec"

definition monotonic_now_ns_windows :: "i64 \<Rightarrow> i64 \<Rightarrow> u64" where
  "monotonic_now_ns_windows frequency_part counter_part =
     (let ticks = monotonic_now_windows counter_part;
          frequency = qpc_frequency frequency_part;
          whole_seconds = ticks div frequency;
          remainder = ticks mod frequency
      in whole_seconds * ns_per_second + remainder * ns_per_second div frequency)"

definition duration_units_windows :: "i64 \<Rightarrow> u64 \<Rightarrow> u64" where
  "duration_units_windows frequency_part ms =
     (let per_ms = qpc_frequency frequency_part div 1000
      in ms * (if per_ms \<noteq> 0 then per_ms else 1))"

definition after_ms_windows :: "i64 \<Rightarrow> u64 \<Rightarrow> u64 \<Rightarrow> Deadline" where
  "after_ms_windows frequency_part now ms =
     (if ms = 0 then \<lparr>dl_at = 1\<rparr> else \<lparr>dl_at = now + duration_units_windows frequency_part ms\<rparr>)"

section \<open>What the readings mean\<close>

lemma uint_nonneg:
  assumes "0 \<le> sint (x :: i64)"
  shows "uint x = sint x"
proof -
  have "sint x < 2 ^ 63" using sint_lt[of x] by simp
  then show ?thesis using assms uint_sint[of x] by (simp add: take_bit_int_eq_self)
qed

lemma monotonic_now_posix_exact:
  assumes "0 \<le> sint tv_sec" "0 \<le> sint tv_nsec" "sint tv_sec * 1000000000 + sint tv_nsec < 2 ^ 64"
  shows "int (unat (monotonic_now_posix tv_sec tv_nsec)) = sint tv_sec * 1000000000 + sint tv_nsec"
proof -
  have a: "uint tv_sec = sint tv_sec" "uint tv_nsec = sint tv_nsec"
    using assms(1,2) by (simp_all add: uint_nonneg)
  have "int (unat tv_sec * 1000000000 + unat tv_nsec) < 2 ^ 64" using assms(3) a by simp
  then have "unat tv_sec * 1000000000 + unat tv_nsec < 2 ^ 64"
    by (metis of_nat_less_iff of_nat_numeral of_nat_power)
  then have "unat (monotonic_now_posix tv_sec tv_nsec) = unat tv_sec * 1000000000 + unat tv_nsec"
    by (simp add: monotonic_now_posix_def ns_per_second_def unat_word_ariths)
  then show ?thesis using a by simp
qed

lemma monotonic_now_posix_mono:
  assumes "0 \<le> sint s" "0 \<le> sint n" "sint n < 1000000000"
    and "0 \<le> sint s'" "0 \<le> sint n'" "sint n' < 1000000000"
    and "sint s' < 18000000000" "sint s < sint s' \<or> sint s = sint s' \<and> sint n \<le> sint n'"
  shows "monotonic_now_posix s n \<le> monotonic_now_posix s' n'"
proof -
  have "int (unat (monotonic_now_posix s n)) = sint s * 1000000000 + sint n"
    using assms by (intro monotonic_now_posix_exact) auto
  moreover have "int (unat (monotonic_now_posix s' n')) = sint s' * 1000000000 + sint n'"
    using assms by (intro monotonic_now_posix_exact) auto
  ultimately show ?thesis using assms by (auto simp: word_le_def)
qed

lemma qpc_frequency_pos: "0 < unat (qpc_frequency f)"
  by (auto simp: qpc_frequency_def unat_gt_0)

lemma monotonic_now_ns_windows_exact:
  assumes "unat (qpc_frequency f) \<le> 2 ^ 34"
    and "unat c * 1000000000 div unat (qpc_frequency f) < 2 ^ 64"
  shows "unat (monotonic_now_ns_windows f c) = unat c * 1000000000 div unat (qpc_frequency f)"
proof -
  define F where "F = unat (qpc_frequency f)"
  define T where "T = unat c"
  have F: "0 < F" "F \<le> 2 ^ 34" using assms(1) qpc_frequency_pos[of f] by (simp_all add: F_def)
  have "T * 1000000000 = (T div F * F + T mod F) * 1000000000" by simp
  also have "\<dots> = T mod F * 1000000000 + (T div F * 1000000000) * F" by algebra
  finally have split: "T * 1000000000 div F = T div F * 1000000000 + T mod F * 1000000000 div F"
    using F(1) by (simp only: div_mult_self1)
  have "T mod F < 2 ^ 34" using F mod_less_divisor[of F T] by linarith
  then have r: "T mod F * 1000000000 < 2 ^ 64" by simp
  have total: "T div F * 1000000000 + T mod F * 1000000000 div F < 2 ^ 64"
    using assms(2) unfolding split[symmetric] by (simp add: F_def T_def)
  have "unat (monotonic_now_ns_windows f c) = T div F * 1000000000 + T mod F * 1000000000 div F"
    using r total
    by (simp add: monotonic_now_ns_windows_def monotonic_now_windows_def ns_per_second_def Let_def
      unat_word_ariths unat_div unat_mod F_def[symmetric] T_def[symmetric])
  then show ?thesis using split by (simp add: F_def T_def)
qed

section \<open>Deadlines in ticks\<close>

lemma duration_units_windows_exact:
  assumes "1000 \<le> unat (qpc_frequency f)" "unat ms * (unat (qpc_frequency f) div 1000) < 2 ^ 64"
  shows "unat (duration_units_windows f ms) = unat ms * (unat (qpc_frequency f) div 1000)"
proof -
  have d: "unat (qpc_frequency f div 1000) = unat (qpc_frequency f) div 1000" by (simp add: unat_div)
  then have "qpc_frequency f div 1000 \<noteq> 0" using assms(1) by (metis unat_0 div_greater_zero_iff less_irrefl zero_less_numeral)
  then show ?thesis using assms(2) d by (simp add: duration_units_windows_def Let_def unat_word_ariths)
qed

text \<open>The wait is never longer than asked for, and shorter unless the frequency counts whole ticks per
  millisecond.\<close>

lemma windows_wait_at_most:
  assumes "1000 \<le> unat (qpc_frequency f)" "unat ms * (unat (qpc_frequency f) div 1000) < 2 ^ 64"
  shows "1000 * unat (duration_units_windows f ms) \<le> unat ms * unat (qpc_frequency f)"
    and "1000 * unat (duration_units_windows f ms) = unat ms * unat (qpc_frequency f) \<longleftrightarrow>
         ms = 0 \<or> 1000 dvd unat (qpc_frequency f)"
proof -
  define F where "F = unat (qpc_frequency f)"
  have u: "1000 * unat (duration_units_windows f ms) = unat ms * (1000 * (F div 1000))"
    using duration_units_windows_exact[OF assms] by (simp add: F_def)
  have le: "1000 * (F div 1000) \<le> F" by simp
  show "1000 * unat (duration_units_windows f ms) \<le> unat ms * unat (qpc_frequency f)"
    unfolding u F_def[symmetric] using le by (rule mult_le_mono2)
  have "1000 * (F div 1000) = F \<longleftrightarrow> 1000 dvd F" by (metis dvd_mult_div_cancel dvd_triv_left)
  then show "1000 * unat (duration_units_windows f ms) = unat ms * unat (qpc_frequency f) \<longleftrightarrow>
         ms = 0 \<or> 1000 dvd unat (qpc_frequency f)"
    unfolding u F_def[symmetric] by (auto simp: unat_eq_0)
qed

text \<open>With the 3579545 Hz power-management timer, a wait of 10 seconds ends 5450 ticks early.\<close>

lemma windows_deadline_early:
  "expired 35790001 (after_ms_windows 3579545 1 10000) \<and> (35790001 - 1 :: u64) < 10 * 3579545"
  by (simp add: after_ms_windows_def duration_units_windows_def qpc_frequency_def expired_def
    word_sless_alt)

end
