(* ===== verification/Lease_Handle.thy ===== *)
theory Lease_Handle
  imports Module_Lease
begin

text \<open>
  Programs over \<open>ModuleLease\<close> handles (\<open>Interface/Lease.h\<close>): the move constructor, the move assignment
  and the destructor of the class, and any sequence of acquisitions, moves and releases over a store of
  handles, mixed with the lifecycle calls on the controls the handles point to.

  Shown: the lease counter of every control is the number of handles that hold it (modulo 2\<open>^\<close>32), so a
  control is idle exactly when no handle holds it; once its unload has begun, no program adds a handle.
\<close>

section \<open>The handle class\<close>

definition lease_valid :: "ModuleLease \<Rightarrow> bool" where
  "lease_valid l \<longleftrightarrow> l \<noteq> None"

text \<open>The new handle and what is left in the old one.\<close>

definition lease_move :: "ModuleLease \<Rightarrow> ModuleLease \<times> ModuleLease" where
  "lease_move other = (other, None)"

text \<open>Assignment between two different handles; the caller below makes the \<open>this != &other\<close> test.\<close>

definition lease_move_assign :: "ModuleLease \<Rightarrow> ModuleLease \<Rightarrow> lease_world
    \<Rightarrow> ModuleLease \<times> ModuleLease \<times> lease_world" where
  "lease_move_assign dst other w = (case lease_release dst w of (w', _) \<Rightarrow> (other, None, w'))"

definition lease_destroy :: "ModuleLease \<Rightarrow> lease_world \<Rightarrow> lease_world" where
  "lease_destroy l w = fst (lease_release l w)"

section \<open>Programs\<close>

datatype lease_op =
    lo_acquire nat nat
  | lo_construct nat nat
  | lo_move nat nat
  | lo_release nat
  | lo_activate nat
  | lo_begin_unload nat
  | lo_mark_unloaded nat

definition on_control :: "nat \<Rightarrow> (ModuleControl \<Rightarrow> ModuleControl) \<Rightarrow> lease_world \<Rightarrow> lease_world" where
  "on_control a f w = w\<lparr>lw_controls := (lw_controls w)(a := f (lw_controls w a))\<rparr>"

text \<open>
  \<open>lo_acquire i a\<close> is \<open>h[i] = acquire_lease(c[a])\<close>, with the temporary destroyed afterwards;
  \<open>lo_construct i j\<close> ends the life of handle i and constructs it again from an expiring handle j.
\<close>

fun lease_exec :: "(string \<Rightarrow> uintptr_t) \<Rightarrow> lease_op \<Rightarrow> (nat \<Rightarrow> ModuleLease) \<times> lease_world
    \<Rightarrow> (nat \<Rightarrow> ModuleLease) \<times> lease_world" where
  "lease_exec dl (lo_acquire i a) (hs, w) =
     (case acquire_lease dl a w of (w1, tmp) \<Rightarrow>
        case lease_move_assign (hs i) tmp w1 of (h, tmp', w2) \<Rightarrow> (hs(i := h), lease_destroy tmp' w2))"
| "lease_exec dl (lo_construct i j) (hs, w) =
     (if i = j then (hs, w)
      else let w1 = lease_destroy (hs i) w
           in case lease_move (hs j) of (h, src) \<Rightarrow> (hs(i := h, j := src), w1))"
| "lease_exec dl (lo_move i j) (hs, w) =
     (if i = j then (hs, w)
      else case lease_move_assign (hs i) (hs j) w of (h, src, w1) \<Rightarrow> (hs(i := h, j := src), w1))"
| "lease_exec dl (lo_release i) (hs, w) =
     (case lease_release (hs i) w of (w1, h) \<Rightarrow> (hs(i := h), w1))"
| "lease_exec dl (lo_activate a) (hs, w) = (hs, on_control a (\<lambda>c. fst (activate_module c)) w)"
| "lease_exec dl (lo_begin_unload a) (hs, w) = (hs, on_control a (\<lambda>c. fst (begin_unload 0 c)) w)"
| "lease_exec dl (lo_mark_unloaded a) (hs, w) = (hs, on_control a mark_unloaded w)"

fun lease_program :: "(string \<Rightarrow> uintptr_t) \<Rightarrow> lease_op list \<Rightarrow> (nat \<Rightarrow> ModuleLease) \<times> lease_world
    \<Rightarrow> (nat \<Rightarrow> ModuleLease) \<times> lease_world" where
  "lease_program dl [] s = s"
| "lease_program dl (a # as) s = lease_program dl as (lease_exec dl a s)"

fun handles_of :: "lease_op \<Rightarrow> nat set" where
  "handles_of (lo_acquire i a) = {i}"
| "handles_of (lo_construct i j) = {i, j}"
| "handles_of (lo_move i j) = {i, j}"
| "handles_of (lo_release i) = {i}"
| "handles_of _ = {}"

section \<open>Counting the handles\<close>

definition held :: "nat \<Rightarrow> (nat \<Rightarrow> ModuleLease) \<Rightarrow> nat \<Rightarrow> nat" where
  "held k hs a = (\<Sum>i<k. of_bool (hs i = Some a))"

definition leases :: "lease_world \<Rightarrow> nat \<Rightarrow> u32" where
  "leases w a = mc_leases (lw_controls w a)"

definition control_closed :: "lease_world \<Rightarrow> nat \<Rightarrow> bool" where
  "control_closed w a \<longleftrightarrow> mc_state (lw_controls w a) \<in> {st_draining, st_unloaded}"

definition counted_by_handles :: "nat \<Rightarrow> (nat \<Rightarrow> ModuleLease) \<times> lease_world \<Rightarrow> bool" where
  "counted_by_handles k s \<longleftrightarrow> (\<forall>a. leases (snd s) a = of_nat (held k (fst s) a))"

lemma held_upd:
  assumes "i < k"
  shows "held k (hs(i := l)) a + of_bool (hs i = Some a) = held k hs a + of_bool (l = Some a)"
proof -
  define rest where "rest f = (\<Sum>j\<in>{..<k} - {i}. of_bool (f j = Some a) :: nat)" for f :: "nat \<Rightarrow> ModuleLease"
  have "held k f a = of_bool (f i = Some a) + rest f" for f
    unfolding held_def rest_def using assms by (intro sum.remove) simp_all
  moreover have "rest (hs(i := l)) = rest hs" unfolding rest_def by (intro sum.cong) simp_all
  ultimately show ?thesis by simp
qed

lemma held_upd_word:
  assumes "i < k"
  shows "(of_nat (held k (hs(i := l)) a) :: u32) =
    of_nat (held k hs a) + of_bool (l = Some a) - of_bool (hs i = Some a)"
proof -
  have "(of_nat (held k (hs(i := l)) a + of_bool (hs i = Some a)) :: u32) =
      of_nat (held k hs a + of_bool (l = Some a))"
    using held_upd[OF assms] by simp
  then show ?thesis by (simp add: algebra_simps)
qed

lemma held_zero_iff: "held k hs a = 0 \<longleftrightarrow> (\<forall>i<k. hs i \<noteq> Some a)"
  unfolding held_def by (subst sum_eq_0_iff) auto

lemma held_le: "held k hs a \<le> k"
  unfolding held_def using sum_bounded_above[of "{..<k}" "\<lambda>i. of_bool (hs i = Some a)" "1::nat"] by simp

lemma acquire_lease_effect:
  assumes "acquire_lease dl a w = (w', l)"
  shows "leases w' b = leases w b + of_bool (l = Some b)"
    and "control_closed w' b = control_closed w b"
    and "control_closed w a \<Longrightarrow> l = None" "l = None \<or> l = Some a"
proof -
  obtain c refs ok where t: "try_acquire_lease dl (lw_controls w a) (lw_refs w) = (c, refs, ok)"
    by (metis prod_cases3)
  have w': "w' = w\<lparr>lw_controls := (lw_controls w)(a := c), lw_refs := refs\<rparr>"
    and l: "l = (if ok then Some a else None)"
    using assms t by (simp_all add: acquire_lease_def)
  show "leases w' b = leases w b + of_bool (l = Some b)" "control_closed w' b = control_closed w b"
    "control_closed w a \<Longrightarrow> l = None" "l = None \<or> l = Some a"
    using try_acquire_lease_spec[OF t] by (auto simp: w' l leases_def control_closed_def)
qed

lemma lease_release_effect:
  assumes "lease_release l w = (w', l')"
  shows "leases w' b = leases w b - of_bool (l = Some b)" "control_closed w' b = control_closed w b" "l' = None"
proof -
  have "leases w' b = leases w b - of_bool (l = Some b) \<and> control_closed w' b = control_closed w b \<and> l' = None"
  proof (cases l)
    case None
    then show ?thesis using assms by (simp add: lease_release_def)
  next
    case (Some a)
    obtain c refs where r: "release_lease (lw_controls w a) (lw_refs w) = (c, refs)" by fastforce
    have "w' = w\<lparr>lw_controls := (lw_controls w)(a := c), lw_refs := refs\<rparr>" "l' = None"
      using assms r Some by (simp_all add: lease_release_def)
    then show ?thesis using release_lease_spec[OF r] Some by (simp add: leases_def control_closed_def)
  qed
  then show "leases w' b = leases w b - of_bool (l = Some b)" "control_closed w' b = control_closed w b" "l' = None"
    by simp_all
qed

lemma on_control_effect:
  assumes "\<And>c. mc_leases (f c) = mc_leases c"
  shows "leases (on_control a f w) b = leases w b"
  using assms by (simp add: leases_def on_control_def)

lemma lifecycle_keeps_leases:
  "mc_leases (fst (activate_module c)) = mc_leases c"
  "mc_leases (fst (begin_unload n c)) = mc_leases c"
  "mc_leases (mark_unloaded c) = mc_leases c"
  by (simp_all add: activate_module_def begin_unload_eq mark_unloaded_def)

lemma lifecycle_keeps_closed:
  "control_closed w b \<Longrightarrow> control_closed (on_control a (\<lambda>c. fst (activate_module c)) w) b"
  "control_closed w b \<Longrightarrow> control_closed (on_control a (\<lambda>c. fst (begin_unload n c)) w) b"
  "control_closed w b \<Longrightarrow> control_closed (on_control a mark_unloaded w) b"
  by (auto simp: control_closed_def on_control_def activate_module_def begin_unload_eq mark_unloaded_def)

text \<open>What one operation does to the handles and to the counters, in one place: the counter of a control
  moves by as much as the number of handles on it.\<close>

lemma lease_exec_balance:
  assumes "handles_of x \<subseteq> {..<k}" "lease_exec dl x (hs, w) = (hs', w')"
  shows "leases w' b - of_nat (held k hs' b) = leases w b - of_nat (held k hs b)"
proof (cases x)
  case (lo_acquire i a)
  obtain w1 l where q: "acquire_lease dl a w = (w1, l)" by fastforce
  obtain w2 l2 where r: "lease_release (hs i) w1 = (w2, l2)" by fastforce
  have e: "hs' = hs(i := l)" "w' = w2"
    using assms(2) q r by (auto simp: lo_acquire lease_move_assign_def lease_destroy_def lease_release_def)
  have "i < k" using assms(1) lo_acquire by simp
  then show ?thesis
    unfolding e held_upd_word[OF \<open>i < k\<close>]
    using acquire_lease_effect(1)[OF q, of b] lease_release_effect(1)[OF r, of b] by simp
next
  case (lo_construct i j)
  show ?thesis
  proof (cases "i = j")
    case False
    obtain w1 l where r: "lease_release (hs i) w = (w1, l)" by fastforce
    have e: "hs' = hs(i := hs j, j := None)" "w' = w1" using assms(2) r False
      by (auto simp: lo_construct lease_move_def lease_destroy_def)
    have "i < k" "j < k" using assms(1) lo_construct by simp_all
    then show ?thesis unfolding e held_upd_word[OF \<open>j < k\<close>] held_upd_word[OF \<open>i < k\<close>]
      using False lease_release_effect(1)[OF r, of b] by simp
  qed (use assms(2) lo_construct in simp)
next
  case (lo_move i j)
  show ?thesis
  proof (cases "i = j")
    case False
    obtain w1 l where r: "lease_release (hs i) w = (w1, l)" by fastforce
    have e: "hs' = hs(i := hs j, j := None)" "w' = w1" using assms(2) r False
      by (auto simp: lo_move lease_move_assign_def)
    have "i < k" "j < k" using assms(1) lo_move by simp_all
    then show ?thesis unfolding e held_upd_word[OF \<open>j < k\<close>] held_upd_word[OF \<open>i < k\<close>]
      using False lease_release_effect(1)[OF r, of b] by simp
  qed (use assms(2) lo_move in simp)
next
  case (lo_release i)
  obtain w1 l where r: "lease_release (hs i) w = (w1, l)" by fastforce
  have "i < k" using assms(1) lo_release by simp
  then show ?thesis using assms(2) r lease_release_effect[OF r]
    by (auto simp: lo_release held_upd_word)
qed (use assms(2) in \<open>auto simp: on_control_effect lifecycle_keeps_leases\<close>)

lemma lease_exec_counted:
  "handles_of x \<subseteq> {..<k} \<Longrightarrow> counted_by_handles k s \<Longrightarrow> counted_by_handles k (lease_exec dl x s)"
  using lease_exec_balance[of x k dl "fst s" "snd s" "fst (lease_exec dl x s)" "snd (lease_exec dl x s)"]
  by (simp add: counted_by_handles_def)

lemma lease_program_counted:
  "(\<Union>x\<in>set xs. handles_of x) \<subseteq> {..<k} \<Longrightarrow> counted_by_handles k s \<Longrightarrow>
    counted_by_handles k (lease_program dl xs s)"
  by (induction xs arbitrary: s) (simp_all add: lease_exec_counted)

text \<open>A control whose counter is zero is held by no handle, and the other way round: what
  \<open>wait_for_idle\<close> waits for is exactly that every handle has let go.\<close>

lemma idle_iff_no_handle:
  assumes "counted_by_handles k s" "k < 2 ^ 32"
  shows "leases (snd s) a = 0 \<longleftrightarrow> (\<forall>i<k. fst s i \<noteq> Some a)"
proof -
  have "held k (fst s) a < 2 ^ 32" using held_le[of k "fst s" a] assms(2) by linarith
  then have "(of_nat (held k (fst s) a) :: u32) = 0 \<longleftrightarrow> held k (fst s) a = 0"
    by (simp add: word_unat_eq_iff unat_of_nat)
  then show ?thesis using assms(1) by (simp add: counted_by_handles_def held_zero_iff)
qed

section \<open>Draining\<close>

lemma lease_exec_closed:
  assumes "control_closed (snd s) b"
  shows "control_closed (snd (lease_exec dl x s)) b"
proof -
  obtain hs w where s: "s = (hs, w)" by fastforce
  have rel: "control_closed (fst (lease_release l v)) b = control_closed v b" for l v
    using lease_release_effect(2)[of l v "fst (lease_release l v)" "snd (lease_release l v)"] by simp
  have acq: "control_closed (fst (acquire_lease dl a w)) b = control_closed w b" for a
    using acquire_lease_effect(2)[of dl a w "fst (acquire_lease dl a w)" "snd (acquire_lease dl a w)"] by simp
  show ?thesis using assms
    by (cases x) (auto simp: s lease_move_assign_def lease_destroy_def lease_move_def rel acq
      lifecycle_keeps_closed case_prod_unfold Let_def)
qed

lemma lease_exec_no_gain:
  assumes "handles_of x \<subseteq> {..<k}" "control_closed (snd s) b"
  shows "held k (fst (lease_exec dl x s)) b \<le> held k (fst s) b"
proof -
  obtain hs w where s: "s = (hs, w)" by fastforce
  have upd: "held k (f(i := l)) b \<le> held k f b + of_bool (l = Some b)" if "i < k" for f i l
    using held_upd[OF that, of f l b] by simp
  have move: "held k (hs(i := hs j, j := None)) b \<le> held k hs b" if "i < k" "j < k" "i \<noteq> j" for i j
    using held_upd[OF that(2), of "hs(i := hs j)" None b] held_upd[OF that(1), of hs "hs j" b] that(3) by simp
  have none: "snd (acquire_lease dl a w) \<noteq> Some b" for a
    using acquire_lease_effect(3,4)[of dl a w "fst (acquire_lease dl a w)" "snd (acquire_lease dl a w)"]
      assms(2) s by auto
  have acq: "held k (hs(i := snd (acquire_lease dl a w))) b \<le> held k hs b" if "i < k" for i a
    using upd[OF that, of hs "snd (acquire_lease dl a w)"] none by simp
  show ?thesis
  proof (cases x)
    case (lo_release i)
    then show ?thesis using assms(1) upd[of i hs None]
      by (simp add: s case_prod_unfold lease_release_None)
  qed (use assms(1) acq move in \<open>auto simp: s lease_move_assign_def lease_move_def case_prod_unfold Let_def\<close>)
qed

text \<open>Once \<open>begin_unload\<close> has closed a control, no program of handle operations makes more handles hold
  it; only releases are left.\<close>

lemma draining_only_shrinks:
  assumes "(\<Union>x\<in>set xs. handles_of x) \<subseteq> {..<k}" "control_closed (snd s) b"
  shows "held k (fst (lease_program dl xs s)) b \<le> held k (fst s) b"
  using assms
proof (induction xs arbitrary: s)
  case (Cons x xs)
  have "held k (fst (lease_program dl xs (lease_exec dl x s))) b \<le> held k (fst (lease_exec dl x s)) b"
    using Cons.prems by (intro Cons.IH lease_exec_closed) simp_all
  also have "\<dots> \<le> held k (fst s) b" using Cons.prems by (intro lease_exec_no_gain) simp_all
  finally show ?case by simp
qed simp

end
