(* ===== verification/Wire_Layout.thy ===== *)
theory Wire_Layout
  imports Type_Registry Model_Map
begin

text \<open>
  The fixed layouts of the boundary: the structs whose size the headers pin with \<open>static_assert\<close>, the
  records of the ABI model that only travel as data, and the vocabulary types of \<open>STD/\<close>.

  A struct is the list of its member types in declaration order; \<open>csize\<close>, \<open>calign\<close> and \<open>coffsets\<close> are the
  rules of the platform ABI, over the size of a pointer and the alignment of a 64-bit integer.

  Shown: members are aligned, in order and disjoint, and an object is a whole number of its alignments;
  every assertion of the headers holds on 64-bit targets, and those on structs with two pointers fail on
  32-bit ones; the descriptors the registry bootstraps itself with state the true sizes; the two-step plan
  from the length-first view to the canonical span moves both members, whatever they are.
\<close>

section \<open>Layout rules\<close>

datatype ctype =
    c_u8 | c_u16 | c_u32 | c_u64 | c_ptr
  | c_array ctype nat
  | c_struct "ctype list"

record platform =
  pointer_size :: nat
  u64_align :: nat

text \<open>Everything the library compiles on, and a 32-bit ABI that aligns 64-bit integers to 8 or to 4.\<close>

definition lp64 :: platform where
  "lp64 = \<lparr>pointer_size = 8, u64_align = 8\<rparr>"

definition ilp32 :: "nat \<Rightarrow> platform" where
  "ilp32 a = \<lparr>pointer_size = 4, u64_align = a\<rparr>"

definition round_up :: "nat \<Rightarrow> nat \<Rightarrow> nat" where
  "round_up n a = (n + (a - 1)) div a * a"

text \<open>Members as pairs of size and alignment: their offsets from \<open>k\<close> on, and where the last one ends.\<close>

fun place :: "(nat \<times> nat) list \<Rightarrow> nat \<Rightarrow> nat list" where
  "place [] k = []"
| "place ((s, a) # ms) k = round_up k a # place ms (round_up k a + s)"

fun extent :: "(nat \<times> nat) list \<Rightarrow> nat \<Rightarrow> nat" where
  "extent [] k = k"
| "extent ((s, a) # ms) k = extent ms (round_up k a + s)"

fun calign :: "platform \<Rightarrow> ctype \<Rightarrow> nat" where
  "calign p c_u8 = 1"
| "calign p c_u16 = 2"
| "calign p c_u32 = 4"
| "calign p c_u64 = u64_align p"
| "calign p c_ptr = pointer_size p"
| "calign p (c_array t n) = calign p t"
| "calign p (c_struct ts) = foldr max (map (calign p) ts) 1"

fun csize :: "platform \<Rightarrow> ctype \<Rightarrow> nat" where
  "csize p c_u8 = 1"
| "csize p c_u16 = 2"
| "csize p c_u32 = 4"
| "csize p c_u64 = 8"
| "csize p c_ptr = pointer_size p"
| "csize p (c_array t n) = n * csize p t"
| "csize p (c_struct ts) =
     round_up (extent (map (\<lambda>t. (csize p t, calign p t)) ts) 0) (foldr max (map (calign p) ts) 1)"

definition members :: "platform \<Rightarrow> ctype list \<Rightarrow> (nat \<times> nat) list" where
  "members p ts = map (\<lambda>t. (csize p t, calign p t)) ts"

definition coffsets :: "platform \<Rightarrow> ctype list \<Rightarrow> nat list" where
  "coffsets p ts = place (members p ts) 0"

section \<open>The structs\<close>

text \<open>A signed integer lies as the unsigned one of its width, an enumeration as its underlying type.\<close>

definition Hash128_c :: ctype where "Hash128_c = c_struct [c_u64, c_u64]"

definition TypeLayout_c :: "ctype list" where
  "TypeLayout_c = [c_u32, c_u32, c_u32, c_u32, Hash128_c]"

definition TypeDesc_c :: "ctype list" where
  "TypeDesc_c = [Hash128_c, c_u32, c_u32, c_u32]"

definition Field_c :: "ctype list" where
  "Field_c = [c_u32, Hash128_c, c_u32, c_u32, c_u16, c_u16]"

definition Function_c :: "ctype list" where
  "Function_c = [c_u32, c_u32, c_u32, c_u16, c_u8, c_u8]"

definition Symbol_c :: "ctype list" where
  "Symbol_c = [c_u32, c_u32, Hash128_c, c_u8, c_u8, c_u16]"

definition MapInfo_c :: "ctype list" where
  "MapInfo_c = [Hash128_c, Hash128_c, c_u32, c_u32]"

definition Compat_c :: "ctype list" where
  "Compat_c = [Hash128_c, Hash128_c, c_u32, c_u32]"

definition ABIIdentity_c :: "ctype list" where
  "ABIIdentity_c = [c_u32, c_u32, c_u32, c_u32, c_u32]"

definition Target_c :: "ctype list" where
  "Target_c = [c_u32, c_u32, c_u32]"

definition Operation_c :: "ctype list" where
  "Operation_c = [c_u8, c_array c_u8 3, c_u32, c_u32, c_u64]"

definition BootRecord_c :: "ctype list" where
  "BootRecord_c = [c_u64, c_u32, c_u32, c_ptr]"

definition WireRecord_c :: "ctype list" where
  "WireRecord_c = [c_u64, c_u32, c_u32]"

definition Bootstrap_c :: "ctype list" where
  "Bootstrap_c = [c_ptr, c_ptr]"

definition MetaEntry_c :: "ctype list" where
  "MetaEntry_c = [c_ptr, c_ptr, c_u64]"

definition ErrorCode_c :: "ctype list" where
  "ErrorCode_c = [c_u64, c_u32, c_u32]"

definition InterfaceMethod_c :: "ctype list" where
  "InterfaceMethod_c = [Hash128_c, c_ptr, c_u32, c_u32]"

definition InterfaceManifestEntry_c :: "ctype list" where
  "InterfaceManifestEntry_c = [Hash128_c, c_u32, c_u32, c_ptr, c_u32, c_u32]"

definition ModuleManifest_c :: "ctype list" where
  "ModuleManifest_c = [c_u32, c_u32, c_u32, c_u32, c_ptr, c_u32, c_u32, c_ptr]"

definition owner_handle_c :: "ctype list" where
  "owner_handle_c = [c_ptr, c_u32, c_u32, c_ptr, c_u64]"

text \<open>Vocabulary types, over the element type where the source has a template.\<close>

definition abix_span_c :: "ctype list" where "abix_span_c = [c_ptr, c_u64]"
definition abix_view_rev_c :: "ctype list" where "abix_view_rev_c = [c_u64, c_ptr]"
definition abix_str_c :: "ctype list" where "abix_str_c = [c_ptr, c_u64, c_u32]"
definition abix_optional_c :: "ctype \<Rightarrow> ctype list" where "abix_optional_c t = [c_u8, t]"
definition abix_result_c :: "ctype \<Rightarrow> ctype list" where "abix_result_c t = [c_u32, t]"
definition abix_callback_c :: "ctype list" where "abix_callback_c = [c_ptr, c_ptr]"

datatype Encoding = utf8 | utf16 | utf32

fun Encoding_num :: "Encoding \<Rightarrow> u32" where
  "Encoding_num utf8 = 0"
| "Encoding_num utf16 = 1"
| "Encoding_num utf32 = 2"

section \<open>The rules are sound\<close>

definition platform_ok :: "platform \<Rightarrow> bool" where
  "platform_ok p \<longleftrightarrow> 0 < pointer_size p \<and> 0 < u64_align p"

lemma round_up_props:
  assumes "0 < a"
  shows "n \<le> round_up n a" "a dvd round_up n a" "round_up n a < n + a"
proof -
  have e: "(n + (a - 1)) div a * a + (n + (a - 1)) mod a = n + (a - 1)" by simp
  have m: "(n + (a - 1)) mod a \<le> a - 1" using assms by (metis Suc_pred' less_Suc_eq_le mod_less_divisor)
  show "n \<le> round_up n a" using e m unfolding round_up_def by linarith
  show "a dvd round_up n a" by (simp add: round_up_def)
  show "round_up n a < n + a" using e assms unfolding round_up_def by linarith
qed

lemma length_place [simp]: "length (place ms k) = length ms"
  by (induction ms k rule: place.induct) simp_all

lemma place_props:
  assumes "\<forall>m \<in> set ms. 0 < snd m" "i < length ms"
  shows "snd (ms ! i) dvd place ms k ! i \<and> k \<le> place ms k ! i
    \<and> place ms k ! i + fst (ms ! i) \<le> (if Suc i < length ms then place ms k ! Suc i else extent ms k)"
  using assms
proof (induction ms k arbitrary: i rule: place.induct)
  case (2 s a ms k)
  have a: "0 < a" "\<forall>m \<in> set ms. 0 < snd m" using "2.prems"(1) by auto
  note r = round_up_props[OF a(1), of k]
  show ?case
  proof (cases i)
    case 0
    have "round_up k a + s \<le> (if ms \<noteq> [] then place ms (round_up k a + s) ! 0 else extent ms (round_up k a + s))"
      using a(2) round_up_props(1)[of _ "round_up k a + s"] by (cases ms) auto
    then show ?thesis using 0 r by (auto split: if_splits)
  next
    case (Suc j)
    then show ?thesis using "2.IH"[OF a(2), of j] "2.prems"(2) r by auto
  qed
qed simp

lemma foldr_max_ge: "x \<in> set xs \<Longrightarrow> x \<le> foldr max xs (1 :: nat)" "1 \<le> foldr max xs (1 :: nat)"
  by (induction xs) auto

lemma calign_pos: "platform_ok p \<Longrightarrow> 0 < calign p t"
proof (induction t)
  case (c_struct ts)
  show ?case using foldr_max_ge(2)[of "map (calign p) ts"] by simp
qed (simp_all add: platform_ok_def)

lemma members_aligned: "platform_ok p \<Longrightarrow> \<forall>m \<in> set (members p ts). 0 < snd m"
  by (auto simp: members_def calign_pos)

text \<open>For every struct: a member is aligned, ends before the next one starts, and the last one ends
  inside the object, whose size is a multiple of its alignment.\<close>

lemma struct_layout_sound:
  assumes "platform_ok p" "i < length ts"
  shows "calign p (ts ! i) dvd coffsets p ts ! i"
    and "Suc i < length ts \<Longrightarrow> coffsets p ts ! i + csize p (ts ! i) \<le> coffsets p ts ! Suc i"
    and "Suc i = length ts \<Longrightarrow> coffsets p ts ! i + csize p (ts ! i) \<le> csize p (c_struct ts)"
    and "calign p (c_struct ts) dvd csize p (c_struct ts)"
proof -
  note m = members_aligned[OF assms(1), of ts]
  have len: "length (members p ts) = length ts" "members p ts ! i = (csize p (ts ! i), calign p (ts ! i))"
    using assms(2) by (simp_all add: members_def)
  have pp: "calign p (ts ! i) dvd coffsets p ts ! i \<and> coffsets p ts ! i + csize p (ts ! i) \<le>
      (if Suc i < length ts then coffsets p ts ! Suc i else extent (members p ts) 0)"
    using place_props[OF m, of i 0] assms(2) len by (auto simp: coffsets_def split: if_splits)
  have sz: "csize p (c_struct ts) = round_up (extent (members p ts) 0) (calign p (c_struct ts))"
    by (simp add: members_def)
  note ru = round_up_props[OF calign_pos[OF assms(1), of "c_struct ts"], of "extent (members p ts) 0"]
  show "calign p (ts ! i) dvd coffsets p ts ! i" using pp by simp
  show "coffsets p ts ! i + csize p (ts ! i) \<le> coffsets p ts ! Suc i" if "Suc i < length ts"
    using pp that by simp
  show "coffsets p ts ! i + csize p (ts ! i) \<le> csize p (c_struct ts)" if "Suc i = length ts"
    using pp that ru(1) unfolding sz by simp
  show "calign p (c_struct ts) dvd csize p (c_struct ts)" unfolding sz by (rule ru(2))
qed

section \<open>The assertions of the headers\<close>

lemmas struct_defs = Hash128_c_def TypeLayout_c_def TypeDesc_c_def Field_c_def Function_c_def Symbol_c_def
  MapInfo_c_def Compat_c_def ABIIdentity_c_def Target_c_def Operation_c_def BootRecord_c_def WireRecord_c_def Bootstrap_c_def MetaEntry_c_def ErrorCode_c_def
  InterfaceMethod_c_def InterfaceManifestEntry_c_def ModuleManifest_c_def owner_handle_c_def
  abix_span_c_def abix_view_rev_c_def abix_str_c_def abix_optional_c_def abix_result_c_def abix_callback_c_def

lemmas layout_eval = struct_defs coffsets_def members_def lp64_def ilp32_def round_up_def

lemma pinned_sizes:
  "csize lp64 Hash128_c = 16"
  "csize lp64 (c_struct TypeLayout_c) = 32" "csize lp64 (c_struct TypeDesc_c) = 32"
  "csize lp64 (c_struct Field_c) = 40" "csize lp64 (c_struct Function_c) = 16"
  "csize lp64 (c_struct Symbol_c) = 32" "csize lp64 (c_struct WireRecord_c) = 16"
  "csize lp64 (c_struct BootRecord_c) = pointer_size lp64 + 16"
  "csize lp64 (c_struct InterfaceManifestEntry_c) = 40" "csize lp64 (c_struct ModuleManifest_c) = 40"
  "csize lp64 (c_struct owner_handle_c) = 32"
  by (simp_all add: layout_eval)

lemma ErrorCode_layout:
  "csize lp64 (c_struct ErrorCode_c) = 16" "calign lp64 (c_struct ErrorCode_c) = 8"
  "coffsets lp64 ErrorCode_c = [0, 8, 12]"
  by (simp_all add: layout_eval)

text \<open>On a 32-bit target the pointer-free records keep their size when 64-bit integers are aligned to 8,
  and the structs the manifests are made of do not: the headers refuse to compile there.\<close>

lemma pinned_sizes_32:
  "csize (ilp32 8) (c_struct Field_c) = 40" "csize (ilp32 8) (c_struct TypeDesc_c) = 32"
  "csize (ilp32 a) (c_struct ModuleManifest_c) \<noteq> 40"
  "csize (ilp32 8) (c_struct owner_handle_c) \<noteq> 32"
  "csize (ilp32 8) (c_struct BootRecord_c) \<noteq> pointer_size (ilp32 8) + 16"
  "csize (ilp32 4) (c_struct BootRecord_c) = pointer_size (ilp32 4) + 16"
  by (simp_all add: layout_eval)

text \<open>Padding: the bytes of an object no member covers. A record with padding cannot be hashed or compared
  as raw memory; the layout encoding of \<open>Model_ABI\<close> writes the members one by one.\<close>

definition padding :: "platform \<Rightarrow> ctype list \<Rightarrow> nat" where
  "padding p ts = csize p (c_struct ts) - sum_list (map (csize p) ts)"

lemma padding_of_records:
  "padding lp64 Field_c = 8" "padding lp64 TypeDesc_c = 4" "padding lp64 Symbol_c = 4"
  "padding lp64 Operation_c = 4" "padding lp64 TypeLayout_c = 0" "padding lp64 ModuleManifest_c = 0"
  "padding lp64 MapInfo_c = 0" "padding lp64 Compat_c = 0" "padding lp64 ABIIdentity_c = 0"
  "padding lp64 Target_c = 0" "padding lp64 owner_handle_c = 0" "padding lp64 ErrorCode_c = 0"
  by (simp_all add: padding_def layout_eval)

text \<open>The records \<open>bootstrap_self\<close> publishes carry the sizes and alignments of the two structs.\<close>

lemma bootstrap_records_sizes:
  "map (\<lambda>r. (unat (br_size r), unat (br_align r))) bootstrap_records =
     [(csize lp64 (c_struct MetaEntry_c), calign lp64 (c_struct MetaEntry_c)),
      (csize lp64 (c_struct Bootstrap_c), calign lp64 (c_struct Bootstrap_c))]"
  by (simp add: bootstrap_records_def layout_eval)

section \<open>Vocabulary types\<close>

lemma vocabulary_layouts:
  "coffsets lp64 abix_span_c = [0, 8]" "csize lp64 (c_struct abix_span_c) = 16"
  "coffsets lp64 abix_view_rev_c = [0, 8]" "csize lp64 (c_struct abix_view_rev_c) = 16"
  "coffsets lp64 abix_str_c = [0, 8, 16]" "csize lp64 (c_struct abix_str_c) = 24"
  "coffsets lp64 (abix_optional_c c_u32) = [0, 4]" "csize lp64 (c_struct (abix_optional_c c_u32)) = 8"
  "coffsets lp64 (abix_result_c c_u32) = [0, 4]" "csize lp64 (c_struct (abix_result_c c_u32)) = 8"
  "coffsets lp64 abix_callback_c = [0, 8]" "csize lp64 (c_struct abix_callback_c) = 16"
  by (simp_all add: layout_eval)

text \<open>The descriptors of a struct as the model records them; names and identities do not matter to a plan.\<close>

definition describe_layout :: "platform \<Rightarrow> ctype list \<Rightarrow> TypeLayout" where
  "describe_layout p ts =
     \<lparr>tl_size = of_nat (csize p (c_struct ts)), tl_align = of_nat (calign p (c_struct ts)), tl_field_begin = 0,
      tl_field_count = of_nat (length ts), tl_layout_hash = \<lparr>lo = 0, hi = 0\<rparr>\<rparr>"

definition plain_field :: "nat \<Rightarrow> Field" where
  "plain_field n = \<lparr>fd_name_offset = 0, fd_type_id = \<lparr>lo = 0, hi = 0\<rparr>, fd_offset = of_nat n, fd_flags = 0,
     fd_bit_offset = 0, fd_bit_width = 0\<rparr>"

definition describe_fields :: "platform \<Rightarrow> ctype list \<Rightarrow> Field arr" where
  "describe_fields p ts = Some (map plain_field (coffsets p ts))"

definition view_env :: map_env where
  "view_env = \<lparr>ev_source_layout = describe_layout lp64 abix_view_rev_c,
     ev_target_layout = describe_layout lp64 abix_span_c,
     ev_source_fields = describe_fields lp64 abix_view_rev_c,
     ev_target_fields = describe_fields lp64 abix_span_c\<rparr>"

text \<open>\<open>data\<close> is member 1 of the view and member 0 of the span, \<open>len\<close> the other way round.\<close>

definition view_to_span :: MapPlan where
  "view_to_span = \<lparr>mp_info = \<lparr>mi_source = \<lparr>lo = 0, hi = 0\<rparr>, mi_target = \<lparr>lo = 0, hi = 0\<rparr>, mi_rule = 0, mi_flags = 0\<rparr>,
     mp_operations = Some
       [\<lparr>oper_opcode = op_copy_field, oper_source_field_index = 1, oper_target_field_index = 0, oper_auxiliary = 8\<rparr>,
        \<lparr>oper_opcode = op_copy_field, oper_source_field_index = 0, oper_target_field_index = 1, oper_auxiliary = 8\<rparr>],
     mp_count = 2\<rparr>"

lemma view_env_eval:
  "tl_size (ev_source_layout view_env) = 16" "tl_size (ev_target_layout view_env) = 16"
  "tl_align (ev_source_layout view_env) = 8" "tl_align (ev_target_layout view_env) = 8"
  "tl_field_count (ev_source_layout view_env) = 2" "tl_field_count (ev_target_layout view_env) = 2"
  "ev_source_fields view_env = Some [plain_field 0, plain_field 8]"
  "ev_target_fields view_env = Some [plain_field 0, plain_field 8]"
  by (simp_all add: view_env_def describe_layout_def describe_fields_def layout_eval)

lemma plain_field_offset: "fd_offset (plain_field 0) = 0" "fd_offset (plain_field 8) = 8"
  by (simp_all add: plain_field_def)

lemma view_to_span_correct:
  assumes "length len_bytes = 8" "length data_bytes = 8" "length old = 16"
  shows "plan_apply 64 view_to_span conv view_env (Some old) (Some (len_bytes @ data_bytes)) ctx =
    Some (pl_ok, Some (data_bytes @ len_bytes), ctx)"
  using assms
  by (simp add: plan_apply_def view_to_span_def map_valid_layout_def view_env_eval plain_field_offset
    arr_elems_def apply_op_def op_copy_def valid_range_def valid_field_def field_at_def
    guard_and_def memcpy_def)

end
