(* ===== verification/Index_Strategies.thy ===== *)
theory Index_Strategies
  imports Runtime_Search
begin

text \<open>
  The three ways of filling a hash index that \<open>bench/ABIX/hashindex_build_bench.cpp\<close> compares: the two-field
  slots with an initialisation pass (\<open>IndexBase\<close>), the slots with zero for empty that the library ships
  (\<open>IndexZero\<close>), and the slots tagged with a generation, which are never cleared between builds (\<open>IndexGen\<close>).
  Lookups count the slots they look at.

  A slot is seen through its view, \<open>None\<close> for a free one and otherwise the hash and index it holds; probing
  and looking up depend on nothing else. \<open>None\<close> as a result is a loop that never ends, a read outside an
  array, a null name or a failed allocation.

  Shown: after building from any earlier contents, over any sequence of builds for the generation tags and
  also when their counter wraps, all three arrays have the same view, that of the shipped index, and every
  lookup ends with the index the linear scan reports, after the same number of probes in all three.
\<close>

section \<open>Probing through a view\<close>

definition SKL_ABIX_HASHSLOT_EMPTY :: u32 where
  "SKL_ABIX_HASHSLOT_EMPTY = 0xFFFFFFFF"

partial_function (option) probe_free :: "('s \<Rightarrow> (u32 \<times> u32) option) \<Rightarrow> 's list \<Rightarrow> u32 \<Rightarrow> u32 \<Rightarrow> u32 option" where
  "probe_free view slots msk pos =
     (if unat pos < length slots then
        (if view (slots ! unat pos) = None then Some pos
         else probe_free view slots msk ((pos + 1) AND msk))
      else None)"

text \<open>One round of the lookup loop: leave it at a free slot or at the entry sought.\<close>

definition lookup_step :: "('s \<Rightarrow> (u32 \<times> u32) option) \<Rightarrow> Table \<Rightarrow> string \<Rightarrow> u32 \<Rightarrow> 's \<Rightarrow> u32 probe_step" where
  "lookup_step view names name nh s =
     (case view s of
        None \<Rightarrow> ps_return SKL_ABIX_HASHSLOT_EMPTY
      | Some (h, i) \<Rightarrow>
          if h = nh
          then (case Option.bind (entry_at names (unat i)) (\<lambda>e. strcmp_eq (en_name e) name) of
                  None \<Rightarrow> ps_fault
                | Some True \<Rightarrow> ps_return i
                | Some False \<Rightarrow> ps_continue)
          else ps_continue)"

partial_function (option) slot_lookup ::
  "('s \<Rightarrow> u32 probe_step) \<Rightarrow> 's list \<Rightarrow> u32 \<Rightarrow> u32 \<Rightarrow> u64 \<Rightarrow> (u32 \<times> u64) option" where
  "slot_lookup step slots msk pos probes =
     (if unat pos < length slots then
        (case step (slots ! unat pos) of
           ps_fault \<Rightarrow> None
         | ps_return r \<Rightarrow> Some (r, probes)
         | ps_continue \<Rightarrow> slot_lookup step slots msk ((pos + 1) AND msk) (probes + 1))
      else None)"

section \<open>Two-field slots\<close>

record BaseSlot =
  bs_hash :: u32
  bs_index :: u32

record IndexBase =
  ib_slots :: "BaseSlot list option"
  ib_capacity :: u32
  ib_mask :: u32

definition base_view :: "BaseSlot \<Rightarrow> (u32 \<times> u32) option" where
  "base_view s = (if bs_index s = SKL_ABIX_HASHSLOT_EMPTY then None else Some (bs_hash s, bs_index s))"

definition base_insert :: "u32 \<Rightarrow> Entry \<Rightarrow> nat \<Rightarrow> BaseSlot list \<Rightarrow> BaseSlot list option" where
  "base_insert msk e i slots =
     map_option (\<lambda>pos. slots[unat pos := \<lparr>bs_hash = en_name_hash e, bs_index = of_nat i\<rparr>])
       (probe_free base_view slots msk (en_name_hash e AND msk))"

text \<open>The insertion loop has one text in all three classes.\<close>

function fill_with :: "(Entry \<Rightarrow> nat \<Rightarrow> 's list \<Rightarrow> 's list option) \<Rightarrow> Table \<Rightarrow> nat \<Rightarrow> 's list \<Rightarrow> 's list option" where
  "fill_with ins t i slots =
     (if i < unat (tb_count t) then
        (case entry_at t i of
           None \<Rightarrow> None
         | Some e \<Rightarrow> (case ins e i slots of None \<Rightarrow> None | Some slots' \<Rightarrow> fill_with ins t (Suc i) slots'))
      else Some slots)"
  by pat_completeness auto
termination by (relation "measure (\<lambda>(_, t, i, _). unat (tb_count t) - i)") auto

declare fill_with.simps [simp del]

text \<open>\<open>malloc\<close>: \<open>None\<close> when it fails, which the code does not check, otherwise the contents of the block.\<close>

definition slots_for :: "(nat \<Rightarrow> 's) option \<Rightarrow> 's list option \<Rightarrow> u32 \<Rightarrow> u32 \<Rightarrow> 's list option" where
  "slots_for memory old capacity want =
     (if old = None \<or> capacity \<noteq> want then map_option (\<lambda>g. map g [0..<unat want]) memory else old)"

text \<open>The initialisation pass writes the first \<open>capacity\<close> slots.\<close>

definition set_slots :: "'s list \<Rightarrow> nat \<Rightarrow> 's \<Rightarrow> 's list option" where
  "set_slots slots n s = (if n \<le> length slots then Some (replicate n s @ drop n slots) else None)"

definition base_build :: "(nat \<Rightarrow> BaseSlot) option \<Rightarrow> Table \<Rightarrow> IndexBase \<Rightarrow> IndexBase option" where
  "base_build memory t idx =
     (let want = next_pow2 (tb_count t * 2) in
      Option.bind (slots_for memory (ib_slots idx) (ib_capacity idx) want) (\<lambda>slots.
      Option.bind (set_slots slots (unat want) \<lparr>bs_hash = 0, bs_index = SKL_ABIX_HASHSLOT_EMPTY\<rparr>) (\<lambda>slots.
      map_option (\<lambda>slots. \<lparr>ib_slots = Some slots, ib_capacity = want, ib_mask = want - 1\<rparr>)
        (fill_with (base_insert (want - 1)) t 0 slots))))"

definition base_lookup :: "Table \<Rightarrow> IndexBase \<Rightarrow> u32 \<Rightarrow> string \<Rightarrow> (u32 \<times> u64) option" where
  "base_lookup names idx nh name =
     (case ib_slots idx of
        None \<Rightarrow> None
      | Some slots \<Rightarrow> slot_lookup (lookup_step base_view names name nh) slots (ib_mask idx) (nh AND ib_mask idx) 1)"

section \<open>Zero for empty\<close>

record IndexZero =
  iz_slots :: "HashSlot list option"
  iz_capacity :: u32
  iz_mask :: u32

definition zero_view :: "HashSlot \<Rightarrow> (u32 \<times> u32) option" where
  "zero_view s = (if sl_index_plus1 s = 0 then None else Some (sl_hash s, sl_index_plus1 s - 1))"

definition zero_insert :: "u32 \<Rightarrow> Entry \<Rightarrow> nat \<Rightarrow> HashSlot list \<Rightarrow> HashSlot list option" where
  "zero_insert msk e i slots =
     map_option (\<lambda>pos. slots[unat pos := \<lparr>sl_hash = en_name_hash e, sl_index_plus1 = of_nat i + 1\<rparr>])
       (probe_free zero_view slots msk (en_name_hash e AND msk))"

definition zero_build :: "(nat \<Rightarrow> HashSlot) option \<Rightarrow> Table \<Rightarrow> IndexZero \<Rightarrow> IndexZero option" where
  "zero_build memory t idx =
     (let want = next_pow2 (tb_count t * 2) in
      Option.bind (slots_for memory (iz_slots idx) (iz_capacity idx) want) (\<lambda>slots.
      Option.bind (set_slots slots (unat want) \<lparr>sl_hash = 0, sl_index_plus1 = 0\<rparr>) (\<lambda>slots.
      map_option (\<lambda>slots. \<lparr>iz_slots = Some slots, iz_capacity = want, iz_mask = want - 1\<rparr>)
        (fill_with (zero_insert (want - 1)) t 0 slots))))"

definition zero_lookup :: "Table \<Rightarrow> IndexZero \<Rightarrow> u32 \<Rightarrow> string \<Rightarrow> (u32 \<times> u64) option" where
  "zero_lookup names idx nh name =
     (case iz_slots idx of
        None \<Rightarrow> None
      | Some slots \<Rightarrow> slot_lookup (lookup_step zero_view names name nh) slots (iz_mask idx) (nh AND iz_mask idx) 1)"

section \<open>Generation tags\<close>

record GenSlot =
  gs_hash :: u32
  gs_index :: u32
  gs_gen :: u32

record IndexGen =
  ig_slots :: "GenSlot list option"
  ig_capacity :: u32
  ig_mask :: u32
  ig_gen :: u32

definition new_gen_index :: IndexGen where
  "new_gen_index = \<lparr>ig_slots = None, ig_capacity = 0, ig_mask = 0, ig_gen = 0\<rparr>"

definition gen_view :: "u32 \<Rightarrow> GenSlot \<Rightarrow> (u32 \<times> u32) option" where
  "gen_view g s = (if gs_gen s = g then Some (gs_hash s, gs_index s) else None)"

definition zero_gen_slot :: GenSlot where
  "zero_gen_slot = \<lparr>gs_hash = 0, gs_index = 0, gs_gen = 0\<rparr>"

text \<open>\<open>calloc\<close> gives zeroed memory or, when \<open>ok\<close> is false, null.\<close>

definition gen_reset :: "bool \<Rightarrow> u32 \<Rightarrow> IndexGen \<Rightarrow> IndexGen" where
  "gen_reset ok want idx =
     \<lparr>ig_slots = (if ok then Some (replicate (unat want) zero_gen_slot) else None),
      ig_capacity = want, ig_mask = want - 1, ig_gen = 0\<rparr>"

definition gen_clear :: "IndexGen \<Rightarrow> IndexGen" where
  "gen_clear idx = new_gen_index"

definition gen_insert :: "u32 \<Rightarrow> u32 \<Rightarrow> Entry \<Rightarrow> nat \<Rightarrow> GenSlot list \<Rightarrow> GenSlot list option" where
  "gen_insert g msk e i slots =
     map_option (\<lambda>pos. slots[unat pos := \<lparr>gs_hash = en_name_hash e, gs_index = of_nat i, gs_gen = g\<rparr>])
       (probe_free (gen_view g) slots msk (en_name_hash e AND msk))"

definition gen_build :: "bool \<Rightarrow> Table \<Rightarrow> IndexGen \<Rightarrow> IndexGen option" where
  "gen_build ok t idx =
     (let want = next_pow2 (tb_count t * 2);
          idx = (if ig_slots idx = None \<or> ig_capacity idx \<noteq> want then gen_reset ok want idx else idx);
          g = ig_gen idx + 1
      in Option.bind (ig_slots idx) (\<lambda>slots.
         Option.bind (if g = 0 then set_slots slots (unat (ig_capacity idx)) zero_gen_slot else Some slots) (\<lambda>slots.
         let g = (if g = 0 then 1 else g) in
         map_option (\<lambda>slots. idx\<lparr>ig_slots := Some slots, ig_gen := g\<rparr>)
           (fill_with (gen_insert g (ig_mask idx)) t 0 slots))))"

definition gen_lookup :: "Table \<Rightarrow> IndexGen \<Rightarrow> u32 \<Rightarrow> string \<Rightarrow> (u32 \<times> u64) option" where
  "gen_lookup names idx nh name =
     (case ig_slots idx of
        None \<Rightarrow> None
      | Some slots \<Rightarrow>
          slot_lookup (lookup_step (gen_view (ig_gen idx)) names name nh) slots (ig_mask idx) (nh AND ig_mask idx) 1)"


text \<open>The comparison the benchmark makes on one table: the probes each variant needs over all entries and how
  often their answers differ.\<close>

definition new_base_index :: IndexBase where
  "new_base_index = \<lparr>ib_slots = None, ib_capacity = 0, ib_mask = 0\<rparr>"

definition new_zero_index :: IndexZero where
  "new_zero_index = \<lparr>iz_slots = None, iz_capacity = 0, iz_mask = 0\<rparr>"

fun compare_lookups :: "Table \<Rightarrow> IndexBase \<Rightarrow> IndexZero \<Rightarrow> IndexGen \<Rightarrow> Entry list \<Rightarrow> (u64 \<times> u64 \<times> u64 \<times> u64) option" where
  "compare_lookups t b z g [] = Some (0, 0, 0, 0)"
| "compare_lookups t b z g (e # es) =
     Option.bind (en_name e) (\<lambda>name.
     Option.bind (base_lookup t b (en_name_hash e) name) (\<lambda>(ib, pb).
     Option.bind (zero_lookup t z (en_name_hash e) name) (\<lambda>(iz, pz).
     Option.bind (gen_lookup t g (en_name_hash e) name) (\<lambda>(ig, pg).
     map_option (\<lambda>(bp, zp, gp, mism). (pb + bp, pz + zp, pg + gp, (if iz \<noteq> ib \<or> ig \<noteq> ib then 1 else 0) + mism))
       (compare_lookups t b z g es)))))"

definition probes_and_mismatches ::
  "(nat \<Rightarrow> BaseSlot) option \<Rightarrow> (nat \<Rightarrow> HashSlot) option \<Rightarrow> bool \<Rightarrow> Table \<Rightarrow> (u64 \<times> u64 \<times> u64 \<times> u64) option" where
  "probes_and_mismatches mb mz ok t =
     Option.bind (base_build mb t new_base_index) (\<lambda>b.
     Option.bind (zero_build mz t new_zero_index) (\<lambda>z.
     Option.bind (gen_build ok t new_gen_index) (\<lambda>g.
     compare_lookups t b z g (take (unat (tb_count t)) (the (tb_entries t))))))"

section \<open>Recycling on the reload cadence\<close>

text \<open>
  \<open>pattern_round\<close> without the fill: how each step gets its buffer and what a batch release does with the
  pending ones. Buffers are numbered in the order they are allocated; \<open>pr_parked\<close> is the buffer of
  \<open>ParkedZeroSlots\<close> with its capacity.
\<close>

datatype pattern_mode = pm_alloc | pm_pooled | pm_pooled_all

record pattern_state =
  pr_parked :: "(nat \<times> u32) option"
  pr_pending :: "nat list"
  pr_next :: nat
  pr_freed :: "nat list"
  pr_hits :: u64

definition pattern_take :: "pattern_mode \<Rightarrow> u32 \<Rightarrow> pattern_state \<Rightarrow> nat \<times> pattern_state" where
  "pattern_take mode want s =
     (case pr_parked s of
        Some (b, cap) \<Rightarrow>
          if mode \<noteq> pm_alloc \<and> cap = want then (b, s\<lparr>pr_parked := None, pr_hits := pr_hits s + 1\<rparr>)
          else (pr_next s, s\<lparr>pr_next := Suc (pr_next s)\<rparr>)
      | None \<Rightarrow> (pr_next s, s\<lparr>pr_next := Suc (pr_next s)\<rparr>))"

definition pattern_release :: "pattern_mode \<Rightarrow> u32 \<Rightarrow> nat \<Rightarrow> pattern_state \<Rightarrow> pattern_state" where
  "pattern_release mode want b s =
     (let parkable = mode \<noteq> pm_alloc \<and> (mode = pm_pooled_all \<or> in_slot_pool_window want) in
      if parkable \<and> (case pr_parked s of None \<Rightarrow> True | Some (_, cap) \<Rightarrow> cap \<noteq> want)
      then s\<lparr>pr_parked := Some (b, want),
             pr_freed := pr_freed s @ (case pr_parked s of None \<Rightarrow> [] | Some (stale, _) \<Rightarrow> [stale])\<rparr>
      else s\<lparr>pr_freed := pr_freed s @ [b]\<rparr>)"

definition pattern_step :: "nat \<Rightarrow> pattern_mode \<Rightarrow> u32 \<Rightarrow> pattern_state \<Rightarrow> pattern_state" where
  "pattern_step batch mode want s =
     (case pattern_take mode want s of (b, s) \<Rightarrow>
        let s = s\<lparr>pr_pending := pr_pending s @ [b]\<rparr>
        in if length (pr_pending s) = batch
           then (fold (pattern_release mode want) (pr_pending s) s)\<lparr>pr_pending := []\<rparr>
           else s)"

definition pattern_round :: "nat \<Rightarrow> pattern_mode \<Rightarrow> u32 \<Rightarrow> nat \<Rightarrow> pattern_state \<Rightarrow> pattern_state" where
  "pattern_round batch mode want steps s =
     (let s = (pattern_step batch mode want ^^ steps) s
      in s\<lparr>pr_freed := pr_freed s @ pr_pending s, pr_pending := []\<rparr>)"

definition pattern_start :: pattern_state where
  "pattern_start = \<lparr>pr_parked = None, pr_pending = [], pr_next = 0, pr_freed = [], pr_hits = 0\<rparr>"

section \<open>Views decide\<close>

lemma probe_free_view_aux:
  assumes "map v s = map v' s'" "probe_free v s msk pos = Some p"
  shows "probe_free v' s' msk pos = Some p"
proof -
  have len: "length s' = length s" using assms(1) by (metis length_map)
  have at: "v (s ! i) = v' (s' ! i)" if "i < length s" for i
    using assms(1) that len by (metis nth_map)
  let ?P = "\<lambda>w t m x p. w = v \<longrightarrow> t = s \<longrightarrow> m = msk \<longrightarrow> probe_free v' s' msk x = Some p"
  have "?P v s msk pos p"
  proof (rule probe_free.raw_induct[of ?P, OF _ assms(2)])
    fix f w t m x p
    assume IH: "\<And>w t m x p. f w t m x = Some p \<Longrightarrow> ?P w t m x p"
      and eq: "(if unat x < length t then if w (t ! unat x) = None then Some x else f w t m (x + 1 AND m) else None) = Some p"
    show "?P w t m x p"
      using IH eq len at[of "unat x"] by (subst probe_free.simps) (auto split: if_splits)
  qed
  then show ?thesis by simp
qed

lemma probe_free_view: "map v s = map v' s' \<Longrightarrow> probe_free v s msk pos = probe_free v' s' msk pos"
  using probe_free_view_aux[of v s v' s' msk pos] probe_free_view_aux[of v' s' v s msk pos]
  by (cases "probe_free v s msk pos"; cases "probe_free v' s' msk pos") auto

lemma slot_lookup_view_aux:
  assumes "map step s = map step' s'" "slot_lookup step s msk pos n = Some r"
  shows "slot_lookup step' s' msk pos n = Some r"
proof -
  have len: "length s' = length s" using assms(1) by (metis length_map)
  have at: "step (s ! i) = step' (s' ! i)" if "i < length s" for i
    using assms(1) that len by (metis nth_map)
  let ?P = "\<lambda>w t m x n r. w = step \<longrightarrow> t = s \<longrightarrow> m = msk \<longrightarrow> slot_lookup step' s' msk x n = Some r"
  have "?P step s msk pos n r"
  proof (rule slot_lookup.raw_induct[of ?P, OF _ assms(2)])
    fix f w t m x n r
    assume IH: "\<And>w t m x n r. f w t m x n = Some r \<Longrightarrow> ?P w t m x n r"
      and eq: "(if unat x < length t
         then case w (t ! unat x) of ps_continue \<Rightarrow> f w t m (x + 1 AND m) (n + 1) | ps_return r \<Rightarrow> Some (r, n) | ps_fault \<Rightarrow> None
         else None) = Some r"
    show "?P w t m x n r"
      using IH[of w t m "x + 1 AND m" "n + 1" r] eq len at[of "unat x"]
      by (subst slot_lookup.simps) (auto split: if_splits probe_step.splits)
  qed
  then show ?thesis by simp
qed

lemma slot_lookup_steps: "map step s = map step' s' \<Longrightarrow> slot_lookup step s msk pos n = slot_lookup step' s' msk pos n"
  using slot_lookup_view_aux[of step s step' s' msk pos n] slot_lookup_view_aux[of step' s' step s msk pos n]
  by (cases "slot_lookup step s msk pos n"; cases "slot_lookup step' s' msk pos n") auto

lemma slot_lookup_view:
  assumes "map v s = map v' s'"
  shows "slot_lookup (lookup_step v names name nh) s msk pos n = slot_lookup (lookup_step v' names name nh) s' msk pos n"
proof (rule slot_lookup_steps)
  have "map (\<lambda>x. lookup_step id names name nh (v x)) s = map (\<lambda>x. lookup_step id names name nh (v' x)) s'"
    using arg_cong[OF assms, of "map (lookup_step id names name nh)"] by (simp add: comp_def)
  then show "map (lookup_step v names name nh) s = map (lookup_step v' names name nh) s'"
    by (simp add: lookup_step_def[abs_def])
qed

text \<open>What a representation owes the shared loops: storing entry i makes its slot show hash and index.\<close>

locale slot_strategy =
  fixes view :: "'s \<Rightarrow> (u32 \<times> u32) option"
    and store :: "Entry \<Rightarrow> nat \<Rightarrow> 's"
    and ins :: "Entry \<Rightarrow> nat \<Rightarrow> 's list \<Rightarrow> 's list option"
    and msk :: u32
  assumes view_store: "i < 2 ^ 32 - 1 \<Longrightarrow> view (store e i) = Some (en_name_hash e, of_nat i)"
    and ins_eq: "ins e i slots =
      map_option (\<lambda>pos. slots[unat pos := store e i]) (probe_free view slots msk (en_name_hash e AND msk))"
begin

definition same_view :: "'s list \<Rightarrow> HashSlot list \<Rightarrow> bool" where
  "same_view slots zs \<longleftrightarrow> map view slots = map zero_view zs"

lemma zero_view_stored:
  assumes "i < 2 ^ 32 - 1"
  shows "zero_view \<lparr>sl_hash = h, sl_index_plus1 = of_nat i + 1\<rparr> = Some (h, of_nat i)"
proof -
  have "unat (of_nat (Suc i) :: u32) = Suc i" using assms by (simp only: unat_of_nat) simp
  then have "(of_nat i + 1 :: u32) \<noteq> 0" by (metis add.commute nat.distinct(1) of_nat_Suc unat_0)
  then show ?thesis by (simp add: zero_view_def)
qed

lemma ins_same:
  assumes "same_view slots zs" "zero_insert msk e i zs = Some zs'" "i < 2 ^ 32 - 1"
  shows "\<exists>slots'. ins e i slots = Some slots' \<and> same_view slots' zs'"
proof -
  obtain pos where pos: "probe_free zero_view zs msk (en_name_hash e AND msk) = Some pos"
    "zs' = zs[unat pos := \<lparr>sl_hash = en_name_hash e, sl_index_plus1 = of_nat i + 1\<rparr>]"
    using assms(2) by (auto simp: zero_insert_def)
  have "probe_free view slots msk (en_name_hash e AND msk) = Some pos"
    using pos(1) probe_free_view[of view slots zero_view zs] assms(1) by (simp add: same_view_def)
  moreover have "same_view (slots[unat pos := store e i]) zs'"
    using assms(1) by (simp add: same_view_def pos(2) map_update view_store[OF assms(3)] zero_view_stored[OF assms(3)])
  ultimately show ?thesis by (simp add: ins_eq)
qed

lemma fill_same:
  assumes "same_view slots zs" "fill_with (zero_insert msk) t i zs = Some zs'"
  shows "\<exists>slots'. fill_with ins t i slots = Some slots' \<and> same_view slots' zs'"
  using assms
proof (induction "unat (tb_count t) - i" arbitrary: i slots zs)
  case 0
  then show ?case by (simp add: fill_with.simps[of _ t i])
next
  case (Suc n)
  then have i: "i < unat (tb_count t)" by simp
  obtain e where e: "entry_at t i = Some e" using Suc.prems(2) i
    by (subst (asm) fill_with.simps) (auto split: option.splits)
  obtain z1 where z1: "zero_insert msk e i zs = Some z1" "fill_with (zero_insert msk) t (Suc i) z1 = Some zs'"
    using Suc.prems(2) i e by (subst (asm) fill_with.simps) (auto split: option.splits)
  have "unat (tb_count t) < 2 ^ 32" using unsigned_less[of "tb_count t"] by (metis len32)
  then have "i < 2 ^ 32 - 1" using i by linarith
  then obtain s1 where s1: "ins e i slots = Some s1" "same_view s1 z1"
    using ins_same[OF Suc.prems(1) z1(1)] by blast
  have "n = unat (tb_count t) - Suc i" using Suc.hyps(2) by linarith
  then obtain s2 where "fill_with ins t (Suc i) s1 = Some s2" "same_view s2 zs'"
    using Suc.hyps(1)[OF _ s1(2) z1(2)] by blast
  then show ?case using i e s1(1) by (subst fill_with.simps) simp
qed

end

text \<open>The arrays start with the same view, nothing in any slot.\<close>

lemma base_store_ok: "slot_strategy base_view (\<lambda>e i. \<lparr>bs_hash = en_name_hash e, bs_index = of_nat i\<rparr>) (base_insert msk) msk"
proof
  fix i :: nat and e :: Entry
  assume "i < 2 ^ 32 - 1"
  then have "unat (of_nat i :: u32) = i" by (simp only: unat_of_nat) simp
  moreover have "unat (0xFFFFFFFF :: u32) = 2 ^ 32 - 1" by simp
  ultimately have "(of_nat i :: u32) \<noteq> 0xFFFFFFFF" using \<open>i < _\<close> by (metis less_irrefl)
  then show "base_view \<lparr>bs_hash = en_name_hash e, bs_index = of_nat i\<rparr> = Some (en_name_hash e, of_nat i)"
    by (simp add: base_view_def SKL_ABIX_HASHSLOT_EMPTY_def)
qed (simp add: base_insert_def)

interpretation base: slot_strategy base_view "\<lambda>e i. \<lparr>bs_hash = en_name_hash e, bs_index = of_nat i\<rparr>" "base_insert msk" msk
  for msk by (rule base_store_ok)

interpretation gen: slot_strategy "gen_view g" "\<lambda>e i. \<lparr>gs_hash = en_name_hash e, gs_index = of_nat i, gs_gen = g\<rparr>"
  "gen_insert g msk" msk for g msk
  by unfold_locales (simp_all add: gen_view_def gen_insert_def)

section \<open>The shipped loops\<close>

lemma probe_insert_aux:
  assumes "probe_from zs msk insert_body pos = Some r"
  shows "\<exists>p. r = Inl p \<and> probe_free zero_view zs msk pos = Some p"
proof -
  let ?P = "\<lambda>t m b x r. t = zs \<longrightarrow> m = msk \<longrightarrow> b = insert_body \<longrightarrow> (\<exists>p. r = Inl p \<and> probe_free zero_view zs msk x = Some p)"
  have "?P zs msk insert_body pos r"
  proof (rule probe_from.raw_induct[of ?P, OF _ assms])
    fix f t m b x r
    assume IH: "\<And>t m b x r. f t m b x = Some r \<Longrightarrow> ?P t m b x r"
      and eq: "(if unat x < length t then if sl_index_plus1 (t ! unat x) = 0 then Some (Inl x)
          else case b (t ! unat x) of ps_continue \<Rightarrow> f t m b (x + 1 AND m) | ps_return r \<Rightarrow> Some (Inr r) | ps_fault \<Rightarrow> None
         else None) = Some r"
    show "?P t m b x r"
      using IH[of t m b "x + 1 AND m" r] eq
      by (subst probe_free.simps) (auto simp: insert_body_def zero_view_def split: if_splits)
  qed
  then show ?thesis by simp
qed

lemma index_insert_zero:
  assumes "index_insert msk e i zs = Some zs'"
  shows "zero_insert msk e i zs = Some zs'"
  using assms probe_insert_aux[of zs msk "en_name_hash e AND msk"]
  by (fastforce simp: index_insert_def zero_insert_def split: option.splits sum.splits)

lemma index_fill_zero:
  "index_fill t msk i zs = Some zs' \<Longrightarrow> fill_with (zero_insert msk) t i zs = Some zs'"
proof (induction "unat (tb_count t) - i" arbitrary: i zs)
  case 0
  then show ?case by (simp add: fill_with.simps[of _ t i] index_fill.simps[of t _ i])
next
  case (Suc n)
  then have i: "i < unat (tb_count t)" by simp
  obtain e z1 where e: "entry_at t i = Some e" "index_insert msk e i zs = Some z1" "index_fill t msk (Suc i) z1 = Some zs'"
    using Suc.prems i by (subst (asm) index_fill.simps) (auto split: option.splits)
  then have "fill_with (zero_insert msk) t (Suc i) z1 = Some zs'" using Suc.hyps(1)[of "Suc i" z1] Suc.hyps(2) by simp
  then show ?case using i e index_insert_zero by (subst fill_with.simps) simp
qed


text \<open>The lookup of the shipped index walks the same slots and stops at the same one.\<close>

lemma shipped_lookup:
  assumes "probe_from zs msk (find_hash_body t name nh sig 0) pos = Some r"
  shows "\<exists>n'. slot_lookup (lookup_step zero_view t name nh) zs msk pos n =
    Some (case r of Inl _ \<Rightarrow> SKL_ABIX_HASHSLOT_EMPTY | Inr (_, i) \<Rightarrow> i, n')"
proof -
  let ?res = "\<lambda>r :: u32 + LookupResult \<times> u32. case r of Inl _ \<Rightarrow> SKL_ABIX_HASHSLOT_EMPTY | Inr (_, i) \<Rightarrow> i"
  let ?P = "\<lambda>ss m b x r. ss = zs \<longrightarrow> m = msk \<longrightarrow> b = find_hash_body t name nh sig 0 \<longrightarrow>
    (\<forall>n. \<exists>n'. slot_lookup (lookup_step zero_view t name nh) zs msk x n = Some (?res r, n'))"
  have "?P zs msk (find_hash_body t name nh sig 0) pos r"
  proof (rule probe_from.raw_induct[of ?P, OF _ assms])
    fix f ss m b x r
    assume IH: "\<And>ss m b x r. f ss m b x = Some r \<Longrightarrow> ?P ss m b x r"
      and eq: "(if unat x < length ss then if sl_index_plus1 (ss ! unat x) = 0 then Some (Inl x)
          else case b (ss ! unat x) of ps_continue \<Rightarrow> f ss m b (x + 1 AND m) | ps_return r \<Rightarrow> Some (Inr r) | ps_fault \<Rightarrow> None
         else None) = Some r"
    show "?P ss m b x r"
    proof (intro impI allI)
      fix n
      assume e: "ss = zs" "m = msk" "b = find_hash_body t name nh sig 0"
      show "\<exists>n'. slot_lookup (lookup_step zero_view t name nh) zs msk x n = Some (?res r, n')"
        using IH[of ss m b "x + 1 AND m" r] eq e
        by (subst slot_lookup.simps)
           (auto simp: lookup_step_def zero_view_def find_hash_body_def version_conflict_def Let_def split: if_splits option.splits bool.splits)
    qed
  qed
  then show ?thesis by blast
qed

section \<open>Lookups end\<close>

lemma lookup_step_sound:
  assumes "table_ok t" "slots_sound t (unat (tb_count t)) zs" "q < length zs"
  shows "lookup_step zero_view t name nh (zs ! q) \<noteq> ps_fault"
proof (cases "sl_index_plus1 (zs ! q) = 0")
  case False
  define i where "i = unat (sl_index_plus1 (zs ! q) - 1)"
  have "i = unat (sl_index_plus1 (zs ! q)) - 1" using False by (simp add: i_def unat_minus_one)
  moreover have "unat (sl_index_plus1 (zs ! q)) \<le> unat (tb_count t)" "0 < unat (sl_index_plus1 (zs ! q))"
    using assms(2,3) False by (auto simp: slots_sound_def unat_gt_0)
  ultimately have "i < unat (tb_count t)" by linarith
  then obtain n where "entry_at t i = Some (entry_of t i)" "en_name (entry_of t i) = Some n"
    using table_ok_entry[OF assms(1)] by blast
  then show ?thesis using False
    by (auto simp: lookup_step_def zero_view_def strcmp_eq_def i_def[symmetric] split: bool.splits)
qed (simp add: lookup_step_def zero_view_def)

lemma lookup_walk:
  assumes g: "geometry k msk zs" and t: "table_ok t" "slots_sound t (unat (tb_count t)) zs"
    and d: "sl_index_plus1 (slot_at zs a d) = 0"
    and "e \<le> d" "unat pos = (a + e) mod length zs"
  shows "\<exists>r. slot_lookup (lookup_step zero_view t name nh) zs msk pos n = Some r"
  using assms(5,6)
proof (induction "d - e" arbitrary: e pos n)
  case 0
  then have "lookup_step zero_view t name nh (zs ! unat pos) = ps_return SKL_ABIX_HASHSLOT_EMPTY"
    using d by (simp add: lookup_step_def zero_view_def)
  then show ?case using 0 slot_in_range[OF g] by (subst slot_lookup.simps) simp
next
  case (Suc m)
  have r: "unat pos < length zs" using Suc.prems(2) slot_in_range[OF g] by simp
  have succ: "unat ((pos + 1) AND msk) = (a + Suc e) mod length zs"
    using mask_step[OF g, of pos a e] Suc.prems(2) g by (simp add: geometry_def)
  have "m = d - Suc e" "Suc e \<le> d" using Suc.hyps(2) by linarith+
  then obtain y where "slot_lookup (lookup_step zero_view t name nh) zs msk ((pos + 1) AND msk) (n + 1) = Some y"
    using Suc.hyps(1)[OF _ _ succ] by blast
  then show ?case using r lookup_step_sound[OF t r, of name nh]
    by (subst slot_lookup.simps) (auto split: probe_step.splits)
qed

lemma zero_lookup_ends:
  assumes "geometry k msk zs" "table_ok t" "filled t (unat (tb_count t)) zs" "unat (tb_count t) < 2 ^ k"
  shows "\<exists>r. slot_lookup (lookup_step zero_view t name nh) zs msk (nh AND msk) n = Some r"
proof -
  obtain p where p: "p < length zs" "sl_index_plus1 (zs ! p) = 0"
    using filled_empty_slot[OF assms(1,3,4)] .
  obtain d where d: "sl_index_plus1 (slot_at zs (unat nh) d) = 0"
    using first_empty[OF assms(1) p] by metis
  have "unat (nh AND msk) = (unat nh + 0) mod length zs"
    using assms(1) by (simp add: geometry_def unat_and_mask)
  then show ?thesis using lookup_walk[OF assms(1,2) _ d, of 0] assms(3) by (simp add: filled_def)
qed

section \<open>All three builds\<close>

definition base_ok :: "IndexBase \<Rightarrow> bool" where
  "base_ok b \<longleftrightarrow> (case ib_slots b of None \<Rightarrow> True | Some s \<Rightarrow> length s = unat (ib_capacity b))"

definition zero_ok :: "IndexZero \<Rightarrow> bool" where
  "zero_ok z \<longleftrightarrow> (case iz_slots z of None \<Rightarrow> True | Some s \<Rightarrow> length s = unat (iz_capacity z))"

definition gen_ok :: "IndexGen \<Rightarrow> bool" where
  "gen_ok g \<longleftrightarrow> (case ig_slots g of None \<Rightarrow> True | Some s \<Rightarrow>
     length s = unat (ig_capacity g) \<and> ig_mask g = ig_capacity g - 1 \<and> (\<forall>x \<in> set s. gs_gen x \<le> ig_gen g))"

lemma gen_fill_tags:
  "fill_with (gen_insert g msk) t i s = Some s' \<Longrightarrow> length s' = length s \<and> (\<forall>x \<in> set s'. x \<in> set s \<or> gs_gen x = g)"
proof (induction "unat (tb_count t) - i" arbitrary: i s)
  case 0
  then show ?case by (simp add: fill_with.simps[of _ t i])
next
  case (Suc n)
  then have i: "i < unat (tb_count t)" by simp
  obtain e s1 where e: "entry_at t i = Some e" "gen_insert g msk e i s = Some s1"
      "fill_with (gen_insert g msk) t (Suc i) s1 = Some s'"
    using Suc.prems i by (subst (asm) fill_with.simps) (auto split: option.splits)
  obtain pos where "s1 = s[pos := \<lparr>gs_hash = en_name_hash e, gs_index = of_nat i, gs_gen = g\<rparr>]"
    using e(2) by (auto simp: gen_insert_def)
  then have "length s1 = length s" "\<forall>x \<in> set s1. x \<in> set s \<or> gs_gen x = g"
    by (auto dest!: subsetD[OF set_update_subset_insert])
  moreover have "n = unat (tb_count t) - Suc i" using Suc.hyps(2) by linarith
  ultimately show ?case using Suc.hyps(1)[OF _ e(3)] by fastforce
qed

text \<open>The slots a generation build fills, before the first insertion: none carries the new tag.\<close>

lemma gen_prepared:
  assumes "gen_ok idx" "ig_slots idx = Some s" "g = ig_gen idx + 1"
  shows "\<exists>s0. (if g = 0 then set_slots s (unat (ig_capacity idx)) zero_gen_slot else Some s) = Some s0
    \<and> length s0 = length s \<and> (\<forall>x \<in> set s0. gs_gen x < (if g = 0 then 1 else g))"
proof (cases "g = 0")
  case True
  then show ?thesis using assms(1,2) by (auto simp: gen_ok_def set_slots_def zero_gen_slot_def)
next
  case False
  then have "ig_gen idx < g" using assms(3) by (simp add: word_less_nat_alt unatSuc add.commute)
  then show ?thesis using False assms(1,2) by (auto simp: gen_ok_def)
qed


text \<open>The three arrays right before the insertions, with nothing visible in them.\<close>

definition table_fits :: "Table \<Rightarrow> bool" where
  "table_fits t \<longleftrightarrow> table_ok t \<and> unat (tb_count t) \<le> 2 ^ 30"

lemma table_geometry:
  assumes "table_fits t"
  shows "\<exists>k. geometry k (next_pow2 (tb_count t * 2) - 1) (replicate (unat (next_pow2 (tb_count t * 2))) empty_slot)
    \<and> unat (tb_count t) < 2 ^ k"
proof -
  have v: "unat (tb_count t * 2) = unat (tb_count t) * 2"
    using assms by (simp add: table_fits_def unat_word_ariths)
  then obtain k where k: "k \<le> 31" "unat (next_pow2 (tb_count t * 2)) = 2 ^ k" "unat (tb_count t) * 2 \<le> 2 ^ k"
    using next_pow2_correct[of "tb_count t * 2"] assms by (auto simp: table_fits_def)
  have "next_pow2 (tb_count t * 2) = 2 ^ k"
    using k(1,2) by (simp add: word_unat_eq_iff unat_exp_less)
  moreover have "unat (tb_count t) < 2 ^ k"
    using k(3) by (cases "unat (tb_count t) = 0") auto
  ultimately show ?thesis using k(1,2) by (intro exI[of _ k]) (simp add: geometry_def)
qed

lemma index_fill_total:
  assumes "table_fits t"
  shows "\<exists>k zs. index_fill t (next_pow2 (tb_count t * 2) - 1) 0
      (replicate (unat (next_pow2 (tb_count t * 2))) empty_slot) = Some zs
    \<and> geometry k (next_pow2 (tb_count t * 2) - 1) zs \<and> filled t (unat (tb_count t)) zs \<and> unat (tb_count t) < 2 ^ k"
proof -
  obtain k where k: "geometry k (next_pow2 (tb_count t * 2) - 1) (replicate (unat (next_pow2 (tb_count t * 2))) empty_slot)"
      "unat (tb_count t) < 2 ^ k"
    using table_geometry[OF assms] by blast
  show ?thesis
    using index_fill_filled[OF _ _ k(1) filled_zeroed] k(2) assms by (fastforce simp: table_fits_def)
qed

lemma slots_for_length:
  assumes "old = None \<or> length (the old) = unat capacity"
  shows "\<exists>s. slots_for (Some memory) old capacity want = Some s \<and> length s = unat want"
  using assms by (cases old) (auto simp: slots_for_def)

text \<open>What building owes: the view of the array the shipped loop fills, under the right mask.\<close>

definition shipped :: "Table \<Rightarrow> HashSlot list \<Rightarrow> bool" where
  "shipped t zs \<longleftrightarrow> fill_with (zero_insert (next_pow2 (tb_count t * 2) - 1)) t 0
      (replicate (unat (next_pow2 (tb_count t * 2))) empty_slot) = Some zs
    \<and> length zs = unat (next_pow2 (tb_count t * 2))"

lemma base_build_same:
  assumes "base_ok b" "shipped t zs"
  shows "\<exists>b' s. base_build (Some memory) t b = Some b' \<and> ib_slots b' = Some s \<and> map base_view s = map zero_view zs
    \<and> ib_mask b' = next_pow2 (tb_count t * 2) - 1 \<and> base_ok b'"
proof -
  let ?w = "next_pow2 (tb_count t * 2)"
  let ?e = "\<lparr>bs_hash = 0, bs_index = SKL_ABIX_HASHSLOT_EMPTY\<rparr>"
  obtain s where s: "slots_for (Some memory) (ib_slots b) (ib_capacity b) ?w = Some s" "length s = unat ?w"
    using slots_for_length[of "ib_slots b" "ib_capacity b"] assms(1) by (auto simp: base_ok_def split: option.splits)
  have "base.same_view (replicate (unat ?w) ?e) (replicate (unat ?w) empty_slot)"
    by (simp add: base.same_view_def base_view_def zero_view_def empty_slot_def)
  then obtain s' where s': "fill_with (base_insert (?w - 1)) t 0 (replicate (unat ?w) ?e) = Some s'" "base.same_view s' zs"
    using base.fill_same[of _ _ "?w - 1"] assms(2) unfolding shipped_def by blast
  have "length s' = length zs" using s'(2) by (metis base.same_view_def length_map)
  then show ?thesis using s s' assms(2)
    by (simp add: base_build_def Let_def set_slots_def base.same_view_def base_ok_def shipped_def)
qed

lemma zero_build_same:
  assumes "zero_ok z" "shipped t zs"
  shows "\<exists>z'. zero_build (Some memory) t z = Some z' \<and> iz_slots z' = Some zs
    \<and> iz_mask z' = next_pow2 (tb_count t * 2) - 1 \<and> zero_ok z'"
proof -
  let ?w = "next_pow2 (tb_count t * 2)"
  obtain s where s: "slots_for (Some memory) (iz_slots z) (iz_capacity z) ?w = Some s" "length s = unat ?w"
    using slots_for_length[of "iz_slots z" "iz_capacity z"] assms(1) by (auto simp: zero_ok_def split: option.splits)
  then show ?thesis using assms(2)
    by (simp add: zero_build_def Let_def set_slots_def zero_ok_def shipped_def empty_slot_def)
qed

lemma gen_build_same:
  assumes "gen_ok i" "shipped t zs"
  shows "\<exists>i' s. gen_build True t i = Some i' \<and> ig_slots i' = Some s \<and> map (gen_view (ig_gen i')) s = map zero_view zs
    \<and> ig_mask i' = next_pow2 (tb_count t * 2) - 1 \<and> gen_ok i'"
proof -
  let ?w = "next_pow2 (tb_count t * 2)"
  define j where "j = (if ig_slots i = None \<or> ig_capacity i \<noteq> ?w then gen_reset True ?w i else i)"
  have j: "gen_ok j" "ig_capacity j = ?w" "ig_mask j = ?w - 1" "ig_slots j \<noteq> None"
    using assms(1) by (auto simp: j_def gen_reset_def gen_ok_def zero_gen_slot_def split: option.splits)
  then obtain s where s: "ig_slots j = Some s" "length s = unat ?w" by (auto simp: gen_ok_def)
  define g where "g = (if ig_gen j + 1 = 0 then 1 else ig_gen j + 1)"
  obtain s0 where s0: "(if ig_gen j + 1 = 0 then set_slots s (unat (ig_capacity j)) zero_gen_slot else Some s) = Some s0"
      "length s0 = length s" "\<forall>x \<in> set s0. gs_gen x < g"
    using gen_prepared[OF j(1) s(1) refl] unfolding g_def by blast
  have "map (gen_view g) s0 = replicate (length s0) None"
    using s0(3) by (intro replicate_eqI) (auto simp: gen_view_def)
  then have "gen.same_view g s0 (replicate (unat ?w) empty_slot)"
    using s0(2) s(2) by (simp add: gen.same_view_def zero_view_def empty_slot_def)
  then obtain s' where s': "fill_with (gen_insert g (?w - 1)) t 0 s0 = Some s'" "gen.same_view g s' zs"
    using gen.fill_same[of _ _ _ "?w - 1"] assms(2) unfolding shipped_def by blast
  have build: "gen_build True t i = Some (j\<lparr>ig_slots := Some s', ig_gen := g\<rparr>)"
    using s(1) s0(1) s'(1) j(3)
    by (cases "ig_gen j + 1 = 0") (simp_all add: gen_build_def Let_def j_def[symmetric] g_def)
  have "\<forall>x \<in> set s'. gs_gen x \<le> g" "length s' = unat ?w"
    using gen_fill_tags[OF s'(1)] s0(2,3) s(2) by (auto intro: less_imp_le)
  then show ?thesis using build s'(2) j(2,3) by (simp add: gen.same_view_def gen_ok_def)
qed

lemma shipped_exists:
  assumes "table_fits t"
  shows "\<exists>k zs. shipped t zs \<and> geometry k (next_pow2 (tb_count t * 2) - 1) zs
    \<and> filled t (unat (tb_count t)) zs \<and> unat (tb_count t) < 2 ^ k"
proof -
  obtain k zs where zs: "index_fill t (next_pow2 (tb_count t * 2) - 1) 0
        (replicate (unat (next_pow2 (tb_count t * 2))) empty_slot) = Some zs"
      "geometry k (next_pow2 (tb_count t * 2) - 1) zs" "filled t (unat (tb_count t)) zs" "unat (tb_count t) < 2 ^ k"
    using index_fill_total[OF assms] by blast
  obtain k' where k': "geometry k' (next_pow2 (tb_count t * 2) - 1) (replicate (unat (next_pow2 (tb_count t * 2))) empty_slot)"
    using table_geometry[OF assms] by blast
  have "length zs = unat (next_pow2 (tb_count t * 2))"
  proof -
    have "unat (next_pow2 (tb_count t * 2) - 1) = 2 ^ k - 1" "unat (next_pow2 (tb_count t * 2) - 1) = 2 ^ k' - 1"
      using zs(2) k' by (auto simp: geometry_def unat_minus_one unat_exp_less)
    then have "(2 :: nat) ^ k = 2 ^ k'" by (metis Suc_pred' zero_less_numeral zero_less_power)
    then show ?thesis using zs(2) k' by (simp add: geometry_def)
  qed
  then have "shipped t zs" using index_fill_zero[OF zs(1)] by (simp add: shipped_def)
  then show ?thesis using zs(2,3,4) by blast
qed

text \<open>What the shared walk finds: the index the linear scan reports.\<close>

lemma shipped_finds:
  assumes "table_ok t" "shipped t zs" "geometry k (next_pow2 (tb_count t * 2) - 1) zs"
    "filled t (unat (tb_count t)) zs" "unat (tb_count t) < 2 ^ k"
  shows "\<exists>p. slot_lookup (lookup_step zero_view t name nh) zs (next_pow2 (tb_count t * 2) - 1)
      (nh AND (next_pow2 (tb_count t * 2) - 1)) n = Some (snd (the (find_linear t (Some name) nh sig 0)), p)"
proof -
  let ?m = "next_pow2 (tb_count t * 2) - 1"
  let ?idx = "\<lparr>hi_slots = Some \<lparr>sb_id = 0, sb_data = zs\<rparr>, hi_capacity = next_pow2 (tb_count t * 2), hi_mask = ?m\<rparr>"
  have "length zs = 2 ^ k" using assms(3) by (simp add: geometry_def)
  then have sv: "serves t ?idx" using assms(2-5) by (auto simp: serves_def shipped_def)
  have same: "find_hash t ?idx (Some name) nh sig 0 = find_linear t (Some name) nh sig 0"
    using hashed.unversioned[of t ?idx name nh sig] linear.unversioned[OF assms(1), of name nh sig] assms(1) sv by simp
  have m: "tb_magic t = SKL_ABIX_TABLE_MAGIC" using assms(1) by (simp add: table_ok_def)
  obtain r where r: "probe_from zs ?m (find_hash_body t name nh sig 0) (nh AND ?m) = Some r"
    "find_hash t ?idx (Some name) nh sig 0 = Some (case r of Inl _ \<Rightarrow> (lr_not_found, no_index) | Inr v \<Rightarrow> v)"
    using hashed.returns[of t ?idx name nh sig 0] assms(1) sv m
    by (auto simp: find_hash_def split: option.splits sum.splits)
  have "SKL_ABIX_HASHSLOT_EMPTY = no_index" by (simp add: SKL_ABIX_HASHSLOT_EMPTY_def no_index_def)
  then have "(case r of Inl _ \<Rightarrow> SKL_ABIX_HASHSLOT_EMPTY | Inr (_, i) \<Rightarrow> i) = snd (the (find_linear t (Some name) nh sig 0))"
    using r(2) unfolding same by (auto split: sum.splits)
  then show ?thesis using shipped_lookup[OF r(1), of n] by simp
qed

lemma shipped_index_finds:
  assumes "table_fits t" "pool_ok pool" "index_ok idx" "index_build memory t idx pool = Some (idx', pool')"
  shows "find_index t idx' (Some name) nh sig 0 = find_linear t (Some name) nh sig 0"
proof -
  have "index_valid idx' \<longrightarrow> serves t idx'"
    using index_build_total[OF _ _ assms(2,3), of t memory] assms(1,4)
    by (auto simp: table_fits_def index_valid_def split: if_splits)
  then show ?thesis
    using auto.unversioned[of t idx' name nh sig] linear.unversioned[of t name nh sig] assms(1) by (simp add: table_fits_def)
qed

definition indexes_agree :: "Table \<Rightarrow> IndexBase \<Rightarrow> IndexZero \<Rightarrow> IndexGen \<Rightarrow> bool" where
  "indexes_agree t b z g \<longleftrightarrow>
     (\<forall>nh name. \<exists>r. base_lookup t b nh name = Some r \<and> zero_lookup t z nh name = Some r \<and> gen_lookup t g nh name = Some r)"

lemma strategies_agree:
  assumes "table_fits t" "base_ok b" "zero_ok z" "gen_ok g"
  shows "\<exists>b' z' g'. base_build (Some mb) t b = Some b' \<and> zero_build (Some mz) t z = Some z' \<and> gen_build True t g = Some g'
    \<and> base_ok b' \<and> zero_ok z' \<and> gen_ok g' \<and> indexes_agree t b' z' g'
    \<and> (\<forall>nh name sig. \<exists>p. base_lookup t b' nh name = Some (snd (the (find_linear t (Some name) nh sig 0)), p))"
proof -
  let ?m = "next_pow2 (tb_count t * 2) - 1"
  obtain k zs where zs: "shipped t zs" "geometry k ?m zs" "filled t (unat (tb_count t)) zs" "unat (tb_count t) < 2 ^ k"
    using shipped_exists[OF assms(1)] by blast
  obtain b' sb where b: "base_build (Some mb) t b = Some b'" "ib_slots b' = Some sb" "map base_view sb = map zero_view zs"
      "ib_mask b' = ?m" "base_ok b'" using base_build_same[OF assms(2) zs(1)] by blast
  obtain z' where z: "zero_build (Some mz) t z = Some z'" "iz_slots z' = Some zs" "iz_mask z' = ?m" "zero_ok z'"
    using zero_build_same[OF assms(3) zs(1)] by blast
  obtain g' sg where g: "gen_build True t g = Some g'" "ig_slots g' = Some sg" "map (gen_view (ig_gen g')) sg = map zero_view zs"
      "ig_mask g' = ?m" "gen_ok g'" using gen_build_same[OF assms(4) zs(1)] by blast
  have t: "table_ok t" using assms(1) by (simp add: table_fits_def)
  have "indexes_agree t b' z' g'"
    unfolding indexes_agree_def
  proof (intro allI)
    fix nh name
    obtain r where r: "slot_lookup (lookup_step zero_view t name nh) zs ?m (nh AND ?m) 1 = Some r"
      using zero_lookup_ends[OF zs(2) t zs(3,4)] by blast
    have "base_lookup t b' nh name = Some r" "zero_lookup t z' nh name = Some r" "gen_lookup t g' nh name = Some r"
      using r b(2,4) z(2,3) g(2,4) slot_lookup_view[OF b(3)] slot_lookup_view[OF g(3)]
      by (simp_all add: base_lookup_def zero_lookup_def gen_lookup_def)
    then show "\<exists>r. base_lookup t b' nh name = Some r \<and> zero_lookup t z' nh name = Some r \<and> gen_lookup t g' nh name = Some r"
      by blast
  qed
  moreover have "\<exists>p. base_lookup t b' nh name = Some (snd (the (find_linear t (Some name) nh sig 0)), p)" for nh name sig
    using shipped_finds[OF t zs, of name nh 1 sig] b(2,4) slot_lookup_view[OF b(3)] by (simp add: base_lookup_def)
  ultimately show ?thesis using b(1,5) z(1,4) g(1,5) by blast
qed

text \<open>C23.  The program does not observe which of the three it uses: for a table of at most 2^30 named entries,
  whatever the arrays held before and however often the generation was bumped, all builds end when memory is there, and
  every lookup ends, in all three after the same number of probes, with the index that the linear scan of the library
  reports for the name and that the shipped index, built for the table from any earlier state, reports too. The arrays are
  ready to be built again.\<close>

theorem index_strategies_agree:
  assumes "table_fits t" "base_ok b" "zero_ok z" "gen_ok g"
  shows "\<exists>b' z' g'. base_build (Some mb) t b = Some b' \<and> zero_build (Some mz) t z = Some z' \<and> gen_build True t g = Some g'
    \<and> base_ok b' \<and> zero_ok z' \<and> gen_ok g'
    \<and> (\<forall>nh name sig. \<exists>v i n. base_lookup t b' nh name = Some (i, n) \<and> zero_lookup t z' nh name = Some (i, n)
        \<and> gen_lookup t g' nh name = Some (i, n) \<and> find_linear t (Some name) nh sig 0 = Some (v, i)
        \<and> (\<forall>memory idx pool idx' pool'. pool_ok pool \<longrightarrow> index_ok idx \<longrightarrow> index_build memory t idx pool = Some (idx', pool') \<longrightarrow>
             find_index t idx' (Some name) nh sig 0 = Some (v, i)))"
proof -
  obtain b' z' g' where builds: "base_build (Some mb) t b = Some b'" "zero_build (Some mz) t z = Some z'" "gen_build True t g = Some g'"
      "base_ok b'" "zero_ok z'" "gen_ok g'" "indexes_agree t b' z' g'"
    and found: "\<forall>nh name sig. \<exists>p. base_lookup t b' nh name = Some (snd (the (find_linear t (Some name) nh sig 0)), p)"
    using strategies_agree[OF assms, of mb mz] by blast
  have "\<exists>v i n. base_lookup t b' nh name = Some (i, n) \<and> zero_lookup t z' nh name = Some (i, n)
        \<and> gen_lookup t g' nh name = Some (i, n) \<and> find_linear t (Some name) nh sig 0 = Some (v, i)
        \<and> (\<forall>memory idx pool idx' pool'. pool_ok pool \<longrightarrow> index_ok idx \<longrightarrow> index_build memory t idx pool = Some (idx', pool') \<longrightarrow>
             find_index t idx' (Some name) nh sig 0 = Some (v, i))" for nh name sig
  proof -
    obtain v i where l: "find_linear t (Some name) nh sig 0 = Some (v, i)"
      using linear.returns[of t name nh sig 0] assms(1) by (auto simp: table_fits_def)
    then obtain n where "base_lookup t b' nh name = Some (i, n)" using found[rule_format, of nh name sig] by auto
    moreover from this have "zero_lookup t z' nh name = Some (i, n)" "gen_lookup t g' nh name = Some (i, n)"
      using builds(7) unfolding indexes_agree_def by (metis option.inject)+
    ultimately show ?thesis using l shipped_index_finds[OF assms(1), of _ _ _ _ _ name nh sig] by metis
  qed
  with builds show ?thesis by blast
qed

text \<open>The generation counter is at its last value: the next build wraps and clears.\<close>

definition worn_gen_index :: IndexGen where
  "worn_gen_index = \<lparr>ig_slots = Some [\<lparr>gs_hash = 9, gs_index = 9, gs_gen = 0xFFFFFFFF\<rparr>, zero_gen_slot],
     ig_capacity = 2, ig_mask = 1, ig_gen = 0xFFFFFFFF\<rparr>"

definition one_entry_table :: Table where
  "one_entry_table = make_table [\<lparr>en_name = Some ''f'', en_sig = 1, en_version = 0, en_fnptr = 5, en_name_hash = 3, en_flags = 0\<rparr>]"

theorem index_strategies_agree_witness:
  "\<exists>b z g. base_build (Some (\<lambda>_. \<lparr>bs_hash = 7, bs_index = 7\<rparr>)) one_entry_table new_base_index = Some b
    \<and> zero_build (Some (\<lambda>_. \<lparr>sl_hash = 7, sl_index_plus1 = 7\<rparr>)) one_entry_table new_zero_index = Some z
    \<and> gen_build True one_entry_table worn_gen_index = Some g
    \<and> (\<exists>n. base_lookup one_entry_table b 3 ''f'' = Some (0, n) \<and> zero_lookup one_entry_table z 3 ''f'' = Some (0, n)
         \<and> gen_lookup one_entry_table g 3 ''f'' = Some (0, n))"
proof -
  have ok: "table_fits one_entry_table" "base_ok new_base_index" "zero_ok new_zero_index" "gen_ok worn_gen_index"
    by (auto simp: table_fits_def table_ok_def one_entry_table_def make_table_def base_ok_def zero_ok_def gen_ok_def
      new_base_index_def new_zero_index_def worn_gen_index_def zero_gen_slot_def)
  have l: "find_linear one_entry_table (Some ''f'') 3 1 0 = Some (lr_ok, 0)" by code_simp
  obtain b z g where i: "base_build (Some (\<lambda>_. \<lparr>bs_hash = 7, bs_index = 7\<rparr>)) one_entry_table new_base_index = Some b"
      "zero_build (Some (\<lambda>_. \<lparr>sl_hash = 7, sl_index_plus1 = 7\<rparr>)) one_entry_table new_zero_index = Some z"
      "gen_build True one_entry_table worn_gen_index = Some g"
    and found: "\<exists>v i n. base_lookup one_entry_table b 3 ''f'' = Some (i, n) \<and> zero_lookup one_entry_table z 3 ''f'' = Some (i, n)
      \<and> gen_lookup one_entry_table g 3 ''f'' = Some (i, n) \<and> find_linear one_entry_table (Some ''f'') 3 1 0 = Some (v, i)"
    using index_strategies_agree[OF ok, of "\<lambda>_. \<lparr>bs_hash = 7, bs_index = 7\<rparr>" "\<lambda>_. \<lparr>sl_hash = 7, sl_index_plus1 = 7\<rparr>"]
    by blast
  have "\<exists>n. base_lookup one_entry_table b 3 ''f'' = Some (0, n) \<and> zero_lookup one_entry_table z 3 ''f'' = Some (0, n)
      \<and> gen_lookup one_entry_table g 3 ''f'' = Some (0, n)"
    using found unfolding l by auto
  with i show ?thesis by blast
qed

text \<open>So the benchmark's own check passes on every table.\<close>

lemma compare_lookups_agree:
  assumes "indexes_agree t b z g" "\<forall>e \<in> set es. en_name e \<noteq> None"
  shows "\<exists>p. compare_lookups t b z g es = Some (p, p, p, 0)"
  using assms(2)
proof (induction es)
  case (Cons e es)
  then obtain p name where p: "compare_lookups t b z g es = Some (p, p, p, 0)" "en_name e = Some name" by auto
  obtain i n where "base_lookup t b (en_name_hash e) name = Some (i, n)" "zero_lookup t z (en_name_hash e) name = Some (i, n)"
      "gen_lookup t g (en_name_hash e) name = Some (i, n)"
    using assms(1) unfolding indexes_agree_def by (metis surj_pair)
  then show ?case using p by simp
qed simp


lemma probes_and_mismatches_none:
  assumes "table_fits t"
  shows "\<exists>p. probes_and_mismatches (Some mb) (Some mz) True t = Some (p, p, p, 0)"
proof -
  have ok: "base_ok new_base_index" "zero_ok new_zero_index" "gen_ok new_gen_index"
    by (simp_all add: base_ok_def zero_ok_def gen_ok_def new_base_index_def new_zero_index_def new_gen_index_def)
  obtain b z g where i: "base_build (Some mb) t new_base_index = Some b" "zero_build (Some mz) t new_zero_index = Some z"
      "gen_build True t new_gen_index = Some g" "indexes_agree t b z g"
    using strategies_agree[OF assms ok] by blast
  have "\<forall>e \<in> set (take (unat (tb_count t)) (the (tb_entries t))). en_name e \<noteq> None"
    using assms by (auto simp: table_fits_def table_ok_def split: option.splits)
  then show ?thesis using compare_lookups_agree[OF i(4)] i(1-3) by (simp add: probes_and_mismatches_def)
qed


section \<open>No buffer is lost\<close>

definition pattern_buffers :: "pattern_state \<Rightarrow> nat multiset" where
  "pattern_buffers s = mset (case pr_parked s of None \<Rightarrow> [] | Some (b, _) \<Rightarrow> [b]) + mset (pr_pending s) + mset (pr_freed s)"

definition pattern_conserved :: "pattern_state \<Rightarrow> bool" where
  "pattern_conserved s \<longleftrightarrow> pattern_buffers s = mset [0..<pr_next s]"

lemma pattern_take_buffers:
  "pattern_take mode want s = (b, s') \<Longrightarrow> pattern_conserved s \<Longrightarrow> pattern_buffers s' + {#b#} = mset [0..<pr_next s']
    \<and> pr_pending s' = pr_pending s"
  by (auto simp: pattern_take_def pattern_conserved_def pattern_buffers_def simp del: mset_upt split: option.splits prod.splits if_splits)

lemma pattern_release_buffers:
  "pattern_buffers (pattern_release mode want b s) = pattern_buffers s + {#b#}"
  "pr_next (pattern_release mode want b s) = pr_next s" "pr_pending (pattern_release mode want b s) = pr_pending s"
  by (auto simp: pattern_release_def pattern_buffers_def Let_def split: option.splits)

lemma pattern_release_all:
  "pattern_buffers (fold (pattern_release mode want) bs s) = pattern_buffers s + mset bs
    \<and> pr_next (fold (pattern_release mode want) bs s) = pr_next s
    \<and> pr_pending (fold (pattern_release mode want) bs s) = pr_pending s"
  by (induction bs arbitrary: s) (simp_all add: pattern_release_buffers)

lemma pattern_step_conserved:
  assumes "pattern_conserved s"
  shows "pattern_conserved (pattern_step batch mode want s)"
proof -
  obtain b s1 where t: "pattern_take mode want s = (b, s1)" by fastforce
  define s2 where "s2 = s1\<lparr>pr_pending := pr_pending s1 @ [b]\<rparr>"
  have c: "pattern_buffers s2 = mset [0..<pr_next s2]"
    using conjunct1[OF pattern_take_buffers[OF t assms]] by (simp add: s2_def pattern_buffers_def del: mset_upt)
  define s3 where "s3 = fold (pattern_release mode want) (pr_pending s2) s2"
  have r: "pattern_buffers s3 = pattern_buffers s2 + mset (pr_pending s2)" "pr_next s3 = pr_next s2" "pr_pending s3 = pr_pending s2"
    using pattern_release_all[of mode want "pr_pending s2" s2] by (simp_all add: s3_def)
  have "pattern_buffers s3 = pattern_buffers (s3\<lparr>pr_pending := []\<rparr>) + mset (pr_pending s3)"
    by (simp add: pattern_buffers_def)
  then have "pattern_buffers (s3\<lparr>pr_pending := []\<rparr>) = pattern_buffers s2" using r(1,3) by simp
  then have "pattern_conserved (s3\<lparr>pr_pending := []\<rparr>)" using c r(2) by (simp add: pattern_conserved_def)
  moreover have "pattern_step batch mode want s = (if length (pr_pending s2) = batch then s3\<lparr>pr_pending := []\<rparr> else s2)"
    using t by (simp add: pattern_step_def s2_def s3_def Let_def)
  ultimately show ?thesis using c by (simp add: pattern_conserved_def)
qed

text \<open>After a round every buffer ever allocated has been freed exactly once, except the parked one.\<close>

lemma pattern_round_conserves:
  assumes "pattern_conserved s"
  shows "pattern_conserved (pattern_round batch mode want steps s) \<and> pr_pending (pattern_round batch mode want steps s) = []"
proof -
  have "pattern_conserved ((pattern_step batch mode want ^^ steps) s)"
    using assms by (induction steps) (simp_all add: pattern_step_conserved)
  then show ?thesis
    by (simp add: pattern_round_def Let_def pattern_conserved_def pattern_buffers_def add.assoc
      add.commute[of "mset (pr_freed _)"] del: mset_upt)
qed

lemma pattern_start_conserved: "pattern_conserved pattern_start"
  by (simp add: pattern_conserved_def pattern_buffers_def pattern_start_def)

end
