(* ===== verification/Bench_Workload.thy ===== *)
theory Bench_Workload
  imports RCU_Domain "HOL-Library.Multiset"
begin

text \<open>
  The workload framework of the benchmarks: the processor topology and the thread counts derived from it
  (\<open>bench/topology\<close>), the schedules of operations (\<open>bench/workloads/workload.cpp\<close>) and what the runner does
  with them (\<open>bench/workloads/workload_runner.cpp\<close>).

  What the operating system reports is a parameter, \<open>None\<close> where a file or key cannot be read. The static
  vector in \<open>generate_schedule\<close> is state, passed and returned; a schedule runs over the domain of
  \<open>RCU_Domain\<close> in one thread.

  Shown: thread counts are in range, distinct and ascending; running any schedule on a quiet domain ends, keeps
  the domain quiet and loses no retired object; all profiles run the schedule of the first one generated; the
  work is the same for every thread count exactly when the count divides 100000.
\<close>

section \<open>Topology\<close>

record CpuTopology =
  logical_cpus :: u32
  physical_cpus :: u32
  performance_cpus :: u32
  efficiency_cpus :: u32
  numa_nodes :: u32

definition new_topology :: CpuTopology where
  "new_topology = \<lparr>logical_cpus = 1, physical_cpus = 1, performance_cpus = 0, efficiency_cpus = 0, numa_nodes = 1\<rparr>"

definition detect_windows :: "u32 \<Rightarrow> u16 \<Rightarrow> CpuTopology" where
  "detect_windows active groups =
     (let n = (if active = 0 then 1 else active)
      in new_topology\<lparr>logical_cpus := n, physical_cpus := n,
           numa_nodes := (if groups = 0 then 1 else ucast groups), performance_cpus := 0, efficiency_cpus := 0\<rparr>)"

text \<open>\<open>sysctl_read(name, out)\<close> leaves \<open>out\<close> alone when the key cannot be read.\<close>

definition sysctl_read :: "(string \<Rightarrow> u64 option) \<Rightarrow> string \<Rightarrow> u32 \<Rightarrow> u32" where
  "sysctl_read sysctl name out = (case sysctl name of None \<Rightarrow> out | Some v \<Rightarrow> ucast v)"

text \<open>The per-level counts: level 0 are the performance cores, the others efficiency cores.
  \<open>level i\<close> is the value of \<open>hw.perflevel\<close>i\<open>.logicalcpu\<close>.\<close>

fun perf_levels :: "(nat \<Rightarrow> u64 option) \<Rightarrow> nat list \<Rightarrow> CpuTopology \<Rightarrow> CpuTopology" where
  "perf_levels level [] topo = topo"
| "perf_levels level (i # ls) topo =
     perf_levels level ls
       (case level i of
          None \<Rightarrow> topo
        | Some v \<Rightarrow> if i = 0 then topo\<lparr>performance_cpus := ucast v\<rparr>
                    else topo\<lparr>efficiency_cpus := efficiency_cpus topo + ucast v\<rparr>)"

definition detect_apple :: "(string \<Rightarrow> u64 option) \<Rightarrow> (nat \<Rightarrow> u64 option) \<Rightarrow> CpuTopology" where
  "detect_apple sysctl level =
     (let topo = new_topology\<lparr>logical_cpus := sysctl_read sysctl ''hw.logicalcpu'' 1,
                   physical_cpus := sysctl_read sysctl ''hw.physicalcpu'' 1\<rparr>;
          levels = sysctl_read sysctl ''hw.nperflevels'' 0;
          topo = (if sysctl ''hw.nperflevels'' \<noteq> None \<and> levels > 0
                  then let t = perf_levels level [0..<unat levels] topo
                       in if levels = 1 then t\<lparr>performance_cpus := 0, efficiency_cpus := 0\<rparr> else t
                  else topo)
      in topo\<lparr>numa_nodes := 1\<rparr>)"

definition count_online_cpus :: "int \<Rightarrow> u32" where
  "count_online_cpus n = (if n > 0 then of_int n else 1)"

text \<open>The identifiers read from sysfs for processor i.\<close>

definition count_physical_packages :: "int \<Rightarrow> (nat \<Rightarrow> u32 option) \<Rightarrow> u32" where
  "count_physical_packages online package =
     (let packages = set (List.map_filter package [0..<unat (count_online_cpus online)])
      in max (of_nat (card packages)) 1)"

definition count_physical_cores :: "int \<Rightarrow> (nat \<Rightarrow> u32 option) \<Rightarrow> (nat \<Rightarrow> u32 option) \<Rightarrow> u32" where
  "count_physical_cores online package core =
     (let cores = set (List.map_filter (\<lambda>i. case (core i, package i) of (Some c, Some p) \<Rightarrow> Some (p, c) | _ \<Rightarrow> None)
                [0..<unat (count_online_cpus online)])
      in max (of_nat (card cores)) 1)"

definition detect_linux :: "int \<Rightarrow> (nat \<Rightarrow> u32 option) \<Rightarrow> (nat \<Rightarrow> u32 option) \<Rightarrow> CpuTopology" where
  "detect_linux online package core =
     new_topology\<lparr>logical_cpus := count_online_cpus online,
       physical_cpus := count_physical_cores online package core,
       numa_nodes := count_physical_packages online package, performance_cpus := 0, efficiency_cpus := 0\<rparr>"

definition detect_fallback :: "u32 \<Rightarrow> CpuTopology" where
  "detect_fallback hwc =
     (let n = (if hwc > 0 then hwc else 1)
      in new_topology\<lparr>logical_cpus := n, physical_cpus := n, numa_nodes := 1, performance_cpus := 0, efficiency_cpus := 0\<rparr>)"

section \<open>Thread counts\<close>

text \<open>\<open>for (t = 1; t <= 8 && t <= N; t *= 2)\<close>\<close>

function doubling :: "u32 \<Rightarrow> u32 \<Rightarrow> u32 list" where
  "doubling t n = (if 0 < t \<and> t \<le> 8 \<and> t \<le> n then t # doubling (t * 2) n else [])"
  by pat_completeness auto
termination
proof (relation "measure (\<lambda>(t, n). 17 - unat t)")
  fix t n :: u32
  assume a: "0 < t \<and> t \<le> 8 \<and> t \<le> n"
  then have "0 < unat t" "unat t \<le> 8" by (auto simp: word_le_nat_alt unat_gt_0)
  moreover have "unat (t * 2) = unat t * 2" using \<open>unat t \<le> 8\<close> by (simp add: unat_word_ariths)
  ultimately show "((t * 2, n), t, n) \<in> measure (\<lambda>(t, n). 17 - unat t)" by simp
qed simp

declare doubling.simps [simp del]

definition push_if :: "bool \<Rightarrow> u32 \<Rightarrow> u32 list \<Rightarrow> u32 list" where
  "push_if c x xs = (if c then xs @ [x] else xs)"

definition thread_count_candidates :: "CpuTopology \<Rightarrow> u32 list" where
  "thread_count_candidates topo =
     (let n = logical_cpus topo;
          counts = doubling 1 n;
          p_cores = performance_cpus topo;
          counts = push_if (p_cores > 0 \<and> p_cores \<le> n) p_cores counts;
          p_transition = p_cores + 1;
          counts = push_if (p_cores > 0 \<and> p_transition \<le> n) p_transition counts;
          e_cores = efficiency_cpus topo;
          counts = push_if (e_cores > 0 \<and> e_cores \<le> n) e_cores counts;
          mid = n div 2;
          counts = push_if (mid > 8 \<and> mid \<le> n) mid counts
      in push_if (n > 8) n counts)"

text \<open>\<open>std::sort\<close>, then \<open>std::unique\<close> and \<open>erase\<close>: duplicates are adjacent.\<close>

definition default_thread_counts :: "CpuTopology \<Rightarrow> u32 list" where
  "default_thread_counts topo = remdups_adj (sort (thread_count_candidates topo))"

section \<open>Schedules\<close>

datatype Workload_op = wo_Read | wo_Retire | wo_Sync

record WorkloadProfile =
  wp_name :: string
  wp_reader_percent :: u32
  wp_retire_percent :: u32
  wp_sync_percent :: u32
  wp_operations :: u32

definition ReadHeavy :: WorkloadProfile where
  "ReadHeavy = \<lparr>wp_name = ''read_heavy'', wp_reader_percent = 90, wp_retire_percent = 9, wp_sync_percent = 1,
     wp_operations = 100\<rparr>"

definition Balanced :: WorkloadProfile where
  "Balanced = \<lparr>wp_name = ''balanced'', wp_reader_percent = 70, wp_retire_percent = 20, wp_sync_percent = 10,
     wp_operations = 100\<rparr>"

definition WriteHeavy :: WorkloadProfile where
  "WriteHeavy = \<lparr>wp_name = ''write_heavy'', wp_reader_percent = 40, wp_retire_percent = 40, wp_sync_percent = 20,
     wp_operations = 100\<rparr>"

text \<open>The placement loops: \<open>free\<close> is the extra test of the second one. The counter is what is left to place.\<close>

fun place_ops :: "bool \<Rightarrow> Workload_op \<Rightarrow> u32 \<Rightarrow> nat \<Rightarrow> u32 \<Rightarrow> Workload_op list \<Rightarrow> Workload_op list" where
  "place_ops free op stride 0 pos ops = ops"
| "place_ops free op stride (Suc k) pos ops =
     place_ops free op stride k (pos + stride)
       (if unat pos < length ops \<and> (free \<longrightarrow> ops ! unat pos = wo_Read) then ops[unat pos := op] else ops)"

definition place_share :: "bool \<Rightarrow> Workload_op \<Rightarrow> u32 \<Rightarrow> u32 \<Rightarrow> Workload_op list \<Rightarrow> Workload_op list" where
  "place_share free op percent n ops =
     (if percent > 0
      then let stride = 100 div percent in place_ops free op stride (unat (percent * n div 100)) (stride div 2) ops
      else ops)"

definition schedule_ops :: "WorkloadProfile \<Rightarrow> Workload_op list" where
  "schedule_ops p =
     (let ops = replicate (unat (wp_operations p)) wo_Read;
          ops = place_share False wo_Sync (wp_sync_percent p) (wp_operations p) ops
      in place_share True wo_Retire (wp_retire_percent p) (wp_operations p) ops)"

record WorkloadSchedule =
  ws_name :: string
  ws_data :: "Workload_op list"

text \<open>The function-local \<open>static\<close> vector: \<open>None\<close> before the first call, and initialised by it only. The
  assertion on the percentages is \<open>Inl\<close>.\<close>

definition generate_schedule ::
  "WorkloadProfile \<Rightarrow> Workload_op list option \<Rightarrow> (unit + WorkloadSchedule) \<times> Workload_op list option" where
  "generate_schedule p storage =
     (if wp_reader_percent p + wp_retire_percent p + wp_sync_percent p \<noteq> 100 then (Inl (), storage)
      else let st = (case storage of None \<Rightarrow> schedule_ops p | Some ops \<Rightarrow> ops)
           in (Inr \<lparr>ws_name = wp_name p, ws_data = st\<rparr>, Some st))"

section \<open>Running a schedule\<close>

text \<open>
  One thread of the benchmark; the objects it allocates are numbered. \<open>None\<close> is a \<open>synchronize\<close> that
  would wait for ever because no other thread moves.
\<close>

fun execute_op :: "bool \<Rightarrow> tid \<Rightarrow> 'f \<Rightarrow> Workload_op \<Rightarrow> 'f Domain \<times> nat \<times> u64 \<Rightarrow> ('f Domain \<times> nat \<times> u64) option" where
  "execute_op is_writer t del wo_Read (d, x, ops) = Some (rcu_exit t (rcu_enter t d), x, ops + 1)"
| "execute_op is_writer t del wo_Retire (d, x, ops) =
     (if is_writer then Some (rcu_retire False 0 True t (Some x) (Some del) d, Suc x, ops + 1)
      else Some (d, x, ops))"
| "execute_op is_writer t del wo_Sync (d, x, ops) =
     (if is_writer then map_option (\<lambda>d. (d, x, ops + 1)) (synchronize_impl False False t d)
      else Some (d, x, ops))"

fun execute_schedule ::
  "bool \<Rightarrow> tid \<Rightarrow> 'f \<Rightarrow> Workload_op list \<Rightarrow> 'f Domain \<times> nat \<times> u64 \<Rightarrow> ('f Domain \<times> nat \<times> u64) option" where
  "execute_schedule is_writer t del [] s = Some s"
| "execute_schedule is_writer t del (a # as) s =
     Option.bind (execute_op is_writer t del a s) (execute_schedule is_writer t del as)"

section \<open>Fixed work\<close>

text \<open>Nothing here exceeds ten million, so the 64-bit arithmetic of the code is that of the naturals.\<close>

definition kTotalOps :: nat where
  "kTotalOps = 10000000"

record work_counts =
  wc_total :: nat
  wc_reads :: nat
  wc_retires :: nat
  wc_syncs :: nat

definition count_op :: "Workload_op \<Rightarrow> Workload_op list \<Rightarrow> nat" where
  "count_op a ops = length (filter ((=) a) ops)"

text \<open>The reference row, one thread.\<close>

definition reference_counts :: "Workload_op list \<Rightarrow> work_counts" where
  "reference_counts ops =
     (let w = length ops; total = (kTotalOps div 1) div w * w
      in \<lparr>wc_total = total, wc_reads = total div w * count_op wo_Read ops,
          wc_retires = total div w * count_op wo_Retire ops, wc_syncs = total div w * count_op wo_Sync ops\<rparr>)"

definition synthetic_counts :: "Workload_op list \<Rightarrow> nat \<Rightarrow> work_counts" where
  "synthetic_counts ops tc =
     (let w = length ops; thread_ops = kTotalOps div tc; reps = thread_ops div w
      in \<lparr>wc_total = reps * w * tc, wc_reads = reps * count_op wo_Read ops * tc,
          wc_retires = reps * count_op wo_Retire ops * tc, wc_syncs = reps * count_op wo_Sync ops * tc\<rparr>)"

definition role_based_counts :: "Workload_op list \<Rightarrow> nat \<Rightarrow> work_counts" where
  "role_based_counts ops tc =
     (let w = length ops; reader_ops = count_op wo_Read ops; thread_ops = kTotalOps div tc;
          writer_reps = thread_ops div w; reader_reps = (if reader_ops > 0 then thread_ops div reader_ops else 0);
          num_readers = tc - 1
      in \<lparr>wc_total = writer_reps * w + reader_reps * reader_ops * num_readers,
          wc_reads = writer_reps * reader_ops + reader_reps * reader_ops * num_readers,
          wc_retires = writer_reps * count_op wo_Retire ops, wc_syncs = writer_reps * count_op wo_Sync ops\<rparr>)"

definition synthetic_ok :: "Workload_op list list \<Rightarrow> nat list \<Rightarrow> bool" where
  "synthetic_ok schedules threads \<longleftrightarrow>
     (\<forall>ops \<in> set schedules. \<forall>tc \<in> set threads. synthetic_counts ops tc = reference_counts ops)"

text \<open>The part of thread \<open>i\<close> of \<open>tc\<close> in a registered benchmark: whether it runs as a writer, how often it runs
  the schedule per iteration, and the share it reports.\<close>

definition thread_part :: "bool \<Rightarrow> Workload_op list \<Rightarrow> nat \<Rightarrow> nat \<Rightarrow> bool \<times> nat \<times> nat" where
  "thread_part synthetic_mixed ops tc i =
     (let writer_ops = length ops; reader_ops = count_op wo_Read ops; thread_ops = kTotalOps div tc;
          writer_repeats = thread_ops div writer_ops;
          reader_repeats = (if reader_ops > 0 then thread_ops div reader_ops else 0);
          is_writer = (if synthetic_mixed then True else i = 0)
      in (is_writer, if is_writer then writer_repeats else reader_repeats, thread_ops))"

section \<open>Thread counts are sound\<close>

lemma doubling_bounds: "x \<in> set (doubling t n) \<Longrightarrow> 0 < x \<and> x \<le> n"
  by (induction t n rule: doubling.induct) (subst (asm) doubling.simps, auto split: if_splits)

lemma set_push_if: "set (push_if c x xs) = (if c then insert x (set xs) else set xs)"
  by (simp add: push_if_def)

lemma distinct_remdups_adj_sorted: "sorted xs \<Longrightarrow> distinct (remdups_adj xs)"
proof (induction xs rule: remdups_adj.induct)
  case (3 x y xs)
  show ?case
  proof (cases "x = y")
    case False
    then have "x < y" using 3(3) by (simp add: order.strict_iff_order)
    moreover have "\<forall>z \<in> set (y # xs). y \<le> z" using 3(3) by auto
    ultimately have "x \<notin> set (remdups_adj (y # xs))" by (auto simp: not_le[symmetric])
    then show ?thesis using 3 False by simp
  qed (use 3 in simp)
qed simp_all

text \<open>The counts come in ascending order without repetition, none is zero or above the number of
  processors, and the single-threaded run is always among them.\<close>

lemma thread_counts_sorted: "sorted (default_thread_counts topo)" "distinct (default_thread_counts topo)"
  by (simp_all add: default_thread_counts_def distinct_remdups_adj_sorted)

lemma thread_counts_in_range:
  assumes "performance_cpus topo \<noteq> 0xFFFFFFFF" "x \<in> set (default_thread_counts topo)"
  shows "0 < x \<and> x \<le> logical_cpus topo"
proof -
  have "performance_cpus topo + 1 \<noteq> 0" 
  proof
    assume "performance_cpus topo + 1 = 0"
    then have "performance_cpus topo = - 1" by (simp add: add_eq_0_iff2)
    moreover have "(- 1 :: u32) = 0xFFFFFFFF" by simp
    ultimately show False using assms(1) by simp
  qed
  then have "0 < performance_cpus topo + 1" by (simp add: word_gt_0)
  then show ?thesis using assms(2)
    by (auto simp: default_thread_counts_def thread_count_candidates_def Let_def set_push_if word_gt_0
      dest: doubling_bounds split: if_splits)
qed

lemma thread_counts_single: "0 < logical_cpus topo \<Longrightarrow> 1 \<in> set (default_thread_counts topo)"
proof -
  assume "0 < logical_cpus topo"
  then have "1 \<le> logical_cpus topo" by (simp add: word_le_nat_alt unat_gt_0 Suc_le_eq word_gt_0)
  then have "1 \<in> set (doubling 1 (logical_cpus topo))" by (subst doubling.simps) simp
  then show ?thesis by (simp add: default_thread_counts_def thread_count_candidates_def Let_def set_push_if)
qed


section \<open>What the schedules hold\<close>

lemma length_place_ops [simp]: "length (place_ops free op stride k pos ops) = length ops"
  by (induction free op stride k pos ops rule: place_ops.induct) simp_all

lemma length_schedule_ops: "length (schedule_ops p) = unat (wp_operations p)"
  by (simp add: schedule_ops_def place_share_def Let_def)

lemmas profile_defs = ReadHeavy_def Balanced_def WriteHeavy_def

lemma profile_mixes:
  "map (\<lambda>a. count_op a (schedule_ops ReadHeavy)) [wo_Read, wo_Retire, wo_Sync] = [90, 9, 1]"
  "map (\<lambda>a. count_op a (schedule_ops Balanced)) [wo_Read, wo_Retire, wo_Sync] = [70, 20, 10]"
  "map (\<lambda>a. count_op a (schedule_ops WriteHeavy)) [wo_Read, wo_Retire, wo_Sync] = [48, 32, 20]"
  by code_simp+


text \<open>The static vector is filled once: whatever profile comes later gets the operations of the first.\<close>

lemma first_profile_wins:
  assumes "fst (generate_schedule p None) \<noteq> Inl ()" "snd (generate_schedule p None) = Some ops"
    and "fst (generate_schedule q (Some ops)) = Inr s"
  shows "ws_data s = schedule_ops p \<and> ws_name s = wp_name q"
  using assms by (auto simp: generate_schedule_def Let_def split: if_splits)

lemma profiles_all_read_heavy:
  "\<exists>st s1 s2. snd (generate_schedule ReadHeavy None) = Some st
     \<and> fst (generate_schedule Balanced (Some st)) = Inr s1 \<and> ws_name s1 = ''balanced'' \<and> count_op wo_Sync (ws_data s1) = 1
     \<and> fst (generate_schedule WriteHeavy (Some st)) = Inr s2 \<and> ws_name s2 = ''write_heavy'' \<and> count_op wo_Sync (ws_data s2) = 1"
proof -
  have "count_op wo_Sync (schedule_ops ReadHeavy) = 1" using profile_mixes(1) by simp
  then show ?thesis by (simp add: generate_schedule_def profile_defs[unfolded atomize_eq] Let_def)
qed

section \<open>When the work is fixed\<close>

lemma synthetic_fixed_iff:
  assumes "ops \<noteq> []" "length ops dvd kTotalOps" "0 < tc"
  shows "synthetic_counts ops tc = reference_counts ops \<longleftrightarrow> tc dvd kTotalOps div length ops"
proof -
  define w where "w = length ops"
  define m where "m = kTotalOps div w"
  have w: "0 < w" "kTotalOps = m * w" using assms(1,2) by (simp_all add: w_def m_def)
  have reps: "kTotalOps div tc div w = m div tc"
  proof -
    have "kTotalOps div tc div w = m * w div (tc * w)" by (simp only: w(2) div_mult2_eq)
    also have "\<dots> = m div tc" using w(1) by (simp only: div_mult_mult2)
    finally show ?thesis .
  qed
  have ref: "kTotalOps div 1 div w * w = m * w" "m * w div w = m"
    using w(1) by (simp_all add: w(2)[symmetric] m_def[symmetric])
  show ?thesis
  proof
    assume "synthetic_counts ops tc = reference_counts ops"
    then have "wc_total (synthetic_counts ops tc) = wc_total (reference_counts ops)" by simp
    then have "m div tc * w * tc = m * w"
      unfolding synthetic_counts_def reference_counts_def Let_def w_def[symmetric] reps ref by simp
    then have "m div tc * tc = m" using w(1) by (simp add: mult.commute mult.left_commute)
    then show "tc dvd kTotalOps div length ops" by (metis dvd_triv_right m_def w_def)
  next
    assume "tc dvd kTotalOps div length ops"
    then have "m div tc * a * tc = m * a" for a by (simp add: m_def[symmetric] w_def[symmetric] mult.commute mult.left_commute)
    then show "synthetic_counts ops tc = reference_counts ops"
      unfolding synthetic_counts_def reference_counts_def Let_def w_def[symmetric] reps ref by simp
  qed
qed

text \<open>With the profiles of a hundred operations the totals agree with those of one thread exactly for the
  thread counts that divide 100000: not on a machine with 12 processors.\<close>

lemma synthetic_ok_iff:
  assumes "\<forall>ops \<in> set schedules. length ops = 100" "schedules \<noteq> []" "\<forall>tc \<in> set threads. 0 < tc"
  shows "synthetic_ok schedules threads \<longleftrightarrow> (\<forall>tc \<in> set threads. tc dvd 100000)"
proof -
  have "synthetic_counts ops tc = reference_counts ops \<longleftrightarrow> tc dvd 100000"
    if "ops \<in> set schedules" "tc \<in> set threads" for ops tc
  proof -
    have l: "length ops = 100" "ops \<noteq> []" using assms(1) that(1) by auto
    show ?thesis using synthetic_fixed_iff[OF l(2), of tc] l(1) assms(3) that(2) by (simp add: kTotalOps_def)
  qed
  then show ?thesis using assms(2) by (auto simp: synthetic_ok_def ex_in_conv[symmetric])
qed

lemma twelve_processors_not_fixed:
  "\<not> synthetic_ok [schedule_ops ReadHeavy] (map unat (default_thread_counts (new_topology\<lparr>logical_cpus := 12\<rparr>)))"
proof -
  let ?l = "map unat (default_thread_counts (new_topology\<lparr>logical_cpus := 12\<rparr>))"
  have c: "?l = [1, 2, 4, 8, 12]"
    by code_simp
  have "length (schedule_ops ReadHeavy) = 100" by (simp add: length_schedule_ops ReadHeavy_def)
  then show ?thesis using synthetic_ok_iff[of "[schedule_ops ReadHeavy]" ?l] unfolding c by simp
qed

section \<open>Running a schedule on a quiet domain\<close>

definition quiet :: "'f Domain \<Rightarrow> bool" where
  "quiet d \<longleftrightarrow> dm_sync d = 0 \<and> (\<forall>t. dm_slot d t = 0)"

definition whole_nodes :: "'f RetiredNode list \<Rightarrow> bool" where
  "whole_nodes ns \<longleftrightarrow> (\<forall>n \<in> set ns. rn_object n \<noteq> None \<and> rn_reclaim n \<noteq> None)"

definition node_objects :: "'f RetiredNode list \<Rightarrow> nat multiset" where
  "node_objects ns = mset (map (\<lambda>n. the (rn_object n)) ns)"

text \<open>An object is on its way, in the batch of the thread or in the retired list, or it was reclaimed.\<close>

definition domain_objects :: "tid \<Rightarrow> 'f Domain \<Rightarrow> nat multiset" where
  "domain_objects t d = mset (map snd (dm_log d)) + node_objects (dm_retired d) + node_objects (dm_batch d t)"

definition run_inv :: "tid \<Rightarrow> 'f Domain \<times> nat \<times> u64 \<Rightarrow> bool" where
  "run_inv t s \<longleftrightarrow> (case s of (d, x, _) \<Rightarrow> quiet d \<and> whole_nodes (dm_retired d) \<and> whole_nodes (dm_batch d t)
     \<and> domain_objects t d = mset [0..<x])"

lemma collect_walk_objects:
  assumes "whole_nodes ns" "collect_walk e cls ns = (kept, calls)"
  shows "whole_nodes kept \<and> node_objects kept + mset (map snd calls) = node_objects ns"
  using assms
proof (induction ns arbitrary: kept calls)
  case Nil
  then show ?case by (simp add: whole_nodes_def node_objects_def)
next
  case (Cons n ns)
  obtain k c where kc: "collect_walk e cls ns = (k, c)" by fastforce
  obtain x f where n: "rn_object n = Some x" "rn_reclaim n = Some f" using Cons.prems(1) by (auto simp: whole_nodes_def)
  have "whole_nodes ns" using Cons.prems(1) by (simp add: whole_nodes_def)
  then have "whole_nodes k \<and> node_objects k + mset (map snd c) = node_objects ns" using Cons.IH kc by blast
  then show ?case using Cons.prems(2) kc n by (auto simp: whole_nodes_def node_objects_def split: if_splits)
qed

lemma collect_keeps:
  assumes "whole_nodes (dm_retired d)"
  shows "whole_nodes (dm_retired (collect e cls d)) \<and> domain_objects t (collect e cls d) = domain_objects t d
    \<and> dm_slot (collect e cls d) = dm_slot d \<and> dm_batch (collect e cls d) = dm_batch d \<and> dm_sync (collect e cls d) = dm_sync d"
proof -
  obtain k c where kc: "collect_walk e cls (dm_retired d) = (k, c)" by fastforce
  have "whole_nodes k \<and> node_objects k + mset (map snd c) = node_objects (dm_retired d)"
    using collect_walk_objects[OF assms kc] .
  then show ?thesis using assms kc
    by (auto simp: collect_def Let_def domain_objects_def ac_simps)
qed

lemma publish_keeps:
  assumes "whole_nodes (dm_retired d)" "whole_nodes (dm_batch d t)"
  shows "whole_nodes (dm_retired (publish_local_batch_locked t d)) \<and> dm_batch (publish_local_batch_locked t d) t = []
    \<and> domain_objects t (publish_local_batch_locked t d) = domain_objects t d
    \<and> dm_slot (publish_local_batch_locked t d) = dm_slot d \<and> dm_sync (publish_local_batch_locked t d) = dm_sync d"
  using assms by (auto simp: publish_local_batch_locked_def domain_objects_def whole_nodes_def node_objects_def)


lemma sync_keeps:
  assumes "run_inv t (d, x, n)"
  shows "\<exists>d'. synchronize_impl False False t d = Some d' \<and> run_inv t (d', x, n')"
proof -
  define d1 where "d1 = publish_local_batch_locked t d"
  have inv: "quiet d" "whole_nodes (dm_retired d)" "whole_nodes (dm_batch d t)" "domain_objects t d = mset [0..<x]"
    using assms by (simp_all add: run_inv_def del: mset_upt)
  have p: "quiet d1" "whole_nodes (dm_retired d1)" "dm_batch d1 t = []" "domain_objects t d1 = mset [0..<x]"
    using publish_keeps[OF inv(2,3)] inv(1,4) by (simp_all add: d1_def quiet_def del: mset_upt)
  define d2 where "d2 = d1\<lparr>dm_sync_count := dm_sync_count d1 + 1\<rparr>"
  have p2: "quiet d2" "whole_nodes (dm_retired d2)" "dm_batch d2 t = []" "domain_objects t d2 = mset [0..<x]"
    using p by (simp_all add: d2_def quiet_def domain_objects_def del: mset_upt)
  show ?thesis
  proof (cases "dm_sync_count d2 < SKL_ABIX_RCU_EPOCH_BATCH")
    case True
    then have "synchronize_impl False False t d = Some d2"
      using p(1) by (simp add: synchronize_impl_def sync_begin_def d1_def[symmetric] Let_def quiet_def d2_def)
    then show ?thesis using p2 by (simp add: run_inv_def whole_nodes_def del: mset_upt)
  next
    case False
    define d3 where "d3 = d2\<lparr>dm_sync_count := 0, dm_global := dm_global d2 + 1, dm_sync := dm_global d2 + 1\<rparr>"
    have opened: "sync_begin False False t d = (sync_advance (dm_global d2), d3)"
      using p(1) False by (simp add: sync_begin_def d1_def[symmetric] Let_def quiet_def d2_def d3_def
        open_advance_def count_attempt_def)
    have "readers_passed (dm_global d2) d3"
      using p2(1) by (simp add: readers_passed_def slot_passed_def d3_def quiet_def list_all_iff)
    then have s: "synchronize_impl False False t d = Some (sync_end False (dm_global d2) d3)"
      by (simp add: synchronize_impl_def opened)
    have w3: "whole_nodes (dm_retired d3)" using p2(2) by (simp add: d3_def)
    have "quiet (sync_end False (dm_global d2) d3)" "whole_nodes (dm_retired (sync_end False (dm_global d2) d3))"
        "dm_batch (sync_end False (dm_global d2) d3) t = []"
        "domain_objects t (sync_end False (dm_global d2) d3) = mset [0..<x]"
      using collect_keeps[OF w3, of "dm_global d2" rc_batched t] p2
      by (simp_all add: sync_end_def quiet_def d3_def domain_objects_def del: mset_upt)
    then show ?thesis using s by (simp add: run_inv_def whole_nodes_def del: mset_upt)
  qed
qed

lemma retire_keeps:
  assumes "run_inv t (d, x, n)"
  shows "run_inv t (rcu_retire False 0 True t (Some x) (Some del) d, Suc x, n')"
proof -
  define d1 where "d1 = retire_local False 0 t (Some x) (Some del) rc_batched d"
  have inv: "quiet d" "whole_nodes (dm_retired d)" "whole_nodes (dm_batch d t)" "domain_objects t d = mset [0..<x]"
    using assms by (simp_all add: run_inv_def del: mset_upt)
  have p: "quiet d1" "whole_nodes (dm_retired d1)" "whole_nodes (dm_batch d1 t)" "domain_objects t d1 = mset [0..<Suc x]"
    using inv by (auto simp: d1_def retire_local_def quiet_def whole_nodes_def domain_objects_def node_objects_def simp del: mset_upt)
  show ?thesis
    using p publish_keeps[OF p(2,3)]
    by (simp add: rcu_retire_def retire_impl_def Let_def d1_def[symmetric] publish_local_batch_def run_inv_def quiet_def
      whole_nodes_def del: mset_upt)
qed

lemma read_keeps: "run_inv t (d, x, n) \<Longrightarrow> run_inv t (rcu_exit t (rcu_enter t d), x, n')"
  by (auto simp: run_inv_def rcu_exit_def rcu_enter_def get_thread_def register_thread_def store_slot_def quiet_def
    domain_objects_def Let_def simp del: mset_upt)

lemma execute_op_keeps:
  assumes "run_inv t s"
  shows "\<exists>s'. execute_op w t del a s = Some s' \<and> run_inv t s'
    \<and> snd (snd s') = snd (snd s) + (if w \<or> a = wo_Read then 1 else 0)"
proof -
  obtain d x n where s: "s = (d, x, n)" by (cases s) auto
  show ?thesis
  proof (cases a)
    case wo_Read
    then show ?thesis using read_keeps assms s by auto
  next
    case wo_Retire
    then show ?thesis using retire_keeps[of t d x n del] assms s by auto
  next
    case wo_Sync
    then show ?thesis using sync_keeps[of t d x n] assms s by (cases w) auto
  qed
qed

text \<open>Any schedule can be run: on a domain without readers every operation of every schedule ends, for the
  writer and for readers, the domain is quiet again afterwards, every object the run allocated was reclaimed or
  is still queued, never both and never twice, and the operations counted are all of them for the writer and
  the reads for the others.\<close>

theorem schedule_runs:
  assumes "run_inv t s"
  shows "\<exists>s'. execute_schedule w t del as s = Some s' \<and> run_inv t s'
    \<and> snd (snd s') = snd (snd s) + of_nat (if w then length as else count_op wo_Read as)"
  using assms
proof (induction as arbitrary: s)
  case (Cons a as)
  obtain s1 where s1: "execute_op w t del a s = Some s1" "run_inv t s1"
      "snd (snd s1) = snd (snd s) + (if w \<or> a = wo_Read then 1 else 0)"
    using execute_op_keeps[OF Cons.prems] by blast
  obtain s2 where "execute_schedule w t del as s1 = Some s2" "run_inv t s2"
      "snd (snd s2) = snd (snd s1) + of_nat (if w then length as else count_op wo_Read as)"
    using Cons.IH[OF s1(2)] by blast
  then show ?case using s1 by (auto simp: count_op_def)
qed (simp add: count_op_def)

text \<open>What the threads execute in one iteration is what the verification table prints, and with it the reported
  share is too high whenever it is not a multiple of the schedule.\<close>

definition executed_by :: "bool \<Rightarrow> Workload_op list \<Rightarrow> nat \<Rightarrow> nat \<Rightarrow> nat" where
  "executed_by synthetic ops tc i =
     (case thread_part synthetic ops tc i of (w, repeats, _) \<Rightarrow> repeats * (if w then length ops else count_op wo_Read ops))"

lemma sum_same: "(\<And>i. i \<in> set is \<Longrightarrow> f i = (c :: nat)) \<Longrightarrow> sum_list (map f is) = length is * c"
  by (induction "is") simp_all

lemma synthetic_executed:
  "sum_list (map (executed_by True ops tc) [0..<tc]) = wc_total (synthetic_counts ops tc)"
  by (subst sum_same[where c = "kTotalOps div tc div length ops * length ops"])
    (simp_all add: executed_by_def thread_part_def synthetic_counts_def Let_def ac_simps)

lemma role_based_executed:
  assumes "0 < tc"
  shows "sum_list (map (executed_by False ops tc) [0..<tc]) = wc_total (role_based_counts ops tc)"
proof -
  let ?r = "(if count_op wo_Read ops > 0 then kTotalOps div tc div count_op wo_Read ops else 0) * count_op wo_Read ops"
  have "sum_list (map (executed_by False ops tc) [Suc 0..<tc]) = length [Suc 0..<tc] * ?r"
    by (rule sum_same) (simp add: executed_by_def thread_part_def Let_def)
  moreover have "[0..<tc] = 0 # [Suc 0..<tc]" using assms by (simp add: upt_conv_Cons)
  ultimately show ?thesis
    by (simp add: executed_by_def[of _ _ _ 0] thread_part_def role_based_counts_def Let_def ac_simps)
qed

lemma reported_share:
  "executed_by True ops tc i \<le> snd (snd (thread_part True ops tc i))"
  "executed_by True ops tc i = snd (snd (thread_part True ops tc i)) \<longleftrightarrow> length ops dvd kTotalOps div tc"
proof -
  let ?n = "kTotalOps div tc" and ?w = "length ops"
  have e: "executed_by True ops tc i = ?n div ?w * ?w" "snd (snd (thread_part True ops tc i)) = ?n"
    by (simp_all add: executed_by_def thread_part_def Let_def)
  show "executed_by True ops tc i \<le> snd (snd (thread_part True ops tc i))" unfolding e by simp
  show "executed_by True ops tc i = snd (snd (thread_part True ops tc i)) \<longleftrightarrow> ?w dvd ?n"
    unfolding e by (metis dvd_div_mult_self dvd_triv_right)
qed

end
