(* ===== verification/Bench_Latency.thy ===== *)
theory Bench_Latency
  imports Abix_Prelude
begin

text \<open>
  The latency histogram of the stress benchmark (\<open>LatencyStats\<close> of \<open>bench/stress_bench.cpp\<close>) and the merge of the
  histograms of its threads. The clock and the reporting are left out.

  \<open>percentile(p)\<close> multiplies the count by \<open>p\<close> in \<open>double\<close> and truncates; that rank is the argument of the model,
  so what is shown holds however the product rounds.

  Shown: merging the histograms of several threads is recording all their samples in one, and the percentile of
  a rank is the largest power of two not above the sample of that rank, for samples from 1 to 2^32 - 1 ns.
\<close>

section \<open>The histogram\<close>

record LatencyStats =
  ls_count :: u64
  ls_total_ns :: u64
  ls_min_ns :: u64
  ls_max_ns :: u64
  ls_buckets :: "u64 list"

definition new_stats :: LatencyStats where
  "new_stats = \<lparr>ls_count = 0, ls_total_ns = 0, ls_min_ns = - 1, ls_max_ns = 0, ls_buckets = replicate 32 0\<rparr>"

text \<open>\<open>__builtin_clzll\<close>\<close>

fun clz_below :: "nat \<Rightarrow> u64 \<Rightarrow> nat" where
  "clz_below 0 w = 0"
| "clz_below (Suc i) w = (if bit w i then 0 else Suc (clz_below i w))"

definition clz64 :: "u64 \<Rightarrow> nat" where
  "clz64 w = clz_below 64 w"

definition bucket_of :: "u64 \<Rightarrow> nat" where
  "bucket_of ns = (let b = (if ns > 0 then 63 - clz64 ns else 0) in if b \<ge> 32 then 31 else b)"

definition record_ns :: "u64 \<Rightarrow> LatencyStats \<Rightarrow> LatencyStats" where
  "record_ns ns s =
     \<lparr>ls_count = ls_count s + 1, ls_total_ns = ls_total_ns s + ns,
      ls_min_ns = (if ns < ls_min_ns s then ns else ls_min_ns s),
      ls_max_ns = (if ns > ls_max_ns s then ns else ls_max_ns s),
      ls_buckets = (ls_buckets s)[bucket_of ns := ls_buckets s ! bucket_of ns + 1]\<rparr>"

text \<open>The loop over the buckets from the \<open>i\<close>-th on, \<open>cum\<close> being the samples before it.\<close>

fun percentile_from :: "nat \<Rightarrow> u64 \<Rightarrow> u64 \<Rightarrow> u64 list \<Rightarrow> u64 option" where
  "percentile_from i target cum [] = None"
| "percentile_from i target cum (b # bs) =
     (if cum + b > target then Some (push_bit i 1) else percentile_from (Suc i) target (cum + b) bs)"

definition percentile :: "u64 \<Rightarrow> LatencyStats \<Rightarrow> u64" where
  "percentile target s =
     (if ls_count s = 0 then 0
      else let target = (if target \<ge> ls_count s then ls_count s - 1 else target)
           in case percentile_from 0 target 0 (ls_buckets s) of Some p \<Rightarrow> p | None \<Rightarrow> ls_max_ns s)"

definition avg_ns :: "LatencyStats \<Rightarrow> u64" where
  "avg_ns s = (if ls_count s \<noteq> 0 then ls_total_ns s div ls_count s else 0)"

text \<open>The merge loop of the benchmarks, one histogram into the total.\<close>

definition merge_stats :: "LatencyStats \<Rightarrow> LatencyStats \<Rightarrow> LatencyStats" where
  "merge_stats s acc =
     \<lparr>ls_count = ls_count acc + ls_count s, ls_total_ns = ls_total_ns acc + ls_total_ns s,
      ls_min_ns = (if ls_min_ns s < ls_min_ns acc then ls_min_ns s else ls_min_ns acc),
      ls_max_ns = (if ls_max_ns s > ls_max_ns acc then ls_max_ns s else ls_max_ns acc),
      ls_buckets = map2 (+) (ls_buckets acc) (ls_buckets s)\<rparr>"

definition recorded :: "u64 list \<Rightarrow> LatencyStats" where
  "recorded xs = fold record_ns xs new_stats"

definition merged :: "u64 list list \<Rightarrow> LatencyStats" where
  "merged xss = fold merge_stats (map recorded xss) new_stats"

section \<open>What the fields hold\<close>

lemma bucket_lt: "bucket_of ns < 32"
  by (simp add: bucket_of_def Let_def)

definition bucket_count :: "u64 list \<Rightarrow> nat \<Rightarrow> nat" where
  "bucket_count xs i = length (filter (\<lambda>x. bucket_of x = i) xs)"

definition histogram :: "u64 list \<Rightarrow> u64 list" where
  "histogram xs = map (\<lambda>i. of_nat (bucket_count xs i)) [0..<32]"

definition min_of :: "u64 list \<Rightarrow> u64" where
  "min_of xs = fold min xs (- 1)"

definition max_of :: "u64 list \<Rightarrow> u64" where
  "max_of xs = fold max xs 0"

lemma histogram_append: "histogram (xs @ ys) = map2 (+) (histogram xs) (histogram ys)"
  by (rule nth_equalityI) (simp_all add: histogram_def bucket_count_def)

lemma histogram_snoc: "histogram (xs @ [x]) = (histogram xs)[bucket_of x := histogram xs ! bucket_of x + 1]"
  using bucket_lt[of x]
  by (intro nth_equalityI) (auto simp: histogram_def bucket_count_def nth_list_update add.commute)

lemma if_min_max: "(if a < b then a else b) = min a b" "(if a > b then a else b) = max a (b :: u64)"
  by (auto simp: min_def max_def)

lemma recorded_fields:
  "recorded xs = \<lparr>ls_count = of_nat (length xs), ls_total_ns = sum_list xs, ls_min_ns = min_of xs, ls_max_ns = max_of xs,
     ls_buckets = histogram xs\<rparr>"
proof (induction xs rule: rev_induct)
  case Nil
  then show ?case
    by (simp add: recorded_def new_stats_def min_of_def max_of_def histogram_def bucket_count_def map_replicate_const)
next
  case (snoc x xs)
  have "recorded (xs @ [x]) = record_ns x (recorded xs)" by (simp add: recorded_def)
  then show ?case
    by (simp add: snoc record_ns_def histogram_snoc if_min_max min_of_def max_of_def add.commute)
qed

lemma fold_min: "fold min xs (a :: u64) = min a (min_of xs)" and fold_max: "fold max xs a = max a (max_of xs)"
proof -
  have "a \<le> - 1" for a :: u64 by (rule word_n1_ge)
  then have u: "min a (- 1) = a" "max 0 a = a" "max a 0 = a" for a :: u64 by (simp_all add: min_def max_def)
  have "fold min xs (min b c) = min b (fold min xs c)" for b c :: u64
  proof (induction xs arbitrary: c)
    case (Cons x xs)
    then show ?case using Cons.IH[of "min x c"] by (simp add: min.left_commute[of x b])
  qed simp
  from this[of a "- 1"] show "fold min xs a = min a (min_of xs)" by (simp add: min_of_def u)
  have "fold max xs (max b c) = max b (fold max xs c)" for b c :: u64
  proof (induction xs arbitrary: c)
    case (Cons x xs)
    then show ?case using Cons.IH[of "max x c"] by (simp add: max.left_commute[of x b])
  qed simp
  from this[of a 0] show "fold max xs a = max a (max_of xs)" by (simp add: max_of_def u)
qed

lemma merge_recorded: "merge_stats (recorded ys) (recorded xs) = recorded (xs @ ys)"
proof -
  have m: "min_of (xs @ ys) = min (min_of xs) (min_of ys)" "max_of (xs @ ys) = max (max_of xs) (max_of ys)"
    using fold_min[of ys "min_of xs"] fold_max[of ys "max_of xs"] unfolding min_of_def max_of_def fold_append comp_apply
    by (simp_all only:)
  show ?thesis
    unfolding recorded_fields
    by (simp add: merge_stats_def histogram_append if_min_max m min.commute max.commute)
qed

lemma merged_recorded: "merged xss = recorded (concat xss)"
proof -
  have "fold merge_stats (map recorded xss) (recorded ys) = recorded (ys @ concat xss)" for ys
    by (induction xss arbitrary: ys) (simp_all add: merge_recorded)
  from this[of "[]"] show ?thesis by (simp add: merged_def recorded_def)
qed

section \<open>Buckets are ordered\<close>

lemma clz_below_bounds:
  "\<lbrakk>0 < ns; unat ns < 2 ^ n\<rbrakk> \<Longrightarrow> clz_below n ns < n \<and> 2 ^ (n - 1 - clz_below n ns) \<le> unat ns \<and> unat ns < 2 ^ (n - clz_below n ns)"
proof (induction n)
  case 0
  then show ?case by (simp add: word_less_nat_alt)
next
  case (Suc n)
  have b: "bit ns n = bit (unat ns) n" by (simp add: bit_unsigned_iff bit_imp_le_length)
  show ?case
  proof (cases "bit ns n")
    case True
    then have "odd (unat ns div 2 ^ n)" using b bit_iff_odd[of "unat ns" n] by blast
    then have "unat ns div 2 ^ n \<noteq> 0" by (metis even_zero)
    then have "2 ^ n \<le> unat ns" by (metis div_less not_less)
    then show ?thesis using True Suc.prems(2) by simp
  next
    case False
    have "unat ns div 2 ^ n < 2" using Suc.prems(2) by (simp add: less_mult_imp_div_less)
    moreover have "even (unat ns div 2 ^ n)" using False b by (simp only: bit_iff_odd[of "unat ns"]) simp
    ultimately have "unat ns div 2 ^ n = 0" using less_2_cases[of "unat ns div 2 ^ n"] by auto
    then have "unat ns < 2 ^ n" by (simp add: div_eq_0_iff)
    then show ?thesis using Suc.IH Suc.prems(1) False by simp
  qed
qed

lemma bucket_bounds:
  assumes "0 < ns"
  shows "2 ^ (63 - clz64 ns) \<le> unat ns" "unat ns < 2 ^ Suc (63 - clz64 ns)" "clz64 ns < 64"
proof -
  have "unat ns < 2 ^ LENGTH(64)" by (rule unsigned_less)
  moreover have "(2 :: nat) ^ LENGTH(64) = 2 ^ 64" by simp
  ultimately have "unat ns < 2 ^ 64" by linarith
  then have "clz64 ns < 64 \<and> 2 ^ (63 - clz64 ns) \<le> unat ns \<and> unat ns < 2 ^ (64 - clz64 ns)"
    using clz_below_bounds[OF assms, of 64] by (simp add: clz64_def)
  moreover have "64 - c = Suc (63 - c)" if "c < 64" for c :: nat using that by simp
  ultimately show "2 ^ (63 - clz64 ns) \<le> unat ns" "unat ns < 2 ^ Suc (63 - clz64 ns)" "clz64 ns < 64" by auto
qed

lemma bucket_mono: "x \<le> y \<Longrightarrow> bucket_of x \<le> bucket_of y"
proof (cases "0 < x")
  assume "x \<le> y" "0 < x"
  then have "0 < y" "unat x \<le> unat y" by (auto simp: word_le_nat_alt word_less_nat_alt)
  have "2 ^ (63 - clz64 x) < (2 :: nat) ^ Suc (63 - clz64 y)"
    using bucket_bounds(1)[OF \<open>0 < x\<close>] bucket_bounds(2)[OF \<open>0 < y\<close>] \<open>unat x \<le> unat y\<close> by linarith
  then have "63 - clz64 x < Suc (63 - clz64 y)" by (rule power_less_imp_less_exp[rotated]) simp
  then show ?thesis using \<open>0 < x\<close> \<open>0 < y\<close> by (simp add: bucket_of_def Let_def)
qed (simp add: bucket_of_def)

section \<open>Percentiles\<close>

lemma filter_sorted_prefix:
  assumes "sorted ys" "\<And>x y. x \<le> y \<Longrightarrow> P y \<Longrightarrow> P x" "t < length ys"
  shows "t < length (filter P ys) \<longleftrightarrow> P (ys ! t :: 'a :: linorder)"
  using assms(1,3)
proof (induction ys arbitrary: t)
  case (Cons y ys)
  show ?case
  proof (cases "P y")
    case True
    then show ?thesis using Cons by (cases t) auto
  next
    case False
    then have "\<not> P x" if "x \<in> set (y # ys)" for x using Cons.prems(1) assms(2) that by auto
    then have "filter P (y # ys) = []" "\<not> P ((y # ys) ! t)"
      using nth_mem[OF Cons.prems(2)] by (auto simp: filter_empty_conv simp del: nth_mem)
    then show ?thesis by simp
  qed
qed simp

lemma filter_sort_length: "length (filter P (sort xs)) = length (filter P xs)"
  by (simp add: filter_sort)

text \<open>Samples up to and with bucket \<open>i\<close>.\<close>

definition upto_bucket :: "u64 list \<Rightarrow> nat \<Rightarrow> nat" where
  "upto_bucket xs i = length (filter (\<lambda>x. bucket_of x < i) xs)"

lemma upto_Suc: "upto_bucket xs (Suc i) = upto_bucket xs i + bucket_count xs i"
proof -
  have "length (filter (\<lambda>x. bucket_of x < Suc i) xs) = length (filter (\<lambda>x. bucket_of x < i) xs) + length (filter (\<lambda>x. bucket_of x = i) xs)"
    by (induction xs) auto
  then show ?thesis by (simp add: upto_bucket_def bucket_count_def)
qed

lemma upto_le: "upto_bucket xs i \<le> length xs"
  by (simp add: upto_bucket_def)

lemma percentile_from_rank:
  assumes "length xs < 2 ^ 64" "t < length xs" "bucket_of (sort xs ! t) = b" "i \<le> b"
  shows "percentile_from i (of_nat t) (of_nat (upto_bucket xs i)) (map (\<lambda>i. of_nat (bucket_count xs i)) [i..<32])
    = Some (push_bit b 1)"
  using assms(4)
proof (induction "b - i" arbitrary: i)
  case 0
  then have i: "i = b" by simp
  have "i < 32" using bucket_lt[of "sort xs ! t"] assms(3) i by simp
  then have l: "[i..<32] = i # [Suc i..<32]" by (simp add: upt_conv_Cons)
  have "t < upto_bucket xs (Suc b)"
    using filter_sorted_prefix[of "sort xs" "\<lambda>x. bucket_of x < Suc b" t] bucket_mono assms(2,3)
    by (auto simp: upto_bucket_def filter_sort_length intro: order_le_less_trans)
  then have "of_nat t < (of_nat (upto_bucket xs (Suc i)) :: u64)"
    using upto_le[of xs "Suc b"] assms(1) i by (simp add: word_less_nat_alt unat_of_nat_small)
  then show ?case unfolding l by (simp add: upto_Suc i)
next
  case (Suc k)
  then have i: "i < b" by simp
  then have "i < 32" using bucket_lt[of "sort xs ! t"] assms(3) by simp
  then have l: "[i..<32] = i # [Suc i..<32]" by (simp add: upt_conv_Cons)
  have "\<not> t < upto_bucket xs (Suc i)"
    using filter_sorted_prefix[of "sort xs" "\<lambda>x. bucket_of x < Suc i" t] bucket_mono assms(2,3) i
    by (auto simp: upto_bucket_def filter_sort_length intro: order_le_less_trans)
  then have "\<not> of_nat t < (of_nat (upto_bucket xs (Suc i)) :: u64)"
    using upto_le[of xs "Suc i"] assms(1,2) by (simp add: word_less_nat_alt unat_of_nat_small)
  moreover have "k = b - Suc i" using Suc.hyps(2) by linarith
  ultimately show ?case using Suc.hyps(1)[of "Suc i"] i by (simp add: l upto_Suc)
qed

lemma recorded_percentile:
  assumes "(of_nat (length xs) :: u64) \<noteq> 0"
  shows "percentile rank (recorded xs) =
    (case percentile_from 0 (if of_nat (length xs) \<le> rank then of_nat (length xs) - 1 else rank) 0 (histogram xs) of
       Some p \<Rightarrow> p | None \<Rightarrow> max_of xs)"
proof -
  have f: "ls_count (recorded xs) = of_nat (length xs)" "ls_buckets (recorded xs) = histogram xs" "ls_max_ns (recorded xs) = max_of xs"
    by (simp_all add: recorded_fields)
  show ?thesis unfolding percentile_def Let_def f using assms by (simp add: option.case_eq_if)
qed

text \<open>Samples in the range of the buckets, and above it.\<close>

lemma bucket_in_range:
  assumes "0 < s" "s < 2 ^ 32"
  shows "bucket_of s = 63 - clz64 s"
proof -
  have "unat s < 2 ^ 32" using assms(2) by (simp add: word_less_nat_alt)
  then have "63 - clz64 s < 32"
    using bucket_bounds(1)[OF assms(1)] by (metis le_less_trans power_less_imp_less_exp one_less_numeral_iff semiring_norm(76))
  then show ?thesis using assms(1) by (simp add: bucket_of_def)
qed

lemma bucket_above: "2 ^ 32 \<le> s \<Longrightarrow> bucket_of s = 31"
proof -
  assume s: "2 ^ 32 \<le> s"
  then have "(2 :: nat) ^ 32 \<le> unat s" by (simp add: word_le_nat_alt)
  moreover have "0 < s" using s by (auto simp: word_le_nat_alt word_less_nat_alt)
  ultimately have "(2 :: nat) ^ 32 < 2 ^ Suc (63 - clz64 s)" using bucket_bounds(2)[of s] by linarith
  then have "32 < Suc (63 - clz64 s)" by (rule power_less_imp_less_exp[rotated]) simp
  then show ?thesis using \<open>0 < s\<close> by (simp add: bucket_of_def)
qed

text \<open>C33.  A percentile read off the histograms of several threads brackets the true one. Whatever samples the
  threads record and however they are spread over the threads, merging the histograms and reading the bucket of
  a rank gives the power of two of the bucket of the sample that has this rank among all samples together. When this
  sample is from 1 to 2^32 - 1 ns, the reported value is at most the sample and more than half of it; a sample of 0 ns
  reads as 1 ns, and one of 2^32 ns or more as 2^31 ns. A rank past the end stands for the largest sample.\<close>

theorem merged_percentile_brackets:
  assumes "concat xss \<noteq> []" "length (concat xss) < 2 ^ 64"
    and "s = sort (concat xss) ! min (unat rank) (length (concat xss) - 1)"
  shows "percentile rank (merged xss) = 2 ^ bucket_of s
    \<and> (0 < s \<and> s < 2 ^ 32 \<longrightarrow>
         percentile rank (merged xss) \<le> s \<and> unat s < 2 * unat (percentile rank (merged xss)))
    \<and> (s = 0 \<longrightarrow> percentile rank (merged xss) = 1)
    \<and> (2 ^ 32 \<le> s \<longrightarrow> percentile rank (merged xss) = 2 ^ 31)"
proof -
  let ?xs = "concat xss" and ?t = "min (unat rank) (length (concat xss) - 1)"
  have n: "unat (of_nat (length ?xs) :: u64) = length ?xs" using assms(2) by (simp add: unat_of_nat_small)
  have nz: "(of_nat (length ?xs) :: u64) \<noteq> 0" using n assms(1) by (metis length_0_conv unat_0)
  have "(of_nat (length ?xs) :: u64) - 1 = of_nat (length ?xs - 1)" using assms(1) by (cases ?xs) simp_all
  then have t: "(if of_nat (length ?xs) \<le> rank then of_nat (length ?xs) - 1 else rank) = (of_nat ?t :: u64)"
    using n assms(1) by (auto simp: word_le_nat_alt min_def)
  have "?t < length ?xs" using assms(1) by (cases ?xs) auto
  then have "percentile_from 0 (of_nat ?t) (of_nat (upto_bucket ?xs 0)) (map (\<lambda>i. of_nat (bucket_count ?xs i)) [0..<32])
      = Some (push_bit (bucket_of s) 1)"
    by (intro percentile_from_rank[OF assms(2)]) (simp_all add: assms(3))
  then have p: "percentile rank (merged xss) = 2 ^ bucket_of s"
    unfolding merged_recorded recorded_percentile[OF nz] t by (simp add: histogram_def upto_bucket_def)
  have "(2 :: nat) ^ bucket_of s < 2 ^ 64" using bucket_lt[of s] by (intro power_strict_increasing) simp_all
  then have u: "unat ((2 :: u64) ^ bucket_of s) = 2 ^ bucket_of s" using unat_of_nat_small[where 'a = 64, of "2 ^ bucket_of s"] by simp
  have "percentile rank (merged xss) \<le> s \<and> unat s < 2 * unat (percentile rank (merged xss))" if "0 < s" "s < 2 ^ 32"
    using bucket_bounds(1,2)[OF that(1)] u unfolding p word_le_nat_alt by (simp add: bucket_in_range[OF that])
  then show ?thesis using p bucket_above[of s] by (auto simp: bucket_of_def)
qed

text \<open>Two threads, five samples; rank 2 is the median 1000 ns, reported as 512.\<close>

theorem merged_percentile_brackets_witness:
  "percentile 2 (merged [[1000, 7], [1300, 900, 5000]]) = 512"
proof -
  have s: "sort [1000, 7, 1300, 900, 5000 :: u64] ! 2 = 1000" by simp
  have b: "bucket_of (1000 :: u64) = 9" by code_simp
  show ?thesis
    using merged_percentile_brackets[of "[[1000, 7], [1300, 900, 5000]]" 1000 2] s by (simp add: b)
qed

text \<open>Below and above that range: a sample of 0 ns reads as 1 ns, and 2^32 ns or more as 2^31.\<close>

lemma percentile_of_zeros: "0 < n \<Longrightarrow> n < 2 ^ 64 \<Longrightarrow> percentile rank (recorded (replicate n 0)) = 1 \<and> ls_max_ns (recorded (replicate n 0)) = 0"
proof -
  assume n: "0 < n" "n < 2 ^ 64"
  have z: "bucket_of 0 = 0" by (simp add: bucket_of_def)
  have c: "bucket_count (replicate n 0) 0 = n" by (simp add: bucket_count_def z)
  have u: "unat (of_nat n :: u64) = n" using n by (simp add: unat_of_nat_small)
  then have nz: "(of_nat n :: u64) \<noteq> 0" using n(1) by (metis less_irrefl unat_0)
  then have "(if (of_nat n :: u64) \<le> rank then of_nat n - 1 else rank) < of_nat n"
    using n(1) by (simp add: not_le word_less_nat_alt unat_minus_one u)
  moreover have "histogram (replicate n 0) = of_nat n # map (\<lambda>i. of_nat (bucket_count (replicate n 0) i)) [1..<32]"
    by (simp add: histogram_def upt_conv_Cons c)
  ultimately have "percentile rank (recorded (replicate n 0)) = 1"
    using recorded_percentile[of "replicate n 0" rank, unfolded length_replicate] nz by (simp split del: if_split)
  moreover have "max_of (replicate n 0) = 0" by (induction n) (simp_all add: max_of_def)
  ultimately show ?thesis by (simp add: recorded_fields)
qed

end
