(* ===== verification/Bench_Probe.thy ===== *)
theory Bench_Probe
  imports Abix_Prelude Complex_Main
begin

text \<open>
  The decisions of the fairness probe (\<open>bench/rcu/advance_probe.cpp\<close>): the tallies of its writers, the verdict on
  a run, the result line a child process prints and its parent reads back, the sweep over writer counts and the
  command line. Timing, threads and the printing of tables are left out.

  A string is the characters before its terminator. The number scanners of the C library are definitions;
  conversions to \<open>int\<close> keep the low 32 bits. Percentiles are taken over the reals, the code uses doubles.

  Shown: reading back a printed result gives the run that was printed, for every run, and the line fits the
  buffer it is read into; a child started with a parent's options parses them back, but for the sampling interval; a writer's
  longest streak is the longest run of consecutive timeouts; the exit code is the worst verdict.
\<close>

section \<open>Numbers as text\<close>

definition digit_char :: "nat \<Rightarrow> char" where
  "digit_char d = char_of (48 + d)"

definition is_digit :: "char \<Rightarrow> bool" where
  "is_digit c \<longleftrightarrow> 48 \<le> (of_char c :: nat) \<and> (of_char c :: nat) \<le> 57"

definition is_space :: "char \<Rightarrow> bool" where
  "is_space c \<longleftrightarrow> (of_char c :: nat) = 32 \<or> 9 \<le> (of_char c :: nat) \<and> (of_char c :: nat) \<le> 13"

fun dec :: "nat \<Rightarrow> string" where
  "dec n = (if n < 10 then [digit_char n] else dec (n div 10) @ [digit_char (n mod 10)])"

declare dec.simps [simp del]

definition dec_int :: "32 word \<Rightarrow> string" where
  "dec_int w = (if sint w < 0 then CHR 0x2D # dec (nat (- sint w)) else dec (nat (sint w)))"

fun digits_val :: "string \<Rightarrow> nat \<Rightarrow> nat \<times> string" where
  "digits_val [] acc = (acc, [])"
| "digits_val (c # cs) acc =
     (if is_digit c then digits_val cs (acc * 10 + (of_char c - 48)) else (acc, c # cs))"

text \<open>White space, a sign, at least one digit: the sign, the magnitude and the rest, or \<open>None\<close>.\<close>

definition scan_number :: "string \<Rightarrow> (bool \<times> nat \<times> string) option" where
  "scan_number s =
     (let s = dropWhile is_space s;
          neg = (s \<noteq> [] \<and> hd s = CHR 0x2D);
          s = (if s \<noteq> [] \<and> (hd s = CHR 0x2D \<or> hd s = CHR 0x2B) then tl s else s)
      in if s \<noteq> [] \<and> is_digit (hd s) then (case digits_val s 0 of (v, rest) \<Rightarrow> Some (neg, v, rest)) else None)"

definition strtoull :: "string \<Rightarrow> u64" where
  "strtoull s =
     (case scan_number s of
        None \<Rightarrow> 0
      | Some (neg, v, _) \<Rightarrow> if v \<ge> 2 ^ 64 then - 1 else if neg then - of_nat v else of_nat v)"

text \<open>\<open>strtol\<close> with a 64-bit \<open>long\<close>: the value and where the conversion stopped, or \<open>None\<close> without one.\<close>

definition strtol :: "string \<Rightarrow> (int \<times> string) option" where
  "strtol s =
     map_option (\<lambda>(neg, v, rest).
       (if neg then max (- (2 ^ 63)) (- int v) else min (2 ^ 63 - 1) (int v), rest)) (scan_number s)"

definition atoi :: "string \<Rightarrow> 32 word" where
  "atoi s = (case strtol s of None \<Rightarrow> 0 | Some (v, _) \<Rightarrow> of_int v)"

section \<open>Tallies\<close>

record WriterReport =
  wr_ok :: u64
  wr_timeouts :: u64
  wr_max_streak :: u64
  wr_max_ns :: u64
  wr_failed :: bool

definition new_report :: WriterReport where
  "new_report = \<lparr>wr_ok = 0, wr_timeouts = 0, wr_max_streak = 0, wr_max_ns = 0, wr_failed = False\<rparr>"

text \<open>One iteration of a writer, over what its call reported and how long it took. The local \<open>streak\<close> is the
  second component.\<close>

definition tally :: "bool \<times> u64 \<Rightarrow> WriterReport \<times> u64 \<Rightarrow> WriterReport \<times> u64" where
  "tally outcome s =
     (case (outcome, s) of ((proven, elapsed), (rep, streak)) \<Rightarrow>
        if proven then
          (rep\<lparr>wr_ok := wr_ok rep + 1, wr_max_ns := (if elapsed > wr_max_ns rep then elapsed else wr_max_ns rep)\<rparr>, 0)
        else
          let streak = streak + 1
          in (rep\<lparr>wr_timeouts := wr_timeouts rep + 1,
                  wr_max_streak := (if streak > wr_max_streak rep then streak else wr_max_streak rep)\<rparr>, streak))"

definition raw_writer_loop :: "(bool \<times> u64) list \<Rightarrow> WriterReport" where
  "raw_writer_loop outcomes = fst (fold tally outcomes (new_report, 0))"

text \<open>A reload that fails ends the loop; one whose reclaim timed out counts as a timeout.\<close>

datatype reload_outcome = ro_failed | ro_deferred u64 | ro_done u64

fun reload_tally :: "reload_outcome list \<Rightarrow> WriterReport \<times> u64 \<Rightarrow> WriterReport" where
  "reload_tally [] s = fst s"
| "reload_tally (ro_failed # _) s = (fst s)\<lparr>wr_failed := True\<rparr>"
| "reload_tally (ro_deferred ns # os) s = reload_tally os (tally (False, ns) s)"
| "reload_tally (ro_done ns # os) s = reload_tally os (tally (True, ns) s)"

definition reload_writer_loop :: "bool \<Rightarrow> reload_outcome list \<Rightarrow> WriterReport" where
  "reload_writer_loop loaded os =
     (if \<not> loaded then new_report\<lparr>wr_failed := True\<rparr> else reload_tally os (new_report, 0))"

section \<open>A run and its verdict\<close>

record RunResult =
  rr_writers :: "32 word"
  rr_advance_timeouts :: u64
  rr_grace_period_timeouts :: u64
  rr_peak_backlog :: u64
  rr_total_ok :: u64
  rr_min_ok :: u64
  rr_max_ok :: u64
  rr_max_streak :: u64
  rr_worst_call_ns :: u64
  rr_drained :: bool
  rr_capped :: bool
  rr_any_failed :: bool
  rr_verdict :: "32 word"

definition new_result :: RunResult where
  "new_result = \<lparr>rr_writers = 0, rr_advance_timeouts = 0, rr_grace_period_timeouts = 0, rr_peak_backlog = 0,
     rr_total_ok = 0, rr_min_ok = 0, rr_max_ok = 0, rr_max_streak = 0, rr_worst_call_ns = 0, rr_drained = False,
     rr_capped = False, rr_any_failed = False, rr_verdict = 0\<rparr>"

definition add_report :: "WriterReport \<Rightarrow> RunResult \<Rightarrow> RunResult" where
  "add_report rep r = r\<lparr>rr_total_ok := rr_total_ok r + wr_ok rep,
     rr_min_ok := (if wr_ok rep < rr_min_ok r then wr_ok rep else rr_min_ok r),
     rr_max_ok := (if wr_ok rep > rr_max_ok r then wr_ok rep else rr_max_ok r),
     rr_max_streak := (if wr_max_streak rep > rr_max_streak r then wr_max_streak rep else rr_max_streak r),
     rr_worst_call_ns := (if wr_max_ns rep > rr_worst_call_ns r then wr_max_ns rep else rr_worst_call_ns r),
     rr_any_failed := rr_any_failed r \<or> wr_failed rep\<rparr>"

definition sum_reports :: "WriterReport list \<Rightarrow> RunResult \<Rightarrow> RunResult" where
  "sum_reports reports r =
     (let r = fold add_report reports (r\<lparr>rr_min_ok := - 1\<rparr>)
      in if rr_min_ok r = - 1 then r\<lparr>rr_min_ok := 0\<rparr> else r)"

definition run_verdict :: "32 word \<Rightarrow> RunResult \<Rightarrow> 32 word" where
  "run_verdict writers r =
     (let progressed = scast writers * (64 :: u64)
      in if \<not> rr_drained r then 2
         else if rr_any_failed r then 3
         else if rr_total_ok r \<ge> progressed \<and> rr_min_ok r = 0 then 1
         else 0)"

definition finish_run :: "32 word \<Rightarrow> WriterReport list \<Rightarrow> RunResult \<Rightarrow> RunResult" where
  "finish_run writers reports r =
     (let r = sum_reports reports r in r\<lparr>rr_verdict := run_verdict writers r\<rparr>)"

text \<open>The loop of \<open>worst_rc\<close>: \<open>Inl\<close> is the early return.\<close>

definition worst_step :: "32 word \<Rightarrow> 32 word \<Rightarrow> 32 word + 32 word" where
  "worst_step v rc =
     (if v = 3 then Inl 3
      else let rc = (if v = 2 \<and> rc <s 2 then 2 else rc) in Inr (if v = 1 \<and> rc <s 1 then 1 else rc))"

fun worst_rc_from :: "32 word \<Rightarrow> 32 word list \<Rightarrow> 32 word" where
  "worst_rc_from rc [] = rc"
| "worst_rc_from rc (v # vs) = (case worst_step v rc of Inl r \<Rightarrow> r | Inr rc \<Rightarrow> worst_rc_from rc vs)"

definition worst_rc :: "32 word list \<Rightarrow> 32 word" where
  "worst_rc verdicts = worst_rc_from 0 verdicts"

section \<open>The result line\<close>

definition bool_text :: "bool \<Rightarrow> string" where
  "bool_text b = (if b then ''1'' else ''0'')"

definition result_fields :: "RunResult \<Rightarrow> (string \<times> string) list" where
  "result_fields r =
     [(''writers'', dec_int (rr_writers r)), (''min_ok'', dec (unat (rr_min_ok r))),
      (''max_ok'', dec (unat (rr_max_ok r))), (''total_ok'', dec (unat (rr_total_ok r))),
      (''streak'', dec (unat (rr_max_streak r))), (''adv_to'', dec (unat (rr_advance_timeouts r))),
      (''grace_to'', dec (unat (rr_grace_period_timeouts r))), (''backlog'', dec (unat (rr_peak_backlog r))),
      (''drained'', bool_text (rr_drained r)), (''capped'', bool_text (rr_capped r)),
      (''verdict'', dec_int (rr_verdict r))]"

fun join_fields :: "(string \<times> string) list \<Rightarrow> string" where
  "join_fields [] = []"
| "join_fields [(k, v)] = k @ ''='' @ v"
| "join_fields ((k, v) # f # fs) = k @ ''='' @ v @ '' '' @ join_fields (f # fs)"

definition print_result_line :: "RunResult \<Rightarrow> string" where
  "print_result_line r = ''RESULT '' @ join_fields (result_fields r) @ [CHR 0x0A]"

text \<open>The loop over \<open>pos\<close>: the text from \<open>pos\<close> on is the argument.\<close>

function split_fields :: "string \<Rightarrow> (string \<times> string) list" where
  "split_fields s =
     (let s = dropWhile (\<lambda>c. c = CHR 0x20) s;
          rest = dropWhile (\<lambda>c. c \<noteq> CHR 0x3D) s
      in if rest = [] then []
         else (takeWhile (\<lambda>c. c \<noteq> CHR 0x3D) s, takeWhile (\<lambda>c. c \<noteq> CHR 0x20) (tl rest))
                # split_fields (tl (dropWhile (\<lambda>c. c \<noteq> CHR 0x20) (tl rest))))"
  by pat_completeness auto
termination
proof (relation "measure length")
  fix s t rest :: string
  assume "t = dropWhile (\<lambda>c. c = CHR 0x20) s" "rest = dropWhile (\<lambda>c. c \<noteq> CHR 0x3D) t" "rest \<noteq> []"
  then have "length rest \<le> length s" by (metis length_dropWhile_le order_trans)
  moreover have "length (tl (dropWhile (\<lambda>c. c \<noteq> CHR 0x20) (tl rest))) \<le> length (tl rest)"
    by (metis diff_le_self length_dropWhile_le length_tl order_trans)
  moreover have "length (tl rest) < length rest" using \<open>rest \<noteq> []\<close> by (cases rest) simp_all
  ultimately show "(tl (dropWhile (\<lambda>c. c \<noteq> CHR 0x20) (tl rest)), s) \<in> measure length" by simp
qed simp

declare split_fields.simps [simp del]

definition apply_field :: "string \<times> string \<Rightarrow> RunResult \<times> bool \<Rightarrow> RunResult \<times> bool" where
  "apply_field f s =
     (case (f, s) of ((key, val), (r, saw_min)) \<Rightarrow>
        let v = strtoull val in
        if key = ''writers'' then (r\<lparr>rr_writers := ucast v\<rparr>, saw_min)
        else if key = ''min_ok'' then (r\<lparr>rr_min_ok := v\<rparr>, True)
        else if key = ''max_ok'' then (r\<lparr>rr_max_ok := v\<rparr>, saw_min)
        else if key = ''total_ok'' then (r\<lparr>rr_total_ok := v\<rparr>, saw_min)
        else if key = ''streak'' then (r\<lparr>rr_max_streak := v\<rparr>, saw_min)
        else if key = ''adv_to'' then (r\<lparr>rr_advance_timeouts := v\<rparr>, saw_min)
        else if key = ''grace_to'' then (r\<lparr>rr_grace_period_timeouts := v\<rparr>, saw_min)
        else if key = ''backlog'' then (r\<lparr>rr_peak_backlog := v\<rparr>, saw_min)
        else if key = ''drained'' then (r\<lparr>rr_drained := v \<noteq> 0\<rparr>, saw_min)
        else if key = ''capped'' then (r\<lparr>rr_capped := v \<noteq> 0\<rparr>, saw_min)
        else if key = ''verdict'' then (r\<lparr>rr_verdict := ucast v\<rparr>, saw_min)
        else (r, saw_min))"

definition parse_result_line :: "string \<Rightarrow> RunResult \<Rightarrow> RunResult \<times> bool" where
  "parse_result_line text r = fold apply_field (split_fields text) (r, False)"

text \<open>\<open>fgets\<close> delivers at most \<open>n - 1\<close> characters, up to and with the next newline: the text cut into what the
  calls deliver until the end of the file.\<close>

definition fgets_len :: "nat \<Rightarrow> string \<Rightarrow> nat" where
  "fgets_len n s = min (n - 1) (Suc (length (takeWhile (\<lambda>c. c \<noteq> CHR 0x0A) s)))"

function fgets_all :: "nat \<Rightarrow> string \<Rightarrow> string list" where
  "fgets_all n s = (if s = [] \<or> n < 2 then [] else take (fgets_len n s) s # fgets_all n (drop (fgets_len n s) s))"
  by pat_completeness auto
termination by (relation "measure (\<lambda>(n, s). length s)") (auto simp: fgets_len_def)

declare fgets_all.simps [simp del]

fun read_child :: "string list \<Rightarrow> RunResult \<times> bool \<Rightarrow> RunResult \<times> bool" where
  "read_child [] s = s"
| "read_child (line # lines) (out, got) =
     read_child lines (if take 7 line = ''RESULT '' then parse_result_line (drop 7 line) out else (out, got))"

section \<open>Options\<close>

record Options =
  op_writers :: "32 word"
  op_readers :: "32 word"
  op_hold_us :: u64
  op_deadline_ms :: u64
  op_duration_ms :: u64
  op_sample_ms :: u64
  op_retire_per_call :: u64
  op_max_backlog :: u64
  op_repeat :: "32 word"
  op_reload :: bool
  op_sweep :: bool
  op_run_one :: bool
  op_sweep_list :: "32 word list"
  op_plugin :: string

definition new_options :: Options where
  "new_options = \<lparr>op_writers = 4, op_readers = 0, op_hold_us = 0, op_deadline_ms = 1, op_duration_ms = 2000,
     op_sample_ms = 200, op_retire_per_call = 1, op_max_backlog = 250000, op_repeat = 1, op_reload = False,
     op_sweep = False, op_run_one = False, op_sweep_list = [], op_plugin = ''reload_dll_a''\<rparr>"

lemma digits_val_rest: "length (snd (digits_val s a)) \<le> length s"
  by (induction s arbitrary: a) (auto intro: le_SucI)

lemma strtol_rest: "strtol s = Some (v, rest) \<Longrightarrow> length rest < length s"
proof -
  assume a: "strtol s = Some (v, rest)"
  define t where "t = dropWhile is_space s"
  define u where "u = (if t \<noteq> [] \<and> (hd t = CHR 0x2D \<or> hd t = CHR 0x2B) then tl t else t)"
  have u: "u \<noteq> []" "is_digit (hd u)" "rest = snd (digits_val u 0)"
    using a by (auto simp: strtol_def scan_number_def Let_def t_def[symmetric] u_def[symmetric] split: if_splits prod.splits)
  have "length u \<le> length s" unfolding u_def t_def using length_dropWhile_le[of is_space s] by auto
  moreover have "length rest < length u"
    using u by (cases u) (auto simp: le_imp_less_Suc digits_val_rest)
  ultimately show ?thesis by simp
qed

function parse_int_list :: "string \<Rightarrow> 32 word list" where
  "parse_int_list text =
     (if text = [] then []
      else case strtol text of
             None \<Rightarrow> []
           | Some (v, rest) \<Rightarrow>
               (if v > 0 then [of_int v] else [])
                 @ parse_int_list (dropWhile (\<lambda>c. c = CHR 0x2C \<or> c = CHR 0x20) rest))"
  by pat_completeness auto
termination
proof (relation "measure length")
  fix s v and x :: "int \<times> string" and n rest
  assume "strtol s = Some x" "(n, rest) = x"
  then show "(dropWhile (\<lambda>c. c = CHR 0x2C \<or> c = CHR 0x20) rest, s) \<in> measure length"
    using strtol_rest[of s n rest] length_dropWhile_le[of "\<lambda>c. c = CHR 0x2C \<or> c = CHR 0x20" rest]
    by (simp del: length_dropWhile_le)
qed simp

declare parse_int_list.simps [simp del]

text \<open>One turn of the loop over the arguments: the exit code, or the arguments left and the options. An optional
  value is taken when the next argument does not start with a dash.\<close>

definition takes_value :: "string list \<Rightarrow> bool" where
  "takes_value rest \<longleftrightarrow> rest \<noteq> [] \<and> (hd rest = [] \<or> hd (hd rest) \<noteq> CHR 0x2D)"

definition option_step :: "string \<Rightarrow> string list \<Rightarrow> Options \<Rightarrow> 32 word + string list \<times> Options" where
  "option_step a rest opt =
     (if a = ''--help'' then Inl 0
      else if a = ''--writers'' \<and> rest \<noteq> [] then Inr (tl rest, opt\<lparr>op_writers := atoi (hd rest)\<rparr>)
      else if a = ''--readers'' \<and> rest \<noteq> [] then Inr (tl rest, opt\<lparr>op_readers := atoi (hd rest)\<rparr>)
      else if a = ''--hold-us'' \<and> rest \<noteq> [] then Inr (tl rest, opt\<lparr>op_hold_us := strtoull (hd rest)\<rparr>)
      else if a = ''--deadline-ms'' \<and> rest \<noteq> [] then Inr (tl rest, opt\<lparr>op_deadline_ms := strtoull (hd rest)\<rparr>)
      else if a = ''--duration-ms'' \<and> rest \<noteq> [] then Inr (tl rest, opt\<lparr>op_duration_ms := strtoull (hd rest)\<rparr>)
      else if a = ''--sample-ms'' \<and> rest \<noteq> [] then Inr (tl rest, opt\<lparr>op_sample_ms := strtoull (hd rest)\<rparr>)
      else if a = ''--retire-per-call'' \<and> rest \<noteq> []
      then Inr (tl rest, opt\<lparr>op_retire_per_call := strtoull (hd rest)\<rparr>)
      else if a = ''--max-backlog'' \<and> rest \<noteq> [] then Inr (tl rest, opt\<lparr>op_max_backlog := strtoull (hd rest)\<rparr>)
      else if a = ''--repeat'' \<and> rest \<noteq> [] then Inr (tl rest, opt\<lparr>op_repeat := atoi (hd rest)\<rparr>)
      else if a = ''--sweep''
      then let opt = opt\<lparr>op_sweep := True\<rparr>
           in if takes_value rest then Inr (tl rest, opt\<lparr>op_sweep_list := parse_int_list (hd rest)\<rparr>) else Inr (rest, opt)
      else if a = ''--reload''
      then let opt = opt\<lparr>op_reload := True\<rparr>
           in if takes_value rest then Inr (tl rest, opt\<lparr>op_plugin := hd rest\<rparr>) else Inr (rest, opt)
      else if a = ''--run-one'' then Inr (rest, opt\<lparr>op_run_one := True\<rparr>)
      else Inl 64)"

lemma option_step_rest: "option_step a rest opt = Inr (rest', opt') \<Longrightarrow> length rest' \<le> length rest"
  by (auto simp: option_step_def Let_def split: if_splits)

function parse_options :: "string list \<Rightarrow> Options \<Rightarrow> 32 word + Options" where
  "parse_options [] opt = Inr opt"
| "parse_options (a # rest) opt =
     (case option_step a rest opt of Inl rc \<Rightarrow> Inl rc | Inr (rest', opt') \<Rightarrow> parse_options rest' opt')"
  by pat_completeness auto
termination
  by (relation "measure (\<lambda>(as, opt). length as)") (auto simp: le_imp_less_Suc dest!: option_step_rest)

definition check_options :: "bool \<Rightarrow> Options \<Rightarrow> 32 word + Options" where
  "check_options stats_enabled opt =
     (if op_writers opt \<le>s 0 then Inl 64
      else let opt = (if op_repeat opt \<le>s 0 then opt\<lparr>op_repeat := 1\<rparr> else opt);
               opt = (if op_sample_ms opt = 0 then opt\<lparr>op_sample_ms := 1\<rparr> else opt)
           in if op_reload opt \<and> op_deadline_ms opt = 0 then Inl 64
              else if \<not> stats_enabled then Inl 64
              else Inr opt)"

definition options_of :: "bool \<Rightarrow> string list \<Rightarrow> 32 word + Options" where
  "options_of stats_enabled args =
     (case parse_options args new_options of Inl rc \<Rightarrow> Inl rc | Inr opt \<Rightarrow> check_options stats_enabled opt)"

text \<open>The command of a child: the quoted program and these words, each after a blank.\<close>

definition child_words :: "Options \<Rightarrow> 32 word \<Rightarrow> string list" where
  "child_words opt writers =
     [''--run-one'', ''--writers'', dec_int writers, ''--readers'', dec_int (op_readers opt),
      ''--hold-us'', dec (unat (op_hold_us opt)), ''--deadline-ms'', dec (unat (op_deadline_ms opt)),
      ''--duration-ms'', dec (unat (op_duration_ms opt)),
      ''--retire-per-call'', dec (unat (op_retire_per_call opt)),
      ''--max-backlog'', dec (unat (op_max_backlog opt))]
     @ (if op_reload opt then [''--reload'', op_plugin opt] else [])"

definition child_command :: "string \<Rightarrow> Options \<Rightarrow> 32 word \<Rightarrow> string" where
  "child_command exe opt writers =
     [CHR 0x22] @ exe @ [CHR 0x22] @ concat (map (\<lambda>w. CHR 0x20 # w) (child_words opt writers))"

text \<open>\<open>popen\<close> is what the command prints, or \<open>None\<close>.\<close>

definition run_child :: "(string \<Rightarrow> string option) \<Rightarrow> string \<Rightarrow> Options \<Rightarrow> 32 word \<Rightarrow> RunResult \<Rightarrow> RunResult \<times> bool" where
  "run_child popen exe opt writers out =
     (case popen (child_command exe opt writers) of
        None \<Rightarrow> (out, False)
      | Some text \<Rightarrow>
          (case read_child (fgets_all 2048 text) (out, False) of (r, got) \<Rightarrow> (r\<lparr>rr_writers := writers\<rparr>, got)))"

section \<open>The program\<close>

text \<open>What a window delivers: the backlogs sampled while it is open, the counters at its end, whether the domain
  was drained and the tallies of the writers.\<close>

record Window =
  wi_backlogs :: "u64 list"
  wi_advance_timeouts :: u64
  wi_grace_period_timeouts :: u64
  wi_drained :: bool
  wi_reports :: "WriterReport list"

text \<open>The sampling loop: samples after the cap are not taken.\<close>

fun sample_loop :: "u64 \<Rightarrow> u64 list \<Rightarrow> RunResult \<Rightarrow> RunResult" where
  "sample_loop max_backlog [] r = r"
| "sample_loop max_backlog (b # bs) r =
     (let r = (if b > rr_peak_backlog r then r\<lparr>rr_peak_backlog := b\<rparr> else r)
      in if max_backlog \<noteq> 0 \<and> b \<ge> max_backlog then r\<lparr>rr_capped := True\<rparr> else sample_loop max_backlog bs r)"

definition run_once :: "Options \<Rightarrow> 32 word \<Rightarrow> Window \<Rightarrow> RunResult" where
  "run_once opt writers w =
     (let r = sample_loop (op_max_backlog opt) (wi_backlogs w) (new_result\<lparr>rr_writers := writers\<rparr>);
          r = r\<lparr>rr_advance_timeouts := wi_advance_timeouts w, rr_grace_period_timeouts := wi_grace_period_timeouts w,
                rr_drained := wi_drained w\<rparr>
      in finish_run writers (wi_reports w) r)"

text \<open>The levels of the default sweep. Doubling an \<open>int\<close> past its range is undefined; fuel bounds the loop.\<close>

fun sweep_levels :: "nat \<Rightarrow> 32 word \<Rightarrow> 32 word \<Rightarrow> 32 word list option" where
  "sweep_levels 0 cap w = None"
| "sweep_levels (Suc n) cap w =
     (if w <s cap then map_option (Cons w) (sweep_levels n cap (push_bit 1 w)) else Some [w])"

definition default_sweep_list :: "u32 \<Rightarrow> 32 word list option" where
  "default_sweep_list hw = sweep_levels 32 (if hw \<noteq> 0 then hw else 8) 1"

definition levels_of :: "Options \<Rightarrow> u32 \<Rightarrow> 32 word list option" where
  "levels_of opt hw =
     (if op_sweep opt then (if op_sweep_list opt = [] then default_sweep_list hw else Some (op_sweep_list opt))
      else Some [op_writers opt])"

text \<open>The repetitions of one level: the exit code or the runs. \<open>popen k\<close> is the \<open>k\<close>-th process started.\<close>

fun run_reps :: "(nat \<Rightarrow> string \<Rightarrow> string option) \<Rightarrow> string \<Rightarrow> Options \<Rightarrow> 32 word \<Rightarrow> nat \<Rightarrow> nat \<Rightarrow> 32 word + RunResult list" where
  "run_reps popen exe opt w k 0 = Inr []"
| "run_reps popen exe opt w k (Suc n) =
     (case run_child (popen k) exe opt w new_result of (r, got) \<Rightarrow>
        if \<not> got then Inl 64
        else case run_reps popen exe opt w (Suc k) n of Inl rc \<Rightarrow> Inl rc | Inr rs \<Rightarrow> Inr (r # rs))"

fun run_levels :: "(nat \<Rightarrow> string \<Rightarrow> string option) \<Rightarrow> string \<Rightarrow> Options \<Rightarrow> 32 word list \<Rightarrow> nat \<Rightarrow> 32 word + RunResult list list" where
  "run_levels popen exe opt [] k = Inr []"
| "run_levels popen exe opt (w # ws) k =
     (let n = nat (sint (op_repeat opt))
      in case run_reps popen exe opt w k n of
           Inl rc \<Rightarrow> Inl rc
         | Inr runs \<Rightarrow> (case run_levels popen exe opt ws (k + n) of Inl rc \<Rightarrow> Inl rc | Inr per \<Rightarrow> Inr (runs # per)))"

text \<open>\<open>main\<close>: the exit code and the result line, empty where none is printed.\<close>

definition probe_main :: "bool \<Rightarrow> u32 \<Rightarrow> (nat \<Rightarrow> string \<Rightarrow> string option) \<Rightarrow> Window \<Rightarrow> string \<Rightarrow> string list \<Rightarrow> (32 word \<times> string) option" where
  "probe_main stats_enabled hw popen window exe args =
     (case options_of stats_enabled args of
        Inl rc \<Rightarrow> Some (rc, [])
      | Inr opt \<Rightarrow>
          if op_run_one opt
          then let r = run_once opt (op_writers opt) window in Some (rr_verdict r, print_result_line r)
          else if \<not> (op_sweep opt \<or> 1 <s op_repeat opt)
          then Some (rr_verdict (run_once opt (op_writers opt) window), [])
          else case levels_of opt hw of
                 None \<Rightarrow> None
               | Some levels \<Rightarrow>
                   (case run_levels popen exe opt levels 0 of
                      Inl rc \<Rightarrow> Some (rc, [])
                    | Inr per_level \<Rightarrow> Some (worst_rc (map rr_verdict (concat per_level)), [])))"

section \<open>Reading back what was printed\<close>

lemma of_char_digit: "d < 10 \<Longrightarrow> (of_char (digit_char d) :: nat) = 48 + d"
  by (simp add: digit_char_def)

lemma is_digit_char: "d < 10 \<Longrightarrow> is_digit (digit_char d)"
  by (simp add: is_digit_def of_char_digit)

lemma dec_digits: "c \<in> set (dec n) \<Longrightarrow> is_digit c"
proof (induction n rule: dec.induct)
  case (1 n)
  then show ?case by (cases "n < 10") (auto simp: dec.simps[of n] is_digit_char)
qed

lemma dec_nonempty: "dec n \<noteq> []"
  by (simp add: dec.simps[of n])

lemma digits_val_append: "\<lbrakk>\<And>c. c \<in> set ds \<Longrightarrow> is_digit c\<rbrakk> \<Longrightarrow> digits_val (ds @ s) a = digits_val s (fst (digits_val ds a))"
  by (induction ds arbitrary: a) simp_all

lemma digits_val_dec: "fst (digits_val (dec n) a) = a * 10 ^ length (dec n) + n"
proof (induction n arbitrary: a rule: dec.induct)
  case (1 n)
  show ?case
  proof (cases "n < 10")
    case True
    then show ?thesis by (simp add: dec.simps[of n] is_digit_char of_char_digit)
  next
    case False
    have "fst (digits_val (dec n) a) = fst (digits_val [digit_char (n mod 10)] (fst (digits_val (dec (n div 10)) a)))"
      using False by (simp add: dec.simps[of n] digits_val_append dec_digits)
    also have "... = (a * 10 ^ length (dec (n div 10)) + n div 10) * 10 + n mod 10"
      using 1[OF False] by (simp add: is_digit_char of_char_digit)
    also have "... = a * 10 ^ length (dec n) + n"
      using False by (simp add: dec.simps[of n] algebra_simps)
    finally show ?thesis .
  qed
qed

lemma scan_number_dec:
  assumes "s = [] \<or> \<not> is_digit (hd s)"
  shows "scan_number (dec n @ s) = Some (False, n, s)" "scan_number (CHR 0x2D # dec n @ s) = Some (True, n, s)"
proof -
  obtain c cs where d: "dec n = c # cs" using dec_nonempty by (cases "dec n") auto
  have c: "is_digit c" using dec_digits[of c n] d by simp
  then have n: "\<not> is_space c" "c \<noteq> CHR 0x2D" "c \<noteq> CHR 0x2B" by (auto simp: is_digit_def is_space_def)
  have s: "digits_val s m = (m, s)" for m using assms by (cases s) auto
  have v: "digits_val (dec n @ s) 0 = (n, s)"
    using digits_val_append[of "dec n" s 0] dec_digits digits_val_dec[of n 0] by (auto simp: s)
  show "scan_number (dec n @ s) = Some (False, n, s)" using v c n by (simp add: scan_number_def d Let_def)
  show "scan_number (CHR 0x2D # dec n @ s) = Some (True, n, s)"
    using v c n by (simp add: scan_number_def d Let_def is_space_def)
qed

lemma strtoull_dec:
  assumes "s = [] \<or> \<not> is_digit (hd s)"
  shows "strtoull (dec (unat (w :: u64)) @ s) = w"
proof -
  have "unat w < 2 ^ LENGTH(64)" by (rule unsigned_less)
  moreover have "(2 :: nat) ^ LENGTH(64) = 18446744073709551616" by simp
  ultimately have "\<not> 18446744073709551616 \<le> unat w" by linarith
  then show ?thesis by (simp add: strtoull_def scan_number_dec(1)[OF assms])
qed

lemma strtoull_dec_int:
  assumes "s = [] \<or> \<not> is_digit (hd s)"
  shows "(ucast (strtoull (dec_int w @ s)) :: 32 word) = w"
proof -
  have r: "- (2 ^ 31) \<le> sint w" "sint w < 2 ^ 31" using sint_range_size[of w] by (simp_all add: size_word_def)
  have u: "(ucast (of_int k :: u64) :: 32 word) = of_int k" for k
    by (rule bit_word_eqI) (simp add: bit_unsigned_iff bit_of_int_iff)
  show ?thesis
  proof (cases "sint w < 0")
    case True
    then have "\<not> 18446744073709551616 \<le> nat (- sint w)" "\<not> 18446744073709551616 \<le> nat (sint w)" using r by (simp_all add: not_le nat_less_iff)
    then have "strtoull (dec_int w @ s) = of_int (sint w)"
      using r True by (simp add: strtoull_def dec_int_def scan_number_dec[OF assms])
    then show ?thesis using u[of "sint w"] by simp
  next
    case False
    then have "\<not> 18446744073709551616 \<le> nat (- sint w)" "\<not> 18446744073709551616 \<le> nat (sint w)" using r by (simp_all add: not_le nat_less_iff)
    then have "strtoull (dec_int w @ s) = of_int (sint w)"
      using r False by (simp add: strtoull_def dec_int_def scan_number_dec[OF assms])
    then show ?thesis using u[of "sint w"] by simp
  qed
qed

definition plain_pair :: "string \<times> string \<Rightarrow> bool" where
  "plain_pair f \<longleftrightarrow> fst f \<noteq> [] \<and> hd (fst f) \<noteq> CHR 0x20 \<and> CHR 0x3D \<notin> set (fst f) \<and> CHR 0x20 \<notin> set (snd f)"

lemma split_field:
  assumes "plain_pair (k, v)"
  shows "split_fields (k @ ''='' @ v) = [(k, v)]"
    and "split_fields (k @ ''='' @ v @ '' '' @ s) = (k, v) # split_fields s"
proof -
  have e: "split_fields [] = []" by (simp add: split_fields.simps)
  have b: "dropWhile (\<lambda>c. c = CHR 0x20) (k @ t) = k @ t" for t using assms by (cases k) (auto simp: plain_pair_def)
  have t: "takeWhile (\<lambda>c. c \<noteq> CHR 0x3D) (k @ CHR 0x3D # t) = k" "dropWhile (\<lambda>c. c \<noteq> CHR 0x3D) (k @ CHR 0x3D # t) = CHR 0x3D # t" for t
    using assms by (auto simp: plain_pair_def takeWhile_append dropWhile_append)
  have v: "takeWhile (\<lambda>c. c \<noteq> CHR 0x20) v = v" "dropWhile (\<lambda>c. c \<noteq> CHR 0x20) v = []"
    "takeWhile (\<lambda>c. c \<noteq> CHR 0x20) (v @ CHR 0x20 # t) = v" "dropWhile (\<lambda>c. c \<noteq> CHR 0x20) (v @ CHR 0x20 # t) = CHR 0x20 # t" for t
    using assms by (auto simp: plain_pair_def takeWhile_append dropWhile_append takeWhile_eq_all_conv)
  show "split_fields (k @ ''='' @ v) = [(k, v)]"
    by (subst split_fields.simps) (simp add: Let_def b t v e)
  show "split_fields (k @ ''='' @ v @ '' '' @ s) = (k, v) # split_fields s"
    by (subst split_fields.simps) (simp add: Let_def b t v)
qed

lemma split_join: "list_all plain_pair fs \<Longrightarrow> fs \<noteq> [] \<Longrightarrow> split_fields (join_fields fs) = fs"
proof (induction fs rule: join_fields.induct)
  case (2 k v)
  then show ?case by (simp add: split_field(1)[simplified])
next
  case (3 k v f fs)
  then show ?case by (simp add: split_field(2)[simplified])
qed simp

lemma join_fields_last: "join_fields (fs @ [(k, v)]) @ t = join_fields (fs @ [(k, v @ t)])"
  by (induction fs rule: join_fields.induct) simp_all

lemma dec_no_space: "CHR 0x20 \<notin> set (dec n)" "CHR 0x20 \<notin> set (dec_int w)" "CHR 0x20 \<notin> set (bool_text b)"
  using dec_digits[of "CHR 0x20"] by (auto simp: dec_int_def is_digit_def bool_text_def)

text \<open>What the line carries.\<close>

definition printed_fields :: "RunResult \<Rightarrow> RunResult \<Rightarrow> RunResult" where
  "printed_fields r r0 = r\<lparr>rr_worst_call_ns := rr_worst_call_ns r0, rr_any_failed := rr_any_failed r0\<rparr>"

lemma strtoull_bool: "strtoull (bool_text b) = (if b then 1 else 0)"
  by (cases b) (simp_all add: bool_text_def strtoull_def scan_number_def is_digit_def is_space_def)

lemma parse_printed: "parse_result_line (drop 7 (print_result_line r)) r0 = (printed_fields r r0, True)"
proof -
  let ?fs = "take 10 (result_fields r)" and ?v = "dec_int (rr_verdict r) @ [CHR 0x0A]"
  have f: "result_fields r = ?fs @ [(''verdict'', dec_int (rr_verdict r))]" by (simp add: result_fields_def)
  have p: "list_all plain_pair (?fs @ [(''verdict'', ?v)])"
    by (simp add: result_fields_def plain_pair_def dec_no_space)
  have "drop 7 (print_result_line r) = join_fields (?fs @ [(''verdict'', ?v)])"
    unfolding print_result_line_def by (subst f) (simp only: join_fields_last; simp)
  then have "split_fields (drop 7 (print_result_line r)) = ?fs @ [(''verdict'', ?v)]"
    using split_join[OF p] by simp
  then show ?thesis
    using strtoull_dec[of "[]"] strtoull_dec_int[of "[]"] strtoull_dec_int[of "[CHR 0x0A]"]
    by (simp add: parse_result_line_def result_fields_def apply_field_def strtoull_bool is_digit_def
        printed_fields_def new_result_def)
qed

lemma fgets_line:
  assumes "CHR 0x0A \<notin> set l" "length l + 1 < n"
  shows "fgets_all n (l @ CHR 0x0A # rest) = (l @ [CHR 0x0A]) # fgets_all n rest"
proof -
  have t: "takeWhile (\<lambda>c. c \<noteq> CHR 0x0A) (l @ CHR 0x0A # rest) = l"
    using assms(1) by (simp add: takeWhile_append takeWhile_eq_all_conv)
  have "fgets_len n (l @ CHR 0x0A # rest) = Suc (length l)" using assms(2) unfolding fgets_len_def t by simp
  then show ?thesis using assms(2) by (subst fgets_all.simps) simp
qed

lemma dec_length: "n < 10 ^ k \<Longrightarrow> 0 < k \<Longrightarrow> length (dec n) \<le> k"
proof (induction k arbitrary: n)
  case (Suc k)
  show ?case
  proof (cases "n < 10")
    case True
    then show ?thesis by (simp add: dec.simps[of n])
  next
    case False
    then have "0 < k" using Suc.prems(1) by (cases k) auto
    moreover have "n div 10 < 10 ^ k" using Suc.prems(1) by (simp add: less_mult_imp_div_less mult.commute)
    ultimately show ?thesis using Suc.IH[of "n div 10"] False by (simp add: dec.simps[of n])
  qed
qed simp

lemma dec_u64_length: "length (dec (unat (w :: u64))) \<le> 20"
proof (rule dec_length)
  have "unat w < 2 ^ LENGTH(64)" by (rule unsigned_less)
  moreover have "(2 :: nat) ^ LENGTH(64) \<le> 10 ^ 20" by simp
  ultimately show "unat w < 10 ^ 20" by linarith
qed simp

lemma dec_int_length: "length (dec_int w) \<le> 11"
proof -
  have "- (2 ^ 31) \<le> sint w" "sint w < 2 ^ 31" using sint_range_size[of w] by (simp_all add: size_word_def)
  then have "nat (- sint w) < 10 ^ 10" "nat (sint w) < 10 ^ 10" by (simp_all add: nat_less_iff)
  then have "length (dec (nat (- sint w))) \<le> 10" "length (dec (nat (sint w))) \<le> 10"
    by (intro dec_length; simp)+
  then show ?thesis by (simp add: dec_int_def)
qed

lemma dec_no_newline: "CHR 0x0A \<notin> set (dec n)" "CHR 0x0A \<notin> set (dec_int w)" "CHR 0x0A \<notin> set (bool_text b)"
  using dec_digits[of "CHR 0x0A"] by (auto simp: dec_int_def is_digit_def bool_text_def)

lemma result_line_fits:
  obtains l where "print_result_line r = l @ [CHR 0x0A]" "CHR 0x0A \<notin> set l" "length l + 1 < 2048" "take 7 (l @ [CHR 0x0A]) = ''RESULT ''"
proof
  let ?l = "''RESULT '' @ join_fields (result_fields r)"
  show "print_result_line r = ?l @ [CHR 0x0A]" by (simp add: print_result_line_def)
  show "CHR 0x0A \<notin> set ?l" by (simp add: result_fields_def dec_no_newline)
  have b: "length (bool_text b) = 1" for b by (simp add: bool_text_def)
  show "length ?l + 1 < 2048"
    using dec_u64_length[of "rr_min_ok r"] dec_u64_length[of "rr_max_ok r"] dec_u64_length[of "rr_total_ok r"]
      dec_u64_length[of "rr_max_streak r"] dec_u64_length[of "rr_advance_timeouts r"]
      dec_u64_length[of "rr_grace_period_timeouts r"] dec_u64_length[of "rr_peak_backlog r"]
      dec_int_length[of "rr_writers r"] dec_int_length[of "rr_verdict r"]
    by (simp add: result_fields_def b)
  show "take 7 (?l @ [CHR 0x0A]) = ''RESULT ''" by simp
qed

text \<open>What a child prints before its result: lines that fit the buffer and do not look like one.\<close>

definition log_line :: "string \<Rightarrow> bool" where
  "log_line l \<longleftrightarrow> CHR 0x0A \<notin> set l \<and> length l + 1 < 2048 \<and> take 7 (l @ [CHR 0x0A]) \<noteq> ''RESULT ''"

definition text_of :: "string list \<Rightarrow> string" where
  "text_of ls = concat (map (\<lambda>l. l @ [CHR 0x0A]) ls)"

lemma read_log: "list_all log_line ls \<Longrightarrow> read_child (fgets_all 2048 (text_of ls @ t)) s = read_child (fgets_all 2048 t) s"
proof (induction ls)
  case (Cons l ls)
  then show ?case
    using fgets_line[of l 2048 "text_of ls @ t"] by (cases s) (simp add: text_of_def log_line_def)
qed (simp add: text_of_def)

lemma run_child_reads:
  assumes "popen (child_command exe opt w) = Some (text_of ls @ print_result_line r)" "list_all log_line ls"
    and "rr_writers r = w"
  shows "run_child popen exe opt w r0 = (printed_fields r r0, True)"
proof -
  obtain l where l: "print_result_line r = l @ [CHR 0x0A]" "CHR 0x0A \<notin> set l" "length l + 1 < 2048"
    "take 7 (l @ [CHR 0x0A]) = ''RESULT ''"
    by (rule result_line_fits)
  have "fgets_all 2048 (print_result_line r) = [print_result_line r]"
    using fgets_line[OF l(2,3), of "[]"] by (simp add: l(1) fgets_all.simps[of _ "[]"])
  then have "read_child (fgets_all 2048 (text_of ls @ print_result_line r)) (r0, False) = (printed_fields r r0, True)"
    using l(4) parse_printed[of r r0] by (simp add: read_log[OF assms(2)] l(1))
  then show ?thesis using assms(1,3) by (simp add: run_child_def printed_fields_def)
qed

section \<open>A child has the options of its parent\<close>

lemma atoi_dec_int: "atoi (dec_int w) = w"
proof -
  have r: "- (2 ^ 31) \<le> sint w" "sint w < 2 ^ 31" using sint_range_size[of w] by (simp_all add: size_word_def)
  have "scan_number (dec_int w) = Some (sint w < 0, nat \<bar>sint w\<bar>, [])"
    using scan_number_dec[of "[]"] by (simp add: dec_int_def)
  then have "atoi (dec_int w) = of_int (sint w)" using r by (simp add: atoi_def strtol_def)
  then show ?thesis by simp
qed

definition child_options :: "Options \<Rightarrow> 32 word \<Rightarrow> Options" where
  "child_options opt w = opt\<lparr>op_writers := w, op_sample_ms := 200, op_repeat := 1, op_sweep := False,
     op_run_one := True, op_sweep_list := [], op_plugin := (if op_reload opt then op_plugin opt else ''reload_dll_a'')\<rparr>"

definition dashed :: "string \<Rightarrow> bool" where
  "dashed s \<longleftrightarrow> s \<noteq> [] \<and> hd s = CHR 0x2D"

lemma child_words_parse:
  assumes "\<not> dashed (op_plugin opt)" "0 <s w" "\<not> (op_reload opt \<and> op_deadline_ms opt = 0)"
  shows "options_of True (child_words opt w) = Inr (child_options opt w)"
proof -
  have n: "strtoull (dec (unat (u :: u64))) = u" for u using strtoull_dec[of "[]" u] by simp
  have p: "parse_options (child_words opt w) new_options = Inr (child_options opt w)"
    using assms(1)
    by (simp add: child_words_def option_step_def takes_value_def dashed_def child_options_def new_options_def n
        atoi_dec_int Let_def)
  have "\<not> w \<le>s 0" using assms(2) by (simp add: signed.not_le)
  then show ?thesis using p assms(3) by (simp add: options_of_def check_options_def child_options_def Let_def)
qed

lemma option_step_plugin:
  "option_step a rest opt = Inr (rest', opt') \<Longrightarrow> op_plugin opt' = op_plugin opt \<or> takes_value rest \<and> op_plugin opt' = hd rest"
  by (auto simp: option_step_def Let_def split: if_splits)

lemma parsed_plugin:
  "parse_options as opt = Inr opt' \<Longrightarrow> \<not> dashed (op_plugin opt) \<Longrightarrow> \<not> dashed (op_plugin opt')"
proof (induction as opt rule: parse_options.induct)
  case (2 a rest opt)
  obtain rest1 opt1 where o: "option_step a rest opt = Inr (rest1, opt1)" "parse_options rest1 opt1 = Inr opt'"
    using 2(2) by (auto split: sum.splits)
  have "\<not> dashed (op_plugin opt1)"
    using option_step_plugin[OF o(1)] 2(3) by (metis dashed_def takes_value_def)
  then show ?case using 2(1)[OF o(1) refl o(2)] by simp
qed simp

lemma options_of_valid:
  assumes "options_of True args = Inr opt"
  shows "\<not> dashed (op_plugin opt)" "0 <s op_repeat opt" "0 <s op_writers opt" "\<not> (op_reload opt \<and> op_deadline_ms opt = 0)"
proof -
  obtain p where p: "parse_options args new_options = Inr p" "check_options True p = Inr opt"
    using assms by (auto simp: options_of_def split: sum.splits)
  have "\<not> dashed (op_plugin p)" using parsed_plugin[OF p(1)] by (simp add: new_options_def dashed_def)
  moreover have "op_plugin opt = op_plugin p" using p(2) by (auto simp: check_options_def Let_def split: if_splits)
  ultimately show "\<not> dashed (op_plugin opt)" by simp
  show "0 <s op_writers opt" "\<not> (op_reload opt \<and> op_deadline_ms opt = 0)"
    using p(2) by (auto simp: check_options_def Let_def signed.not_le split: if_splits)
  have "(0 :: 32 word) <s 1" by (simp add: word_sless_alt)
  then show "0 <s op_repeat opt"
    using p(2) by (auto simp: check_options_def Let_def signed.not_le split: if_splits)
qed

section \<open>The exit code\<close>

lemma worst_rc_from_eq:
  "rc \<in> {0, 1, 2} \<Longrightarrow>
   worst_rc_from rc vs = (if 3 \<in> set vs then 3 else if rc = 2 \<or> 2 \<in> set vs then 2 else if rc = 1 \<or> 1 \<in> set vs then 1 else 0)"
proof (induction vs arbitrary: rc)
  case (Cons v vs)
  show ?case
  proof (cases "v = 3")
    case False
    let ?n = "if v = 2 \<or> rc = 2 then 2 else if v = 1 \<or> rc = 1 then 1 else (0 :: 32 word)"
    have "worst_step v rc = Inr ?n"
      using False Cons.prems by (auto simp: worst_step_def Let_def word_sless_alt)
    moreover have "?n \<in> {0, 1, 2}" by simp
    ultimately show ?thesis using Cons.IH[of ?n] False by auto
  qed (simp add: worst_step_def)
qed auto

lemma worst_rc_eq: "worst_rc vs = (if 3 \<in> set vs then 3 else if 2 \<in> set vs then 2 else if 1 \<in> set vs then 1 else 0)"
  using worst_rc_from_eq[of 0 vs] by (simp add: worst_rc_def)

lemma sample_loop_writers: "rr_writers (sample_loop m bs r) = rr_writers r"
  by (induction m bs r rule: sample_loop.induct) (simp_all add: Let_def)

lemma fold_add_writers: "rr_writers (fold add_report reps r) = rr_writers r"
  by (induction reps arbitrary: r) (simp_all add: add_report_def)

lemma run_once_writers: "rr_writers (run_once opt w wi) = w"
  by (simp add: run_once_def finish_run_def sum_reports_def Let_def fold_add_writers sample_loop_writers new_result_def)

lemma run_once_child: "run_once (child_options opt w) w' wi = run_once opt w' wi"
  by (simp add: run_once_def child_options_def)

definition verdict_at :: "Options \<Rightarrow> (nat \<Rightarrow> Window) \<Rightarrow> 32 word \<Rightarrow> nat \<Rightarrow> 32 word" where
  "verdict_at opt window w k = rr_verdict (run_once opt w (window k))"

definition reps_of :: "Options \<Rightarrow> nat" where
  "reps_of opt = nat (sint (op_repeat opt))"

text \<open>The verdicts of all windows, the \<open>k\<close>-th process running the \<open>k\<close>-th.\<close>

definition all_verdicts :: "Options \<Rightarrow> (nat \<Rightarrow> Window) \<Rightarrow> 32 word list \<Rightarrow> 32 word list" where
  "all_verdicts opt window levels =
     concat (map (\<lambda>i. map (\<lambda>j. verdict_at opt window (levels ! i) (i * reps_of opt + j)) [0..<reps_of opt]) [0..<length levels])"

lemma run_reps_reads:
  assumes "\<And>k. run_child (popen k) exe opt w new_result = (printed_fields (run_once opt w (window k)) new_result, True)"
  shows "\<exists>rs. run_reps popen exe opt w k n = Inr rs \<and> map rr_verdict rs = map (\<lambda>j. verdict_at opt window w (k + j)) [0..<n]"
proof (induction n arbitrary: k)
  case (Suc n)
  obtain rs where "run_reps popen exe opt w (Suc k) n = Inr rs"
    "map rr_verdict rs = map (\<lambda>j. verdict_at opt window w (Suc k + j)) [0..<n]"
    using Suc.IH[of "Suc k"] by blast
  moreover have "map (\<lambda>j. verdict_at opt window w (k + j)) [0..<Suc n]
      = verdict_at opt window w k # map (\<lambda>j. verdict_at opt window w (Suc k + j)) [0..<n]"
    by (simp add: upt_conv_Cons map_Suc_upt[symmetric] comp_def del: upt_Suc)
  ultimately show ?case by (simp add: assms verdict_at_def printed_fields_def)
qed simp

lemma run_levels_reads:
  assumes "\<And>k w. w \<in> set levels \<Longrightarrow>
    run_child (popen k) exe opt w new_result = (printed_fields (run_once opt w (window k)) new_result, True)"
  shows "\<exists>per. run_levels popen exe opt levels k = Inr per \<and>
    map rr_verdict (concat per)
      = concat (map (\<lambda>i. map (\<lambda>j. verdict_at opt window (levels ! i) (k + (i * reps_of opt + j))) [0..<reps_of opt]) [0..<length levels])"
  using assms
proof (induction levels arbitrary: k)
  case (Cons w ws)
  let ?n = "reps_of opt"
  obtain rs where rs: "run_reps popen exe opt w k ?n = Inr rs"
    "map rr_verdict rs = map (\<lambda>j. verdict_at opt window w (k + j)) [0..<?n]"
    using run_reps_reads[of popen exe opt w window k ?n] Cons.prems by auto
  obtain per where per: "run_levels popen exe opt ws (k + ?n) = Inr per"
    "map rr_verdict (concat per)
      = concat (map (\<lambda>i. map (\<lambda>j. verdict_at opt window (ws ! i) (k + ?n + (i * ?n + j))) [0..<?n]) [0..<length ws])"
    using Cons.IH[of "k + ?n"] Cons.prems by auto
  have "concat (map (\<lambda>i. map (\<lambda>j. verdict_at opt window ((w # ws) ! i) (k + (i * ?n + j))) [0..<?n]) [0..<Suc (length ws)])
    = map (\<lambda>j. verdict_at opt window w (k + j)) [0..<?n]
      @ concat (map (\<lambda>i. map (\<lambda>j. verdict_at opt window (ws ! i) (k + ?n + (i * ?n + j))) [0..<?n]) [0..<length ws])"
    by (simp add: upt_conv_Cons map_Suc_upt[symmetric] comp_def ac_simps del: upt_Suc)
  then show ?case using rs per by (simp add: Let_def reps_of_def del: upt_Suc)
qed simp

lemma child_prints:
  assumes "\<not> dashed (op_plugin opt)" "0 <s w" "\<not> (op_reload opt \<and> op_deadline_ms opt = 0)"
  shows "probe_main True hw popen wi exe (child_words opt w)
    = Some (rr_verdict (run_once opt w wi), print_result_line (run_once opt w wi))"
proof -
  have "op_run_one (child_options opt w)" "op_writers (child_options opt w) = w" by (simp_all add: child_options_def)
  then show ?thesis by (simp add: probe_main_def child_words_parse[OF assms] run_once_child Let_def)
qed

text \<open>Words that a shell passes on as they are.\<close>

definition plain_char :: "char \<Rightarrow> bool" where
  "plain_char c \<longleftrightarrow> is_digit c \<or> 65 \<le> (of_char c :: nat) \<and> (of_char c :: nat) \<le> 90
     \<or> 97 \<le> (of_char c :: nat) \<and> (of_char c :: nat) \<le> 122 \<or> c \<in> set ''-_./''"

definition plain_word :: "string \<Rightarrow> bool" where
  "plain_word w \<longleftrightarrow> w \<noteq> [] \<and> list_all plain_char w"

lemma plain_dec: "plain_word (dec n)" "plain_word (dec_int w)"
proof -
  have "list_all plain_char (dec m)" for m using dec_digits[of _ m] by (auto simp: list_all_iff plain_char_def)
  then show "plain_word (dec n)" "plain_word (dec_int w)"
    using dec_nonempty by (auto simp: plain_word_def dec_int_def plain_char_def)
qed

lemma plain_child_words: "(op_reload opt \<Longrightarrow> plain_word (op_plugin opt)) \<Longrightarrow> list_all plain_word (child_words opt w)"
  by (simp add: child_words_def plain_dec) (simp add: plain_word_def plain_char_def)

text \<open>C32.  The parent's exit code is the worst of what its windows showed. Let the arguments ask for several runs, and
  let a plugin that is reloaded have a name of plain characters. Let \<open>shell\<close> be how the shell behind \<open>popen\<close> splits a
  command: a quoted program and plain words after it are that program and those words. Let every process the parent
  starts with the command of a level be this program with the words the shell makes of that command, printing any log
  lines before its result. Then the parent returns 3 if the reload of some window failed, otherwise 2 if some window was
  not drained, otherwise 1 if in some window a writer starved, otherwise 0: every result line was read back as printed
  and none was lost. Each child parses its command to the options of the parent with the writer count of its level, one
  run and no sweep; only the sampling interval is the default of 200 ms, whatever the parent was given.\<close>

theorem parent_reports_worst_window:
  assumes "options_of True args = Inr opt" "\<not> op_run_one opt" "op_sweep opt \<or> 1 <s op_repeat opt"
    and "levels_of opt hw = Some levels" "\<And>w. w \<in> set levels \<Longrightarrow> 0 <s w"
    and "op_reload opt \<Longrightarrow> plain_word (op_plugin opt)"
    and shell: "\<And>ws. list_all plain_word ws \<Longrightarrow>
      shell ([CHR 0x22] @ exe @ [CHR 0x22] @ concat (map (\<lambda>w. CHR 0x20 # w) ws)) = exe # ws"
    and child: "\<And>k w. w \<in> set levels \<Longrightarrow> popen k (child_command exe opt w)
      = Some (text_of (log_of k) @ snd (the (probe_main True hw popen (window k) exe (tl (shell (child_command exe opt w))))))"
    and "\<And>k. list_all log_line (log_of k)"
  shows "probe_main True hw popen wi exe args
    = Some (let vs = all_verdicts opt window levels
            in if 3 \<in> set vs then 3 else if 2 \<in> set vs then 2 else if 1 \<in> set vs then 1 else 0, [])
    \<and> (\<forall>w \<in> set levels. options_of True (tl (shell (child_command exe opt w)))
         = Inr (opt\<lparr>op_writers := w, op_run_one := True, op_repeat := 1, op_sweep := False, op_sweep_list := [],
                  op_sample_ms := 200, op_plugin := (if op_reload opt then op_plugin opt else ''reload_dll_a'')\<rparr>))"
proof -
  note valid = options_of_valid[OF assms(1)]
  have ws: "tl (shell (child_command exe opt w)) = child_words opt w" for w
    using shell[of "child_words opt w"] plain_child_words[OF assms(6)] by (simp add: child_command_def)
  have parsed: "options_of True (child_words opt w) = Inr (child_options opt w)" if "w \<in> set levels" for w
    by (rule child_words_parse[OF valid(1) assms(5)[OF that] valid(4)])
  have "run_child (popen k) exe opt w new_result = (printed_fields (run_once opt w (window k)) new_result, True)"
    if "w \<in> set levels" for k w
    using child[OF that] assms(9) run_once_writers
    by (intro run_child_reads) (simp_all add: ws child_prints[OF valid(1) assms(5)[OF that] valid(4)])
  from run_levels_reads[of levels popen exe opt window 0, OF this]
  obtain per where "run_levels popen exe opt levels 0 = Inr per"
    "map rr_verdict (concat per) = all_verdicts opt window levels"
    by (auto simp: all_verdicts_def)
  then have "probe_main True hw popen wi exe args
    = Some (let vs = all_verdicts opt window levels
            in if 3 \<in> set vs then 3 else if 2 \<in> set vs then 2 else if 1 \<in> set vs then 1 else 0, [])"
    using assms(1-4) by (simp add: probe_main_def worst_rc_eq Let_def del: map_concat)
  then show ?thesis using parsed by (simp add: ws child_options_def)
qed

text \<open>Two windows of four writers: the first is fair, in the second one writer never advances.\<close>

definition demo_report :: "u64 \<Rightarrow> WriterReport" where
  "demo_report n = new_report\<lparr>wr_ok := n\<rparr>"

definition demo_window :: "nat \<Rightarrow> Window" where
  "demo_window k = \<lparr>wi_backlogs = [7, 9], wi_advance_timeouts = 5, wi_grace_period_timeouts = 0, wi_drained = True,
     wi_reports = map demo_report (if k = 0 then [100, 90, 80, 110] else [100, 90, 0, 110])\<rparr>"

definition demo_options :: Options where
  "demo_options = new_options\<lparr>op_repeat := 2\<rparr>"

definition demo_popen :: "nat \<Rightarrow> string \<Rightarrow> string option" where
  "demo_popen k cmd = Some (''rcu_advance_probe --run-one'' @ [CHR 0x0A]
     @ print_result_line (run_once demo_options 4 (demo_window k)))"

text \<open>A shell that knows quotes around the program and blanks.\<close>

function blank_words :: "string \<Rightarrow> string list" where
  "blank_words [] = []"
| "blank_words (c # s) =
     (if c = CHR 0x20 then blank_words s
      else (c # takeWhile (\<lambda>x. x \<noteq> CHR 0x20) s) # blank_words (dropWhile (\<lambda>x. x \<noteq> CHR 0x20) s))"
  by pat_completeness auto
termination
  by (relation "measure length") (auto simp: le_imp_less_Suc length_dropWhile_le)

definition demo_shell :: "string \<Rightarrow> string list" where
  "demo_shell cmd = takeWhile (\<lambda>c. c \<noteq> CHR 0x22) (tl cmd) # blank_words (tl (dropWhile (\<lambda>c. c \<noteq> CHR 0x22) (tl cmd)))"

lemma blank_words_split: "list_all plain_word ws \<Longrightarrow> blank_words (concat (map (\<lambda>w. CHR 0x20 # w) ws)) = ws"
proof (induction ws)
  case (Cons w ws)
  let ?r = "concat (map (\<lambda>w. CHR 0x20 # w) ws)"
  obtain c s where w: "w = c # s" using Cons.prems by (cases w) (auto simp: plain_word_def)
  have "\<not> plain_char (CHR 0x20)" by (simp add: plain_char_def is_digit_def)
  then have c: "c \<noteq> CHR 0x20" and s: "\<forall>x \<in> set s. x \<noteq> CHR 0x20"
    using Cons.prems by (auto simp: w plain_word_def list_all_iff)
  have r: "takeWhile (\<lambda>x. x \<noteq> CHR 0x20) ?r = []" "dropWhile (\<lambda>x. x \<noteq> CHR 0x20) ?r = ?r" by (cases ws; simp)+
  have "takeWhile (\<lambda>x. x \<noteq> CHR 0x20) (s @ ?r) = s" "dropWhile (\<lambda>x. x \<noteq> CHR 0x20) (s @ ?r) = ?r"
    using s r by (simp_all add: takeWhile_append2 dropWhile_append2)
  then show ?case using Cons c by (simp add: w)
qed simp

theorem parent_reports_worst_window_witness:
  "probe_main True 8 demo_popen (demo_window 0) ''probe'' [''--repeat'', ''2''] = Some (1, [])"
proof -
  have two: "atoi ''2'' = 2" by (simp add: atoi_def strtol_def scan_number_def is_space_def is_digit_def)
  have args: "options_of True [''--repeat'', ''2''] = Inr demo_options"
    by (simp add: options_of_def option_step_def check_options_def demo_options_def new_options_def two
        word_sle_eq word_sless_alt)
  have lv: "levels_of demo_options 8 = Some [4]" by (simp add: levels_of_def demo_options_def new_options_def)
  have pos: "(0 :: 32 word) <s 4" "(1 :: 32 word) <s 2" by (simp_all add: word_sless_alt)
  have opt: "\<not> op_run_one demo_options" "op_repeat demo_options = 2" "\<not> dashed (op_plugin demo_options)" "\<not> op_reload demo_options"
    by (simp_all add: demo_options_def new_options_def dashed_def)
  have shell: "demo_shell ([CHR 0x22] @ ''probe'' @ [CHR 0x22] @ concat (map (\<lambda>w. CHR 0x20 # w) ws)) = ''probe'' # ws"
    if "list_all plain_word ws" for ws
    using blank_words_split[OF that] by (simp add: demo_shell_def)
  have child: "demo_popen k (child_command ''probe'' demo_options w)
      = Some (text_of [''rcu_advance_probe --run-one'']
          @ snd (the (probe_main True 8 demo_popen (demo_window k) ''probe''
              (tl (demo_shell (child_command ''probe'' demo_options w))))))"
    if "w \<in> set [4]" for k w
    using that opt pos shell[of "child_words demo_options w"] plain_child_words[of demo_options w]
    by (simp add: demo_popen_def text_of_def child_prints child_command_def)
  have v: "all_verdicts demo_options demo_window [4] = [0, 1]"
    by (simp add: all_verdicts_def reps_of_def verdict_at_def opt run_once_def finish_run_def sum_reports_def
        run_verdict_def demo_window_def demo_report_def add_report_def new_report_def new_result_def Let_def
        upt_rec)
  show ?thesis
    using parent_reports_worst_window[OF args opt(1) _ lv _ _ shell child, where wi = "demo_window 0"] pos opt
    by (simp add: v log_line_def)
qed

section \<open>Streaks and sweeps\<close>

definition leading_timeouts :: "(bool \<times> u64) list \<Rightarrow> nat" where
  "leading_timeouts os = length (takeWhile (\<lambda>oc. \<not> fst oc) os)"

fun longest_streak :: "(bool \<times> u64) list \<Rightarrow> nat" where
  "longest_streak [] = 0"
| "longest_streak (oc # os) = max (leading_timeouts (oc # os)) (longest_streak os)"

lemma leading_le_longest: "leading_timeouts os \<le> longest_streak os"
  by (cases os) (simp_all add: leading_timeouts_def)

lemma fold_tally_streak:
  "\<lbrakk>unat st + length os < 2 ^ 64; st \<le> wr_max_streak rep\<rbrakk> \<Longrightarrow>
   unat (wr_max_streak (fst (fold tally os (rep, st))))
     = max (unat (wr_max_streak rep)) (max (unat st + leading_timeouts os) (longest_streak os))"
proof (induction os arbitrary: rep st)
  case Nil
  then show ?case by (simp add: leading_timeouts_def word_le_nat_alt max_def)
next
  case (Cons oc os)
  obtain proven ns where oc: "oc = (proven, ns)" by (cases oc)
  have m: "unat st \<le> unat (wr_max_streak rep)" using Cons.prems(2) by (simp add: word_le_nat_alt)
  show ?case
  proof (cases proven)
    case True
    then show ?thesis
      using Cons.IH[of 0 "fst (tally oc (rep, st))"] Cons.prems(1) m leading_le_longest[of os]
      by (simp add: oc tally_def leading_timeouts_def)
  next
    case False
    have u: "unat (st + 1) = unat st + 1" using Cons.prems(1) by (simp add: unat_add_small)
    then show ?thesis
      using Cons.IH[of "st + 1" "fst (tally oc (rep, st))"] Cons.prems(1) m False
      by (simp add: oc tally_def Let_def leading_timeouts_def word_less_nat_alt word_le_nat_alt max_def)
  qed
qed

lemma max_streak_longest:
  "length os < 2 ^ 64 \<Longrightarrow> unat (wr_max_streak (raw_writer_loop os)) = longest_streak os"
  using fold_tally_streak[of 0 os new_report] leading_le_longest[of os]
  by (simp add: raw_writer_loop_def new_report_def max_def)

lemma sint_power: "k \<le> 30 \<Longrightarrow> sint ((2 :: 32 word) ^ k) = 2 ^ k"
proof -
  assume k: "k \<le> 30"
  have "(2 :: int) ^ k < 2 ^ 31" using k by (intro power_strict_increasing) simp_all
  moreover have "- (2 ^ 31) \<le> (2 :: int) ^ k" by (rule order_trans[of _ 0]) simp_all
  ultimately have "signed_take_bit 31 ((2 :: int) ^ k) = 2 ^ k" by (simp add: signed_take_bit_int_eq_self_iff)
  then show ?thesis using signed_of_int[where 'a = int and 'b = 32, of "2 ^ k"] by simp
qed

lemma sweep_levels_end:
  "\<lbrakk>sint cap \<le> 2 ^ 30; k \<le> 30; 31 \<le> n + k\<rbrakk> \<Longrightarrow>
   \<exists>ks. sweep_levels n cap (2 ^ k) = Some (map (\<lambda>i. 2 ^ i) ks) \<and> ks \<noteq> [] \<and> (\<forall>i\<in>set ks. i \<le> 30) \<and>
     sint cap \<le> 2 ^ last ks"
proof (induction n arbitrary: k)
  case (Suc n)
  show ?case
  proof (cases "(2 :: 32 word) ^ k <s cap")
    case True
    then have "(2 :: int) ^ k < 2 ^ 30" using Suc.prems(1,2) by (simp add: word_sless_alt sint_power)
    then have "k < 30" using power_less_imp_less_exp[of "2 :: int" k 30] by simp
    moreover have p: "push_bit 1 ((2 :: 32 word) ^ k) = 2 ^ Suc k" by (simp add: push_bit_eq_mult mult.commute)
    ultimately obtain ks where "sweep_levels n cap (push_bit 1 (2 ^ k)) = Some (map (\<lambda>i. 2 ^ i) ks)" "ks \<noteq> []"
      "\<forall>i\<in>set ks. i \<le> 30" "sint cap \<le> 2 ^ last ks"
      using Suc.IH[of "Suc k"] Suc.prems unfolding p by auto
    then show ?thesis using True \<open>k < 30\<close> by (intro exI[of _ "k # ks"]) simp
  next
    case False
    then have "sint cap \<le> 2 ^ k" using Suc.prems(2) by (simp add: word_sless_alt sint_power not_less)
    then show ?thesis using False Suc.prems(2) by (intro exI[of _ "[k]"]) simp
  qed
qed simp

lemma default_sweep_ends:
  assumes "unat hw \<le> 2 ^ 30"
  shows "\<exists>ws. default_sweep_list hw = Some ws \<and> ws \<noteq> [] \<and> (\<forall>w\<in>set ws. 0 <s w) \<and> (hw \<noteq> 0 \<longrightarrow> sint hw \<le> sint (last ws))"
proof -
  let ?cap = "if hw \<noteq> 0 then hw else 8"
  have "uint hw \<le> 2 ^ 30" using assms by (simp add: nat_le_iff flip: nat_uint_eq)
  then have "sint hw = uint hw" using order_trans[of "- (2 ^ 31)" 0 "uint hw"] by (simp add: sint_uint signed_take_bit_int_eq_self_iff)
  then have "sint ?cap \<le> 2 ^ 30" using \<open>uint hw \<le> 2 ^ 30\<close> by simp
  then obtain ks where ks: "default_sweep_list hw = Some (map (\<lambda>i. 2 ^ i) ks)" "ks \<noteq> []" "\<forall>i\<in>set ks. i \<le> 30"
    "sint ?cap \<le> 2 ^ last ks"
    using sweep_levels_end[of ?cap 0 32] by (auto simp: default_sweep_list_def)
  have "0 <s (2 :: 32 word) ^ i" if "i \<in> set ks" for i using ks(3) that by (simp add: word_sless_alt sint_power)
  moreover have "hw \<noteq> 0 \<longrightarrow> sint hw \<le> sint ((2 :: 32 word) ^ last ks)"
    using ks(2,3,4) by (auto simp: sint_power split: if_splits)
  ultimately show ?thesis using ks(1,2) by (auto simp: last_map)
qed

section \<open>Verdicts\<close>

lemma u64_min:
  fixes a b :: u64
  shows "(if a < b then a else b) = 0 \<longleftrightarrow> a = 0 \<or> b = 0" "(if a < b then a else b) = - 1 \<longleftrightarrow> a = - 1 \<and> b = - 1"
proof -
  have "a \<le> - 1" "b \<le> - 1" "0 \<le> a" "0 \<le> b" by (rule word_n1_ge word_zero_le)+
  note bounds = this
  show "(if a < b then a else b) = 0 \<longleftrightarrow> a = 0 \<or> b = 0"
  proof (cases "a < b")
    case True
    then have "b \<noteq> 0" using leD[OF bounds(3)] by blast
    then show ?thesis using True by simp
  next
    case False
    then have "a = 0 \<Longrightarrow> b = 0" using order_antisym[OF _ bounds(4)] by (simp add: not_less)
    then show ?thesis using False by auto
  qed
  show "(if a < b then a else b) = - 1 \<longleftrightarrow> a = - 1 \<and> b = - 1"
  proof (cases "a < b")
    case True
    then have "a \<noteq> - 1" using leD[OF bounds(2)] by blast
    then show ?thesis using True by simp
  next
    case False
    then have "b = - 1 \<Longrightarrow> a = - 1" using order_antisym[OF bounds(1)] by (simp add: not_less)
    then show ?thesis using False by auto
  qed
qed

lemma add_report_min: "rr_min_ok (add_report rep r) = (if wr_ok rep < rr_min_ok r then wr_ok rep else rr_min_ok r)"
  by (simp add: add_report_def)

lemma min_ok_zero: "rr_min_ok (fold add_report reps r) = 0 \<longleftrightarrow> rr_min_ok r = 0 \<or> (\<exists>rep\<in>set reps. wr_ok rep = 0)"
proof (induction reps arbitrary: r)
  case (Cons rep reps)
  show ?case unfolding fold_Cons comp_apply Cons.IH add_report_min u64_min(1) by simp blast
qed simp

lemma min_ok_max: "rr_min_ok (fold add_report reps r) = - 1 \<longleftrightarrow> rr_min_ok r = - 1 \<and> (\<forall>rep\<in>set reps. wr_ok rep = - 1)"
proof (induction reps arbitrary: r)
  case (Cons rep reps)
  show ?case unfolding fold_Cons comp_apply Cons.IH add_report_min u64_min(2) by simp blast
qed simp

text \<open>Starvation needs a writer that never got through in a drained window where no reload failed.\<close>

lemma starvation_verdict:
  assumes "rr_verdict (run_once opt w wi) = 1" "wi_reports wi \<noteq> []" "\<exists>rep\<in>set (wi_reports wi). wr_ok rep \<noteq> - 1"
  shows "wi_drained wi \<and> (\<exists>rep\<in>set (wi_reports wi). wr_ok rep = 0)
    \<and> rr_total_ok (run_once opt w wi) \<ge> scast w * 64"
proof -
  define r0 where "r0 = sample_loop (op_max_backlog opt) (wi_backlogs wi) (new_result\<lparr>rr_writers := w\<rparr>)
    \<lparr>rr_advance_timeouts := wi_advance_timeouts wi, rr_grace_period_timeouts := wi_grace_period_timeouts wi,
     rr_drained := wi_drained wi\<rparr>"
  define r1 where "r1 = fold add_report (wi_reports wi) (r0\<lparr>rr_min_ok := - 1\<rparr>)"
  have d: "rr_drained (fold add_report reps r) = rr_drained r" for reps r
    by (induction reps arbitrary: r) (simp_all add: add_report_def)
  have r1: "rr_drained r1 = wi_drained wi" by (simp add: r1_def r0_def d)
  have "rr_min_ok r1 \<noteq> - 1" using min_ok_max[of "wi_reports wi" "r0\<lparr>rr_min_ok := - 1\<rparr>"] assms(3) by (auto simp: r1_def)
  then have run: "run_once opt w wi = r1\<lparr>rr_verdict := run_verdict w r1\<rparr>"
    by (simp add: run_once_def finish_run_def sum_reports_def Let_def r0_def[symmetric] r1_def[symmetric])
  then have "run_verdict w r1 = 1" using assms(1) by simp
  then have "rr_drained r1" "rr_min_ok r1 = 0" "scast w * 64 \<le> rr_total_ok r1"
    by (auto simp: run_verdict_def Let_def split: if_splits)
  then show ?thesis
    using r1 run min_ok_zero[of "wi_reports wi" "r0\<lparr>rr_min_ok := - 1\<rparr>"] by (auto simp: r1_def)
qed

end
