(* ===== verification/Bench_Resolve.thy ===== *)
theory Bench_Resolve
  imports Runtime_Search RCU_Domain Bench_Probe
begin

text \<open>
  The tables the lookup benchmarks search and the searches they time: \<open>bench/ABIX/abix_resolve_bench.cpp\<close>,
  \<open>abix_lookup_cross_bench.cpp\<close> and the fixture of \<open>hashindex_build_bench.cpp\<close>.

  The MICS string hash and the signature of \<open>int(int)\<close> are parameters, as in \<open>Runtime_Search\<close>; the random
  queries are a parameter below the table size. Timing and registration are left out.

  Shown: for every table size the names are distinct and fit their buffers, so every timed search finds the
  entry it asks for: no benchmark measures a miss, whichever search serves it.
\<close>

section \<open>The fixture\<close>

definition pad_zeros :: "nat \<Rightarrow> string \<Rightarrow> string" where
  "pad_zeros n s = replicate (n - length s) CHR 0x30 @ s"

text \<open>\<open>"sym_{:04}"\<close>\<close>

definition sym_name :: "nat \<Rightarrow> string" where
  "sym_name i = ''sym_'' @ pad_zeros 4 (dec i)"

definition fixture_entry :: "(string \<Rightarrow> u64) \<Rightarrow> u64 \<Rightarrow> u64 \<Rightarrow> nat \<Rightarrow> Entry" where
  "fixture_entry cstr64 base sig i =
     \<lparr>en_name = Some (sym_name i), en_sig = sig, en_version = 0, en_fnptr = 0xDEADBEEF,
      en_name_hash = name_hash cstr64 base (Some (sym_name i)), en_flags = 0\<rparr>"

definition fixture_table :: "(string \<Rightarrow> u64) \<Rightarrow> u64 \<Rightarrow> u64 \<Rightarrow> u32 \<Rightarrow> Table" where
  "fixture_table cstr64 base sig n =
     \<lparr>tb_count = n, tb_magic = SKL_ABIX_TABLE_MAGIC, tb_format_version = SKL_ABIX_TABLE_FORMAT_VERSION, tb_reserved = 0,
      tb_entries = Some (map (fixture_entry cstr64 base sig) [0..<unat n])\<rparr>"

record ResolveFixture =
  rf_table :: Table
  rf_index :: HashIndex
  rf_target_name :: "string ptr"
  rf_sig :: u64
  rf_out_idx :: u32

text \<open>\<open>None\<close> is \<open>entries.back()\<close> of an empty vector, or an index that cannot be built.\<close>

definition make_resolve_fixture ::
  "(nat \<Rightarrow> HashSlot) option \<Rightarrow> (string \<Rightarrow> u64) \<Rightarrow> u64 \<Rightarrow> u64 \<Rightarrow> u32 \<Rightarrow> SlotPool \<Rightarrow> (ResolveFixture \<times> SlotPool) option" where
  "make_resolve_fixture memory cstr64 base sig n p =
     (let t = fixture_table cstr64 base sig n
      in Option.bind (if n \<ge> SKL_ABIX_HASH_THRESHOLD then index_build memory t empty_index p else Some (empty_index, p))
           (\<lambda>(idx, p).
             map_option (\<lambda>e. (\<lparr>rf_table = t, rf_index = idx, rf_target_name = en_name e, rf_sig = en_sig e,
                                rf_out_idx = no_index\<rparr>, p))
               (if n = 0 then None else entry_at t (unat n - 1))))"

definition destroy_resolve_fixture :: "ResolveFixture \<Rightarrow> SlotPool \<Rightarrow> SlotPool" where
  "destroy_resolve_fixture f p = snd (index_destroy (rf_index f) p)"

text \<open>One iteration of the resolve benchmark.\<close>

definition resolve_iteration ::
  "bool \<Rightarrow> (string \<Rightarrow> u64) \<Rightarrow> u64 \<Rightarrow> tid \<Rightarrow> ResolveFixture \<Rightarrow> 'f Domain \<Rightarrow> (LookupResult \<times> ResolveFixture \<times> 'f Domain) option" where
  "resolve_iteration use_rcu cstr64 base t f d =
     (let d = (if use_rcu then rcu_enter t d else d)
      in map_option (\<lambda>(r, out). (r, f\<lparr>rf_out_idx := out\<rparr>, if use_rcu then rcu_exit t d else d))
           (find_index_by_name cstr64 base (rf_table f) (rf_index f) (rf_target_name f) (rf_sig f) 0))"

text \<open>The build benchmark: below the threshold it is skipped; its counters and the pool after its probe build.\<close>

definition build_bench_capacity ::
  "(nat \<Rightarrow> HashSlot) option \<Rightarrow> (string \<Rightarrow> u64) \<Rightarrow> u64 \<Rightarrow> u64 \<Rightarrow> u32 \<Rightarrow> SlotPool \<Rightarrow> (u32 \<times> SlotPool) option option" where
  "build_bench_capacity memory cstr64 base sig n p =
     (if n < SKL_ABIX_HASH_THRESHOLD then Some None
      else Option.bind (make_resolve_fixture memory cstr64 base sig n p) (\<lambda>(f, p).
             let p = snd (index_destroy (rf_index f) p)
             in map_option (\<lambda>(probe, p). Some (hi_capacity probe, snd (index_destroy probe p)))
                  (index_build memory (rf_table f) empty_index p)))"

datatype Strategy = st_Linear | st_HashIndex

fun strategy_name :: "Strategy \<Rightarrow> string" where
  "strategy_name st_Linear = ''linear''"
| "strategy_name st_HashIndex = ''hash_index''"

text \<open>One iteration of the cross benchmark, for the query \<open>q\<close>.\<close>

definition cross_lookup :: "Strategy \<Rightarrow> (string \<Rightarrow> u64) \<Rightarrow> u64 \<Rightarrow> u64 \<Rightarrow> Table \<Rightarrow> HashIndex \<Rightarrow> nat \<Rightarrow> nat option option" where
  "cross_lookup strategy cstr64 base sig t idx q =
     (let name = Some (sym_name q); nh = name_hash cstr64 base name
      in case strategy of
           st_Linear \<Rightarrow> lookup_linear t name nh sig
         | st_HashIndex \<Rightarrow> lookup_hash t idx name nh sig)"

text \<open>The loop over the queries, taken in a circle.\<close>

fun cross_loop :: "Strategy \<Rightarrow> (string \<Rightarrow> u64) \<Rightarrow> u64 \<Rightarrow> u64 \<Rightarrow> Table \<Rightarrow> HashIndex \<Rightarrow> nat list \<Rightarrow> nat \<Rightarrow> nat \<Rightarrow> nat option option list" where
  "cross_loop strategy cstr64 base sig t idx queries qi 0 = []"
| "cross_loop strategy cstr64 base sig t idx queries qi (Suc k) =
     cross_lookup strategy cstr64 base sig t idx (queries ! qi)
       # cross_loop strategy cstr64 base sig t idx queries ((qi + 1) mod length queries) k"

section \<open>Names\<close>

lemma pad_zeros_val: "fst (digits_val (pad_zeros n (dec i)) 0) = i"
proof -
  have z: "digits_val (replicate k CHR 0x30 @ s) 0 = digits_val s 0" for k s
    by (induction k) (simp_all add: is_digit_def)
  show ?thesis by (simp add: pad_zeros_def z digits_val_dec)
qed

lemma sym_name_inj: "sym_name i = sym_name j \<longleftrightarrow> i = j"
proof
  assume "sym_name i = sym_name j"
  then have "pad_zeros 4 (dec i) = pad_zeros 4 (dec j)" by (simp add: sym_name_def)
  then show "i = j" by (metis pad_zeros_val)
qed simp

text \<open>With its terminator a name fits the 16 characters it is written to.\<close>

lemma sym_name_fits: "i < 2 ^ 32 \<Longrightarrow> length (sym_name i) < 16"
proof -
  assume "i < 2 ^ 32"
  then have "length (dec i) \<le> 10" by (intro dec_length) simp_all
  then show ?thesis by (simp add: sym_name_def pad_zeros_def)
qed

lemma sym_name_no_nul: "CHR 0x00 \<notin> set (sym_name i)"
  using dec_digits[of "CHR 0x00" i] by (auto simp: sym_name_def pad_zeros_def is_digit_def)

section \<open>Every search hits\<close>

lemma fixture_entries:
  "i < unat n \<Longrightarrow> entry_at (fixture_table cstr64 base sig n) i = Some (fixture_entry cstr64 base sig i)"
  "i < unat n \<Longrightarrow> entry_of (fixture_table cstr64 base sig n) i = fixture_entry cstr64 base sig i"
  "tb_count (fixture_table cstr64 base sig n) = n"
  by (simp_all add: entry_at_def entry_of_def fixture_table_def)

lemma fixture_table_ok: "table_ok (fixture_table cstr64 base sig n)"
proof -
  let ?es = "map (fixture_entry cstr64 base sig) [0..<unat n]"
  have f: "tb_entries (fixture_table cstr64 base sig n) = Some ?es" "tb_count (fixture_table cstr64 base sig n) = n"
    "tb_magic (fixture_table cstr64 base sig n) = SKL_ABIX_TABLE_MAGIC"
    by (simp_all add: fixture_table_def)
  have "unat n \<le> length ?es" by simp
  moreover have "\<forall>e \<in> set (take (unat n) ?es). en_name e \<noteq> None"
  proof
    fix e assume "e \<in> set (take (unat n) ?es)"
    then obtain i where "e = fixture_entry cstr64 base sig i" using in_set_takeD[of e "unat n" ?es] by auto
    then show "en_name e \<noteq> None" by (simp add: fixture_entry_def)
  qed
  ultimately show ?thesis unfolding table_ok_def f option.case by blast
qed

lemma fixture_matches:
  assumes "j < unat n"
  shows "entry_matches (fixture_table cstr64 base sig n) (sym_name i) (name_hash cstr64 base (Some (sym_name i))) j \<longleftrightarrow> j = i"
proof -
  have c: "c_str (sym_name k) = sym_name k" for k
    unfolding c_str_def takeWhile_eq_all_conv using sym_name_no_nul[of k] by blast
  have "entry_matches (fixture_table cstr64 base sig n) (sym_name i) (name_hash cstr64 base (Some (sym_name i))) j
    \<longleftrightarrow> name_hash cstr64 base (Some (sym_name j)) = name_hash cstr64 base (Some (sym_name i)) \<and> sym_name j = sym_name i"
    unfolding entry_matches_def fixture_entries(2)[OF assms]
    by (simp add: fixture_entry_def strcmp_eq_def c)
  then show ?thesis unfolding sym_name_inj by blast
qed

lemma fixture_found:
  assumes "i < unat n" "\<And>j. j < unat n \<Longrightarrow> P j \<longleftrightarrow> j = i"
  shows "find P [0..<unat n] = Some i"
  using assms by (auto simp: find_upt_Some)

lemma fixture_finds:
  assumes "i < unat n" "index_valid idx \<longrightarrow> serves (fixture_table cstr64 base sig n) idx"
  shows "find_index (fixture_table cstr64 base sig n) idx (Some (sym_name i)) (name_hash cstr64 base (Some (sym_name i))) sig 0
    = Some (lr_ok, of_nat i)"
  using auto.unversioned[of "fixture_table cstr64 base sig n" idx] assms fixture_table_ok
    fixture_found[OF assms(1) fixture_matches]
  by (simp add: fixture_entries fixture_entry_def)

lemma cross_finds:
  assumes "i < unat n" "strategy = st_HashIndex \<longrightarrow> serves (fixture_table cstr64 base sig n) idx"
  shows "cross_lookup strategy cstr64 base sig (fixture_table cstr64 base sig n) idx i = Some (Some i)"
proof -
  let ?t = "fixture_table cstr64 base sig n"
  have f: "find (\<lambda>j. entry_matches ?t (sym_name i) (name_hash cstr64 base (Some (sym_name i))) j
      \<and> en_sig (entry_of ?t j) = sig) [0..<unat n] = Some i"
    by (rule fixture_found[OF assms(1)]) (auto simp: fixture_matches fixture_entries fixture_entry_def)
  have m: "tb_magic ?t = SKL_ABIX_TABLE_MAGIC" by (simp add: fixture_table_def)
  show ?thesis
    using assms(2) f fixture_entries(3)
    by (cases strategy)
      (simp_all add: cross_lookup_def Let_def lookup_linear_def m lookup_linear_from_spec[OF fixture_table_ok]
        lookup_hash_spec[OF fixture_table_ok])
qed

text \<open>The resolve benchmark at any size: the fixture is built, and every iteration, with and without the read
  section, finds the last entry and leaves the fixture ready for the next.\<close>

lemma resolve_always_hits:
  assumes "0 < n" "unat n \<le> 2 ^ 30" "pool_ok p"
  shows "\<exists>f p'. make_resolve_fixture memory cstr64 base sig n p = Some (f, p') \<and> pool_ok p'
    \<and> (\<forall>use_rcu t d out. \<exists>d'. resolve_iteration use_rcu cstr64 base t (f\<lparr>rf_out_idx := out\<rparr>) d
        = Some (lr_ok, f\<lparr>rf_out_idx := n - 1\<rparr>, d'))"
proof -
  let ?t = "fixture_table cstr64 base sig n"
  have last: "unat n - 1 < unat n" using assms(1) by (simp add: word_less_nat_alt)
  have u: "unat n - 1 = unat (n - 1)" using unat_minus_one[of n] assms(1) by (simp add: word_gt_0)
  have "of_nat (unat n - 1) = n - 1" unfolding u by simp
  then have out: "of_nat (unat n - Suc 0) = n - 1" by simp
  have "index_ok empty_index" by (simp add: index_ok_def empty_index_def)
  then obtain idx0 p0 where i0: "index_build memory ?t empty_index p = Some (idx0, p0)" "pool_ok p0"
    "index_valid idx0 \<longrightarrow> serves ?t idx0"
    using index_build_total[OF fixture_table_ok[of cstr64 base sig n] _ assms(3), of empty_index memory] assms(2)
    unfolding fixture_entries(3) index_valid_def by (metis (full_types))
  have e: "\<not> index_valid empty_index" by (simp add: index_valid_def empty_index_def)
  have "\<exists>idx p'. (if n \<ge> SKL_ABIX_HASH_THRESHOLD then index_build memory ?t empty_index p else Some (empty_index, p)) = Some (idx, p')
      \<and> pool_ok p' \<and> (index_valid idx \<longrightarrow> serves ?t idx)"
    using i0 e assms(3) by (cases "n \<ge> SKL_ABIX_HASH_THRESHOLD") (simp only: if_True if_False; blast)+
  then obtain idx p' where b: "(if n \<ge> SKL_ABIX_HASH_THRESHOLD then index_build memory ?t empty_index p else Some (empty_index, p)) = Some (idx, p')"
    "pool_ok p'" "index_valid idx \<longrightarrow> serves ?t idx"
    by blast
  let ?f = "\<lparr>rf_table = ?t, rf_index = idx, rf_target_name = Some (sym_name (unat n - 1)), rf_sig = sig, rf_out_idx = no_index\<rparr>"
  have "make_resolve_fixture memory cstr64 base sig n p = Some (?f, p')"
    using b(1) assms(1) fixture_entries(1)[OF last, of cstr64 base sig] by (simp add: make_resolve_fixture_def Let_def fixture_entry_def)
  moreover have "\<exists>d'. resolve_iteration use_rcu cstr64 base t (?f\<lparr>rf_out_idx := out\<rparr>) d = Some (lr_ok, ?f\<lparr>rf_out_idx := n - 1\<rparr>, d')"
    for use_rcu t out and d :: "'f Domain"
    using fixture_finds[OF last b(3)] by (simp add: resolve_iteration_def Let_def find_index_by_name_def out)
  ultimately show ?thesis using b(2) by blast
qed

lemma cross_loop_hits:
  assumes "\<And>q. q \<in> set queries \<Longrightarrow> q < unat n" "qi < length queries"
    and "strategy = st_HashIndex \<longrightarrow> serves (fixture_table cstr64 base sig n) idx"
  shows "cross_loop strategy cstr64 base sig (fixture_table cstr64 base sig n) idx queries qi k
    = map (\<lambda>j. Some (Some (queries ! ((qi + j) mod length queries)))) [0..<k]"
  using assms(2)
proof (induction k arbitrary: qi)
  case (Suc k)
  have "queries ! qi < unat n" using assms(1) nth_mem[OF Suc.prems] by blast
  moreover have "(qi + 1) mod length queries < length queries" using Suc.prems by (intro mod_less_divisor) linarith
  moreover have "[0..<Suc k] = 0 # map Suc [0..<k]" by (simp add: map_Suc_upt upt_conv_Cons del: upt_Suc)
  ultimately show ?case
    using Suc.IH[of "(qi + 1) mod length queries"] Suc.prems
    by (simp add: cross_finds[OF _ assms(3)] mod_add_left_eq comp_def del: upt_Suc)
qed simp

end
