(* ===== verification/Sample_Modules.thy ===== *)
theory Sample_Modules
  imports Wire_Layout
begin

text \<open>
  The modules the tests and benchmarks load (\<open>dlls/\<close>): the objects they create and count
  (\<open>resource_dll.cpp\<close>, \<open>math_dll.cpp\<close>, \<open>closed_dll.cpp\<close>), the sockets of \<open>resource_dll.cpp\<close>, the messages of
  \<open>version_dll.cpp\<close>, the callback of \<open>callback_dll.cpp\<close>, and where a module is looked for (\<open>plugin_path.h\<close>).

  A module's objects live in a heap of their own, numbered as they are created, beside the static counter.
  \<open>None\<close> is an access to a destroyed object; a \<open>new\<close> that throws is an outcome. The operating system's answers
  are parameters.

  Shown: for every type the counter is the number of live objects plus the creations that threw, element
  accesses stay inside the arrays, a failed \<open>socket_open\<close> leaves no descriptor behind unless \<open>new\<close> threw, and
  a module is looked for beside the executable when its path fits the first buffer.
\<close>

section \<open>Counted objects\<close>

record 'a Pool =
  po_heap :: "nat \<rightharpoonup> 'a"
  po_next :: nat
  po_alive :: "32 word"

definition new_pool :: "'a Pool" where
  "new_pool = \<lparr>po_heap = (\<lambda>_. None), po_next = 0, po_alive = 0\<rparr>"

text \<open>\<open>new T(...)\<close> after the count was raised; \<open>None\<close> is an exception, which keeps the count.\<close>

definition counted_new :: "'a option \<Rightarrow> 'a Pool \<Rightarrow> nat option \<times> 'a Pool" where
  "counted_new made s =
     (let s = s\<lparr>po_alive := po_alive s + 1\<rparr>
      in case made of
           None \<Rightarrow> (None, s)
         | Some v \<Rightarrow> (Some (po_next s), s\<lparr>po_heap := (po_heap s)(po_next s \<mapsto> v), po_next := Suc (po_next s)\<rparr>))"

text \<open>\<open>if (p) { --alive; delete p; }\<close>\<close>

definition counted_delete :: "nat option \<Rightarrow> 'a Pool \<Rightarrow> 'a Pool option" where
  "counted_delete p s =
     (case p of
        None \<Rightarrow> Some s
      | Some a \<Rightarrow> if po_heap s a = None then None
                  else Some (s\<lparr>po_alive := po_alive s - 1, po_heap := (po_heap s)(a := None)\<rparr>))"

text \<open>\<open>p ? read(p) : d\<close> and \<open>if (p) write(p)\<close>\<close>

definition obj_read :: "'b \<Rightarrow> ('a \<Rightarrow> 'b) \<Rightarrow> nat option \<Rightarrow> 'a Pool \<Rightarrow> 'b option" where
  "obj_read d f p s = (case p of None \<Rightarrow> Some d | Some a \<Rightarrow> map_option f (po_heap s a))"

definition obj_write :: "('a \<Rightarrow> 'a) \<Rightarrow> nat option \<Rightarrow> 'a Pool \<Rightarrow> 'a Pool option" where
  "obj_write f p s =
     (case p of
        None \<Rightarrow> Some s
      | Some a \<Rightarrow> map_option (\<lambda>v. s\<lparr>po_heap := (po_heap s)(a \<mapsto> f v)\<rparr>) (po_heap s a))"

subsection \<open>\<open>resource_dll.cpp\<close>\<close>

record Resource =
  rs_id :: "32 word"
  rs_payload :: "32 word list"

text \<open>\<open>new int[i + 1]\<close> throws for a negative length or without memory; \<open>i + 1\<close> is undefined at the top of the
  range, the first \<open>None\<close>.\<close>

definition Resource_make :: "bool \<Rightarrow> 32 word \<Rightarrow> Resource option option" where
  "Resource_make mem i =
     (if i = 0x7FFFFFFF then None
      else if i + 1 <s 0 \<or> \<not> mem then Some None
      else Some (Some \<lparr>rs_id = i, rs_payload = map of_nat [0..<unat (i + 1)]\<rparr>))"

definition create_resource :: "bool \<Rightarrow> 32 word \<Rightarrow> Resource Pool \<Rightarrow> (nat option \<times> Resource Pool) option" where
  "create_resource mem i s = map_option (\<lambda>made. counted_new made s) (Resource_make mem i)"

definition destroy_resource :: "nat option \<Rightarrow> Resource Pool \<Rightarrow> Resource Pool option" where
  "destroy_resource r s = counted_delete r s"

definition resource_id :: "nat option \<Rightarrow> Resource Pool \<Rightarrow> 32 word option" where
  "resource_id r s = obj_read (- 1) rs_id r s"

text \<open>The inner \<open>None\<close> is an index past the array.\<close>

definition resource_payload :: "nat option \<Rightarrow> 32 word \<Rightarrow> Resource Pool \<Rightarrow> 32 word option option" where
  "resource_payload r i s =
     obj_read (Some (- 1))
       (\<lambda>v. if 0 \<le>s i \<and> i \<le>s rs_id v
            then if unat i < length (rs_payload v) then Some (rs_payload v ! unat i) else None
            else Some (- 1)) r s"

record Config =
  cf_width :: "32 word"
  cf_height :: "32 word"

definition create_config :: "bool \<Rightarrow> 32 word \<Rightarrow> 32 word \<Rightarrow> Config Pool \<Rightarrow> nat option \<times> Config Pool" where
  "create_config mem w h s = counted_new (if mem then Some \<lparr>cf_width = w, cf_height = h\<rparr> else None) s"

definition destroy_config :: "nat option \<Rightarrow> Config Pool \<Rightarrow> Config Pool option" where
  "destroy_config c s = counted_delete c s"

definition config_area :: "nat option \<Rightarrow> Config Pool \<Rightarrow> 32 word option" where
  "config_area c s = obj_read (- 1) (\<lambda>v. cf_width v * cf_height v) c s"

subsection \<open>\<open>math_dll.cpp\<close>\<close>

record CalcState =
  cs_value :: "32 word"
  cs_op_count :: "32 word"

definition create_calc_state :: "bool \<Rightarrow> 32 word \<Rightarrow> CalcState Pool \<Rightarrow> nat option \<times> CalcState Pool" where
  "create_calc_state mem init s = counted_new (if mem then Some \<lparr>cs_value = init, cs_op_count = 0\<rparr> else None) s"

definition destroy_calc_state :: "nat option \<Rightarrow> CalcState Pool \<Rightarrow> CalcState Pool option" where
  "destroy_calc_state c s = counted_delete c s"

definition calc_state_value :: "nat option \<Rightarrow> CalcState Pool \<Rightarrow> 32 word option" where
  "calc_state_value c s = obj_read (- 1) cs_value c s"

definition calc_state_op_count :: "nat option \<Rightarrow> CalcState Pool \<Rightarrow> 32 word option" where
  "calc_state_op_count c s = obj_read (- 1) cs_op_count c s"

definition calc_state_add :: "nat option \<Rightarrow> 32 word \<Rightarrow> CalcState Pool \<Rightarrow> (32 word \<times> CalcState Pool) option" where
  "calc_state_add c delta s =
     (if c = None then Some (- 1, s)
      else Option.bind (obj_write (\<lambda>v. v\<lparr>cs_value := cs_value v + delta, cs_op_count := cs_op_count v + 1\<rparr>) c s)
             (\<lambda>s. map_option (\<lambda>r. (r, s)) (calc_state_value c s)))"

text \<open>The factor is carried, never computed with; the mode is the pointer it was given.\<close>

record 'd CalcConfig =
  cc_factor :: 'd
  cc_mode :: "string option"
  cc_history :: "32 word list"
  cc_history_len :: "32 word"

definition CalcConfig_make :: "bool \<Rightarrow> 'd \<Rightarrow> string option \<Rightarrow> 32 word \<Rightarrow> 'd CalcConfig option" where
  "CalcConfig_make mem f m hlen =
     (if hlen <s 0 \<or> \<not> mem then None
      else Some \<lparr>cc_factor = f, cc_mode = m, cc_history = replicate (unat hlen) 0, cc_history_len = hlen\<rparr>)"

definition create_calc_config ::
  "bool \<Rightarrow> 'd \<Rightarrow> string option \<Rightarrow> 'd CalcConfig Pool \<Rightarrow> nat option \<times> 'd CalcConfig Pool" where
  "create_calc_config mem factor mode s = counted_new (CalcConfig_make mem factor mode 10) s"

definition destroy_calc_config :: "nat option \<Rightarrow> 'd CalcConfig Pool \<Rightarrow> 'd CalcConfig Pool option" where
  "destroy_calc_config c s = counted_delete c s"

text \<open>\<open>d\<close> is \<open>-1.0\<close>.\<close>

definition calc_config_factor :: "'d \<Rightarrow> nat option \<Rightarrow> 'd CalcConfig Pool \<Rightarrow> 'd option" where
  "calc_config_factor d c s = obj_read d cc_factor c s"

definition calc_config_mode :: "nat option \<Rightarrow> 'd CalcConfig Pool \<Rightarrow> string option option" where
  "calc_config_mode c s = obj_read None cc_mode c s"

definition in_history :: "32 word \<Rightarrow> 'd CalcConfig \<Rightarrow> bool" where
  "in_history idx v \<longleftrightarrow> 0 \<le>s idx \<and> idx <s cc_history_len v"

text \<open>A write past the array would be lost by \<open>xs[i := v]\<close>; \<open>None\<close> here.\<close>

definition calc_config_record :: "nat option \<Rightarrow> 32 word \<Rightarrow> 32 word \<Rightarrow> 'd CalcConfig Pool \<Rightarrow> 'd CalcConfig Pool option" where
  "calc_config_record c idx val s =
     (case c of
        None \<Rightarrow> Some s
      | Some a \<Rightarrow>
          (case po_heap s a of
             None \<Rightarrow> None
           | Some v \<Rightarrow>
               if in_history idx v
               then if unat idx < length (cc_history v)
                    then Some (s\<lparr>po_heap := (po_heap s)(a \<mapsto> v\<lparr>cc_history := (cc_history v)[unat idx := val]\<rparr>)\<rparr>)
                    else None
               else Some s))"

definition calc_config_history :: "nat option \<Rightarrow> 32 word \<Rightarrow> 'd CalcConfig Pool \<Rightarrow> 32 word option option" where
  "calc_config_history c idx s =
     obj_read (Some (- 1))
       (\<lambda>v. if in_history idx v then if unat idx < length (cc_history v) then Some (cc_history v ! unat idx) else None
            else Some (- 1)) c s"

definition create_shared_counter :: "bool \<Rightarrow> 32 word \<Rightarrow> 32 word Pool \<Rightarrow> nat option \<times> 32 word Pool" where
  "create_shared_counter mem init s = counted_new (if mem then Some init else None) s"

definition destroy_shared_counter :: "nat option \<Rightarrow> 32 word Pool \<Rightarrow> 32 word Pool option" where
  "destroy_shared_counter c s = counted_delete c s"

definition shared_counter_value :: "nat option \<Rightarrow> 32 word Pool \<Rightarrow> 32 word option" where
  "shared_counter_value c s = obj_read (- 1) (\<lambda>v. v) c s"

definition shared_counter_step :: "32 word \<Rightarrow> nat option \<Rightarrow> 32 word Pool \<Rightarrow> (32 word \<times> 32 word Pool) option" where
  "shared_counter_step d c s =
     (if c = None then Some (- 1, s)
      else Option.bind (obj_write (\<lambda>v. v + d) c s) (\<lambda>s. map_option (\<lambda>r. (r, s)) (shared_counter_value c s)))"

definition shared_counter_increment :: "nat option \<Rightarrow> 32 word Pool \<Rightarrow> (32 word \<times> 32 word Pool) option" where
  "shared_counter_increment c s = shared_counter_step 1 c s"

definition shared_counter_decrement :: "nat option \<Rightarrow> 32 word Pool \<Rightarrow> (32 word \<times> 32 word Pool) option" where
  "shared_counter_decrement c s = shared_counter_step (- 1) c s"

subsection \<open>\<open>closed_dll.cpp\<close> and \<open>closed_dll_v2.cpp\<close>\<close>

text \<open>Coordinates are carried, \<open>z\<close> is \<open>0.0F\<close>. The second version adds the time stamp.\<close>

record 'f Player =
  pl_vtable :: "nat option"
  pl_id :: u64
  pl_health :: "32 word"
  pl_x :: 'f
  pl_y :: 'f

record 'f Player_v2 = "'f Player" +
  pl_timestamp :: u64

definition create_player :: "bool \<Rightarrow> 'f \<Rightarrow> u64 \<Rightarrow> 'f Player Pool \<Rightarrow> nat option \<times> 'f Player Pool" where
  "create_player mem z i s =
     counted_new (if mem then Some \<lparr>pl_vtable = None, pl_id = i, pl_health = 100, pl_x = z, pl_y = z\<rparr> else None) s"

definition create_player_v2 :: "bool \<Rightarrow> 'f \<Rightarrow> u64 \<Rightarrow> 'f Player_v2 Pool \<Rightarrow> nat option \<times> 'f Player_v2 Pool" where
  "create_player_v2 mem z i s =
     counted_new
       (if mem
        then Some \<lparr>pl_vtable = None, pl_id = i, pl_health = 200, pl_x = z, pl_y = z, pl_timestamp = 0xDEADBEEFCAFE\<rparr>
        else None) s"

text \<open>The accessors are the same text in both versions.\<close>

definition destroy_player :: "nat option \<Rightarrow> ('f, 'm) Player_scheme Pool \<Rightarrow> ('f, 'm) Player_scheme Pool option" where
  "destroy_player p s = counted_delete p s"

definition player_get_health :: "nat option \<Rightarrow> ('f, 'm) Player_scheme Pool \<Rightarrow> 32 word option" where
  "player_get_health p s = obj_read (- 1) pl_health p s"

definition player_set_health :: "nat option \<Rightarrow> 32 word \<Rightarrow> ('f, 'm) Player_scheme Pool \<Rightarrow> ('f, 'm) Player_scheme Pool option" where
  "player_set_health p h s = obj_write (\<lambda>v. v\<lparr>pl_health := h\<rparr>) p s"

definition player_get_x :: "'f \<Rightarrow> nat option \<Rightarrow> ('f, 'm) Player_scheme Pool \<Rightarrow> 'f option" where
  "player_get_x z p s = obj_read z pl_x p s"

definition player_get_y :: "'f \<Rightarrow> nat option \<Rightarrow> ('f, 'm) Player_scheme Pool \<Rightarrow> 'f option" where
  "player_get_y z p s = obj_read z pl_y p s"

definition player_set_position :: "nat option \<Rightarrow> 'f \<Rightarrow> 'f \<Rightarrow> ('f, 'm) Player_scheme Pool \<Rightarrow> ('f, 'm) Player_scheme Pool option" where
  "player_set_position p nx ny s = obj_write (\<lambda>v. v\<lparr>pl_x := nx, pl_y := ny\<rparr>) p s"

definition player_get_id :: "nat option \<Rightarrow> ('f, 'm) Player_scheme Pool \<Rightarrow> u64 option" where
  "player_get_id p s = obj_read 0 pl_id p s"

definition PLAYER_TYPE_HASH :: u64 where "PLAYER_TYPE_HASH = 0x1234ABCD"

definition PLAYER_TYPE_HASH_V2 :: u64 where "PLAYER_TYPE_HASH_V2 = 0x5678EF90"

text \<open>The layouts the exported offsets speak of; a \<open>float\<close> lies as a 32-bit integer.\<close>

definition Player_c :: "ctype list" where
  "Player_c = [c_ptr, c_u64, c_u32, c_u32, c_u32]"

definition Player_v2_c :: "ctype list" where
  "Player_v2_c = [c_ptr, c_u64, c_u64, c_u32, c_u32, c_u32]"

text \<open>The assertions of both files.\<close>

lemma player_layout:
  "coffsets lp64 Player_c = [0, 8, 16, 20, 24]" "csize lp64 (c_struct Player_c) = 32"
  "coffsets lp64 Player_v2_c = [0, 8, 16, 24, 28, 32]" "csize lp64 (c_struct Player_v2_c) = 40"
  by code_simp+

section \<open>The counters are exact\<close>

datatype 'arg obj_call = pc_create 'arg | pc_destroy "nat option"

text \<open>A type of counted objects: \<open>create\<close> raises the count by one whether or not it throws, and adds one object if
  it does not; \<open>destroy\<close> of null changes nothing, of a live object takes it and lowers the count.\<close>

locale counted_objects =
  fixes create :: "'arg \<Rightarrow> 'a Pool \<Rightarrow> (nat option \<times> 'a Pool) option"
    and destroy :: "nat option \<Rightarrow> 'a Pool \<Rightarrow> 'a Pool option"
  assumes create_throws: "create x s = Some (None, s') \<Longrightarrow> po_alive s' = po_alive s + 1 \<and> po_heap s' = po_heap s \<and> po_next s' = po_next s"
    and create_adds: "create x s = Some (Some a, s') \<Longrightarrow> a = po_next s \<and> po_alive s' = po_alive s + 1
      \<and> (\<exists>v. po_heap s' = (po_heap s)(a \<mapsto> v)) \<and> po_next s' = Suc (po_next s)"
    and destroy_null: "destroy None s = Some s"
    and destroy_takes: "destroy (Some a) s = Some s' \<Longrightarrow> a \<in> dom (po_heap s) \<and> po_alive s' = po_alive s - 1
      \<and> po_heap s' = (po_heap s)(a := None) \<and> po_next s' = po_next s"
    and destroy_live: "a \<in> dom (po_heap s) \<Longrightarrow> destroy (Some a) s \<noteq> None"
begin

text \<open>The second component counts the creations that threw.\<close>

definition call_one :: "'arg obj_call \<Rightarrow> 'a Pool \<times> nat \<Rightarrow> ('a Pool \<times> nat) option" where
  "call_one c s =
     (case c of
        pc_create x \<Rightarrow> map_option (\<lambda>(p, s'). (s', if p = None then Suc (snd s) else snd s)) (create x (fst s))
      | pc_destroy p \<Rightarrow> map_option (\<lambda>s'. (s', snd s)) (destroy p (fst s)))"

fun run_calls :: "'arg obj_call list \<Rightarrow> 'a Pool \<times> nat \<Rightarrow> ('a Pool \<times> nat) option" where
  "run_calls [] s = Some s"
| "run_calls (c # cs) s = Option.bind (call_one c s) (run_calls cs)"

definition counts :: "'a Pool \<times> nat \<Rightarrow> bool" where
  "counts s \<longleftrightarrow> dom (po_heap (fst s)) \<subseteq> {..<po_next (fst s)}
     \<and> po_alive (fst s) = of_nat (card (dom (po_heap (fst s))) + snd s)"

lemma call_one_counts: "\<lbrakk>counts s; call_one c s = Some s'\<rbrakk> \<Longrightarrow> counts s'"
proof (cases c)
  case (pc_create x)
  assume a: "counts s" "call_one c s = Some s'"
  obtain p q where c: "create x (fst s) = Some (p, q)" "s' = (q, if p = None then Suc (snd s) else snd s)"
    using a(2) pc_create by (auto simp: call_one_def)
  have fin: "finite (dom (po_heap (fst s)))" using a(1) finite_subset by (auto simp: counts_def)
  show ?thesis
  proof (cases p)
    case None
    then show ?thesis using c create_throws[of x "fst s" q] a(1) by (simp add: counts_def)
  next
    case (Some b)
    then obtain v where h: "b = po_next (fst s)" "po_heap q = (po_heap (fst s))(b \<mapsto> v)" "po_alive q = po_alive (fst s) + 1"
      "po_next q = Suc (po_next (fst s))"
      using create_adds[of x "fst s" b q] c(1) by auto
    moreover have "b \<notin> dom (po_heap (fst s))" using a(1) h(1) by (auto simp: counts_def)
    ultimately show ?thesis using a(1) fin c(2) Some by (auto simp: counts_def)
  qed
next
  case (pc_destroy p)
  assume a: "counts s" "call_one c s = Some s'"
  have fin: "finite (dom (po_heap (fst s)))" using a(1) finite_subset by (auto simp: counts_def)
  show ?thesis
  proof (cases p)
    case None
    then show ?thesis using a pc_destroy by (simp add: call_one_def destroy_null)
  next
    case (Some b)
    obtain q where q: "destroy (Some b) (fst s) = Some q" "s' = (q, snd s)"
      using a(2) pc_destroy Some by (auto simp: call_one_def)
    note d = destroy_takes[OF q(1)]
    then obtain m where "card (dom (po_heap (fst s))) = Suc m" "card (dom (po_heap (fst s)) - {b}) = m"
      using fin by (metis card_Suc_Diff1)
    then show ?thesis using d q(2) a(1) by (auto simp: counts_def)
  qed
qed

lemma run_counts: "run_calls cs (new_pool, 0) = Some (s, n) \<Longrightarrow> po_alive s = of_nat (card (dom (po_heap s)) + n)"
proof -
  have "run_calls cs p = Some q \<Longrightarrow> counts p \<Longrightarrow> counts q" for p q
    by (induction cs arbitrary: p) (auto dest: call_one_counts split: Option.bind_splits)
  moreover have "counts (new_pool, 0)" by (simp add: counts_def new_pool_def)
  moreover assume "run_calls cs (new_pool, 0) = Some (s, n)"
  ultimately have "counts (s, n)" by blast
  then show ?thesis by (simp add: counts_def)
qed

end

lemma counted_new_cases:
  "counted_new made s = (None, s') \<Longrightarrow> po_alive s' = po_alive s + 1 \<and> po_heap s' = po_heap s \<and> po_next s' = po_next s"
  "counted_new made s = (Some a, s') \<Longrightarrow> a = po_next s \<and> po_alive s' = po_alive s + 1
     \<and> (\<exists>v. po_heap s' = (po_heap s)(a \<mapsto> v)) \<and> po_next s' = Suc (po_next s)"
  by (auto simp: counted_new_def Let_def split: option.splits)

lemma counted_delete_cases:
  "counted_delete None s = Some s"
  "counted_delete (Some a) s = Some s' \<Longrightarrow> a \<in> dom (po_heap s) \<and> po_alive s' = po_alive s - 1
     \<and> po_heap s' = (po_heap s)(a := None) \<and> po_next s' = po_next s"
  "a \<in> dom (po_heap s) \<Longrightarrow> counted_delete (Some a) s \<noteq> None"
  by (auto simp: counted_delete_def split: if_splits)

lemma counted_objectsI:
  fixes made :: "'arg \<Rightarrow> 'a option option"
  assumes "\<And>x s. create x s = map_option (\<lambda>m. counted_new m s) (made x)" "\<And>p s. destroy p s = counted_delete p s"
  shows "counted_objects create destroy"
proof
  have m: "\<exists>m. counted_new m s = r" if "create x s = Some r" for x s r
    using that assms(1)[of x s] by (cases "made x") auto
  show "po_alive s' = po_alive s + 1 \<and> po_heap s' = po_heap s \<and> po_next s' = po_next s"
    if "create x s = Some (None, s')" for x s s'
    using m[OF that] counted_new_cases(1) by blast
  show "a = po_next s \<and> po_alive s' = po_alive s + 1 \<and> (\<exists>v. po_heap s' = (po_heap s)(a \<mapsto> v)) \<and> po_next s' = Suc (po_next s)"
    if "create x s = Some (Some a, s')" for x s a s'
    using m[OF that] counted_new_cases(2) by blast
  show "destroy None s = Some s" for s unfolding assms(2) by (rule counted_delete_cases)
  show "a \<in> dom (po_heap s) \<and> po_alive s' = po_alive s - 1 \<and> po_heap s' = (po_heap s)(a := None) \<and> po_next s' = po_next s"
    if "destroy (Some a) s = Some s'" for a s s'
    using that unfolding assms(2) by (rule counted_delete_cases)
  show "destroy (Some a) s \<noteq> None" if "a \<in> dom (po_heap s)" for a s
    using that unfolding assms(2) by (rule counted_delete_cases)
qed

interpretation resources: counted_objects "\<lambda>(mem, i). create_resource mem i" destroy_resource
  by (rule counted_objectsI[where made = "\<lambda>(mem, i). Resource_make mem i"])
    (auto simp: create_resource_def destroy_resource_def)

interpretation configs: counted_objects "\<lambda>(mem, w, h) s. Some (create_config mem w h s)" destroy_config
  by (rule counted_objectsI[where made = "\<lambda>(mem, w, h). Some (if mem then Some \<lparr>cf_width = w, cf_height = h\<rparr> else None)"])
    (auto simp: create_config_def destroy_config_def)

interpretation calc_states: counted_objects "\<lambda>(mem, v) s. Some (create_calc_state mem v s)" destroy_calc_state
  by (rule counted_objectsI[where made = "\<lambda>(mem, v). Some (if mem then Some \<lparr>cs_value = v, cs_op_count = 0\<rparr> else None)"])
    (auto simp: create_calc_state_def destroy_calc_state_def)

interpretation calc_configs: counted_objects "\<lambda>(mem, f, m) s. Some (create_calc_config mem f m s)" destroy_calc_config
  by (rule counted_objectsI[where made = "\<lambda>(mem, f, m). Some (CalcConfig_make mem f m 10)"])
    (auto simp: create_calc_config_def destroy_calc_config_def)

interpretation shared_counters: counted_objects "\<lambda>(mem, v) s. Some (create_shared_counter mem v s)" destroy_shared_counter
  by (rule counted_objectsI[where made = "\<lambda>(mem, v). Some (if mem then Some v else None)"])
    (auto simp: create_shared_counter_def destroy_shared_counter_def)

interpretation players: counted_objects "\<lambda>(mem, z, i) s. Some (create_player mem z i s)" destroy_player
  by (rule counted_objectsI[where made = "\<lambda>(mem, z, i).
      Some (if mem then Some \<lparr>pl_vtable = None, pl_id = i, pl_health = 100, pl_x = z, pl_y = z\<rparr> else None)"])
    (auto simp: create_player_def destroy_player_def)

interpretation players_v2: counted_objects "\<lambda>(mem, z, i) s. Some (create_player_v2 mem z i s)" destroy_player
  by (rule counted_objectsI[where made = "\<lambda>(mem, z, i). Some (if mem
      then Some \<lparr>pl_vtable = None, pl_id = i, pl_health = 200, pl_x = z, pl_y = z, pl_timestamp = 0xDEADBEEFCAFE\<rparr> else None)"])
    (auto simp: create_player_v2_def destroy_player_def)

text \<open>The counter of a module says how many objects are left, plus one for every creation that threw: after it,
  \<open>get_resource_alive\<close> never returns to zero.\<close>

lemma resource_counter: "resources.run_calls cs (new_pool, 0) = Some (s, n) \<Longrightarrow> po_alive s = of_nat (card (dom (po_heap s)) + n)"
  by (rule resources.run_counts)

lemma negative_resource_leaks_count:
  "resources.run_calls [pc_create (True, - 5)] (new_pool, 0) = Some (new_pool\<lparr>po_alive := 1\<rparr>, 1)"
  by (simp add: resources.call_one_def create_resource_def Resource_make_def counted_new_def new_pool_def word_sless_alt)

section \<open>Element accesses\<close>

definition resource_ok :: "Resource \<Rightarrow> bool" where
  "resource_ok v \<longleftrightarrow> - 1 \<le>s rs_id v \<and> length (rs_payload v) = nat (sint (rs_id v) + 1)"

lemma made_resource_ok: "Resource_make mem i = Some (Some v) \<Longrightarrow> resource_ok v"
proof -
  assume a: "Resource_make mem i = Some (Some v)"
  then have i: "i \<noteq> 0x7FFFFFFF" "\<not> i + 1 <s 0" "v = \<lparr>rs_id = i, rs_payload = map of_nat [0..<unat (i + 1)]\<rparr>"
    by (auto simp: Resource_make_def split: if_splits)
  have "sint i \<noteq> sint (0x7FFFFFFF :: 32 word)" using i(1) signed_word_eqI[of i "0x7FFFFFFF"] by blast
  then have r: "- (2 ^ 31) \<le> sint i + 1" "sint i + 1 < 2 ^ 31" using sint_range_size[of i] by (auto simp: size_word_def)
  have s: "sint (i + 1) = sint i + 1" using r by (simp add: sint_word_ariths signed_take_bit_int_eq_self_iff)
  then have "0 \<le> sint i + 1" using i(2) by (simp add: word_sless_alt)
  moreover have "uint (i + 1) = sint i + 1"
    using unsigned_of_int[where 'b = 32 and 'a = int, of "sint (i + 1)"] calculation r
    by (simp add: s take_bit_int_eq_self_iff)
  ultimately show ?thesis by (simp add: resource_ok_def i(3) word_sle_eq unat_eq_nat_uint)
qed

lemma nonneg_unat: "0 \<le>s (i :: 32 word) \<Longrightarrow> unat i = nat (sint i)"
proof -
  assume "0 \<le>s i"
  then have "uint i = sint i"
    using unsigned_of_int[where 'b = 32 and 'a = int, of "sint i"] sint_range_size[of i]
    by (simp add: word_sle_eq take_bit_int_eq_self_iff size_word_def)
  then show ?thesis by (simp only: unat_eq_nat_uint)
qed

lemma resource_index: "\<lbrakk>resource_ok v; 0 \<le>s i; i \<le>s rs_id v\<rbrakk> \<Longrightarrow> unat i < length (rs_payload v)"
  using nonneg_unat[of i] by (simp add: resource_ok_def word_sle_eq nat_less_eq_zless)

definition resources_ok :: "Resource Pool \<Rightarrow> bool" where
  "resources_ok s \<longleftrightarrow> (\<forall>v \<in> ran (po_heap s). resource_ok v)"

lemma resources_ok_calls:
  "resources_ok new_pool"
  "\<lbrakk>resources_ok s; create_resource mem i s = Some (p, s')\<rbrakk> \<Longrightarrow> resources_ok s'"
  "\<lbrakk>resources_ok s; destroy_resource p s = Some s'\<rbrakk> \<Longrightarrow> resources_ok s'"
proof -
  show "resources_ok new_pool" by (simp add: resources_ok_def new_pool_def)
  assume ok: "resources_ok s"
  show "resources_ok s'" if "create_resource mem i s = Some (p, s')"
  proof -
    obtain made where m: "Resource_make mem i = Some made" "counted_new made s = (p, s')"
      using \<open>create_resource mem i s = Some (p, s')\<close> by (auto simp: create_resource_def)
    show ?thesis
    proof (cases made)
      case None
      then have "po_heap s' = po_heap s" using m(2) by (auto simp: counted_new_def)
      then show ?thesis using ok by (simp add: resources_ok_def)
    next
      case (Some v)
      then have "po_heap s' = (po_heap s)(po_next s \<mapsto> v)" using m(2) by (auto simp: counted_new_def)
      moreover have "resource_ok v" using made_resource_ok m(1) Some by simp
      ultimately show ?thesis using ok by (auto simp: resources_ok_def ran_def)
    qed
  qed
  show "resources_ok s'" if "destroy_resource p s = Some s'"
  proof (cases p)
    case None
    then show ?thesis using that ok by (simp add: destroy_resource_def counted_delete_def)
  next
    case (Some a)
    then have "po_heap s' = (po_heap s)(a := None)"
      using that by (auto simp: destroy_resource_def counted_delete_def split: if_splits)
    then show ?thesis using ok by (auto simp: resources_ok_def ran_def)
  qed
qed

text \<open>Whatever is created and destroyed, \<open>resource_payload\<close> never leaves an array.\<close>

lemma resource_payload_in_bounds: "resources_ok s \<Longrightarrow> resource_payload r i s \<noteq> Some None"
  by (auto simp: resource_payload_def obj_read_def resources_ok_def ran_def dest: resource_index split: option.splits)

definition config_ok :: "'d CalcConfig \<Rightarrow> bool" where
  "config_ok v \<longleftrightarrow> 0 \<le>s cc_history_len v \<and> length (cc_history v) = unat (cc_history_len v)"

lemma made_config_ok: "CalcConfig_make mem f m hlen = Some v \<Longrightarrow> config_ok v"
  by (auto simp: CalcConfig_make_def config_ok_def signed.not_less split: if_splits)

lemma config_index: "\<lbrakk>config_ok v; in_history idx v\<rbrakk> \<Longrightarrow> unat idx < length (cc_history v)"
  using nonneg_unat[of idx] nonneg_unat[of "cc_history_len v"]
  by (simp add: config_ok_def in_history_def word_sless_alt word_sle_eq nat_less_eq_zless)

text \<open>A recorded value is read back, other indices and configurations keep theirs.\<close>

lemma history_record:
  assumes "po_heap s a = Some v" "config_ok v" "in_history idx v"
  obtains s' where "calc_config_record (Some a) idx val s = Some s'"
    and "calc_config_history (Some a) idx s' = Some (Some val)"
    and "\<And>b j. (b, j) \<noteq> (a, idx) \<Longrightarrow> calc_config_history (Some b) j s' = calc_config_history (Some b) j s"
proof
  let ?v = "v\<lparr>cc_history := (cc_history v)[unat idx := val]\<rparr>"
  let ?s = "s\<lparr>po_heap := (po_heap s)(a \<mapsto> ?v)\<rparr>"
  note in_range = config_index[OF assms(2,3)]
  show "calc_config_record (Some a) idx val s = Some ?s"
    using assms in_range by (simp add: calc_config_record_def)
  show "calc_config_history (Some a) idx ?s = Some (Some val)"
    using assms in_range by (simp add: calc_config_history_def obj_read_def in_history_def)
  fix b and j :: "32 word" assume ne: "(b, j) \<noteq> (a, idx)"
  then have "b = a \<Longrightarrow> unat j \<noteq> unat idx" using word_unat_eq_iff[of j idx] by blast
  then show "calc_config_history (Some b) j ?s = calc_config_history (Some b) j s"
    using assms by (auto simp: calc_config_history_def obj_read_def in_history_def nth_list_update)
qed

section \<open>Sockets\<close>

record Socket =
  so_client_fd :: nat
  so_server_fd :: nat
  so_state :: "32 word"

record socket_world =
  sw_open :: "nat set"
  sw_sockets :: "Socket Pool"

text \<open>What the calls in \<open>socket_open\<close> answer, in their order; \<open>None\<close> is \<open>INVALID_SOCK\<close>.\<close>

record socket_answers =
  sa_listener :: "nat option"
  sa_bind :: bool
  sa_listen :: bool
  sa_getsockname :: bool
  sa_client :: "nat option"
  sa_connect :: bool
  sa_accept :: "nat option"
  sa_new :: bool

definition open_fd :: "nat \<Rightarrow> socket_world \<Rightarrow> socket_world" where
  "open_fd d s = s\<lparr>sw_open := insert d (sw_open s)\<rparr>"

definition CLOSE_SOCKET :: "nat \<Rightarrow> socket_world \<Rightarrow> socket_world" where
  "CLOSE_SOCKET d s = s\<lparr>sw_open := sw_open s - {d}\<rparr>"

text \<open>The result: \<open>Inl\<close> an exception, \<open>Inr\<close> the pointer returned.\<close>

definition socket_open :: "socket_answers \<Rightarrow> socket_world \<Rightarrow> (unit + nat option) \<times> socket_world" where
  "socket_open w s =
     (case sa_listener w of
        None \<Rightarrow> (Inr None, s)
      | Some listener \<Rightarrow>
          let s = open_fd listener s
          in if \<not> sa_bind w then (Inr None, CLOSE_SOCKET listener s)
             else if \<not> sa_listen w then (Inr None, CLOSE_SOCKET listener s)
             else if \<not> sa_getsockname w then (Inr None, CLOSE_SOCKET listener s)
             else case sa_client w of
                    None \<Rightarrow> (Inr None, CLOSE_SOCKET listener s)
                  | Some client \<Rightarrow>
                      let s = open_fd client s
                      in if \<not> sa_connect w then (Inr None, CLOSE_SOCKET listener (CLOSE_SOCKET client s))
                         else let s = (case sa_accept w of None \<Rightarrow> s | Some server \<Rightarrow> open_fd server s);
                                  s = CLOSE_SOCKET listener s
                              in case sa_accept w of
                                   None \<Rightarrow> (Inr None, CLOSE_SOCKET client s)
                                 | Some server \<Rightarrow>
                                     if \<not> sa_new w then (Inl (), s)
                                     else let p = po_next (sw_sockets s);
                                              v = \<lparr>so_client_fd = client, so_server_fd = server, so_state = 1\<rparr>
                                          in (Inr (Some p), s\<lparr>sw_sockets := (sw_sockets s)\<lparr>
                                               po_heap := (po_heap (sw_sockets s))(p \<mapsto> v), po_next := Suc p,
                                               po_alive := po_alive (sw_sockets s) + 1\<rparr>\<rparr>))"

definition socket_close :: "nat option \<Rightarrow> socket_world \<Rightarrow> socket_world option" where
  "socket_close p s =
     (case p of
        None \<Rightarrow> Some s
      | Some a \<Rightarrow>
          (case po_heap (sw_sockets s) a of
             None \<Rightarrow> None
           | Some v \<Rightarrow>
               if so_state v \<noteq> 0
               then Some (CLOSE_SOCKET (so_server_fd v) (CLOSE_SOCKET (so_client_fd v)
                      (s\<lparr>sw_sockets := (sw_sockets s)\<lparr>po_alive := po_alive (sw_sockets s) - 1,
                           po_heap := (po_heap (sw_sockets s))(a := None)\<rparr>\<rparr>)))
               else Some s))"

definition socket_is_open :: "nat option \<Rightarrow> socket_world \<Rightarrow> 32 word option" where
  "socket_is_open p s = obj_read 0 so_state p (sw_sockets s)"

definition socket_fd :: "nat option \<Rightarrow> socket_world \<Rightarrow> 32 word option" where
  "socket_fd p s = obj_read (- 1) (\<lambda>v. of_nat (so_client_fd v)) p (sw_sockets s)"

text \<open>The system hands out descriptors that are not open.\<close>

definition fresh_answers :: "socket_answers \<Rightarrow> nat set \<Rightarrow> bool" where
  "fresh_answers w fds \<longleftrightarrow>
     (\<forall>l. sa_listener w = Some l \<longrightarrow> l \<notin> fds \<and>
       (\<forall>c. sa_client w = Some c \<longrightarrow> c \<notin> fds \<and> c \<noteq> l \<and>
         (\<forall>v. sa_accept w = Some v \<longrightarrow> v \<notin> fds \<and> v \<noteq> l \<and> v \<noteq> c)))"

text \<open>A null result leaves the open descriptors and the sockets as they were; a socket holds exactly its two,
  the listener is closed; an exception from \<open>new\<close> leaves both descriptors open for ever.\<close>

lemma socket_open_null: "\<lbrakk>fresh_answers w (sw_open s); socket_open w s = (Inr None, s')\<rbrakk> \<Longrightarrow> s' = s"
  by (auto simp: socket_open_def open_fd_def CLOSE_SOCKET_def fresh_answers_def Let_def insert_Diff_if split: option.splits if_splits)

lemma socket_open_some:
  assumes "fresh_answers w (sw_open s)" "socket_open w s = (Inr (Some p), s')"
  shows "\<exists>c v. c \<notin> sw_open s \<and> v \<notin> sw_open s \<and> c \<noteq> v \<and> p = po_next (sw_sockets s)
    \<and> s' = s\<lparr>sw_open := insert c (insert v (sw_open s)), sw_sockets := (sw_sockets s)\<lparr>
        po_heap := (po_heap (sw_sockets s))(p \<mapsto> \<lparr>so_client_fd = c, so_server_fd = v, so_state = 1\<rparr>),
        po_next := Suc p, po_alive := po_alive (sw_sockets s) + 1\<rparr>\<rparr>"
proof -
  obtain l c v where a: "sa_listener w = Some l" "sa_client w = Some c" "sa_accept w = Some v" "sa_bind w" "sa_listen w"
    "sa_getsockname w" "sa_connect w" "sa_new w"
    using assms(2) by (auto simp: socket_open_def Let_def split: option.splits if_splits)
  have f: "l \<notin> sw_open s" "c \<notin> sw_open s" "v \<notin> sw_open s" "c \<noteq> v" "c \<noteq> l" "v \<noteq> l"
    using assms(1) a by (auto simp: fresh_answers_def)
  then have d: "insert v (insert c (insert l (sw_open s))) - {l} = insert c (insert v (sw_open s))" by auto
  have p: "p = po_next (sw_sockets s)" using assms(2) a by (simp add: socket_open_def Let_def open_fd_def CLOSE_SOCKET_def)
  have "s' = s\<lparr>sw_open := insert c (insert v (sw_open s)), sw_sockets := (sw_sockets s)\<lparr>
        po_heap := (po_heap (sw_sockets s))(p \<mapsto> \<lparr>so_client_fd = c, so_server_fd = v, so_state = 1\<rparr>),
        po_next := Suc p, po_alive := po_alive (sw_sockets s) + 1\<rparr>\<rparr>"
    using assms(2) a p by (simp add: socket_open_def Let_def open_fd_def CLOSE_SOCKET_def d)
  then show ?thesis using f(2,3,4) p by blast
qed

lemma socket_open_close:
  assumes "fresh_answers w (sw_open s)" "socket_open w s = (Inr (Some p), s')"
  shows "\<exists>s''. socket_close (Some p) s' = Some s'' \<and> sw_open s'' = sw_open s
    \<and> po_alive (sw_sockets s'') = po_alive (sw_sockets s)"
proof -
  obtain c v where "c \<notin> sw_open s" "v \<notin> sw_open s"
    and s': "s' = s\<lparr>sw_open := insert c (insert v (sw_open s)), sw_sockets := (sw_sockets s)\<lparr>
        po_heap := (po_heap (sw_sockets s))(p \<mapsto> \<lparr>so_client_fd = c, so_server_fd = v, so_state = 1\<rparr>),
        po_next := Suc p, po_alive := po_alive (sw_sockets s) + 1\<rparr>\<rparr>"
    using socket_open_some[OF assms] by blast
  then show ?thesis by (auto simp: socket_close_def CLOSE_SOCKET_def)
qed

lemma socket_open_throws:
  "\<exists>w s'. fresh_answers w {} \<and> socket_open w \<lparr>sw_open = {}, sw_sockets = new_pool\<rparr> = (Inl (), s') \<and> sw_open s' = {4, 5}"
  by (rule exI[of _ "\<lparr>sa_listener = Some 3, sa_bind = True, sa_listen = True, sa_getsockname = True, sa_client = Some 4,
      sa_connect = True, sa_accept = Some 5, sa_new = False\<rparr>"])
    (auto simp: fresh_answers_def socket_open_def open_fd_def CLOSE_SOCKET_def Let_def)

section \<open>Strings and messages\<close>

text \<open>\<open>strdup_copy\<close>: the copy, \<open>None\<close> for null, and what \<open>*out_len\<close> becomes. The length is cut to an \<open>int\<close>.\<close>

definition strdup_copy :: "bool \<Rightarrow> string option \<Rightarrow> string option \<times> 32 word" where
  "strdup_copy mem src =
     (case src of
        None \<Rightarrow> (None, 0)
      | Some s \<Rightarrow> if \<not> mem then (None, 0) else (Some s, of_nat (length s)))"

record version_state =
  vs_last_msg :: string
  vs_last_level :: "32 word"
  vs_last_len :: "32 word"

definition new_version_state :: version_state where
  "new_version_state = \<lparr>vs_last_msg = [], vs_last_level = - 1, vs_last_len = 0\<rparr>"

text \<open>\<open>snprintf\<close> keeps what fits before the terminator.\<close>

definition set_msg :: "string option \<Rightarrow> version_state \<Rightarrow> version_state" where
  "set_msg msg s =
     s\<lparr>vs_last_msg := take (256 - 1) (case msg of None \<Rightarrow> [] | Some m \<Rightarrow> m),
       vs_last_len := (case msg of None \<Rightarrow> 0 | Some m \<Rightarrow> of_nat (length m))\<rparr>"

definition version_print :: "string option \<Rightarrow> version_state \<Rightarrow> 32 word \<times> version_state" where
  "version_print msg s = (let s = set_msg msg s in (vs_last_len s, s))"

definition log_v1 :: "string option \<Rightarrow> version_state \<Rightarrow> version_state" where
  "log_v1 msg s = (set_msg msg s)\<lparr>vs_last_level := 0\<rparr>"

definition log_v2 :: "string option \<Rightarrow> 32 word \<Rightarrow> version_state \<Rightarrow> version_state" where
  "log_v2 msg level s = (set_msg msg s)\<lparr>vs_last_level := level\<rparr>"

lemma message_fits: "length (vs_last_msg (set_msg msg s)) < 256"
  by (simp add: set_msg_def min_less_iff_disj)

lemma print_length:
  "fst (version_print (Some m) s) = of_nat (length m)"
  "length m < 256 \<Longrightarrow> vs_last_msg (snd (version_print (Some m) s)) = m"
  by (simp_all add: version_print_def set_msg_def Let_def)

text \<open>The printed length is that of the argument, not of the message kept.\<close>

lemma print_length_diverges:
  "fst (version_print (Some (replicate 300 c)) s) = 300 \<and> length (vs_last_msg (snd (version_print (Some (replicate 300 c)) s))) = 255"
  by (simp add: version_print_def set_msg_def Let_def)

section \<open>The callback\<close>

text \<open>A callable is what it does to the host's state \<open>'h\<close>.\<close>

record 'h callback_state =
  cbk_cb :: "('h \<Rightarrow> 32 word \<Rightarrow> 'h) option"
  cbk_has :: "32 word"
  cbk_last :: "32 word"

definition new_callback_state :: "'h callback_state" where
  "new_callback_state = \<lparr>cbk_cb = None, cbk_has = 0, cbk_last = - 1\<rparr>"

definition register_callback :: "('h \<Rightarrow> 32 word \<Rightarrow> 'h) option \<Rightarrow> 'h callback_state \<Rightarrow> 'h callback_state" where
  "register_callback cb s = s\<lparr>cbk_cb := cb, cbk_has := (if cb \<noteq> None then 1 else 0)\<rparr>"

definition invoke_callback :: "32 word \<Rightarrow> 'h callback_state \<Rightarrow> 'h \<Rightarrow> 32 word \<times> 'h callback_state \<times> 'h" where
  "invoke_callback v s h =
     (case cbk_cb s of
        Some f \<Rightarrow> if cbk_has s \<noteq> 0 then (0, s\<lparr>cbk_last := v\<rparr>, f h v) else (- 1, s, h)
      | None \<Rightarrow> (- 1, s, h))"

definition clear_callback :: "'h callback_state \<Rightarrow> 'h callback_state" where
  "clear_callback s = s\<lparr>cbk_cb := None, cbk_has := 0\<rparr>"

definition callback_ok :: "'h callback_state \<Rightarrow> bool" where
  "callback_ok s \<longleftrightarrow> (cbk_has s \<noteq> 0 \<longleftrightarrow> cbk_cb s \<noteq> None)"

lemma callback_ok_calls:
  "callback_ok new_callback_state" "callback_ok (register_callback cb s)" "callback_ok (clear_callback s)"
  "callback_ok s \<Longrightarrow> callback_ok (fst (snd (invoke_callback v s h)))"
  by (auto simp: callback_ok_def new_callback_state_def register_callback_def clear_callback_def invoke_callback_def
      split: option.splits)

section \<open>Where a module is looked for\<close>

text \<open>\<open>readlink sz\<close> is the text written into a buffer of that size, or the error: \<open>True\<close> for \<open>ENAMETOOLONG\<close>.\<close>

function executable_path_linux :: "(nat \<Rightarrow> bool + string) \<Rightarrow> nat \<Rightarrow> string" where
  "executable_path_linux readlink sz =
     (case readlink sz of
        Inr s \<Rightarrow> s
      | Inl toolong \<Rightarrow>
          if toolong
          then if sz > (2 ^ 64 - 1) div 2 \<or> sz = 0 then [] else executable_path_linux readlink (sz * 2)
          else [])"
  by pat_completeness auto
termination by (relation "measure (\<lambda>(r, sz). 2 ^ 64 - sz)") auto

declare executable_path_linux.simps [simp del]

text \<open>\<open>GetModuleFileName\<close> with a buffer of that size, at most \<open>sz\<close> characters written; the ANSI build.\<close>

function executable_path_windows :: "(nat \<Rightarrow> string) \<Rightarrow> nat \<Rightarrow> string" where
  "executable_path_windows module_name sz =
     (let s = module_name sz
      in if s = [] then []
         else if length s < sz then s
         else if sz > (2 ^ 32 - 1) div 2 \<or> sz = 0 then []
         else executable_path_windows module_name (sz * 2))"
  by pat_completeness auto
termination by (relation "measure (\<lambda>(r, sz). 2 ^ 32 - sz)") auto

declare executable_path_windows.simps [simp del]

text \<open>The path ends with its terminator inside the buffer of the size the system asked for.\<close>

definition executable_path_apple :: "nat \<Rightarrow> string \<Rightarrow> string" where
  "executable_path_apple max_size path = (if max_size = 0 then [] else path)"

definition dll_path :: "string \<Rightarrow> char \<Rightarrow> string \<Rightarrow> string \<Rightarrow> string" where
  "dll_path exepath sep suffix name =
     (if sep \<notin> set exepath then name @ suffix
      else rev (dropWhile (\<lambda>c. c \<noteq> sep) (rev exepath)) @ name @ suffix)"

definition load_plugin :: "(string \<Rightarrow> 's \<Rightarrow> bool \<times> 's) \<Rightarrow> string \<Rightarrow> string \<Rightarrow> 's \<Rightarrow> bool \<times> string \<times> 's" where
  "load_plugin load path reason lib =
     (case load path lib of (r, lib) \<Rightarrow>
        if r then (True, reason, lib)
        else (False, ''cannot load plugin '' @ [CHR 0x27] @ path @ [CHR 0x27]
                @ '': the build stages plugins next to the binaries, rebuild or re-run'', lib))"

lemma dll_path_beside:
  "sep \<notin> set base \<Longrightarrow> dll_path (dir @ sep # base) sep suffix name = dir @ sep # name @ suffix"
  by (simp add: dll_path_def dropWhile_append)

text \<open>\<open>readlink\<close> cuts a path that does not fit and reports no error, so the first buffer decides: a path of 256
  characters or more is cut, and the module is looked for under the cut path.\<close>

definition readlink_doc :: "string \<Rightarrow> nat \<Rightarrow> bool + string" where
  "readlink_doc path sz = Inr (take sz path)"

lemma executable_path_cut: "executable_path_linux (readlink_doc path) 256 = take 256 path"
  by (simp add: executable_path_linux.simps readlink_doc_def)

lemma long_path_looks_elsewhere:
  "dll_path (executable_path_linux (readlink_doc (CHR 0x2F # replicate 300 CHR 0x61 @ ''/test'')) 256) CHR 0x2F ''.so'' ''m'' = ''/m.so''"
proof -
  have "take 256 (CHR 0x2F # replicate 300 CHR 0x61 @ ''/test'') = [] @ CHR 0x2F # replicate 255 CHR 0x61"
    by (simp add: take_Cons' )
  then show ?thesis using dll_path_beside[of "CHR 0x2F" "replicate 255 CHR 0x61" "[]"] by (simp add: executable_path_cut)
qed

text \<open>The Windows loop ends with the whole name when it is shorter than 2^31 characters.\<close>

lemma windows_path_whole:
  assumes "\<And>n. module_name n = take n path" "path \<noteq> []" "length path < 2 ^ 31" "0 < sz" "sz < 2 ^ 32"
  shows "executable_path_windows module_name sz = path"
  using assms(4,5)
proof (induction "2 ^ 32 - sz" arbitrary: sz rule: less_induct)
  case less
  show ?case
  proof (cases "length path < sz")
    case True
    then show ?thesis using assms(1,2) by (simp add: executable_path_windows.simps[of _ sz] Let_def)
  next
    case False
    then have n: "sz < 2 ^ 31" using assms(3) by simp
    have "executable_path_windows module_name (sz * 2) = path"
      by (rule less.hyps) (use n less.prems in simp_all)
    then show ?thesis
      using n less.prems False assms(1,2) by (simp add: executable_path_windows.simps[of _ sz] Let_def)
  qed
qed

end
