(* ===== verification/Spec2Isabelle.thy ===== *)
theory Spec2Isabelle
  imports Util_Hash Error_Model Model_ABI Runtime_Search Type_Registry Model_Map RCU_Grace
    Interface_Contract Interface_Binding Interface_Declaration Module_Lease Module_Registry DLL_Function
    Module_Export Bridge_Reflection Binary_Bounds Pointer_Lifetime Pointer_Race Util_Log Util_Atomic Util_Mem
    Runtime_Function Pool_Lock RCU_Clock Lease_Handle Wire_Layout
    Index_Strategies Bench_Workload Bench_Latency Bench_Probe Bench_Resolve
    Sample_Modules
begin

text \<open>
  A verification development for ABIX, a header-only C++ runtime (\<open>src/include/SKL/ABIX\<close>) that lets separately
  built modules exchange functions, interfaces and data under a checked binary contract.

  \<^bold>\<open>The program.\<close> A module exports a table of functions. \<open>DLL/Object.h\<close> loads the module, publishes its image
  through an RCU domain (\<open>RCU/Domain.h\<close>) and retires old images after a grace period; \<open>DLL/Function.h\<close>
  resolves a name and signature to an index through the search engine of \<open>Runtime/Search.h\<close> and calls it
  inside a read section. \<open>Interface/\<close> adds typed contracts: an interface identity is a digest of its name,
  version and method signatures, a proxy binds the slots of a contract to the adapters a provider
  registered, a module registry keeps the manifests of discovered modules, and leases and owner handles
  keep a module loaded while its objects are in use. \<open>Model/\<close> and \<open>Metadata/\<close> describe types and layouts,
  hash them canonically and map objects between layout versions. \<open>Binary/\<close> inspects ELF, Mach-O and PE
  files, \<open>Error/\<close> gives every status a global identity, \<open>Util/\<close> holds the hash engine, the log, the atomic
  primitives and the allocation helpers, \<open>Bridge/\<close> connects the runtime to the MICS reflection library.
  \<open>src/bench/\<close> measures the library, \<open>src/dlls/\<close> holds the modules that tests and benchmarks load.

  \<^bold>\<open>The theories\<close>, in the order of their imports. Definitions carry the names of the source where possible;
  the text at the head of each theory names the files and explains its state.

  \<^item> \<open>Abix_Prelude\<close>: machine words, pointers to immutable objects, generic lemmas and simplification sets.
  \<^item> \<open>Util_Hash\<close> (\<open>Util/Hash.h\<close>): the two-lane FNV digest; one changed byte changes the digest, digests of
    one input in two domains differ.
  \<^item> \<open>Error_Model\<close> (\<open>Error/\<close>): packing of domain ids round-trips; the locale \<open>status_mapping\<close>, interpreted for
    the four status enumerations, tells every status apart.
  \<^item> \<open>Model_ABI\<close> (\<open>Model/ABI.h\<close>, \<open>Model/Compat.h\<close>): the canonical layout encoder writes within its capacity,
    is injective, and the layout hash is the digest of what it writes.
  \<^item> \<open>Runtime_Search\<close> (\<open>Runtime/Type.h\<close>, \<open>Runtime/Search.h\<close>): building the open-addressing index terminates,
    the locale \<open>function_lookup\<close> holds for the linear, hashed and automatic lookups, which agree unless a version is
    asked for; slot buffers are neither lost nor freed twice.
  \<^item> \<open>Pool_Lock\<close>: the lock of the slot pool with the memory orders of its accesses; acquire order makes every
    interleaving a sequence of calls, the relaxed order of the source does not.
  \<^item> \<open>Scan_Registry\<close>: the locale of append-only registries with a front-to-back lookup, interpreted for the
    metadata, type and implementation registries.
  \<^item> \<open>Type_Registry\<close> (\<open>Metadata/\<close>, \<open>Runtime/Registry.h\<close>, \<open>Model/Bootstrap.h\<close>): registration is all or nothing,
    reachable registries are consistent, registered types resolve.
  \<^item> \<open>Model_Map\<close> (\<open>Model/Map.h\<close>): applying a plan stays inside the arrays and both objects, if every conversion has
    room at its fields, and leaves exactly the bytes its operations specify.
  \<^item> \<open>Wire_Layout\<close> (the pinned structs and \<open>STD/\<close>): struct layout rules are sound, the size assertions of the
    headers hold, and a mapping plan turns a length-first view into a span.
  \<^item> \<open>RCU_Domain\<close> (\<open>RCU/Domain.h\<close>, \<open>RCU/Deadline.h\<close>): one definition per function of the domain; bounded waits
    decide, and reclaim nothing when they fail.
  \<^item> \<open>RCU_Clock\<close>: the clock of the deadlines on both platforms; nanosecond readings are exact, Windows deadlines
    are never late.
  \<^item> \<open>RCU_Grace\<close>: readers and writers as interleaved steps over those definitions, with sections inside sections; in
    every reachable state in which slot stores are visible in time no reclaim callback has run for an object a thread
    refers to since its last enter, and none has run twice.
  \<^item> \<open>Interface_Contract\<close> (\<open>Interface/Contract.h\<close>): identities are digests of a text that determines name,
    version and signatures for C++ names, independent of declaration order where slots determine signatures.
  \<^item> \<open>Interface_Binding\<close> (\<open>Interface/Registry.h\<close>, \<open>Ref.h\<close>, \<open>Proxy.h\<close>): the locale \<open>slot_binding\<close>, interpreted for the
    inline cache and the shared table; a proxy calls only adapters registered for the slot, with the expected signature unless the
    slot is registered twice.
  \<^item> \<open>Interface_Declaration\<close> (\<open>Interface/Declaration.h\<close>): what the declaration macros generate; a declared interface
    with a complete provider binds, and each generated method runs the member of its name.
  \<^item> \<open>Module_Lease\<close> (\<open>Interface/Lease.h\<close>, \<open>Owner.h\<close>): leases as interleaved steps, lease counts are exact, an
    unloaded module has no lease, owned objects are destroyed once.
  \<^item> \<open>Lease_Handle\<close>: programs over movable lease handles; a control is idle exactly when no handle holds it, and a
    draining one gains none.
  \<^item> \<open>Module_Registry\<close> (\<open>Interface/Module.h\<close>, \<open>ModuleRegistry.h\<close>, \<open>Discovery.h\<close>): the slot array refines a list of
    modules; discovered interfaces are found and bind to checked adapters.
  \<^item> \<open>DLL_Object\<close>, \<open>DLL_Function\<close> (\<open>DLL/Object.h\<close>, \<open>Function.h\<close>): failed operations change nothing; a call runs
    only the entry that was resolved.
  \<^item> \<open>Module_Export\<close> (\<open>Runtime/TypeSig.h\<close>, \<open>DLL/FnSig.h\<close>, \<open>DLL/Export.h\<close>): signatures and export tables; across the
    loader, the search and the handle, an exported function is resolved and called.
  \<^item> \<open>Bridge_Reflection\<close> (\<open>Bridge/\<close>): compile-time tables find what they hold, values survive \<open>Any\<close>.
  \<^item> \<open>Binary_Image\<close>, \<open>Binary_Formats\<close>, \<open>Binary_Bounds\<close> (\<open>Binary/\<close>): parsing stays inside the file under stated
    bounds, region reads always do.
  \<^item> \<open>Smart_Pointers\<close>, \<open>Pointer_Lifetime\<close> (\<open>DLL/SharedPtr.h\<close>, \<open>WeakPtr.h\<close>, \<open>RefPtr.h\<close>, \<open>ViewPtr.h\<close>,
    \<open>UniquePtr.h\<close>): exact counts, exactly one destruction, no use of a freed block; \<open>RefPtr\<close> mirrors
    \<open>SharedPtr\<close>.
  \<^item> \<open>Pointer_Race\<close>: \<open>SharedPtr\<close> and \<open>WeakPtr\<close> as steps of several threads at their accesses to the control
    block; programs that keep their weak pointers are safe in every interleaving, and from any of their states
    dropping or locking the last weak pointer during the last reset is not.
  \<^item> \<open>Util_Atomic\<close> (\<open>Util/Atomic.h\<close> and its backends): both backends compute the same values and bits.
  \<^item> \<open>Util_Mem\<close> (\<open>Util/Mem.h\<close>): array blocks are never short; which deallocator fits which allocator.
  \<^item> \<open>Util_Log\<close> (\<open>Util/Log.h\<close>) and \<open>Runtime_Function\<close> (\<open>Runtime/Function.h\<close>): dispatch of log messages; ownership
    of closures.
  \<^item> \<open>Index_Strategies\<close> (\<open>bench/ABIX/hashindex_build_bench.cpp\<close>): three layouts of the hash index; the locale
    \<open>slot_strategy\<close> makes each find what the shipped one finds, and recycled buffers are conserved.
  \<^item> \<open>Bench_Workload\<close> (\<open>bench/topology\<close>, \<open>bench/workloads\<close>): thread counts, schedules, schedules run over the
    domain, and when a benchmark does a fixed amount of work.
  \<^item> \<open>Bench_Latency\<close> (\<open>bench/stress_bench.cpp\<close>): histograms; merged percentiles bracket the true ones from 1 to 2^32 - 1 ns.
  \<^item> \<open>Bench_Probe\<close> (\<open>bench/rcu/advance_probe.cpp\<close>): tallies, verdicts, and the protocol between the parent and its
    child processes: results and all options but the sampling interval arrive as sent, the exit code is the worst verdict.
  \<^item> \<open>Bench_Resolve\<close> (\<open>bench/ABIX/abix_resolve_bench.cpp\<close>, \<open>abix_lookup_cross_bench.cpp\<close>): the generated
    tables and timed searches; at every table size each search hits the entry asked for.
  \<^item> \<open>Sample_Modules\<close> (\<open>dlls/\<close>): the locale \<open>counted_objects\<close>, interpreted for the seven counted types, makes
    their counters exact; sockets, messages, and the path of a module.

  \<^bold>\<open>Reading the model.\<close> Integers keep their width and wrap. State is passed explicitly; \<open>None\<close> as the result
  of an operation that takes memory stands for an access the source must not make (outside a buffer, to
  freed memory), so theorems that give \<open>Some\<close> are memory-safety statements, and reported errors are values.
  Loops are structural or have a termination proof, except a few \<open>partial_function\<close>s whose termination is
  proved as part of a property: the probe loops of \<open>Runtime_Search\<close> and \<open>Index_Strategies\<close>, which end because an
  index always keeps an empty slot, and \<open>elf_export_loop\<close> of \<open>Binary_Formats\<close>. The levels of the default sweep
  in \<open>Bench_Probe\<close> have fuel 32, enough for 2^30 processors (\<open>default_sweep_ends\<close>).
  The bounded waits of the domain count polls and are shown to decide within them.

  \<^bold>\<open>Assumptions.\<close> Atomic operations are sequentially consistent single steps, except in two places where
  the weaker orders of the source matter: the entry of a read section, with an explicit store buffer
  (\<open>unfenced_enter_unsafe\<close>), and the lock of the slot pool, with views (\<open>Pool_Lock\<close>). The
  platform loader, allocator, clock, user callbacks, converters and the MICS library are parameters with their
  documented behaviour as hypotheses. Digests are not assumed free of collisions: results speak of the hashed text or
  of equal digests. Platforms have 64-bit pointers, as the headers assert.

  \<^bold>\<open>What modelling showed.\<close> Several theorems record behaviour the code does not intend: an unfenced reader entry
  and nested sections, a grace period cut short under contention, a read section left open by a call on an
  image without a table, \<open>raw\<close> handing out an unchecked function, duplicate slots bypassing the signature
  check, leases racing with pins, weak pointers racing with the last strong one, version requests the index
  answers differently from the scan, signed atomics that overflow in one backend, a pool lock
  without acquire order, conversions of a plan whose size nothing checks and plans refused after a part was written, and two malformed files that make the binary parsers leave the buffer. In the
  benchmarks every workload profile runs the schedule of the first one, and the work is fixed only for some
  thread counts; the sample modules count objects whose creation threw.

  \<^bold>\<open>Not modelled.\<close> The MICS submodule, whose hash functions, \<open>make_iota\<close>, registry and \<open>Any\<close> are parameters; umbrella
  headers; Windows branches where they differ only in the platform call; memory orders beyond the two places
  above; \<open>UniquePtr::release\<close> and \<open>ViewPtr::lock\<close>, which do not compile when used; the measuring loops, their threads and their
  printing, which keep no state beyond the library's; the tests, the cross-language example and the tools,
  which are clients of the library.
\<close>

end
